(* ===== verification/Prelude.thy ===== *)
theory Prelude
  imports Main "HOL-Library.Word"
begin

unbundle bit_operations_syntax

text \<open>
  What every component of the development shares: the fact collections the proofs
  are driven by, the machine integers of the Rust sources (checked and wrapping
  arithmetic at 128, 64 and 32 bits written out over \<open>int\<close>), the slice and string
  operations of the standard library the code calls (\<open>chunks\<close>, \<open>trim\<close>,
  \<open>starts_with\<close>, \<open>position\<close>), and the list lemmas several components need.

  A Rust \<open>String\<close> or \<open>str\<close> that the code reads byte by byte is a HOL \<open>string\<close>: a
  HOL \<open>char\<close> is one byte. A text the code reads as \<open>Vec<char>\<close> is a list of Unicode
  scalar values (\<open>nat\<close>).
\<close>

named_theorems bytes_simp \<open>evaluation of the byte classifiers\<close>
named_theorems bounds_simp \<open>ranges of the machine integers\<close>

type_synonym u8 = "8 word"
type_synonym u32 = "32 word"
type_synonym scalar = nat
type_synonym ustr = "scalar list"

section \<open>Bytes and ASCII classes\<close>

definition byte :: "char \<Rightarrow> nat" where
  "byte c = of_char c"

definition is_ascii_digit :: "nat \<Rightarrow> bool" where
  "is_ascii_digit n \<longleftrightarrow> 48 \<le> n \<and> n \<le> 57"

definition is_ascii_alpha :: "nat \<Rightarrow> bool" where
  "is_ascii_alpha n \<longleftrightarrow> (65 \<le> n \<and> n \<le> 90) \<or> (97 \<le> n \<and> n \<le> 122)"

definition is_ascii_hexdigit :: "nat \<Rightarrow> bool" where
  "is_ascii_hexdigit n \<longleftrightarrow>
     is_ascii_digit n \<or> (65 \<le> n \<and> n \<le> 70) \<or> (97 \<le> n \<and> n \<le> 102)"

definition is_ascii_whitespace :: "nat \<Rightarrow> bool" where
  "is_ascii_whitespace n \<longleftrightarrow> n = 32 \<or> n = 9 \<or> n = 10 \<or> n = 12 \<or> n = 13"

text \<open>The scalars of a string literal written with ASCII characters.\<close>

definition scalars :: "string \<Rightarrow> ustr" where
  "scalars s = map byte s"

lemma byte_bound [simp]: "byte c < 256"
  by (simp add: byte_def)

lemma byte_eq_iff [simp]: "byte c = byte d \<longleftrightarrow> c = d"
  by (simp add: byte_def)

lemma byte_char_of [simp]: "n < 256 \<Longrightarrow> byte (char_of n) = n"
  by (simp add: byte_def)

lemma scalars_simps [simp]:
  "scalars [] = []" "scalars (c # s) = byte c # scalars s"
  "scalars (s @ t) = scalars s @ scalars t" "length (scalars s) = length s"
  by (simp_all add: scalars_def)

section \<open>Machine integers\<close>

definition in_i128 :: "int \<Rightarrow> bool" where
  "in_i128 x \<longleftrightarrow> - (2 ^ 127) \<le> x \<and> x < 2 ^ 127"

definition in_i64 :: "int \<Rightarrow> bool" where
  "in_i64 x \<longleftrightarrow> - (2 ^ 63) \<le> x \<and> x < 2 ^ 63"

definition in_i32 :: "int \<Rightarrow> bool" where
  "in_i32 x \<longleftrightarrow> - (2 ^ 31) \<le> x \<and> x < 2 ^ 31"

text \<open>Where the release build wraps around.\<close>

definition wrap_i32 :: "int \<Rightarrow> int" where
  "wrap_i32 x = (x + 2 ^ 31) mod 2 ^ 32 - 2 ^ 31"

definition wrap_i128 :: "int \<Rightarrow> int" where
  "wrap_i128 x = (x + 2 ^ 127) mod 2 ^ 128 - 2 ^ 127"

definition u32_succ :: "nat \<Rightarrow> nat" where
  "u32_succ n = (n + 1) mod 2 ^ 32"

lemma u32_succ_small: "n + 1 < 2 ^ 32 \<Longrightarrow> u32_succ n = n + 1"
  by (simp add: u32_succ_def)

lemma u32_succ_code [code]: "u32_succ n = nat ((int n + 1) mod 4294967296)"
  by (simp add: u32_succ_def nat_mod_distrib nat_add_distrib)

text \<open>\<open>checked_add\<close> and its kin: \<open>None\<close> on overflow of the type.\<close>

definition checked :: "(int \<Rightarrow> bool) \<Rightarrow> int \<Rightarrow> int option" where
  "checked ok x = (if ok x then Some x else None)"

text \<open>Rust's \<open>/\<close> and \<open>%\<close> on signed integers truncate towards zero.\<close>

definition rust_div :: "int \<Rightarrow> int \<Rightarrow> int" where
  "rust_div a b = sgn a * sgn b * (\<bar>a\<bar> div \<bar>b\<bar>)"

definition rust_rem :: "int \<Rightarrow> int \<Rightarrow> int" where
  "rust_rem a b = sgn a * (\<bar>a\<bar> mod \<bar>b\<bar>)"

lemma checked_Some_iff [simp]: "checked ok x = Some y \<longleftrightarrow> ok x \<and> y = x"
  by (auto simp: checked_def)

lemma checked_None_iff [simp]: "checked ok x = None \<longleftrightarrow> \<not> ok x"
  by (auto simp: checked_def)

lemma rust_div_rem: "rust_div a b * b + rust_rem a b = a"
proof -
  have b: "sgn b * b = \<bar>b\<bar>"
    by (simp add: abs_sgn mult.commute)
  have "rust_div a b * b + rust_rem a b = sgn a * ((\<bar>a\<bar> div \<bar>b\<bar>) * (sgn b * b) + \<bar>a\<bar> mod \<bar>b\<bar>)"
    by (simp add: rust_div_def rust_rem_def distrib_left mult_ac)
  also have "\<dots> = sgn a * \<bar>a\<bar>"
    by (simp add: b)
  also have "\<dots> = a"
    by (simp add: sgn_mult_abs)
  finally show ?thesis .
qed

lemma rust_rem_nonneg: "0 \<le> a \<Longrightarrow> rust_rem a b = a mod \<bar>b\<bar>"
  by (cases "a = 0") (auto simp: rust_rem_def sgn_if)

lemma rust_div_nonneg: "0 \<le> a \<Longrightarrow> 0 \<le> b \<Longrightarrow> rust_div a b = a div b"
  by (cases "a = 0"; cases "b = 0") (auto simp: rust_div_def sgn_if)

section \<open>Slices\<close>

text \<open>\<open>slice::chunks\<close>: consecutive pieces of \<open>n\<close> elements, the last one shorter.\<close>

function chunks :: "nat \<Rightarrow> 'a list \<Rightarrow> 'a list list" where
  "chunks n xs = (if xs = [] \<or> n = 0 then [] else take n xs # chunks n (drop n xs))"
  by pat_completeness auto
termination
  by (relation "measure (\<lambda>(n, xs). length xs)") auto

declare chunks.simps [simp del]

lemma chunks_Nil [simp]: "chunks n [] = []"
  by (simp add: chunks.simps)

lemma chunks_append:
  assumes "length xs = n" "0 < n"
  shows "chunks n (xs @ ys) = xs # chunks n ys"
  using assms by (subst chunks.simps) auto

lemma chunks_short:
  assumes "xs \<noteq> []" "length xs \<le> n"
  shows "chunks n xs = [xs]"
  using assms by (subst chunks.simps) (cases n; auto)

lemma chunks_concat: "0 < n \<Longrightarrow> concat (chunks n xs) = xs"
proof (induction n xs rule: chunks.induct)
  case (1 n xs)
  then show ?case by (subst chunks.simps) auto
qed

text \<open>\<open>slice::starts_with\<close> and \<open>iter().position\<close>.\<close>

fun starts_with :: "'a list \<Rightarrow> 'a list \<Rightarrow> bool" where
  "starts_with xs [] = True"
| "starts_with [] (p # ps) = False"
| "starts_with (x # xs) (p # ps) = (x = p \<and> starts_with xs ps)"

lemma starts_with_iff: "starts_with xs ps \<longleftrightarrow> take (length ps) xs = ps"
  by (induction xs ps rule: starts_with.induct) auto

lemma starts_with_append: "starts_with xs ps \<longleftrightarrow> (\<exists>ys. xs = ps @ ys)"
  by (induction xs ps rule: starts_with.induct) auto

fun position :: "('a \<Rightarrow> bool) \<Rightarrow> 'a list \<Rightarrow> nat option" where
  "position p [] = None"
| "position p (x # xs) = (if p x then Some 0 else map_option Suc (position p xs))"

lemma position_Some:
  "position p xs = Some i \<Longrightarrow> i < length xs \<and> p (xs ! i) \<and> (\<forall>j<i. \<not> p (xs ! j))"
proof (induction xs arbitrary: i)
  case (Cons x xs)
  then show ?case
    by (cases i) (auto split: if_splits simp: less_Suc_eq_0_disj)
qed simp

lemma position_None: "position p xs = None \<longleftrightarrow> (\<forall>x\<in>set xs. \<not> p x)"
  by (induction xs) auto

text \<open>\<open>get\<close> on a slice: the element, or \<open>None\<close> out of range.\<close>

definition get_at :: "'a list \<Rightarrow> nat \<Rightarrow> 'a option" where
  "get_at xs i = (if i < length xs then Some (xs ! i) else None)"

lemma get_at_Some_iff: "get_at xs i = Some x \<longleftrightarrow> i < length xs \<and> xs ! i = x"
  by (auto simp: get_at_def)

lemma get_at_None_iff [simp]: "get_at xs i = None \<longleftrightarrow> length xs \<le> i"
  by (auto simp: get_at_def)

lemma get_at_append_right: "get_at (xs @ ys) (length xs + i) = get_at ys i"
  by (auto simp: get_at_def)

lemma get_at_drop: "get_at (drop n xs) i = get_at xs (n + i)"
  by (auto simp: get_at_def)

lemma get_at_Cons [simp]:
  "get_at (x # xs) 0 = Some x" "get_at (x # xs) (Suc i) = get_at xs i" "get_at [] i = None"
  by (auto simp: get_at_def)

section \<open>White space\<close>

text \<open>\<open>char::is_whitespace\<close>: the Unicode property \<open>White_Space\<close>.\<close>

definition is_whitespace :: "scalar \<Rightarrow> bool" where
  "is_whitespace c \<longleftrightarrow> (9 \<le> c \<and> c \<le> 13) \<or> c = 32 \<or> c = 0x85 \<or> c = 0xA0 \<or> c = 0x1680
     \<or> (0x2000 \<le> c \<and> c \<le> 0x200A) \<or> c = 0x2028 \<or> c = 0x2029 \<or> c = 0x202F \<or> c = 0x205F
     \<or> c = 0x3000"

definition trim_end :: "ustr \<Rightarrow> ustr" where
  "trim_end s = rev (dropWhile is_whitespace (rev s))"

definition trim :: "ustr \<Rightarrow> ustr" where
  "trim s = trim_end (dropWhile is_whitespace s)"

section \<open>Integers in decimal\<close>

text \<open>\<open>Display\<close> of an integer, and \<open>str::parse\<close> of a run of digits, on scalars.\<close>

fun dec_digits :: "nat \<Rightarrow> ustr" where
  "dec_digits n = (if n < 10 then [48 + n] else dec_digits (n div 10) @ [48 + n mod 10])"

declare dec_digits.simps [simp del]

definition display_int :: "int \<Rightarrow> ustr" where
  "display_int i = (if i < 0 then 45 # dec_digits (nat (- i)) else dec_digits (nat i))"

definition digits_value :: "ustr \<Rightarrow> nat" where
  "digits_value ds = foldl (\<lambda>a d. 10 * a + (d - 48)) 0 ds"

lemma digits_value_Nil [simp]: "digits_value [] = 0"
  by (simp add: digits_value_def)

lemma digits_value_snoc [simp]: "digits_value (ds @ [d]) = 10 * digits_value ds + (d - 48)"
  by (simp add: digits_value_def)

lemma dec_digits_value [simp]: "digits_value (dec_digits n) = n"
proof (induction n rule: dec_digits.induct)
  case (1 n)
  show ?case
  proof (cases "n < 10")
    case True
    then show ?thesis
      using digits_value_snoc [of "[]"] by (simp add: dec_digits.simps [of n])
  next
    case False
    then show ?thesis
      using 1 by (simp add: dec_digits.simps [of n])
  qed
qed

lemma dec_digits_digit: "d \<in> set (dec_digits n) \<Longrightarrow> is_ascii_digit d"
proof (induction n rule: dec_digits.induct)
  case (1 n)
  then show ?case
    by (subst (asm) (2) dec_digits.simps) (auto simp: is_ascii_digit_def split: if_splits)
qed

lemma dec_digits_Nil [simp]: "dec_digits n \<noteq> []"
  by (subst dec_digits.simps) simp

lemma dec_digits_hd: "is_ascii_digit (hd (dec_digits n))"
  by (rule dec_digits_digit [OF hd_in_set]) simp

text \<open>Text as integer: an optional sign and at least one digit.\<close>

definition parse_int :: "(int \<Rightarrow> bool) \<Rightarrow> ustr \<Rightarrow> int option" where
  "parse_int ok s =
     (let neg = (s \<noteq> [] \<and> hd s = 45);
          ds = (if s \<noteq> [] \<and> (hd s = 45 \<or> hd s = 43) then tl s else s)
      in if ds \<noteq> [] \<and> list_all is_ascii_digit ds
         then checked ok (if neg then - int (digits_value ds) else int (digits_value ds))
         else None)"

lemma parse_display_int: "ok i \<Longrightarrow> parse_int ok (display_int i) = Some i"
proof -
  have "list_all is_ascii_digit (dec_digits n)" for n
    by (simp add: list_all_iff dec_digits_digit)
  moreover have "hd (dec_digits n) \<noteq> 45 \<and> hd (dec_digits n) \<noteq> 43" for n
    using dec_digits_hd [of n] by (auto simp: is_ascii_digit_def)
  ultimately show "ok i \<Longrightarrow> ?thesis"
    by (simp add: parse_int_def display_int_def)
qed

lemma size_part: "x \<in> set xs \<Longrightarrow> f x \<le> size_list f xs"
  by (erule size_list_estimation') simp

end
