(* ===== verification/Base64.thy ===== *)
theory Base64
  imports Prelude
begin

unbundle bit_operations_syntax

text \<open>
  The standard base-64 codec of \<open>tswift-core/src/base64.rs\<close>: \<open>encode\<close> with \<open>=\<close>
  padding, and \<open>decode\<close>, which strips ASCII whitespace, wants whole groups of four and
  allows padding in the last group only.
\<close>

definition b64_alphabet :: string where
  "b64_alphabet =
     ''ABCDEFGHIJKLMNOPQRSTUVWXYZabcdefghijklmnopqrstuvwxyz0123456789+/''"

definition b64_char :: "u32 \<Rightarrow> char" where
  "b64_char x = b64_alphabet ! unat x"

text \<open>One chunk of one to three bytes; \<open>get(1).unwrap_or(&0)\<close> fills the missing ones.\<close>

definition b64_triple :: "u8 list \<Rightarrow> u32" where
  "b64_triple chunk =
     (let b0 = ucast (chunk ! 0);
          b1 = (if 1 < length chunk then ucast (chunk ! 1) else 0);
          b2 = (if 2 < length chunk then ucast (chunk ! 2) else 0)
      in push_bit 16 b0 OR push_bit 8 b1 OR b2)"

definition b64_encode_chunk :: "u8 list \<Rightarrow> string" where
  "b64_encode_chunk chunk =
     (let triple = b64_triple chunk
      in [b64_char (drop_bit 18 triple AND 63),
          b64_char (drop_bit 12 triple AND 63),
          (if 1 < length chunk then b64_char (drop_bit 6 triple AND 63) else CHR ''=''),
          (if 2 < length chunk then b64_char (triple AND 63) else CHR ''='')])"

definition b64_encode :: "u8 list \<Rightarrow> string" where
  "b64_encode bytes = concat (map b64_encode_chunk (chunks 3 bytes))"

definition b64_val :: "char \<Rightarrow> u32 option" where
  "b64_val c = map_option word_of_nat
     (let n = byte c in
      if 65 \<le> n \<and> n \<le> 90 then Some (n - 65)
      else if 97 \<le> n \<and> n \<le> 122 then Some (n - 97 + 26)
      else if 48 \<le> n \<and> n \<le> 57 then Some (n - 48 + 52)
      else if n = 43 then Some 62
      else if n = 47 then Some 63
      else None)"

text \<open>The inner loop \<open>acc = (acc << 6) | val(c)?\<close>.\<close>

fun b64_acc :: "u32 \<Rightarrow> string \<Rightarrow> u32 option" where
  "b64_acc acc [] = Some acc"
| "b64_acc acc (c # cs) =
     (case b64_val c of None \<Rightarrow> None | Some v \<Rightarrow> b64_acc (push_bit 6 acc OR v) cs)"

text \<open>One group of four; \<open>is_last\<close> is \<open>chunk_index == chunk_count - 1\<close>.\<close>

definition b64_decode_chunk :: "bool \<Rightarrow> string \<Rightarrow> u8 list option" where
  "b64_decode_chunk is_last chunk =
     (let pad = length (filter (\<lambda>c. c = CHR ''='') chunk) in
      if 0 < pad \<and> (\<not> is_last \<or> 2 < pad) then None
      else if 0 < pad \<and> (\<exists>c \<in> set (drop (4 - pad) chunk). c \<noteq> CHR ''='') then None
      else case b64_acc 0 (take (4 - pad) chunk) of
        None \<Rightarrow> None
      | Some acc0 \<Rightarrow>
          let acc = push_bit (6 * pad) acc0
          in Some ([ucast (drop_bit 16 acc AND 255)]
                   @ (if pad < 2 then [ucast (drop_bit 8 acc AND 255)] else [])
                   @ (if pad < 1 then [ucast (acc AND 255)] else [])))"

fun b64_decode_chunks :: "string list \<Rightarrow> u8 list option" where
  "b64_decode_chunks [] = Some []"
| "b64_decode_chunks (c # cs) =
     (case b64_decode_chunk (cs = []) c of
        None \<Rightarrow> None
      | Some bs \<Rightarrow> (case b64_decode_chunks cs of None \<Rightarrow> None | Some r \<Rightarrow> Some (bs @ r)))"

definition b64_decode :: "string \<Rightarrow> u8 list option" where
  "b64_decode input =
     (let cleaned = filter (\<lambda>c. \<not> is_ascii_whitespace (byte c)) input in
      if length cleaned mod 4 \<noteq> 0 then None else b64_decode_chunks (chunks 4 cleaned))"

section \<open>The alphabet\<close>

lemma b64_alphabet_nth_all:
  "list_all (\<lambda>n. b64_val (b64_alphabet ! n) = Some (word_of_nat n)
     \<and> b64_alphabet ! n \<noteq> CHR ''=''
     \<and> \<not> is_ascii_whitespace (byte (b64_alphabet ! n))) [0..<64]"
  unfolding b64_alphabet_def b64_val_def byte_def is_ascii_whitespace_def
  by (simp add: upt_rec)

lemma b64_alphabet_nth:
  assumes "n < 64"
  shows "b64_val (b64_alphabet ! n) = Some (word_of_nat n)
     \<and> b64_alphabet ! n \<noteq> CHR ''=''
     \<and> \<not> is_ascii_whitespace (byte (b64_alphabet ! n))"
  using b64_alphabet_nth_all assms by (auto simp: list_all_iff)

lemma sextet_bound: "unat (x AND 63 :: u32) < 64"
proof -
  have "x AND 63 \<le> (63 :: u32)"
    by (rule word_and_le1)
  then show ?thesis
    by (simp add: word_le_nat_alt)
qed

lemma b64_char_sextet [simp]:
  "b64_val (b64_char (x AND 63)) = Some (x AND 63)"
  "b64_char (x AND 63) \<noteq> CHR ''=''"
  "\<not> is_ascii_whitespace (byte (b64_char (x AND 63)))"
  using b64_alphabet_nth [OF sextet_bound [of x]]
  by (auto simp: b64_char_def)

section \<open>One group\<close>

lemma mask6: "(63 :: u32) = mask 6" and mask8: "(255 :: u32) = mask 8"
  by (simp_all add: mask_eq_exp_minus_1)

lemma u8_eqI:
  fixes b :: u8
  assumes "\<And>n. n \<in> {0, 1, 2, 3, 4, 5, 6, 7} \<Longrightarrow> bit a n = bit b n"
  shows "a = b"
proof (rule bit_word_eqI)
  fix n assume "n < LENGTH(8)"
  then have "n \<in> {0, 1, 2, 3, 4, 5, 6, 7}" by auto
  then show "bit a n = bit b n" by (rule assms)
qed

lemma u8_high_bits: "8 \<le> n \<Longrightarrow> \<not> bit (b :: u8) n"
  by (rule impossible_bit) simp

text \<open>The four sextets of a triple put together again are its low 24 bits.\<close>

lemma sextets_join:
  fixes t :: u32
  shows "push_bit 6 (push_bit 6 (push_bit 6 (drop_bit 18 t AND 63)
      OR (drop_bit 12 t AND 63)) OR (drop_bit 6 t AND 63)) OR (t AND 63) = t AND mask 24"
proof (rule bit_word_eqI)
  fix n assume "n < LENGTH(32)"
  consider "n < 6" | "6 \<le> n" "n < 12" | "12 \<le> n" "n < 18" | "18 \<le> n" by linarith
  then show "bit (push_bit 6 (push_bit 6 (push_bit 6 (drop_bit 18 t AND 63)
      OR (drop_bit 12 t AND 63)) OR (drop_bit 6 t AND 63)) OR (t AND 63)) n = bit (t AND mask 24) n"
    unfolding mask6 using \<open>n < LENGTH(32)\<close> by cases (auto simp: bit_simps)
qed

definition pack :: "u8 \<Rightarrow> u8 \<Rightarrow> u8 \<Rightarrow> u32" where
  "pack b0 b1 b2 = push_bit 16 (ucast b0) OR push_bit 8 (ucast b1) OR ucast b2"

lemma pack_bytes:
  "ucast (drop_bit 16 (pack b0 b1 b2 AND mask 24) AND 255) = b0"
  "ucast (drop_bit 8 (pack b0 b1 b2 AND mask 24) AND 255) = b1"
  "ucast ((pack b0 b1 b2 AND mask 24) AND 255) = b2"
  unfolding pack_def mask8
  by (rule u8_eqI; elim insertE emptyE; simp add: bit_simps u8_high_bits)+

lemma pack_padding:
  "pack b0 b1 0 AND 63 = 0" "drop_bit 6 (pack b0 0 0) AND 63 = 0"
  unfolding pack_def mask6
  by (rule bit_word_eqI; auto simp: bit_simps u8_high_bits)+

lemma acc_sextets:
  fixes t :: u32
  defines "c0 \<equiv> b64_char (drop_bit 18 t AND 63)" and "c1 \<equiv> b64_char (drop_bit 12 t AND 63)"
    and "c2 \<equiv> b64_char (drop_bit 6 t AND 63)" and "c3 \<equiv> b64_char (t AND 63)"
  shows "b64_acc 0 [c0, c1, c2, c3] = Some (t AND mask 24)"
    and "t AND 63 = 0 \<Longrightarrow>
      \<exists>a. b64_acc 0 [c0, c1, c2] = Some a \<and> push_bit 6 a = t AND mask 24"
    and "t AND 63 = 0 \<Longrightarrow> drop_bit 6 t AND 63 = 0 \<Longrightarrow>
      \<exists>a. b64_acc 0 [c0, c1] = Some a \<and> push_bit 12 a = t AND mask 24"
  unfolding assms sextets_join [of t, symmetric] by simp_all

lemma chunk_roundtrip3:
  "b64_decode_chunk is_last (b64_encode_chunk [b0, b1, b2]) = Some [b0, b1, b2]"
  using acc_sextets(1) [of "pack b0 b1 b2"]
  by (simp add: b64_decode_chunk_def b64_encode_chunk_def b64_triple_def pack_def [symmetric]
      Let_def pack_bytes del: b64_acc.simps drop_bit_and)

lemma chunk_roundtrip2:
  "b64_decode_chunk True (b64_encode_chunk [b0, b1]) = Some [b0, b1]"
proof -
  obtain a where "b64_acc 0 [b64_char (drop_bit 18 (pack b0 b1 0) AND 63),
      b64_char (drop_bit 12 (pack b0 b1 0) AND 63), b64_char (drop_bit 6 (pack b0 b1 0) AND 63)]
      = Some a" "push_bit 6 a = pack b0 b1 0 AND mask 24"
    using acc_sextets(2) [OF pack_padding(1)] by blast
  then show ?thesis
    by (simp add: b64_decode_chunk_def b64_encode_chunk_def b64_triple_def Let_def
        pack_def [of b0 b1 0, simplified, symmetric] pack_bytes del: b64_acc.simps drop_bit_and)
qed

lemma chunk_roundtrip1:
  "b64_decode_chunk True (b64_encode_chunk [b0]) = Some [b0]"
proof -
  obtain a where "b64_acc 0 [b64_char (drop_bit 18 (pack b0 0 0) AND 63),
      b64_char (drop_bit 12 (pack b0 0 0) AND 63)] = Some a"
      "push_bit 12 a = pack b0 0 0 AND mask 24"
    using acc_sextets(3) [OF pack_padding(1,2)] by blast
  then show ?thesis
    by (simp add: b64_decode_chunk_def b64_encode_chunk_def b64_triple_def Let_def
        pack_def [of b0 0 0, simplified, symmetric] pack_bytes del: b64_acc.simps drop_bit_and)
qed

section \<open>Whole inputs\<close>

lemma chunk_roundtrip:
  assumes "chunk \<noteq> []" "length chunk \<le> 3" "length chunk < 3 \<Longrightarrow> is_last"
  shows "b64_decode_chunk is_last (b64_encode_chunk chunk) = Some chunk"
proof -
  consider b0 where "chunk = [b0]" | b0 b1 where "chunk = [b0, b1]"
    | b0 b1 b2 where "chunk = [b0, b1, b2]"
    using assms by (cases chunk rule: remdups_adj.cases) (auto simp: numeral_eq_Suc le_Suc_eq length_Suc_conv)
  then show ?thesis
    using assms(3) by cases (auto simp: chunk_roundtrip1 chunk_roundtrip2 chunk_roundtrip3)
qed

lemma length_encode_chunk [simp]: "length (b64_encode_chunk chunk) = 4"
  by (simp add: b64_encode_chunk_def Let_def)

lemma pad_not_whitespace: "\<not> is_ascii_whitespace (byte CHR ''='')"
  by (simp add: is_ascii_whitespace_def byte_def)

lemma encode_chunk_no_whitespace:
  "c \<in> set (b64_encode_chunk chunk) \<Longrightarrow> \<not> is_ascii_whitespace (byte c)"
  using pad_not_whitespace by (auto simp: b64_encode_chunk_def Let_def split: if_splits)

lemma encode_chunks_filter:
  "filter (\<lambda>c. \<not> is_ascii_whitespace (byte c)) (concat (map b64_encode_chunk cs))
     = concat (map b64_encode_chunk cs)"
  by (auto simp: filter_id_conv dest: encode_chunk_no_whitespace)

lemma chunks_encode_chunks:
  "chunks 4 (concat (map b64_encode_chunk cs)) = map b64_encode_chunk cs"
  by (induction cs) (simp_all add: chunks_append)

lemma decode_encode_chunks:
  "b64_decode_chunks (map b64_encode_chunk (chunks 3 bs)) = Some bs"
proof (induction "3 :: nat" bs rule: chunks.induct)
  case (1 bs)
  show ?case
  proof (cases "bs = []")
    case False
    have "length (take 3 bs) < 3 \<Longrightarrow> chunks 3 (drop 3 bs) = []"
      by (simp add: min_def split: if_splits)
    then have "b64_decode_chunk (map b64_encode_chunk (chunks 3 (drop 3 bs)) = [])
        (b64_encode_chunk (take 3 bs)) = Some (take 3 bs)"
      using False by (intro chunk_roundtrip) auto
    with False "1" show ?thesis
      by (subst chunks.simps) simp
  qed simp
qed

lemma length_encode_chunks:
  "length (concat (map b64_encode_chunk cs)) = 4 * length cs"
  by (induction cs) auto

text \<open>C37. Decoding what \<open>encode\<close> wrote gives back the bytes, for every byte string.\<close>

theorem b64_roundtrip: "b64_decode (b64_encode bytes) = Some bytes"
  by (simp add: b64_decode_def b64_encode_def Let_def encode_chunks_filter chunks_encode_chunks
      decode_encode_chunks length_encode_chunks)

end
