(* ===== verification/Utf8.thy ===== *)
theory Utf8
  imports Prelude
begin

text \<open>
  The UTF-8 facts the byte-level components rely on. A Rust \<open>str\<close> is a byte string that
  is valid UTF-8, and slicing it away from a character boundary panics. \<open>utf8_valid\<close> is
  the standard library's notion of validity, \<open>utf8_head\<close> is \<open>chars().next()\<close> with
  \<open>len_utf8\<close>, and the lemmas say which steps lead from a boundary to a boundary.
\<close>

definition is_cont :: "char \<Rightarrow> bool" where
  "is_cont c \<longleftrightarrow> 128 \<le> byte c \<and> byte c < 192"

definition is_ascii :: "char \<Rightarrow> bool" where
  "is_ascii c \<longleftrightarrow> byte c < 128"

text \<open>The tail bytes a lead byte asks for, with the limits on the first of them.\<close>

definition lead_ok :: "nat \<Rightarrow> nat \<Rightarrow> bool" where
  "lead_ok b0 b1 \<longleftrightarrow>
     (b0 = 224 \<longrightarrow> 160 \<le> b1) \<and> (b0 = 237 \<longrightarrow> b1 < 160)
     \<and> (b0 = 240 \<longrightarrow> 144 \<le> b1) \<and> (b0 = 244 \<longrightarrow> b1 < 144)"

fun utf8_valid :: "string \<Rightarrow> bool" where
  "utf8_valid [] = True"
| "utf8_valid (b0 # s) =
     (if byte b0 < 128 then utf8_valid s
      else if byte b0 < 194 then False
      else if byte b0 < 224 then
        (case s of b1 # t \<Rightarrow> is_cont b1 \<and> utf8_valid t | _ \<Rightarrow> False)
      else if byte b0 < 240 then
        (case s of
           b1 # b2 # t \<Rightarrow>
             is_cont b1 \<and> lead_ok (byte b0) (byte b1) \<and> is_cont b2 \<and> utf8_valid t
         | _ \<Rightarrow> False)
      else if byte b0 < 245 then
        (case s of
           b1 # b2 # b3 # t \<Rightarrow>
             is_cont b1 \<and> lead_ok (byte b0) (byte b1) \<and> is_cont b2 \<and> is_cont b3
             \<and> utf8_valid t
         | _ \<Rightarrow> False)
      else False)"

text \<open>The first scalar of a non-empty string and its length in bytes.\<close>

definition utf8_len :: "char \<Rightarrow> nat" where
  "utf8_len b0 =
     (if byte b0 < 128 then 1 else if byte b0 < 224 then 2 else if byte b0 < 240 then 3 else 4)"

definition utf8_head :: "string \<Rightarrow> scalar \<times> nat" where
  "utf8_head s =
     (case s of
        [] \<Rightarrow> (65533, 3)
      | b0 # t \<Rightarrow>
          let n = utf8_len b0;
              tail = (\<lambda>i. byte (t ! i) mod 64)
          in (if n = 1 then byte b0
              else if n = 2 then (byte b0 mod 32) * 64 + tail 0
              else if n = 3 then (byte b0 mod 16) * 4096 + tail 0 * 64 + tail 1
              else (byte b0 mod 8) * 262144 + tail 0 * 4096 + tail 1 * 64 + tail 2,
              n))"

lemma utf8_len_pos [simp]: "0 < utf8_len b"
  by (simp add: utf8_len_def)

lemma utf8_head_len: "s \<noteq> [] \<Longrightarrow> snd (utf8_head s) = utf8_len (hd s)"
  by (cases s) (simp_all add: utf8_head_def Let_def)

lemma snd_utf8_head_pos: "0 < snd (utf8_head s)"
  by (cases s) (simp_all add: utf8_head_def Let_def)

text \<open>A whole scalar leads from a boundary to a boundary, inside the string.\<close>

text \<open>The four shapes of the first scalar of a valid string.\<close>

definition head_shape :: "char \<Rightarrow> string \<Rightarrow> bool" where
  "head_shape b0 s \<longleftrightarrow>
     (utf8_len b0 = 1 \<and> utf8_valid s)
     \<or> (utf8_len b0 = 2 \<and> (\<exists>b1 t. s = b1 # t \<and> is_cont b1 \<and> utf8_valid t))
     \<or> (utf8_len b0 = 3 \<and>
          (\<exists>b1 b2 t. s = b1 # b2 # t \<and> is_cont b1 \<and> is_cont b2 \<and> utf8_valid t))
     \<or> (utf8_len b0 = 4 \<and>
          (\<exists>b1 b2 b3 t. s = b1 # b2 # b3 # t \<and> is_cont b1 \<and> is_cont b2 \<and> is_cont b3
             \<and> utf8_valid t))"

lemma utf8_valid_shape:
  assumes "utf8_valid (b0 # s)"
  shows "head_shape b0 s"
proof -
  consider "byte b0 < 128" | "128 \<le> byte b0" "byte b0 < 224" | "224 \<le> byte b0" "byte b0 < 240"
    | "240 \<le> byte b0" by linarith
  then show ?thesis
    using assms
    by cases (simp_all add: head_shape_def utf8_len_def split: if_splits list.splits)
qed

lemma utf8_valid_step:
  assumes "utf8_valid (b0 # s)"
  shows "utf8_len b0 \<le> Suc (length s)" (is ?len)
    and "utf8_valid (drop (utf8_len b0) (b0 # s))" (is ?rest)
    and "\<And>i. 0 < i \<Longrightarrow> i < utf8_len b0 \<Longrightarrow> is_cont ((b0 # s) ! i)"
proof -
  have "?len \<and> ?rest \<and> (\<forall>i\<in>set [1..<utf8_len b0]. is_cont ((b0 # s) ! i))"
    using utf8_valid_shape [OF assms] unfolding head_shape_def
    by (elim disjE conjE exE) (simp_all add: upt_rec numeral_eq_Suc del: set_upt)
  then show ?len ?rest "\<And>i. 0 < i \<Longrightarrow> i < utf8_len b0 \<Longrightarrow> is_cont ((b0 # s) ! i)"
    by auto
qed

lemma utf8_valid_not_cont: "utf8_valid (b0 # s) \<Longrightarrow> \<not> is_cont b0"
  by (auto simp: is_cont_def split: if_splits)

lemma utf8_valid_ascii: "is_ascii c \<Longrightarrow> utf8_valid (c # s) \<longleftrightarrow> utf8_valid s"
  by (simp add: is_ascii_def)

declare utf8_valid.simps(2) [simp del]

lemma ascii_not_cont: "is_ascii c \<Longrightarrow> \<not> is_cont c"
  by (simp add: is_ascii_def is_cont_def)

text \<open>Every byte that is no continuation byte is a boundary, and so is the end.\<close>

lemma utf8_valid_boundary:
  assumes "utf8_valid s" "n \<le> length s" "n < length s \<Longrightarrow> \<not> is_cont (s ! n)"
  shows "utf8_valid (drop n s)"
  using assms
proof (induction "length s" arbitrary: s n rule: less_induct)
  case less
  show ?case
  proof (cases "n = 0 \<or> s = []")
    case False
    then obtain b0 t where s: "s = b0 # t"
      by (cases s) auto
    let ?k = "utf8_len b0"
    have step: "?k \<le> length s" "utf8_valid (drop ?k s)"
      "\<And>i. 0 < i \<Longrightarrow> i < ?k \<Longrightarrow> is_cont (s ! i)"
      using utf8_valid_step less.prems(1) s by auto
    have "?k \<le> n"
      using step False less.prems by (metis leI order_less_le_trans neq0_conv)
    have "length (drop ?k s) < length s"
      using step(1) utf8_len_pos [of b0] s by simp
    then have "utf8_valid (drop (n - ?k) (drop ?k s))"
      by (rule less.hyps) (use step(1,2) less.prems(2,3) \<open>?k \<le> n\<close> in auto)
    with \<open>?k \<le> n\<close> show ?thesis
      by simp
  qed (use less.prems in auto)
qed

lemma utf8_valid_drop_ascii:
  assumes "utf8_valid s" "n < length s" "is_ascii (s ! n)"
  shows "utf8_valid (drop n s)" "utf8_valid (drop (Suc n) s)"
proof -
  show "utf8_valid (drop n s)"
    using assms ascii_not_cont by (intro utf8_valid_boundary) auto
  moreover have "drop n s = s ! n # drop (Suc n) s"
    using assms(2) by (simp add: Cons_nth_drop_Suc)
  ultimately show "utf8_valid (drop (Suc n) s)"
    using assms(3) by (simp add: utf8_valid_ascii)
qed

end
