(* ===== verification/Lexer.thy ===== *)
theory Lexer
  imports Utf8
begin

text \<open>
  The lexer of \<open>tswift-lexer/src/lib.rs\<close>: the token type, the cursor (byte offset,
  line and column), the scanners for trivia, numbers, regex and string literals,
  identifiers and operators, \<open>next_token\<close> and the main loop \<open>run\<close>.

  The source is a byte string. An index out of range and a slice away from a character
  boundary panic in Rust: both set the flag \<open>lx_panic\<close> of the cursor, which no operation
  clears, and \<open>run\<close> reports it as \<open>LexPanic\<close>. The line and column counters are natural
  numbers (a \<open>u32\<close> wraps only beyond four billion lines or columns).
\<close>

section \<open>Tokens\<close>

datatype token_kind =
    TIdentifier | TKeyword | TIntLiteral | TFloatLiteral | TStringLiteral | TRegexLiteral
  | TLParen | TRParen | TLBrace | TRBrace | TLBracket | TRBracket
  | TComma | TColon | TSemicolon | TDot | TQuestion | TOper | TAttribute | TDirective | TEof

record token =
  tk_kind :: token_kind
  tk_text :: string
  tk_line :: nat
  tk_col :: nat
  tk_leading_newline :: bool

datatype lex_message =
    UnterminatedBlockComment | UnterminatedBacktick | UnterminatedString
  | UnterminatedInterpolation | UnexpectedCharacter char

record lex_error =
  le_message :: lex_message
  le_line :: nat
  le_col :: nat

definition KEYWORDS :: "string list" where
  "KEYWORDS =
    [''let'', ''var'', ''func'', ''return'', ''if'', ''else'', ''guard'', ''while'', ''repeat'',
     ''for'', ''in'', ''switch'', ''case'', ''default'', ''break'', ''continue'', ''fallthrough'',
     ''where'', ''do'', ''catch'', ''throw'', ''throws'', ''rethrows'', ''try'', ''defer'',
     ''struct'', ''class'', ''enum'', ''protocol'', ''extension'', ''init'', ''deinit'',
     ''subscript'', ''self'', ''super'', ''nil'', ''true'', ''false'', ''is'', ''as'', ''inout'',
     ''import'', ''typealias'', ''static'', ''mutating'', ''some'', ''any'', ''associatedtype'',
     ''indirect'', ''lazy'', ''weak'', ''unowned'', ''open'', ''public'', ''internal'',
     ''fileprivate'', ''private'', ''package'']"

definition OPERATORS :: "string list" where
  "OPERATORS =
    [''&<<'', ''&>>'', ''==='', ''!=='', ''..<'', ''...'', ''<<'', ''>>'', ''<='', ''>='', ''=='',
     ''!='', ''&&'', ''||'', ''??'', ''+='', ''-='', ''*='', ''/='', ''%='', ''&+'', ''&-'', ''&*'',
     ''&='', ''|='', ''^='', ''->'', ''<'', ''>'', ''+'', ''-'', ''*'', ''/'', ''%'', ''&'', ''|'',
     ''^'', ''~'', ''!'', ''='']"

section \<open>Character classes\<close>

abbreviation "c_nl \<equiv> CHR 0x0A"
abbreviation "c_tab \<equiv> CHR 0x09"
abbreviation "c_cr \<equiv> CHR 0x0D"
abbreviation "c_space \<equiv> CHR 0x20"
abbreviation "c_quote \<equiv> CHR 0x22"
abbreviation "c_backslash \<equiv> CHR 0x5C"
abbreviation "c_backtick \<equiv> CHR 0x60"

definition is_pure_operator_byte :: "char \<Rightarrow> bool" where
  "is_pure_operator_byte b \<longleftrightarrow> b \<in> set ''+-*/%<>=!&|^~''"

definition is_unicode_operator_scalar :: "scalar \<Rightarrow> bool" where
  "is_unicode_operator_scalar c \<longleftrightarrow>
     (0x00A1 \<le> c \<and> c \<le> 0x00A7)
     \<or> c = 0x00A9 \<or> c = 0x00AB \<or> c = 0x00AC \<or> c = 0x00AE
     \<or> (0x00B0 \<le> c \<and> c \<le> 0x00B1)
     \<or> c = 0x00B6 \<or> c = 0x00BB \<or> c = 0x00BF \<or> c = 0x00D7 \<or> c = 0x00F7
     \<or> (0x2016 \<le> c \<and> c \<le> 0x2017) \<or> (0x2020 \<le> c \<and> c \<le> 0x2027)
     \<or> (0x2030 \<le> c \<and> c \<le> 0x203E) \<or> (0x2041 \<le> c \<and> c \<le> 0x2053)
     \<or> (0x2055 \<le> c \<and> c \<le> 0x205E)
     \<or> (0x2190 \<le> c \<and> c \<le> 0x23FF) \<or> (0x2500 \<le> c \<and> c \<le> 0x2775)
     \<or> (0x2794 \<le> c \<and> c \<le> 0x2BFF)
     \<or> (0x2E00 \<le> c \<and> c \<le> 0x2E7F) \<or> (0x3001 \<le> c \<and> c \<le> 0x3003)
     \<or> (0x3008 \<le> c \<and> c \<le> 0x3020) \<or> c = 0x3030"

definition is_ident_start :: "char \<Rightarrow> bool" where
  "is_ident_start c \<longleftrightarrow>
     c = CHR ''_'' \<or> c = CHR ''$'' \<or> is_ascii_alpha (byte c) \<or> 128 \<le> byte c"

definition is_ident_continue :: "char \<Rightarrow> bool" where
  "is_ident_continue c \<longleftrightarrow>
     c = CHR ''_'' \<or> c = CHR ''$'' \<or> is_ascii_alpha (byte c) \<or> is_ascii_digit (byte c)
     \<or> 128 \<le> byte c"

definition is_dec_or_us :: "char \<Rightarrow> bool" where
  "is_dec_or_us c \<longleftrightarrow> is_ascii_digit (byte c) \<or> c = CHR ''_''"

definition is_hex_or_us :: "char \<Rightarrow> bool" where
  "is_hex_or_us c \<longleftrightarrow> is_ascii_hexdigit (byte c) \<or> c = CHR ''_''"

definition is_oct_or_us :: "char \<Rightarrow> bool" where
  "is_oct_or_us c \<longleftrightarrow> (48 \<le> byte c \<and> byte c \<le> 55) \<or> c = CHR ''_''"

definition is_bin_or_us :: "char \<Rightarrow> bool" where
  "is_bin_or_us c \<longleftrightarrow> c = CHR ''0'' \<or> c = CHR ''1'' \<or> c = CHR ''_''"

section \<open>The cursor\<close>

text \<open>The line and the column are \<open>u32\<close>: they wrap around in the release build.\<close>

record lexer =
  lx_src :: string
  lx_pos :: nat
  lx_line :: nat
  lx_col :: nat
  lx_pending_newline :: bool
  lx_panic :: bool

definition lexer_new :: "string \<Rightarrow> lexer" where
  "lexer_new src = \<lparr>lx_src = src, lx_pos = 0, lx_line = 1, lx_col = 1,
     lx_pending_newline = False, lx_panic = False\<rparr>"

definition peek :: "lexer \<Rightarrow> char option" where
  "peek s = get_at (lx_src s) (lx_pos s)"

definition peek_at :: "lexer \<Rightarrow> nat \<Rightarrow> char option" where
  "peek_at s offset = get_at (lx_src s) (lx_pos s + offset)"

definition at_prefix :: "lexer \<Rightarrow> string \<Rightarrow> bool" where
  "at_prefix s p = starts_with (drop (lx_pos s) (lx_src s)) p"

text \<open>\<open>scalar_at\<close> slices the source at \<open>i\<close>: \<open>None\<close> is that slice's panic.\<close>

definition char_boundary :: "string \<Rightarrow> nat \<Rightarrow> bool" where
  "char_boundary src i \<longleftrightarrow>
     i \<le> length src \<and> (i = 0 \<or> i = length src \<or> \<not> is_cont (src ! i))"

definition scalar_at :: "string \<Rightarrow> nat \<Rightarrow> (scalar \<times> nat) option" where
  "scalar_at src i = (if char_boundary src i then Some (utf8_head (drop i src)) else None)"

definition panic :: "lexer \<Rightarrow> lexer" where
  "panic s = s\<lparr>lx_panic := True\<rparr>"

definition advance_byte :: "lexer \<Rightarrow> lexer" where
  "advance_byte s =
     (case peek s of
        None \<Rightarrow> panic s
      | Some b \<Rightarrow>
          s\<lparr>lx_pos := lx_pos s + 1, lx_col := (if is_cont b then lx_col s else u32_succ (lx_col s))\<rparr>)"

definition newline :: "lexer \<Rightarrow> lexer" where
  "newline s = s\<lparr>lx_pos := lx_pos s + 1, lx_line := u32_succ (lx_line s), lx_col := 1\<rparr>"

definition advance_char :: "lexer \<Rightarrow> lexer" where
  "advance_char s = (if peek s = Some c_nl then newline s else advance_byte s)"

fun take_n :: "nat \<Rightarrow> lexer \<Rightarrow> lexer" where
  "take_n 0 s = s"
| "take_n (Suc n) s = take_n n (advance_byte s)"

text \<open>What is left of the source: the measure of every scanning loop.\<close>

definition remaining :: "lexer \<Rightarrow> nat" where
  "remaining s = length (lx_src s) - lx_pos s"

lemma peek_Some_less: "peek s = Some b \<Longrightarrow> lx_pos s < length (lx_src s)"
  by (simp add: peek_def get_at_Some_iff)

lemma src_advance [simp]:
  "lx_src (advance_byte s) = lx_src s" "lx_src (newline s) = lx_src s"
  "lx_src (advance_char s) = lx_src s" "lx_src (panic s) = lx_src s"
  by (simp_all add: advance_byte_def newline_def advance_char_def panic_def split: option.splits)

lemma src_take_n [simp]: "lx_src (take_n n s) = lx_src s"
  by (induction n s rule: take_n.induct) auto

lemma pos_advance_byte: "peek s = Some b \<Longrightarrow> lx_pos (advance_byte s) = lx_pos s + 1"
  by (simp add: advance_byte_def)

lemma pos_advance_char: "peek s = Some b \<Longrightarrow> lx_pos (advance_char s) = lx_pos s + 1"
  by (simp add: advance_char_def newline_def pos_advance_byte)

lemma pos_advance_mono: "lx_pos s \<le> lx_pos (advance_byte s)"
  by (simp add: advance_byte_def panic_def split: option.splits)

lemma pos_take_n_mono: "lx_pos s \<le> lx_pos (take_n n s)"
proof (induction n s rule: take_n.induct)
  case (2 n s)
  then show ?case using pos_advance_mono [of s] by simp
qed simp

lemma remaining_advance [termination_simp]:
  "peek s = Some b \<Longrightarrow> remaining (advance_byte s) < remaining s"
  "peek s = Some b \<Longrightarrow> remaining (advance_char s) < remaining s"
  "peek s = Some b \<Longrightarrow> remaining (newline s) < remaining s"
  using peek_Some_less [of s b]
  by (simp_all add: remaining_def pos_advance_byte pos_advance_char newline_def)

lemma remaining_advance_le: "remaining (advance_byte s) \<le> remaining s"
  using pos_advance_mono [of s] by (simp add: remaining_def)

lemma remaining_take_le: "remaining (take_n n s) \<le> remaining s"
  using pos_take_n_mono [of s n] by (simp add: remaining_def)

lemma remaining_take [termination_simp]:
  assumes "peek s = Some b" "0 < n"
  shows "remaining (take_n n s) < remaining s"
proof -
  obtain m where "n = Suc m"
    using assms(2) gr0_implies_Suc by blast
  then have "remaining (take_n n s) \<le> remaining (advance_byte s)"
    by (simp add: remaining_take_le)
  then show ?thesis
    using remaining_advance(1) [OF assms(1)] by simp
qed

function take_while :: "(char \<Rightarrow> bool) \<Rightarrow> lexer \<Rightarrow> lexer" where
  "take_while p s =
     (case peek s of Some b \<Rightarrow> if p b then take_while p (advance_byte s) else s | None \<Rightarrow> s)"
  by pat_completeness auto
termination
  by (relation "measure (\<lambda>(p, s). remaining s)") (auto simp: remaining_advance)

declare take_while.simps [simp del]

section \<open>Trivia\<close>

text \<open>The loop of \<open>block_comment\<close>: \<open>line\<close> and \<open>col\<close> of its start are for the error.\<close>

function block_comment_loop ::
  "nat \<Rightarrow> nat \<Rightarrow> nat \<Rightarrow> bool \<Rightarrow> lexer \<Rightarrow> lex_error + (bool \<times> lexer)" where
  "block_comment_loop line col depth saw s =
     (if depth = 0 then Inr (saw, s)
      else case peek s of
        None \<Rightarrow> Inl \<lparr>le_message = UnterminatedBlockComment, le_line = line, le_col = col\<rparr>
      | Some b \<Rightarrow>
          if b = c_nl then block_comment_loop line col depth True (newline s)
          else if b = CHR ''/'' \<and> peek_at s 1 = Some CHR ''*'' then
            block_comment_loop line col (depth + 1) saw (advance_byte (advance_byte s))
          else if b = CHR ''*'' \<and> peek_at s 1 = Some CHR ''/'' then
            block_comment_loop line col (depth - 1) saw (advance_byte (advance_byte s))
          else block_comment_loop line col depth saw (advance_byte s))"
  by pat_completeness auto
termination
  by (relation "measure (\<lambda>(l, c, d, w, s). remaining s)")
    (auto simp: remaining_advance intro: le_less_trans [OF remaining_advance_le])

declare block_comment_loop.simps [simp del]

definition block_comment :: "lexer \<Rightarrow> lex_error + (bool \<times> lexer)" where
  "block_comment s =
     block_comment_loop (lx_line s) (lx_col s) 1 False (advance_byte (advance_byte s))"

definition line_comment :: "lexer \<Rightarrow> lexer" where
  "line_comment s = take_while (\<lambda>c. c \<noteq> c_nl) s"

lemma remaining_take_while: "remaining (take_while p s) \<le> remaining s"
proof (induction p s rule: take_while.induct)
  case (1 p s)
  show ?case
  proof (cases "peek s")
    case (Some b)
    with "1" remaining_advance(1) [OF Some] show ?thesis
      by (subst take_while.simps) auto
  qed (subst take_while.simps, simp)
qed

lemma remaining_block_comment_loop:
  "block_comment_loop l c d w s = Inr (w', s') \<Longrightarrow> remaining s' \<le> remaining s"
proof (induction l c d w s rule: block_comment_loop.induct)
  case (1 l c d w s)
  show ?case
  proof (cases "d = 0 \<or> peek s = None")
    case True
    with "1.prems" show ?thesis
      by (subst (asm) block_comment_loop.simps) (auto split: if_splits)
  next
    case False
    then obtain b where b: "d \<noteq> 0" "peek s = Some b"
      by auto
    note less = remaining_advance [OF b(2)] remaining_advance_le [of "advance_byte s"]
    show ?thesis
      using "1.prems" "1.IH" [OF b] less b
      by (subst (asm) block_comment_loop.simps) (auto split: if_splits)
  qed
qed

lemma remaining_block_comment:
  assumes "block_comment s = Inr (w, s')" "peek s = Some b"
  shows "remaining s' < remaining s"
  using remaining_block_comment_loop [OF assms(1) [unfolded block_comment_def]]
    remaining_advance(1) [OF assms(2)] remaining_advance_le [of "advance_byte s"]
  by linarith

lemma remaining_line_comment:
  assumes "peek s = Some CHR ''/''"
  shows "remaining (line_comment s) < remaining s"
proof -
  have "line_comment s = take_while (\<lambda>c. c \<noteq> c_nl) (advance_byte s)"
    unfolding line_comment_def by (subst take_while.simps) (simp add: assms)
  then show ?thesis
    using remaining_take_while remaining_advance(1) [OF assms] le_less_trans by metis
qed

function skip_trivia_loop :: "bool \<Rightarrow> lexer \<Rightarrow> lex_error + (bool \<times> lexer)" where
  "skip_trivia_loop saw s =
     (case peek s of
        None \<Rightarrow> Inr (saw, s)
      | Some b \<Rightarrow>
          if b = c_nl then skip_trivia_loop True (newline s)
          else if b = c_space \<or> b = c_tab \<or> b = c_cr then skip_trivia_loop saw (advance_byte s)
          else if b = CHR ''/'' \<and> peek_at s 1 = Some CHR ''/'' then
            skip_trivia_loop saw (line_comment s)
          else if b = CHR ''/'' \<and> peek_at s 1 = Some CHR ''*'' then
            (case block_comment s of
               Inl e \<Rightarrow> Inl e
             | Inr (nl, s') \<Rightarrow> skip_trivia_loop (saw \<or> nl) s')
          else Inr (saw, s))"
  by pat_completeness auto
termination
  by (relation "measure (\<lambda>(w, s). remaining s)")
    (auto simp: remaining_advance remaining_line_comment dest: remaining_block_comment)

declare skip_trivia_loop.simps [simp del]

definition skip_trivia :: "lexer \<Rightarrow> lex_error + (bool \<times> lexer)" where
  "skip_trivia s = skip_trivia_loop False s"

section \<open>Numbers\<close>

definition take_sign_and_digits :: "lexer \<Rightarrow> lexer" where
  "take_sign_and_digits s =
     take_while is_dec_or_us
       (if peek s = Some CHR ''+'' \<or> peek s = Some CHR ''-'' then advance_byte s else s)"

definition peek_is :: "lexer \<Rightarrow> nat \<Rightarrow> (char \<Rightarrow> bool) \<Rightarrow> bool" where
  "peek_is s offset p = (case peek_at s offset of None \<Rightarrow> False | Some c \<Rightarrow> p c)"

text \<open>
  The optional fraction (only where a digit of the radix follows the dot) and the
  optional exponent, shared by the hexadecimal and the decimal branch.
\<close>

definition number_fraction ::
  "(char \<Rightarrow> bool) \<Rightarrow> (char \<Rightarrow> bool) \<Rightarrow> bool \<times> lexer \<Rightarrow> bool \<times> lexer" where
  "number_fraction is_digit run fs =
     (let s = snd fs in
      if peek s = Some CHR ''.'' \<and> peek_is s 1 is_digit
      then (True, take_while run (advance_byte s)) else fs)"

definition number_exponent :: "string \<Rightarrow> bool \<times> lexer \<Rightarrow> bool \<times> lexer" where
  "number_exponent letters fs =
     (let s = snd fs in
      if peek_is s 0 (\<lambda>c. c \<in> set letters)
      then (True, take_sign_and_digits (advance_byte s)) else fs)"

definition number :: "lexer \<Rightarrow> token_kind \<times> lexer" where
  "number s =
     (let zero = (peek s = Some CHR ''0'');
          (is_float, s') =
            (if zero \<and> peek_is s 1 (\<lambda>c. c \<in> set ''xX'') then
               number_exponent ''pP''
                 (number_fraction (\<lambda>c. is_ascii_hexdigit (byte c)) is_hex_or_us
                    (False, take_while is_hex_or_us (take_n 2 s)))
             else if zero \<and> peek_is s 1 (\<lambda>c. c \<in> set ''oO'') then
               (False, take_while is_oct_or_us (take_n 2 s))
             else if zero \<and> peek_is s 1 (\<lambda>c. c \<in> set ''bB'') then
               (False, take_while is_bin_or_us (take_n 2 s))
             else
               number_exponent ''eE''
                 (number_fraction (\<lambda>c. is_ascii_digit (byte c)) is_dec_or_us
                    (False, take_while is_dec_or_us s)))
      in (if is_float then TFloatLiteral else TIntLiteral, s'))"

section \<open>Regex literals\<close>

function bare_regex_loop :: "string \<Rightarrow> nat \<Rightarrow> bool \<Rightarrow> nat \<Rightarrow> nat option" where
  "bare_regex_loop src start in_class i =
     (case get_at src i of
        None \<Rightarrow> None
      | Some b \<Rightarrow>
          if b = c_backslash then
            (if length src \<le> i + 1 \<or> src ! (i + 1) = c_nl then None
             else bare_regex_loop src start in_class (i + 2))
          else if b = c_nl then None
          else if b = CHR ''['' then bare_regex_loop src start True (i + 1)
          else if b = CHR '']'' \<and> in_class then bare_regex_loop src start False (i + 1)
          else if b = CHR ''/'' \<and> \<not> in_class then
            (if src ! (i - 1) = c_space \<or> src ! (i - 1) = c_tab then None
             else Some (i + 1 - start))
          else bare_regex_loop src start in_class (i + 1))"
  by pat_completeness auto
termination
  by (relation "measure (\<lambda>(src, start, c, i). length src - i)") (auto simp: get_at_Some_iff)

declare bare_regex_loop.simps [simp del]

definition bare_regex_len :: "lexer \<Rightarrow> nat option" where
  "bare_regex_len s =
     (let i = lx_pos s + 1 in
      case get_at (lx_src s) i of
        None \<Rightarrow> None
      | Some b \<Rightarrow>
          if b = c_space \<or> b = c_tab \<or> b = CHR ''/'' \<or> b = c_nl \<or> b = c_cr then None
          else bare_regex_loop (lx_src s) (lx_pos s) False i)"

definition leading_hashes :: "lexer \<Rightarrow> nat" where
  "leading_hashes s = length (takeWhile (\<lambda>c. c = CHR ''#'') (drop (lx_pos s) (lx_src s)))"

definition hashes_at :: "string \<Rightarrow> nat \<Rightarrow> nat \<Rightarrow> bool" where
  "hashes_at src i n = list_all (\<lambda>h. get_at src (i + h) = Some CHR ''#'') [0..<n]"

function pound_regex_loop :: "string \<Rightarrow> nat \<Rightarrow> nat \<Rightarrow> nat \<Rightarrow> nat option" where
  "pound_regex_loop src start hashes i =
     (case get_at src i of
        None \<Rightarrow> None
      | Some b \<Rightarrow>
          if b = c_backslash then pound_regex_loop src start hashes (i + 2)
          else if b = CHR ''/'' \<and> hashes_at src (i + 1) hashes then Some (i + 1 + hashes - start)
          else pound_regex_loop src start hashes (i + 1))"
  by pat_completeness auto
termination
  by (relation "measure (\<lambda>(src, start, h, i). length src - i)") (auto simp: get_at_Some_iff)

declare pound_regex_loop.simps [simp del]

definition pound_regex_len :: "lexer \<Rightarrow> nat option" where
  "pound_regex_len s =
     (let hashes = leading_hashes s in
      if hashes = 0 \<or> peek_at s hashes \<noteq> Some CHR ''/'' then None
      else pound_regex_loop (lx_src s) (lx_pos s) hashes (lx_pos s + hashes + 1))"

text \<open>\<open>consume_regex\<close>: \<open>advance_char\<close> until the cursor is at \<open>end\<close>.\<close>

fun advance_chars :: "nat \<Rightarrow> lexer \<Rightarrow> lexer" where
  "advance_chars 0 s = s"
| "advance_chars (Suc n) s = advance_chars n (advance_char s)"

section \<open>String literals\<close>

definition at_interpolation :: "lexer \<Rightarrow> nat \<Rightarrow> bool" where
  "at_interpolation s hashes \<longleftrightarrow>
     peek s = Some c_backslash
     \<and> list_all (\<lambda>i. peek_at s (1 + i) = Some CHR ''#'') [0..<hashes]
     \<and> peek_at s (1 + hashes) = Some CHR ''(''"

definition at_closing_delimiter :: "lexer \<Rightarrow> nat \<Rightarrow> nat \<Rightarrow> bool" where
  "at_closing_delimiter s quotes hashes \<longleftrightarrow>
     list_all (\<lambda>i. peek_at s i = Some c_quote) [0..<quotes]
     \<and> list_all (\<lambda>i. peek_at s (quotes + i) = Some CHR ''#'') [0..<hashes]
     \<and> peek_at s (quotes + hashes) \<noteq> Some CHR ''#''"

text \<open>An escape: the backslash and, if there is one, the character after it.\<close>

definition skip_escape :: "lexer \<Rightarrow> lexer" where
  "skip_escape s =
     (let s' = advance_char s in if peek s' \<noteq> None then advance_char s' else s')"

lemma src_skip_escape [simp]: "lx_src (skip_escape s) = lx_src s"
  by (simp add: skip_escape_def Let_def)

lemma remaining_advance_char_le: "remaining (advance_char s) \<le> remaining s"
proof (cases "peek s = Some c_nl")
  case True
  then show ?thesis
    by (simp add: advance_char_def newline_def remaining_def)
next
  case False
  then show ?thesis
    by (simp add: advance_char_def remaining_advance_le)
qed

lemma remaining_skip_escape [termination_simp]:
  "peek s = Some b \<Longrightarrow> remaining (skip_escape s) < remaining s"
  using remaining_advance(2) [of s b] remaining_advance_char_le [of "advance_char s"]
  by (auto simp: skip_escape_def Let_def)

function nested_string_loop :: "lexer \<Rightarrow> lexer" where
  "nested_string_loop s =
     (case peek s of
        None \<Rightarrow> s
      | Some c \<Rightarrow>
          if c = c_quote then advance_char s
          else if c = c_backslash then nested_string_loop (skip_escape s)
          else if c = c_nl then s
          else nested_string_loop (advance_char s))"
  by pat_completeness auto
termination
  by (relation "measure remaining") (auto simp: remaining_advance remaining_skip_escape)

declare nested_string_loop.simps [simp del]

definition skip_nested_string :: "lexer \<Rightarrow> lexer" where
  "skip_nested_string s = nested_string_loop (advance_char s)"

lemma remaining_nested_string_loop: "remaining (nested_string_loop s) \<le> remaining s"
proof (induction s rule: nested_string_loop.induct)
  case (1 s)
  show ?case
  proof (cases "peek s")
    case (Some c)
    show ?thesis
      using "1.IH" [OF Some] Some remaining_advance(2) [OF Some] remaining_skip_escape [OF Some]
      by (subst nested_string_loop.simps) (auto split: if_splits)
  qed (subst nested_string_loop.simps, simp)
qed

lemma remaining_skip_nested_string [termination_simp]:
  "peek s = Some b \<Longrightarrow> remaining (skip_nested_string s) < remaining s"
  using remaining_nested_string_loop [of "advance_char s"] remaining_advance(2) [of s b]
  by (simp add: skip_nested_string_def)

function interpolation_loop :: "nat \<Rightarrow> nat \<Rightarrow> nat \<Rightarrow> lexer \<Rightarrow> lex_error + lexer" where
  "interpolation_loop line col depth s =
     (if depth = 0 then Inr s
      else case peek s of
        None \<Rightarrow> Inl \<lparr>le_message = UnterminatedInterpolation, le_line = line, le_col = col\<rparr>
      | Some c \<Rightarrow>
          if c = CHR ''('' then interpolation_loop line col (depth + 1) (advance_char s)
          else if c = CHR '')'' then interpolation_loop line col (depth - 1) (advance_char s)
          else if c = c_quote then interpolation_loop line col depth (skip_nested_string s)
          else interpolation_loop line col depth (advance_char s))"
  by pat_completeness auto
termination
  by (relation "measure (\<lambda>(l, c, d, s). remaining s)")
    (auto simp: remaining_advance remaining_skip_nested_string)

declare interpolation_loop.simps [simp del]

definition consume_interpolation :: "nat \<Rightarrow> nat \<Rightarrow> nat \<Rightarrow> lexer \<Rightarrow> lex_error + lexer" where
  "consume_interpolation hashes line col s =
     interpolation_loop line col 1 (take_n (1 + hashes + 1) s)"

lemma remaining_interpolation_loop:
  "interpolation_loop l c d s = Inr s' \<Longrightarrow> remaining s' \<le> remaining s"
proof (induction l c d s rule: interpolation_loop.induct)
  case (1 l c d s)
  show ?case
  proof (cases "d = 0 \<or> peek s = None")
    case True
    with "1.prems" show ?thesis
      by (subst (asm) interpolation_loop.simps) (auto split: if_splits)
  next
    case False
    then obtain b where b: "d \<noteq> 0" "peek s = Some b"
      by auto
    show ?thesis
      using "1.prems" "1.IH" [OF b] b remaining_advance(2) [OF b(2)]
        remaining_skip_nested_string [OF b(2)]
      by (subst (asm) interpolation_loop.simps) (auto split: if_splits)
  qed
qed

lemma remaining_consume_interpolation:
  assumes "consume_interpolation h l c s = Inr s'" "peek s = Some b"
  shows "remaining s' < remaining s"
  using remaining_interpolation_loop [OF assms(1) [unfolded consume_interpolation_def]]
    remaining_take [OF assms(2), of "1 + h + 1"] by linarith

text \<open>
  The loop of \<open>string\<close>. The result is the cursor after the closing delimiter; the
  token is built by the caller.
\<close>

function string_loop :: "nat \<Rightarrow> nat \<Rightarrow> bool \<Rightarrow> nat \<Rightarrow> nat \<Rightarrow> lexer \<Rightarrow> lex_error + lexer" where
  "string_loop line col multiline quotes hashes s =
     (let unterminated =
            Inl \<lparr>le_message = UnterminatedString, le_line = line, le_col = col\<rparr>
      in case peek s of
        None \<Rightarrow> unterminated
      | Some c \<Rightarrow>
          if c = c_quote \<and> at_closing_delimiter s quotes hashes then
            Inr (take_n (quotes + hashes) s)
          else if c = c_backslash \<and> at_interpolation s hashes then
            (case consume_interpolation hashes line col s of
               Inl e \<Rightarrow> Inl e
             | Inr s' \<Rightarrow> string_loop line col multiline quotes hashes s')
          else if c = c_backslash \<and> hashes = 0 then
            string_loop line col multiline quotes hashes (skip_escape s)
          else if c = c_nl \<and> \<not> multiline then unterminated
          else string_loop line col multiline quotes hashes (advance_char s))"
  by pat_completeness auto
termination
  by (relation "measure (\<lambda>(l, c, m, q, h, s). remaining s)")
    (auto simp: remaining_advance remaining_skip_escape dest: remaining_consume_interpolation)

declare string_loop.simps [simp del]

definition string_body :: "nat \<Rightarrow> nat \<Rightarrow> lexer \<Rightarrow> lex_error + lexer" where
  "string_body line col s =
     (let hashes = leading_hashes s;
          s1 = take_n hashes s;
          multiline = at_prefix s1 [c_quote, c_quote, c_quote];
          quotes = (if multiline then 3 else 1)
      in string_loop line col multiline quotes hashes (take_n quotes s1))"

definition is_raw_string_start :: "lexer \<Rightarrow> bool" where
  "is_raw_string_start s =
     (let hashes = leading_hashes s in 0 < hashes \<and> peek_at s hashes = Some c_quote)"

section \<open>Operators and identifiers\<close>

lemma scalar_at_pos: "scalar_at src i = Some (ch, n) \<Longrightarrow> 0 < n"
  using snd_utf8_head_pos [of "drop i src"] by (auto simp: scalar_at_def split: if_splits)

text \<open>
  The operator run after the table operator: the outer \<open>None\<close> is the panic of
  \<open>scalar_at\<close>.
\<close>

function operator_run :: "lexer \<Rightarrow> nat \<Rightarrow> nat option" where
  "operator_run s len =
     (case peek_at s len of
        None \<Rightarrow> Some len
      | Some b \<Rightarrow>
          if byte b < 128 then
            (if is_pure_operator_byte b then operator_run s (len + 1) else Some len)
          else case scalar_at (lx_src s) (lx_pos s + len) of
            None \<Rightarrow> None
          | Some (ch, n) \<Rightarrow>
              if is_unicode_operator_scalar ch then operator_run s (len + n) else Some len)"
  by pat_completeness auto
termination
  by (relation "measure (\<lambda>(s, len). length (lx_src s) - (lx_pos s + len))")
    (auto simp: peek_at_def get_at_Some_iff dest!: scalar_at_pos)

declare operator_run.simps [simp del]

text \<open>
  \<open>match_operator\<close>: the first table entry at the cursor, extended to the whole run of
  operator characters when it is built from pure ones.
\<close>

definition match_operator :: "lexer \<Rightarrow> nat option option" where
  "match_operator s =
     (case List.find (at_prefix s) OPERATORS of
        None \<Rightarrow> Some None
      | Some op \<Rightarrow>
          if list_all is_pure_operator_byte op
          then map_option Some (operator_run s (length op)) else Some (Some (length op)))"

text \<open>The identifier loop, shared by plain and backtick-escaped identifiers.\<close>

function ident_run :: "lexer \<Rightarrow> lexer" where
  "ident_run s =
     (case peek s of
        None \<Rightarrow> s
      | Some b \<Rightarrow>
          if byte b < 128 then
            (if is_ident_continue b then ident_run (advance_byte s) else s)
          else case scalar_at (lx_src s) (lx_pos s) of
            None \<Rightarrow> panic s
          | Some (ch, n) \<Rightarrow>
              if is_unicode_operator_scalar ch then s else ident_run (take_n n s))"
  by pat_completeness auto
termination
  by (relation "measure remaining")
    (auto simp: remaining_advance intro!: remaining_take dest!: scalar_at_pos)

declare ident_run.simps [simp del]

function unicode_operator_run :: "lexer \<Rightarrow> lexer" where
  "unicode_operator_run s =
     (case peek s of
        None \<Rightarrow> s
      | Some b \<Rightarrow>
          if byte b < 128 then
            (if is_pure_operator_byte b then unicode_operator_run (advance_byte s) else s)
          else case scalar_at (lx_src s) (lx_pos s) of
            None \<Rightarrow> panic s
          | Some (ch, n) \<Rightarrow>
              if is_unicode_operator_scalar ch then unicode_operator_run (take_n n s) else s)"
  by pat_completeness auto
termination
  by (relation "measure remaining")
    (auto simp: remaining_advance intro!: remaining_take dest!: scalar_at_pos)

declare unicode_operator_run.simps [simp del]

section \<open>The next token\<close>

definition slice :: "string \<Rightarrow> nat \<Rightarrow> nat \<Rightarrow> string" where
  "slice src a b = take (b - a) (drop a src)"

definition slice_ok :: "string \<Rightarrow> nat \<Rightarrow> nat \<Rightarrow> bool" where
  "slice_ok src a b \<longleftrightarrow> a \<le> b \<and> char_boundary src a \<and> char_boundary src b"

text \<open>\<open>make\<close>: the token from \<open>a\<close> to \<open>b\<close>; the slice of the source may panic.\<close>

definition make_slice ::
  "token_kind \<Rightarrow> nat \<Rightarrow> nat \<Rightarrow> nat \<Rightarrow> nat \<Rightarrow> lexer \<Rightarrow> token \<times> lexer" where
  "make_slice kind a b line col s =
     (\<lparr>tk_kind = kind, tk_text = slice (lx_src s) a b, tk_line = line, tk_col = col,
       tk_leading_newline = lx_pending_newline s\<rparr>,
      if slice_ok (lx_src s) a b then s else panic s)"

definition make :: "token_kind \<Rightarrow> nat \<Rightarrow> nat \<Rightarrow> nat \<Rightarrow> lexer \<Rightarrow> token \<times> lexer" where
  "make kind start line col s = make_slice kind start (lx_pos s) line col s"

definition regex_allowed :: "token option \<Rightarrow> bool" where
  "regex_allowed prev =
     (case prev of
        None \<Rightarrow> True
      | Some t \<Rightarrow>
          (case tk_kind t of
             TIdentifier \<Rightarrow> False | TIntLiteral \<Rightarrow> False | TFloatLiteral \<Rightarrow> False
           | TStringLiteral \<Rightarrow> False | TRegexLiteral \<Rightarrow> False | TRParen \<Rightarrow> False
           | TRBracket \<Rightarrow> False | TRBrace \<Rightarrow> False | TDot \<Rightarrow> False
           | TKeyword \<Rightarrow>
               \<not> (tk_text t \<in> set [''true'', ''false'', ''nil'', ''self'', ''super''])
           | _ \<Rightarrow> True))"

definition single_kind :: "char \<Rightarrow> token_kind option" where
  "single_kind c = map_of
     [(CHR ''('', TLParen), (CHR '')'', TRParen), (CHR ''{'', TLBrace), (CHR ''}'', TRBrace),
      (CHR ''['', TLBracket), (CHR '']'', TRBracket), (CHR '','', TComma), (CHR '':'', TColon),
      (CHR '';'', TSemicolon)] c"

definition string_token :: "lexer \<Rightarrow> lex_error + (token \<times> lexer)" where
  "string_token s =
     (case string_body (lx_line s) (lx_col s) s of
        Inl e \<Rightarrow> Inl e
      | Inr s' \<Rightarrow> Inr (make TStringLiteral (lx_pos s) (lx_line s) (lx_col s) s'))"

definition regex_token :: "nat \<Rightarrow> lexer \<Rightarrow> lex_error + (token \<times> lexer)" where
  "regex_token len s =
     Inr (make TRegexLiteral (lx_pos s) (lx_line s) (lx_col s) (advance_chars len s))"

text \<open>The operator arm; \<open>none\<close> is what the arm does where no operator matches.\<close>

definition operator_token ::
  "lex_error + (token \<times> lexer) \<Rightarrow> lexer \<Rightarrow> lex_error + (token \<times> lexer)" where
  "operator_token none s =
     (case match_operator s of
        None \<Rightarrow> Inr (make TOper (lx_pos s) (lx_line s) (lx_col s) (panic s))
      | Some None \<Rightarrow> none
      | Some (Some len) \<Rightarrow>
          Inr (make TOper (lx_pos s) (lx_line s) (lx_col s) (take_n len s)))"

definition backtick_token :: "lexer \<Rightarrow> lex_error + (token \<times> lexer)" where
  "backtick_token s =
     (let s1 = advance_byte s; s2 = ident_run s1 in
      if lx_pos s1 < lx_pos s2 \<and> peek s2 = Some c_backtick
      then Inr (make_slice TIdentifier (lx_pos s1) (lx_pos s2) (lx_line s) (lx_col s)
                  (advance_byte s2))
      else if lx_panic s2 then Inr (make TIdentifier (lx_pos s) (lx_line s) (lx_col s) s2)
      else Inl \<lparr>le_message = UnterminatedBacktick, le_line = lx_line s, le_col = lx_col s\<rparr>)"

definition ident_token :: "lexer \<Rightarrow> lex_error + (token \<times> lexer)" where
  "ident_token s =
     (let s' = ident_run s;
          text = slice (lx_src s) (lx_pos s) (lx_pos s')
      in Inr (make (if text \<in> set KEYWORDS then TKeyword else TIdentifier)
                (lx_pos s) (lx_line s) (lx_col s) s'))"

definition next_token :: "token option \<Rightarrow> lexer \<Rightarrow> lex_error + (token \<times> lexer)" where
  "next_token prev s =
     (let emit = (\<lambda>kind s'. Inr (make kind (lx_pos s) (lx_line s) (lx_col s) s')) in
      case peek s of
        None \<Rightarrow> emit TEof (panic s)
      | Some c \<Rightarrow>
          (case single_kind c of
             Some kind \<Rightarrow> emit kind (advance_byte s)
           | None \<Rightarrow>
               if c = c_quote then string_token s
               else if c = CHR ''#'' \<and> pound_regex_len s \<noteq> None then
                 regex_token (the (pound_regex_len s)) s
               else if c = CHR ''#'' \<and> is_raw_string_start s then string_token s
               else if c = CHR ''/'' \<and> regex_allowed prev then
                 (case bare_regex_len s of
                    Some len \<Rightarrow> regex_token len s
                  | None \<Rightarrow> operator_token (emit TOper (panic s)) s)
               else if c = CHR ''@'' \<or> c = CHR ''#'' then
                 emit (if c = CHR ''@'' then TAttribute else TDirective)
                   (take_while is_ident_continue (advance_byte s))
               else if c = CHR ''.'' then
                 (if at_prefix s ''...'' \<or> at_prefix s ''..<'' then emit TOper (take_n 3 s)
                  else emit TDot (advance_byte s))
               else if c = CHR ''?'' then
                 (if at_prefix s ''??'' then emit TOper (take_n 2 s)
                  else emit TQuestion (advance_byte s))
               else if c = c_backslash then emit TOper (advance_byte s)
               else if c = c_backtick then backtick_token s
               else if is_ascii_digit (byte c) then emit (fst (number s)) (snd (number s))
               else if 128 \<le> byte c then
                 (case scalar_at (lx_src s) (lx_pos s) of
                    None \<Rightarrow> emit TOper (panic s)
                  | Some (ch, n) \<Rightarrow>
                      if is_unicode_operator_scalar ch
                      then emit TOper (unicode_operator_run (take_n n s))
                      else ident_token s)
               else if is_ident_start c then ident_token s
               else operator_token
                 (Inl \<lparr>le_message = UnexpectedCharacter c, le_line = lx_line s,
                       le_col = lx_col s\<rparr>) s))"

section \<open>The main loop\<close>

datatype lex_outcome = LexOk "token list" | LexErr lex_error | LexPanic | LexOutOfFuel

text \<open>
  One unit of fuel per token; \<open>prev\<close> is \<open>out.last()\<close>. \<open>length src + 1\<close> units are
  enough, because every token takes at least one byte (\<open>lex_run_enough\<close> of the theory
  \<open>Lexer_Correct\<close>).
\<close>

fun lex_run :: "nat \<Rightarrow> token option \<Rightarrow> lexer \<Rightarrow> lex_outcome" where
  "lex_run 0 prev s = LexOutOfFuel"
| "lex_run (Suc fuel) prev s =
     (case skip_trivia s of
        Inl e \<Rightarrow> LexErr e
      | Inr (saw, s0) \<Rightarrow>
          let s1 = s0\<lparr>lx_pending_newline := saw\<rparr> in
          if length (lx_src s1) \<le> lx_pos s1 then
            (let (t, s2) = make TEof (lx_pos s1) (lx_line s1) (lx_col s1) s1
             in if lx_panic s2 then LexPanic else LexOk [t])
          else case next_token prev s1 of
            Inl e \<Rightarrow> LexErr e
          | Inr (t, s2) \<Rightarrow>
              if lx_panic s2 then LexPanic
              else case lex_run fuel (Some t) s2 of
                LexOk ts \<Rightarrow> LexOk (t # ts)
              | other \<Rightarrow> other)"

definition tokenize :: "string \<Rightarrow> lex_outcome" where
  "tokenize source = lex_run (length source + 1) None (lexer_new source)"

end
