(* ===== verification/Lexer_Correct.thy ===== *)
theory Lexer_Correct
  imports Lexer
begin

text \<open>
  Correctness of the lexer. A scanner \<open>walks\<close> when it does nothing but read on over
  characters of the source; walking keeps the line and column counters equal to the
  position computed from the text before the cursor. On valid UTF-8 every scanner walks
  from a character boundary to a character boundary, so no slice and no index of the
  code can panic, and the tokens with the trivia between them tile the source.
\<close>

section \<open>Walking over the source\<close>

definition line_of :: "string \<Rightarrow> nat" where
  "line_of before = 1 + length (filter (\<lambda>c. c = c_nl) before)"

definition col_of :: "string \<Rightarrow> nat" where
  "col_of before =
     1 + length (filter (\<lambda>c. \<not> is_cont c) (takeWhile (\<lambda>c. c \<noteq> c_nl) (rev before)))"

text \<open>Sources in which no counter of lines or columns can wrap around.\<close>

definition countable_source :: "string \<Rightarrow> bool" where
  "countable_source src \<longleftrightarrow> length src < 2 ^ 32 - 1"

lemma line_col_le: "line_of u \<le> 1 + length u" "col_of u \<le> 1 + length u"
  using length_filter_le [of "\<lambda>c. c = c_nl" u]
    order_trans [OF length_filter_le [of "\<lambda>c. \<not> is_cont c"] length_takeWhile_le [of "\<lambda>c. c \<noteq> c_nl" "rev u"]]
  by (simp_all add: line_of_def col_of_def)

definition before :: "lexer \<Rightarrow> string" where
  "before s = take (lx_pos s) (lx_src s)"

definition synced :: "lexer \<Rightarrow> bool" where
  "synced s \<longleftrightarrow> countable_source (lx_src s) \<and> lx_pos s \<le> length (lx_src s)
     \<and> lx_line s = line_of (before s) \<and> lx_col s = col_of (before s)"

definition walks :: "(char \<Rightarrow> bool) \<Rightarrow> lexer \<Rightarrow> lexer \<Rightarrow> bool" where
  "walks p s s' \<longleftrightarrow> (\<exists>n. n \<le> remaining s \<and> s' = advance_chars n s
     \<and> (\<forall>i<n. p (lx_src s ! (lx_pos s + i))))"

abbreviation any_char :: "char \<Rightarrow> bool" where
  "any_char \<equiv> \<lambda>_. True"

lemma peek_advance_byte: "peek s = Some b \<Longrightarrow> peek (advance_byte s) = peek_at s 1"
  by (simp add: peek_def peek_at_def advance_byte_def)

lemma pos_advance_char_le:
  "peek s = Some c \<Longrightarrow> lx_pos (advance_char s) \<le> length (lx_src s)"
  using peek_Some_less [of s c] by (simp add: pos_advance_char)

lemma peek_None_iff: "peek s = None \<longleftrightarrow> length (lx_src s) \<le> lx_pos s"
  by (simp add: peek_def)

lemma peek_conv: "lx_pos s < length (lx_src s) \<Longrightarrow> peek s = Some (lx_src s ! lx_pos s)"
  by (simp add: peek_def get_at_def)

lemma advance_char_fields:
  assumes "lx_pos s < length (lx_src s)"
  shows "lx_pos (advance_char s) = lx_pos s + 1"
    and "lx_panic (advance_char s) = lx_panic s"
    and "lx_pending_newline (advance_char s) = lx_pending_newline s"
    and "remaining (advance_char s) = remaining s - 1"
  using peek_conv [OF assms]
  by (simp_all add: advance_char_def newline_def advance_byte_def remaining_def)

lemma advance_chars_fields:
  "n \<le> remaining s \<Longrightarrow>
     lx_src (advance_chars n s) = lx_src s \<and> lx_pos (advance_chars n s) = lx_pos s + n
     \<and> lx_panic (advance_chars n s) = lx_panic s
     \<and> lx_pending_newline (advance_chars n s) = lx_pending_newline s
     \<and> remaining (advance_chars n s) = remaining s - n"
proof (induction n s rule: advance_chars.induct)
  case (2 n s)
  then have "lx_pos s < length (lx_src s)"
    by (simp add: remaining_def)
  with 2 show ?case
    by (auto simp: advance_char_fields)
qed simp

lemma advance_chars_add: "advance_chars (m + n) s = advance_chars n (advance_chars m s)"
  by (induction m s rule: advance_chars.induct) auto

lemma walks_refl [simp, intro]: "walks p s s"
  unfolding walks_def by (rule exI [of _ 0]) simp

lemma walks_trans:
  assumes "walks p s t" "walks p t u"
  shows "walks p s u"
proof -
  obtain m n where m: "m \<le> remaining s" "t = advance_chars m s"
      "\<And>i. i < m \<Longrightarrow> p (lx_src s ! (lx_pos s + i))"
    and n: "n \<le> remaining t" "u = advance_chars n t" "\<And>i. i < n \<Longrightarrow> p (lx_src t ! (lx_pos t + i))"
    using assms unfolding walks_def by blast
  note f = advance_chars_fields [OF m(1)]
  have "p (lx_src s ! (lx_pos s + i))" if "i < m + n" for i
  proof (cases "i < m")
    case False
    then show ?thesis
      using n(3) [of "i - m"] that f m(2) by simp
  qed (rule m(3))
  then show ?thesis
    unfolding walks_def
    using m n f by (intro exI [of _ "m + n"]) (auto simp: advance_chars_add)
qed

lemma walks_mono:
  assumes "walks p s t" "\<And>c. p c \<Longrightarrow> q c"
  shows "walks q s t"
  using assms unfolding walks_def by blast

lemma walks_any [intro]: "walks p s t \<Longrightarrow> walks any_char s t"
  by (erule walks_mono) simp

lemma walks_char:
  assumes "peek s = Some c" "p c"
  shows "walks p s (advance_char s)"
proof -
  have "lx_src s ! lx_pos s = c" "lx_pos s < length (lx_src s)"
    using assms(1) by (auto simp: peek_def get_at_Some_iff)
  then show ?thesis
    using assms(2) unfolding walks_def
    by (intro exI [of _ 1]) (auto simp: remaining_def)
qed

lemma walks_byte:
  assumes "peek s = Some c" "p c" "c \<noteq> c_nl"
  shows "walks p s (advance_byte s)"
  using walks_char [of s c p] assms by (simp add: advance_char_def)

lemma walks_newline:
  assumes "peek s = Some c_nl" "p c_nl"
  shows "walks p s (newline s)"
  using walks_char [of s c_nl p] assms by (simp add: advance_char_def)

lemma walks_fields:
  assumes "walks p s s'"
  shows "lx_src s' = lx_src s" "lx_pos s \<le> lx_pos s'" "lx_panic s' = lx_panic s"
    "lx_pending_newline s' = lx_pending_newline s"
    "lx_pos s \<le> length (lx_src s) \<Longrightarrow> lx_pos s' \<le> length (lx_src s)"
    "\<And>i. lx_pos s \<le> i \<Longrightarrow> i < lx_pos s' \<Longrightarrow> p (lx_src s ! i)"
proof -
  obtain n where n: "n \<le> remaining s" "s' = advance_chars n s"
      "\<And>i. i < n \<Longrightarrow> p (lx_src s ! (lx_pos s + i))"
    using assms unfolding walks_def by blast
  note f = advance_chars_fields [OF n(1)]
  show "lx_src s' = lx_src s" "lx_pos s \<le> lx_pos s'" "lx_panic s' = lx_panic s"
    "lx_pending_newline s' = lx_pending_newline s"
    "lx_pos s \<le> length (lx_src s) \<Longrightarrow> lx_pos s' \<le> length (lx_src s)"
    using n f by (auto simp: remaining_def)
  show "p (lx_src s ! i)" if "lx_pos s \<le> i" "i < lx_pos s'" for i
    using n(3) [of "i - lx_pos s"] that f n(2) by simp
qed

lemma synced_advance_char:
  assumes "synced s" "peek s = Some c"
  shows "synced (advance_char s)"
proof -
  have c: "lx_pos s < length (lx_src s)" "lx_src s ! lx_pos s = c"
    using assms(2) by (auto simp: peek_def get_at_Some_iff)
  then have b: "before (advance_char s) = before s @ [c]"
    by (simp add: before_def advance_char_fields take_Suc_conv_app_nth)
  have "lx_line s + 1 < 2 ^ 32" "lx_col s + 1 < 2 ^ 32"
    using assms(1) c(1) line_col_le [of "before s"] by (simp_all add: synced_def countable_source_def before_def)
  then have "lx_line (advance_char s) = line_of (before s @ [c])
      \<and> lx_col (advance_char s) = col_of (before s @ [c])"
    using assms(1,2)
    by (auto simp: synced_def advance_char_def newline_def advance_byte_def line_of_def col_of_def u32_succ_small)
  with c b assms(1) show ?thesis
    by (simp add: synced_def advance_char_fields)
qed

lemma synced_advance_chars: "n \<le> remaining s \<Longrightarrow> synced s \<Longrightarrow> synced (advance_chars n s)"
proof (induction n s rule: advance_chars.induct)
  case (2 n s)
  then have "lx_pos s < length (lx_src s)"
    by (simp add: remaining_def)
  with 2 show ?case
    using synced_advance_char [OF _ peek_conv] by (simp add: advance_char_fields)
qed simp

lemma walks_synced: "walks p s s' \<Longrightarrow> synced s \<Longrightarrow> synced s'"
  unfolding walks_def using synced_advance_chars by blast

section \<open>Scanners walk\<close>

lemma walks_take_while: "\<not> p c_nl \<Longrightarrow> walks p s (take_while p s)"
proof (induction p s rule: take_while.induct)
  case (1 p s)
  show ?case
  proof (cases "\<exists>b. peek s = Some b \<and> p b")
    case True
    then obtain b where b: "peek s = Some b" "p b"
      by blast
    then have "walks p s (advance_byte s)"
      using "1.prems" by (intro walks_byte) auto
    with "1.IH" [OF b] "1.prems" b show ?thesis
      by (subst take_while.simps) (auto intro: walks_trans)
  next
    case False
    then show ?thesis
      by (subst take_while.simps) (auto split: option.splits)
  qed
qed

lemma take_while_stops: "peek (take_while p s) = Some b \<Longrightarrow> \<not> p b"
proof (induction p s rule: take_while.induct)
  case (1 p s)
  show ?case
    using "1.prems" "1.IH"
    by (subst (asm) take_while.simps) (auto split: option.splits if_splits)
qed

lemma peek_at_fields: "peek_at s i = Some c \<longleftrightarrow>
    lx_pos s + i < length (lx_src s) \<and> lx_src s ! (lx_pos s + i) = c"
  by (simp add: peek_at_def get_at_Some_iff)

lemma peek_peek_at: "peek s = peek_at s 0"
  by (simp add: peek_def peek_at_def)

lemma peek_at_advance_byte:
  "peek s = Some b \<Longrightarrow> peek_at (advance_byte s) i = peek_at s (Suc i)"
  by (simp add: peek_at_def pos_advance_byte)

lemma walks_take_n:
  assumes "\<And>i. i < n \<Longrightarrow> \<exists>c. peek_at s i = Some c \<and> p c \<and> c \<noteq> c_nl"
  shows "walks p s (take_n n s) \<and> lx_pos (take_n n s) = lx_pos s + n"
  using assms
proof (induction n s rule: take_n.induct)
  case (2 n s)
  obtain c where c: "peek s = Some c" "p c" "c \<noteq> c_nl"
    using "2.prems" [of 0] by (auto simp: peek_peek_at)
  have "\<exists>c. peek_at (advance_byte s) i = Some c \<and> p c \<and> c \<noteq> c_nl" if "i < n" for i
    using "2.prems" [of "Suc i"] that c(1) by (simp add: peek_at_advance_byte)
  then show ?case
    using "2.IH" walks_byte [of s c p] c walks_trans by (auto simp: pos_advance_byte)
qed simp

lemma walks_two:
  assumes "peek s = Some a" "peek_at s 1 = Some b" "a \<noteq> c_nl" "b \<noteq> c_nl" "p a" "p b"
  shows "walks p s (advance_byte (advance_byte s))"
  using walks_byte [of s a p] walks_byte [of "advance_byte s" b p] assms
  by (auto simp: peek_advance_byte intro: walks_trans)

lemma walks_block_comment_loop:
  "block_comment_loop l c d w s = Inr (w', s') \<Longrightarrow> walks any_char s s'"
proof (induction l c d w s rule: block_comment_loop.induct)
  case (1 l c d w s)
  show ?case
  proof (cases "d = 0 \<or> peek s = None")
    case True
    with "1.prems" show ?thesis
      by (subst (asm) block_comment_loop.simps) (auto split: if_splits)
  next
    case False
    then obtain b where b: "d \<noteq> 0" "peek s = Some b"
      by auto
    note steps = walks_newline [of s any_char] walks_byte [of s b any_char]
      walks_two [of s b _ any_char]
    show ?thesis
      using "1.prems" "1.IH" [OF b] steps b
      by (subst (asm) block_comment_loop.simps)
        (auto split: if_splits intro: walks_trans)
  qed
qed

lemma walks_block_comment:
  assumes "block_comment s = Inr (w, s')" "peek s = Some CHR ''/''" "peek_at s 1 = Some CHR ''*''"
  shows "walks any_char s s'"
  using walks_block_comment_loop [OF assms(1) [unfolded block_comment_def]]
    walks_two [OF assms(2,3), of any_char] walks_trans by auto

lemma walks_line_comment: "walks (\<lambda>c. c \<noteq> c_nl) s (line_comment s)"
  unfolding line_comment_def by (rule walks_take_while) simp

lemma walks_skip_trivia_loop:
  "skip_trivia_loop w s = Inr (w', s') \<Longrightarrow> walks any_char s s'"
proof (induction w s rule: skip_trivia_loop.induct)
  case (1 w s)
  show ?case
  proof (cases "peek s")
    case None
    with "1.prems" show ?thesis
      by (subst (asm) skip_trivia_loop.simps) simp
  next
    case (Some b)
    note steps = walks_newline [of s any_char] walks_byte [of s b any_char]
      walks_any [OF walks_line_comment] walks_block_comment [of s]
    show ?thesis
      using "1.prems" "1.IH" [OF Some] steps Some
      by (subst (asm) skip_trivia_loop.simps)
        (auto split: if_splits sum.splits intro: walks_trans)
  qed
qed

section \<open>Character boundaries\<close>

definition boundary :: "lexer \<Rightarrow> bool" where
  "boundary s \<longleftrightarrow> lx_pos s \<le> length (lx_src s) \<and> utf8_valid (drop (lx_pos s) (lx_src s))"

lemma boundary_char_boundary: "boundary s \<Longrightarrow> char_boundary (lx_src s) (lx_pos s)"
  using utf8_valid_not_cont
  by (cases "lx_pos s < length (lx_src s)")
    (auto simp: boundary_def char_boundary_def Cons_nth_drop_Suc [symmetric])

lemma boundary_stop:
  assumes "walks p s s'" "boundary s" "\<And>c. peek s' = Some c \<Longrightarrow> \<not> is_cont c"
  shows "boundary s'"
proof -
  note w = walks_fields [OF assms(1)]
  let ?rest = "drop (lx_pos s) (lx_src s)" and ?n = "lx_pos s' - lx_pos s"
  have le: "lx_pos s' \<le> length (lx_src s)"
    using assms(2) w(5) by (simp add: boundary_def)
  have "utf8_valid (drop ?n ?rest)"
  proof (rule utf8_valid_boundary)
    show "utf8_valid ?rest"
      using assms(2) by (simp add: boundary_def)
    show "?n \<le> length ?rest"
      using le w(2) by simp
    show "\<not> is_cont (?rest ! ?n)" if "?n < length ?rest"
      using that assms(3) [of "lx_src s ! lx_pos s'"] w(1,2) peek_conv [of s'] by simp
  qed
  with w le show ?thesis
    by (simp add: boundary_def)
qed

lemma boundary_after_ascii:
  assumes "walks p s s'" "boundary s" "lx_pos s < lx_pos s'"
    and "is_ascii (lx_src s ! (lx_pos s' - 1))"
  shows "boundary s'"
proof -
  note w = walks_fields [OF assms(1)]
  let ?rest = "drop (lx_pos s) (lx_src s)" and ?n = "lx_pos s' - 1 - lx_pos s"
  have le: "lx_pos s' \<le> length (lx_src s)"
    using assms(2) w(5) by (simp add: boundary_def)
  have "utf8_valid (drop (Suc ?n) ?rest)"
    by (rule utf8_valid_drop_ascii) (use assms le in \<open>auto simp: boundary_def\<close>)
  with w le assms(3) show ?thesis
    by (simp add: boundary_def Suc_diff_Suc)
qed

lemma boundary_ascii_walk:
  assumes "walks is_ascii s s'" "boundary s"
  shows "boundary s'"
proof (cases "lx_pos s < lx_pos s'")
  case True
  then have "is_ascii (lx_src s ! (lx_pos s' - 1))"
    by (intro walks_fields(6) [OF assms(1)]) auto
  then show ?thesis
    by (rule boundary_after_ascii [OF assms True])
next
  case False
  then obtain n where "n = 0" "s' = advance_chars n s"
    using assms(1) advance_chars_fields unfolding walks_def by fastforce
  then show ?thesis
    using assms(2) by simp
qed

text \<open>A whole scalar outside ASCII, as the identifier and operator loops step over it.\<close>

lemma scalar_step:
  assumes "utf8_valid (drop i src)" "i < length src" "128 \<le> byte (src ! i)"
    and "scalar_at src i = Some (ch, n)"
  shows "i + n \<le> length src" "utf8_valid (drop (i + n) src)"
    "\<And>j. j < n \<Longrightarrow> 128 \<le> byte (src ! (i + j))"
proof -
  have d: "drop i src = src ! i # drop (Suc i) src"
    using assms(2) by (simp add: Cons_nth_drop_Suc)
  have n: "n = utf8_len (src ! i)"
    using assms(4) utf8_head_len [of "drop i src"] d by (auto simp: scalar_at_def split: if_splits)
  note st = utf8_valid_step [of "src ! i" "drop (Suc i) src", folded d n, OF assms(1)]
  show "i + n \<le> length src" "utf8_valid (drop (i + n) src)"
    using st(1,2) assms(2) by (auto simp: add.commute)
  show "128 \<le> byte (src ! (i + j))" if "j < n" for j
  proof (cases "j = 0")
    case False
    then show ?thesis
      using st(3) [of j] that st(1) assms(2) by (simp add: is_cont_def)
  qed (use assms(3) in simp)
qed

lemma high_not_nl: "128 \<le> byte c \<Longrightarrow> c \<noteq> c_nl"
  by (auto simp: byte_def)

lemma walks_scalar:
  assumes "boundary s" "peek s = Some b" "128 \<le> byte b"
    and "scalar_at (lx_src s) (lx_pos s) = Some (ch, n)"
  shows "walks any_char s (take_n n s)" "boundary (take_n n s)" "lx_pos (take_n n s) = lx_pos s + n"
proof -
  have p: "lx_pos s < length (lx_src s)" "lx_src s ! lx_pos s = b"
    using assms(2) by (auto simp: peek_def get_at_Some_iff)
  note st = scalar_step [of "lx_pos s" "lx_src s" ch n]
  have "\<exists>c. peek_at s i = Some c \<and> c \<noteq> c_nl" if "i < n" for i
    using st(1,3) that assms p high_not_nl by (fastforce simp: peek_at_fields boundary_def)
  then show w: "walks any_char s (take_n n s)" and "lx_pos (take_n n s) = lx_pos s + n"
    using walks_take_n [of n s any_char] by auto
  then show "boundary (take_n n s)"
    using st assms p by (simp add: boundary_def)
qed

lemma ident_run_walks:
  "boundary s \<Longrightarrow> walks any_char s (ident_run s) \<and> boundary (ident_run s)"
proof (induction s rule: ident_run.induct)
  case (1 s)
  show ?case
  proof (cases "peek s")
    case (Some b)
    consider "byte b < 128" "\<not> is_ident_continue b" | "byte b < 128" "is_ident_continue b"
      | "128 \<le> byte b" by linarith
    then show ?thesis
    proof cases
      case 2
      then have w: "walks is_ascii s (advance_byte s)"
        using Some by (intro walks_byte [of _ b]) (auto simp: is_ascii_def is_ident_continue_def
            is_ascii_alpha_def is_ascii_digit_def byte_def)
      then have "boundary (advance_byte s)"
        using "1.prems" boundary_ascii_walk by blast
      with "1.IH"(1) [OF Some 2] w 2 Some show ?thesis
        by (subst (1 2) ident_run.simps) (auto intro: walks_trans)
    next
      case 3
      have "char_boundary (lx_src s) (lx_pos s)"
        by (rule boundary_char_boundary [OF "1.prems"])
      then obtain ch n where cn: "scalar_at (lx_src s) (lx_pos s) = Some (ch, n)"
        by (cases "utf8_head (drop (lx_pos s) (lx_src s))") (simp add: scalar_at_def)
      note w = walks_scalar [OF "1.prems" Some 3 cn]
      show ?thesis
      proof (cases "is_unicode_operator_scalar ch")
        case True
        then show ?thesis
          using Some 3 cn "1.prems" by (subst (1 2) ident_run.simps) simp
      next
        case False
        with "1.IH"(2) [OF Some _ cn refl False] w 3 Some cn show ?thesis
          by (subst (1 2) ident_run.simps) (auto intro: walks_trans)
      qed
    qed (use Some "1.prems" in \<open>subst (1 2) ident_run.simps, simp\<close>)
  qed (use "1.prems" in \<open>subst (1 2) ident_run.simps, simp\<close>)
qed

lemma pure_operator_ascii:
  "is_pure_operator_byte b \<Longrightarrow> is_ascii b \<and> b \<noteq> c_nl"
  by (auto simp: is_pure_operator_byte_def is_ascii_def byte_def)

lemma scalar_at_boundary:
  assumes "boundary s"
  obtains ch n where "scalar_at (lx_src s) (lx_pos s) = Some (ch, n)"
  using boundary_char_boundary [OF assms]
  by (cases "utf8_head (drop (lx_pos s) (lx_src s))") (simp add: scalar_at_def)

lemma unicode_operator_run_walks:
  "boundary s \<Longrightarrow>
     walks any_char s (unicode_operator_run s) \<and> boundary (unicode_operator_run s)"
proof (induction s rule: unicode_operator_run.induct)
  case (1 s)
  show ?case
  proof (cases "peek s")
    case (Some b)
    consider "byte b < 128" "\<not> is_pure_operator_byte b"
      | "byte b < 128" "is_pure_operator_byte b" | "128 \<le> byte b" by linarith
    then show ?thesis
    proof cases
      case 2
      then have w: "walks is_ascii s (advance_byte s)"
        using Some pure_operator_ascii by (intro walks_byte [of _ b]) auto
      then have "boundary (advance_byte s)"
        using "1.prems" boundary_ascii_walk by blast
      with "1.IH"(1) [OF Some 2] w 2 Some show ?thesis
        by (subst (1 2) unicode_operator_run.simps) (auto intro: walks_trans)
    next
      case 3
      obtain ch n where cn: "scalar_at (lx_src s) (lx_pos s) = Some (ch, n)"
        by (rule scalar_at_boundary [OF "1.prems"])
      note w = walks_scalar [OF "1.prems" Some 3 cn]
      show ?thesis
      proof (cases "is_unicode_operator_scalar ch")
        case False
        then show ?thesis
          using Some 3 cn "1.prems" by (subst (1 2) unicode_operator_run.simps) simp
      next
        case True
        with "1.IH"(2) [OF Some _ cn refl True] w 3 Some cn show ?thesis
          by (subst (1 2) unicode_operator_run.simps) (auto intro: walks_trans)
      qed
    qed (use Some "1.prems" in \<open>subst (1 2) unicode_operator_run.simps, simp\<close>)
  qed (use "1.prems" in \<open>subst (1 2) unicode_operator_run.simps, simp\<close>)
qed

text \<open>
  \<open>operator_run\<close> only measures the run: from a length that ends at a boundary it gets to
  one, and the bytes it adds contain no line break.
\<close>

definition run_ok :: "lexer \<Rightarrow> nat \<Rightarrow> bool" where
  "run_ok s n \<longleftrightarrow> lx_pos s + n \<le> length (lx_src s)
     \<and> utf8_valid (drop (lx_pos s + n) (lx_src s))
     \<and> (\<forall>i<n. lx_src s ! (lx_pos s + i) \<noteq> c_nl)"

lemma run_ok_extend:
  assumes "run_ok s n" "lx_pos s + n + k \<le> length (lx_src s)"
    and "utf8_valid (drop (lx_pos s + n + k) (lx_src s))"
    and "\<And>j. j < k \<Longrightarrow> lx_src s ! (lx_pos s + n + j) \<noteq> c_nl"
  shows "run_ok s (n + k)"
proof -
  have "lx_src s ! (lx_pos s + i) \<noteq> c_nl" if "i < n + k" for i
    using that assms(1) assms(4) [of "i - n"]
    by (cases "i < n") (auto simp: run_ok_def)
  with assms show ?thesis
    by (auto simp: run_ok_def add.assoc)
qed

lemma operator_run_ok:
  "run_ok s n \<Longrightarrow> \<exists>m. operator_run s n = Some m \<and> n \<le> m \<and> run_ok s m"
proof (induction s n rule: operator_run.induct)
  case (1 s n)
  show ?case
  proof (cases "peek_at s n")
    case None
    then show ?thesis
      using "1.prems" by (subst operator_run.simps) simp
  next
    case (Some b)
    then have b: "lx_pos s + n < length (lx_src s)" "lx_src s ! (lx_pos s + n) = b"
      by (auto simp: peek_at_fields)
    have valid: "utf8_valid (drop (lx_pos s + n) (lx_src s))"
      using "1.prems" by (simp add: run_ok_def)
    consider "byte b < 128" "\<not> is_pure_operator_byte b"
      | "byte b < 128" "is_pure_operator_byte b" | "128 \<le> byte b" by linarith
    then show ?thesis
    proof cases
      case 1
      then show ?thesis
        using "1.prems" Some by (subst operator_run.simps) simp
    next
      case 2
      have "utf8_valid (drop (Suc 0) (drop (lx_pos s + n) (lx_src s)))"
        using b 2 utf8_valid_drop_ascii(2) [OF valid, of 0] by (simp add: is_ascii_def)
      then have "run_ok s (n + 1)"
        using "1.prems" b 2 pure_operator_ascii
        by (intro run_ok_extend) (auto simp: add.commute)
      from "1.IH"(1) [OF Some 2 this] 2 Some show ?thesis
        by (subst operator_run.simps) auto
    next
      case 3
      have "\<not> is_cont b"
        using utf8_valid_not_cont valid b by (metis Cons_nth_drop_Suc)
      then obtain ch k where ck: "scalar_at (lx_src s) (lx_pos s + n) = Some (ch, k)"
        using b by (cases "utf8_head (drop (lx_pos s + n) (lx_src s))")
          (simp add: scalar_at_def char_boundary_def)
      note st = scalar_step [OF valid b(1) _ ck]
      have "run_ok s (n + k)" if "is_unicode_operator_scalar ch"
        using "1.prems" b 3 st high_not_nl by (intro run_ok_extend) (auto simp: add.assoc)
      with "1.IH"(2) [OF Some _ ck refl] 3 Some ck "1.prems" show ?thesis
        by (subst operator_run.simps) auto
    qed
  qed
qed

lemma run_ok_walks:
  assumes "run_ok s n" "boundary s"
  shows "walks any_char s (take_n n s)" "boundary (take_n n s)" "lx_pos (take_n n s) = lx_pos s + n"
proof -
  have "\<exists>c. peek_at s i = Some c \<and> any_char c \<and> c \<noteq> c_nl" if "i < n" for i
    using that assms(1) by (auto simp: peek_at_fields run_ok_def)
  then show "walks any_char s (take_n n s)" and p: "lx_pos (take_n n s) = lx_pos s + n"
    using walks_take_n [of n s any_char] by auto
  then show "boundary (take_n n s)"
    using assms(1) by (simp add: boundary_def run_ok_def)
qed

lemma at_prefix_peek:
  assumes "at_prefix s p" "i < length p"
  shows "peek_at s i = Some (p ! i)"
proof -
  obtain ys where "drop (lx_pos s) (lx_src s) = p @ ys"
    using assms(1) by (auto simp: at_prefix_def starts_with_append)
  then have "get_at (drop (lx_pos s) (lx_src s)) i = Some (p ! i)"
    using assms(2) by (simp add: get_at_def nth_append)
  then show ?thesis
    by (simp add: peek_at_def get_at_drop)
qed

definition plain_ascii :: "char \<Rightarrow> bool" where
  "plain_ascii c \<longleftrightarrow> is_ascii c \<and> c \<noteq> c_nl"

lemma plain_ascii_class:
  "is_hex_or_us c \<Longrightarrow> plain_ascii c" "is_dec_or_us c \<Longrightarrow> plain_ascii c"
  "is_oct_or_us c \<Longrightarrow> plain_ascii c" "is_bin_or_us c \<Longrightarrow> plain_ascii c"
  "is_ascii_digit (byte c) \<Longrightarrow> plain_ascii c"
  by (auto simp: is_hex_or_us_def is_dec_or_us_def is_oct_or_us_def is_bin_or_us_def
      is_ascii_hexdigit_def is_ascii_digit_def plain_ascii_def is_ascii_def byte_def)

lemma at_prefix_walks:
  assumes "at_prefix s p" "list_all plain_ascii p" "boundary s"
  shows "walks plain_ascii s (take_n (length p) s)" "boundary (take_n (length p) s)"
    "lx_pos (take_n (length p) s) = lx_pos s + length p" "run_ok s (length p)"
proof -
  have w: "walks plain_ascii s (take_n (length p) s)
      \<and> lx_pos (take_n (length p) s) = lx_pos s + length p"
    using assms by (intro walks_take_n)
      (auto simp: at_prefix_peek list_all_length plain_ascii_def)
  then show "walks plain_ascii s (take_n (length p) s)"
    and p: "lx_pos (take_n (length p) s) = lx_pos s + length p"
    by auto
  have a: "walks is_ascii s (take_n (length p) s)"
    by (rule walks_mono [OF conjunct1 [OF w]]) (simp add: plain_ascii_def)
  show b: "boundary (take_n (length p) s)"
    by (rule boundary_ascii_walk [OF a assms(3)])
  show "run_ok s (length p)"
    using b p walks_fields(6) [OF conjunct1 [OF w]] by (auto simp: run_ok_def boundary_def plain_ascii_def)
qed

section \<open>Literals\<close>

text \<open>A number scanner reads plain ASCII bytes only.\<close>

lemma walks_plain_ascii:
  assumes "walks plain_ascii s s'" "boundary s"
  shows "walks any_char s s'" "boundary s'"
proof -
  show "walks any_char s s'"
    by (rule walks_any [OF assms(1)])
  show "boundary s'"
    by (rule boundary_ascii_walk [OF walks_mono [OF assms(1)] assms(2)]) (simp add: plain_ascii_def)
qed

lemma walks_class:
  assumes "\<And>c. run c \<Longrightarrow> plain_ascii c"
  shows "walks plain_ascii s (take_while run s)"
  by (rule walks_mono [OF walks_take_while]) (use assms in \<open>auto simp: plain_ascii_def\<close>)

lemma walks_peek_is:
  assumes "peek_is s 0 p" "\<And>c. p c \<Longrightarrow> plain_ascii c"
  shows "walks plain_ascii s (advance_byte s)"
  using assms by (auto simp: peek_is_def peek_peek_at plain_ascii_def split: option.splits
      intro!: walks_byte)

lemma walks_sign_and_digits: "walks plain_ascii s (take_sign_and_digits s)"
proof -
  have "walks plain_ascii s
      (if peek s = Some CHR ''+'' \<or> peek s = Some CHR ''-'' then advance_byte s else s)"
    by (auto intro!: walks_byte simp: plain_ascii_def is_ascii_def byte_def)
  then show ?thesis
    unfolding take_sign_and_digits_def
    by (rule walks_trans) (rule walks_class, rule plain_ascii_class)
qed

lemma walks_number_fraction:
  assumes "\<And>c. run c \<Longrightarrow> plain_ascii c" "walks plain_ascii s0 (snd fs)"
  shows "walks plain_ascii s0 (snd (number_fraction dig run fs))"
proof (cases "peek (snd fs) = Some CHR ''.'' \<and> peek_is (snd fs) 1 dig")
  case True
  then have "walks plain_ascii (snd fs) (advance_byte (snd fs))"
    by (auto intro!: walks_byte simp: plain_ascii_def is_ascii_def byte_def)
  from walks_trans [OF walks_trans [OF assms(2) this] walks_class [OF assms(1)]] True
  show ?thesis
    by (simp add: number_fraction_def Let_def)
next
  case False
  then show ?thesis
    using assms(2) by (auto simp: number_fraction_def Let_def)
qed

lemma walks_number_exponent:
  assumes "\<And>c. c \<in> set letters \<Longrightarrow> plain_ascii c" "walks plain_ascii s0 (snd fs)"
  shows "walks plain_ascii s0 (snd (number_exponent letters fs))"
proof (cases "peek_is (snd fs) 0 (\<lambda>c. c \<in> set letters)")
  case True
  then have "walks plain_ascii (snd fs) (advance_byte (snd fs))"
    using assms(1) by (rule walks_peek_is)
  from walks_trans [OF walks_trans [OF assms(2) this] walks_sign_and_digits] True
  show ?thesis
    by (simp add: number_exponent_def Let_def)
next
  case False
  then show ?thesis
    using assms(2) by (simp add: number_exponent_def Let_def)
qed

lemma walks_radix_prefix:
  assumes "peek s = Some CHR ''0''" "peek_is s 1 (\<lambda>c. c \<in> set letters)"
    and "\<And>c. c \<in> set letters \<Longrightarrow> plain_ascii c"
  shows "walks plain_ascii (advance_byte s) (take_n 2 s)"
  using assms
  by (auto simp: peek_is_def peek_advance_byte plain_ascii_def numeral_2_eq_2
      split: option.splits intro!: walks_byte)

lemma letters_plain:
  "c \<in> set ''xX'' \<Longrightarrow> plain_ascii c" "c \<in> set ''oO'' \<Longrightarrow> plain_ascii c"
  "c \<in> set ''bB'' \<Longrightarrow> plain_ascii c" "c \<in> set ''pP'' \<Longrightarrow> plain_ascii c"
  "c \<in> set ''eE'' \<Longrightarrow> plain_ascii c"
  by (auto simp: plain_ascii_def is_ascii_def byte_def)

lemma walks_number_rest:
  assumes "peek s = Some c" "is_ascii_digit (byte c)"
  shows "walks plain_ascii (advance_byte s) (snd (number s))"
proof -
  have pre: "walks plain_ascii (advance_byte s) (take_while run (take_n 2 s))"
    if "peek s = Some CHR ''0''" "peek_is s 1 (\<lambda>c. c \<in> set letters)"
      "\<And>c. c \<in> set letters \<Longrightarrow> plain_ascii c" "\<And>c. run c \<Longrightarrow> plain_ascii c" for letters run
    using walks_radix_prefix [OF that(1-3)] walks_class [OF that(4)] walks_trans by blast
  let ?zero = "peek s = Some CHR ''0''" and ?in = "\<lambda>letters. peek_is s 1 (\<lambda>c. c \<in> set letters)"
  consider "?zero \<and> ?in ''xX''" | "\<not> (?zero \<and> ?in ''xX'')" "?zero \<and> ?in ''oO''"
    | "\<not> (?zero \<and> ?in ''xX'')" "\<not> (?zero \<and> ?in ''oO'')" "?zero \<and> ?in ''bB''"
    | "\<not> (?zero \<and> ?in ''xX'')" "\<not> (?zero \<and> ?in ''oO'')" "\<not> (?zero \<and> ?in ''bB'')"
    by blast
  then show ?thesis
  proof cases
    case 1
    have "walks plain_ascii (advance_byte s) (take_while is_hex_or_us (take_n 2 s))"
      by (rule pre [OF conjunct1 [OF 1] conjunct2 [OF 1] letters_plain(1) plain_ascii_class(1)])
    then have "walks plain_ascii (advance_byte s) (snd (number_exponent ''pP''
        (number_fraction (\<lambda>c. is_ascii_hexdigit (byte c)) is_hex_or_us
          (False, take_while is_hex_or_us (take_n 2 s)))))"
      by (intro walks_number_exponent walks_number_fraction)
        (simp_all add: letters_plain plain_ascii_class del: set_simps)
    then show ?thesis
      using 1 by (simp add: number_def Let_def case_prod_beta del: set_simps)
  next
    case 2
    have "walks plain_ascii (advance_byte s) (take_while is_oct_or_us (take_n 2 s))"
      by (rule pre [OF conjunct1 [OF 2(2)] conjunct2 [OF 2(2)] letters_plain(2) plain_ascii_class(3)])
    then show ?thesis
      using 2 by (simp add: number_def Let_def case_prod_beta del: set_simps)
  next
    case 3
    have "walks plain_ascii (advance_byte s) (take_while is_bin_or_us (take_n 2 s))"
      by (rule pre [OF conjunct1 [OF 3(3)] conjunct2 [OF 3(3)] letters_plain(3) plain_ascii_class(4)])
    then show ?thesis
      using 3 by (simp add: number_def Let_def case_prod_beta del: set_simps)
  next
    case 4
    have "take_while is_dec_or_us s = take_while is_dec_or_us (advance_byte s)"
      using assms by (subst take_while.simps) (simp add: is_dec_or_us_def)
    then have "walks plain_ascii (advance_byte s) (snd (number_exponent ''eE''
        (number_fraction (\<lambda>c. is_ascii_digit (byte c)) is_dec_or_us
          (False, take_while is_dec_or_us s))))"
      by (intro walks_number_exponent walks_number_fraction)
        (simp_all add: letters_plain plain_ascii_class walks_class del: set_simps)
    then show ?thesis
      using 4 by (auto simp: number_def Let_def case_prod_beta simp del: set_simps)
  qed
qed

lemma walks_number:
  assumes "peek s = Some c" "is_ascii_digit (byte c)" "boundary s"
  shows "walks any_char s (snd (number s))" "boundary (snd (number s))"
    "lx_pos s < lx_pos (snd (number s))"
proof -
  have step: "walks plain_ascii s (advance_byte s)"
    using assms(1,2) plain_ascii_class(5) by (intro walks_byte) (auto simp: plain_ascii_def)
  note w = walks_trans [OF step walks_number_rest [OF assms(1,2)]]
  show "walks any_char s (snd (number s))" "boundary (snd (number s))"
    using walks_plain_ascii [OF w assms(3)] by auto
  show "lx_pos s < lx_pos (snd (number s))"
    using walks_fields(2) [OF walks_number_rest [OF assms(1,2)]] pos_advance_byte [OF assms(1)]
    by simp
qed

lemma bare_regex_loop_end:
  "bare_regex_loop src st cl i = Some n \<Longrightarrow> st \<le> i \<Longrightarrow>
     0 < n \<and> st + n \<le> length src \<and> src ! (st + n - 1) = CHR ''/''"
proof (induction src st cl i rule: bare_regex_loop.induct)
  case (1 src st cl i)
  show ?case
  proof (cases "get_at src i")
    case None
    with "1.prems" show ?thesis
      by (subst (asm) bare_regex_loop.simps) simp
  next
    case (Some b)
    then have "i < length src" "src ! i = b"
      by (auto simp: get_at_Some_iff)
    then show ?thesis
      using "1.prems" "1.IH" [OF Some] Some
      by (subst (asm) bare_regex_loop.simps) (auto split: if_splits)
  qed
qed

lemma hashes_at_last:
  assumes "hashes_at src i h" "0 < h"
  shows "i + h \<le> length src" "src ! (i + h - 1) = CHR ''#''"
proof -
  have "get_at src (i + (h - 1)) = Some CHR ''#''"
    using assms unfolding hashes_at_def list_all_iff by (metis atLeastLessThan_upt atLeastLessThan_iff
        diff_less less_numeral_extra(1) zero_le)
  then show "i + h \<le> length src" "src ! (i + h - 1) = CHR ''#''"
    using assms(2) by (auto simp: get_at_Some_iff)
qed

lemma pound_regex_loop_end:
  "pound_regex_loop src st h i = Some n \<Longrightarrow> st \<le> i \<Longrightarrow> 0 < h \<Longrightarrow>
     0 < n \<and> st + n \<le> length src \<and> src ! (st + n - 1) = CHR ''#''"
proof (induction src st h i rule: pound_regex_loop.induct)
  case (1 src st h i)
  show ?case
  proof (cases "get_at src i")
    case None
    with "1.prems" show ?thesis
      by (subst (asm) pound_regex_loop.simps) simp
  next
    case (Some b)
    then have "i < length src"
      by (simp add: get_at_Some_iff)
    then show ?thesis
      using "1.prems" "1.IH" [OF Some] hashes_at_last [of src "Suc i" h] Some
      by (subst (asm) pound_regex_loop.simps) (auto split: if_splits)
  qed
qed

lemma bare_regex_len_end:
  assumes "bare_regex_len s = Some n"
  shows "0 < n" "n \<le> remaining s" "is_ascii (lx_src s ! (lx_pos s + n - 1))"
proof -
  have "bare_regex_loop (lx_src s) (lx_pos s) False (lx_pos s + 1) = Some n"
    using assms by (auto simp: bare_regex_len_def Let_def split: option.splits if_splits)
  from bare_regex_loop_end [OF this] show "0 < n" "n \<le> remaining s"
    "is_ascii (lx_src s ! (lx_pos s + n - 1))"
    by (auto simp: remaining_def is_ascii_def byte_def)
qed

lemma pound_regex_len_end:
  assumes "pound_regex_len s = Some n"
  shows "0 < n" "n \<le> remaining s" "is_ascii (lx_src s ! (lx_pos s + n - 1))"
proof -
  have h: "0 < leading_hashes s" and "pound_regex_loop (lx_src s) (lx_pos s) (leading_hashes s)
      (lx_pos s + leading_hashes s + 1) = Some n"
    using assms by (auto simp: pound_regex_len_def Let_def split: if_splits)
  from pound_regex_loop_end [OF this(2) _ h] show "0 < n" "n \<le> remaining s"
    "is_ascii (lx_src s ! (lx_pos s + n - 1))"
    by (auto simp: remaining_def is_ascii_def byte_def)
qed

lemma advance_chars_walks:
  assumes "0 < n" "n \<le> remaining s" "is_ascii (lx_src s ! (lx_pos s + n - 1))" "boundary s"
  shows "walks any_char s (advance_chars n s)" "boundary (advance_chars n s)"
    "lx_pos s < lx_pos (advance_chars n s)"
proof -
  show w: "walks any_char s (advance_chars n s)"
    unfolding walks_def using assms(2) by auto
  show less: "lx_pos s < lx_pos (advance_chars n s)"
    using advance_chars_fields [OF assms(2)] assms(1) by simp
  show "boundary (advance_chars n s)"
    by (rule boundary_after_ascii [OF w assms(4) less])
      (use advance_chars_fields [OF assms(2)] assms(1,3) in simp)
qed

lemma peek_leading_hashes: "i < leading_hashes s \<Longrightarrow> peek_at s i = Some CHR ''#''"
proof -
  assume i: "i < leading_hashes s"
  let ?t = "takeWhile (\<lambda>c. c = CHR ''#'') (drop (lx_pos s) (lx_src s))"
  have "?t ! i = CHR ''#''"
    using i set_takeWhileD [OF nth_mem [of i ?t]] by (simp add: leading_hashes_def)
  moreover have "drop (lx_pos s) (lx_src s) ! i = ?t ! i"
    using i by (simp add: leading_hashes_def takeWhile_nth)
  moreover have "i < length (drop (lx_pos s) (lx_src s))"
    using i length_takeWhile_le order_less_le_trans unfolding leading_hashes_def by blast
  ultimately show ?thesis
    by (simp add: peek_at_fields)
qed

lemma walks_skip_escape:
  assumes "peek s = Some b"
  shows "walks any_char s (skip_escape s)"
  using walks_char [OF assms, of any_char] walks_char [of "advance_char s" _ any_char]
  by (auto simp: skip_escape_def Let_def intro: walks_trans)

lemma walks_nested_string_loop: "walks any_char s (nested_string_loop s)"
proof (induction s rule: nested_string_loop.induct)
  case (1 s)
  show ?case
  proof (cases "peek s")
    case (Some c)
    show ?thesis
      using "1.IH" [OF Some] Some walks_char [OF Some, of any_char] walks_skip_escape [OF Some]
      by (subst nested_string_loop.simps) (auto intro: walks_trans)
  qed (subst nested_string_loop.simps, simp)
qed

lemma walks_interpolation_loop:
  "interpolation_loop l c d s = Inr s' \<Longrightarrow> walks any_char s s'"
proof (induction l c d s rule: interpolation_loop.induct)
  case (1 l c d s)
  show ?case
  proof (cases "d = 0 \<or> peek s = None")
    case True
    with "1.prems" show ?thesis
      by (subst (asm) interpolation_loop.simps) (auto split: if_splits)
  next
    case False
    then obtain b where b: "d \<noteq> 0" "peek s = Some b"
      by auto
    note steps = walks_char [OF b(2), of any_char]
      walks_trans [OF walks_char [OF b(2), of any_char] walks_nested_string_loop]
    show ?thesis
      using "1.prems" "1.IH" [OF b] steps b
      by (subst (asm) interpolation_loop.simps)
        (auto simp: skip_nested_string_def split: if_splits intro: walks_trans)
  qed
qed

lemma walks_consume_interpolation:
  assumes "consume_interpolation h l c s = Inr s'" "at_interpolation s h"
  shows "walks any_char s s'"
proof -
  have "\<exists>x. peek_at s i = Some x \<and> x \<noteq> c_nl" if lt: "i < 1 + h + 1" for i
  proof -
    consider "i = 0" | "i \<noteq> 0" "i - 1 < h" | "i = Suc h"
      using lt by linarith
    then show ?thesis
    proof cases
      case 2
      then obtain j where "i = Suc j" "j < h"
        by (cases i) auto
      then show ?thesis
        using assms(2) by (auto simp: at_interpolation_def list_all_iff)
    qed (use assms(2) in \<open>auto simp: at_interpolation_def peek_peek_at\<close>)
  qed
  then have "walks any_char s (take_n (1 + h + 1) s)"
    by (intro walks_take_n [THEN conjunct1]) auto
  with walks_interpolation_loop [OF assms(1) [unfolded consume_interpolation_def]] show ?thesis
    by (auto intro: walks_trans)
qed

text \<open>The closing delimiter ends in a quote or a \<open>#\<close>.\<close>

lemma walks_closing:
  assumes "at_closing_delimiter s q h" "0 < q"
  shows "walks plain_ascii s (take_n (q + h) s)" "lx_pos (take_n (q + h) s) = lx_pos s + (q + h)"
proof -
  have "\<exists>x. peek_at s i = Some x \<and> plain_ascii x \<and> x \<noteq> c_nl" if lt: "i < q + h" for i
  proof (cases "i < q")
    case True
    then have "peek_at s i = Some c_quote"
      using assms(1) by (auto simp: at_closing_delimiter_def list_all_iff)
    then show ?thesis
      by (auto simp: plain_ascii_def is_ascii_def byte_def)
  next
    case False
    then obtain j where "i = q + j" "j < h"
      using lt by (auto simp: not_less dest!: le_Suc_ex)
    then have "peek_at s i = Some CHR ''#''"
      using assms(1) by (auto simp: at_closing_delimiter_def list_all_iff)
    then show ?thesis
      by (auto simp: plain_ascii_def is_ascii_def byte_def)
  qed
  then show "walks plain_ascii s (take_n (q + h) s)"
    "lx_pos (take_n (q + h) s) = lx_pos s + (q + h)"
    using walks_take_n [of "q + h" s plain_ascii] by auto
qed

lemma string_loop_walks:
  "string_loop l c m q h s = Inr s' \<Longrightarrow> 0 < q \<Longrightarrow>
     walks any_char s s' \<and> lx_pos s < lx_pos s' \<and> is_ascii (lx_src s ! (lx_pos s' - 1))"
proof (induction l c m q h s rule: string_loop.induct)
  case (1 l c m q h s)
  show ?case
  proof (cases "peek s")
    case None
    with "1.prems" show ?thesis
      by (subst (asm) string_loop.simps) simp
  next
    case (Some b)
    have ext: ?thesis if "walks any_char s t" "walks any_char t s' \<and> lx_pos t < lx_pos s'
        \<and> is_ascii (lx_src t ! (lx_pos s' - 1))" for t
      using that walks_fields(1,2) [OF that(1)] by (auto intro: walks_trans)
    consider (close) "b = c_quote \<and> at_closing_delimiter s q h"
      | (interp) "\<not> (b = c_quote \<and> at_closing_delimiter s q h)"
          "b = c_backslash \<and> at_interpolation s h"
      | (other) "\<not> (b = c_quote \<and> at_closing_delimiter s q h)"
          "\<not> (b = c_backslash \<and> at_interpolation s h)"
      by blast
    then show ?thesis
    proof cases
      case close
      have s': "s' = take_n (q + h) s"
        using close Some "1.prems"(1) by (subst (asm) string_loop.simps) auto
      note w = walks_closing [OF conjunct2 [OF close] "1.prems"(2)]
      have "plain_ascii (lx_src s ! (lx_pos s' - 1))"
        using walks_fields(6) [OF w(1), of "lx_pos s' - 1"] w(2) "1.prems"(2) s' by simp
      with w "1.prems"(2) s' show ?thesis
        by (auto simp: plain_ascii_def)
    next
      case interp
      then obtain t where t: "consume_interpolation h l c s = Inr t"
          "string_loop l c m q h t = Inr s'"
        using Some "1.prems"(1) by (subst (asm) string_loop.simps) (auto split: sum.splits)
      show ?thesis
        by (rule ext [OF walks_consume_interpolation [OF t(1) conjunct2 [OF interp(2)]]])
          (rule "1.IH"(1) [OF refl Some interp t(1,2) "1.prems"(2)])
    next
      case other
      consider "b = c_backslash \<and> h = 0" "string_loop l c m q h (skip_escape s) = Inr s'"
        | "\<not> (b = c_backslash \<and> h = 0)" "\<not> (b = c_nl \<and> \<not> m)"
          "string_loop l c m q h (advance_char s) = Inr s'"
        using other Some "1.prems"(1)
        by (subst (asm) string_loop.simps) (auto simp: Let_def split: if_splits)
      then show ?thesis
      proof cases
        case 1
        show ?thesis
          by (rule ext [OF walks_skip_escape [OF Some]])
            (rule "1.IH"(2) [OF refl Some other 1 "1.prems"(2)])
      next
        case 2
        show ?thesis
          by (rule ext [OF walks_char [OF Some]])
            (use "1.IH"(3) [OF refl Some other 2 "1.prems"(2)] in auto)
      qed
    qed
  qed
qed

lemma string_body_walks:
  assumes "string_body l c s = Inr s'" "peek_at s (leading_hashes s) = Some c_quote" "boundary s"
  shows "walks any_char s s'" "lx_pos s < lx_pos s'" "boundary s'"
proof -
  let ?h = "leading_hashes s"
  let ?s1 = "take_n ?h s"
  let ?multi = "at_prefix ?s1 [c_quote, c_quote, c_quote]"
  let ?q = "if ?multi then 3 else 1 :: nat"
  have s1: "walks any_char s ?s1" "lx_pos ?s1 = lx_pos s + ?h"
    using walks_take_n [of ?h s any_char] peek_leading_hashes by auto
  have "\<exists>x. peek_at ?s1 i = Some x \<and> x \<noteq> c_nl" if "i < ?q" for i
  proof (cases ?multi)
    case True
    then show ?thesis
      using at_prefix_peek [OF True, of i] that by (auto simp: less_Suc_eq numeral_3_eq_3)
  next
    case False
    then show ?thesis
      using assms(2) s1(2) that by (auto simp: peek_at_def)
  qed
  then have s2: "walks any_char ?s1 (take_n ?q ?s1)"
    by (intro walks_take_n [THEN conjunct1]) auto
  have loop: "string_loop l c ?multi ?q ?h (take_n ?q ?s1) = Inr s'"
    using assms(1) by (simp add: string_body_def Let_def)
  note w12 = walks_trans [OF s1(1) s2]
  have "0 < ?q"
    by simp
  note w3 = string_loop_walks [OF loop this]
  show w: "walks any_char s s'"
    using w12 w3 by (auto intro: walks_trans)
  show p: "lx_pos s < lx_pos s'"
    using w3 walks_fields(2) [OF w12] by auto
  show "boundary s'"
    by (rule boundary_after_ascii [OF w assms(3) p]) (use w3 in auto)
qed

section \<open>One token\<close>

text \<open>
  What a token says of the piece of source it was cut from: its text is the piece
  (without the backticks of an escaped identifier), its line and column are those of its
  first character.
\<close>

definition lexeme :: "token \<Rightarrow> string \<Rightarrow> bool" where
  "lexeme t piece \<longleftrightarrow> piece = tk_text t
     \<or> tk_kind t = TIdentifier \<and> piece = [c_backtick] @ tk_text t @ [c_backtick]"

definition token_at :: "lexer \<Rightarrow> token \<Rightarrow> lexer \<Rightarrow> bool" where
  "token_at s t s' \<longleftrightarrow> walks any_char s s' \<and> lx_pos s < lx_pos s' \<and> boundary s'
     \<and> tk_line t = lx_line s \<and> tk_col t = lx_col s
     \<and> tk_leading_newline t = lx_pending_newline s
     \<and> lexeme t (slice (lx_src s) (lx_pos s) (lx_pos s'))"

definition error_at :: "lexer \<Rightarrow> lex_error \<Rightarrow> bool" where
  "error_at s e \<longleftrightarrow> le_line e = lx_line s \<and> le_col e = lx_col s"

definition scan_ok :: "lexer \<Rightarrow> lex_error + (token \<times> lexer) \<Rightarrow> bool" where
  "scan_ok s r = (case r of Inl e \<Rightarrow> error_at s e | Inr (t, s') \<Rightarrow> token_at s t s')"

lemma scan_ok_make:
  assumes "boundary s" "walks any_char s s'" "lx_pos s < lx_pos s'" "boundary s'"
  shows "scan_ok s (Inr (make kind (lx_pos s) (lx_line s) (lx_col s) s'))"
  using assms walks_fields [OF assms(2)] boundary_char_boundary [OF assms(1)]
    boundary_char_boundary [OF assms(4)]
  by (simp add: scan_ok_def make_def make_slice_def slice_ok_def token_at_def lexeme_def)

lemma single_step:
  assumes "peek s = Some c" "plain_ascii c" "boundary s"
  shows "walks any_char s (advance_byte s)" "lx_pos s < lx_pos (advance_byte s)"
    "boundary (advance_byte s)"
proof -
  have "walks plain_ascii s (advance_byte s)"
    using assms(1,2) by (intro walks_byte) (auto simp: plain_ascii_def)
  then show "walks any_char s (advance_byte s)" "boundary (advance_byte s)"
    using walks_plain_ascii assms(3) by auto
  show "lx_pos s < lx_pos (advance_byte s)"
    using assms(1) by (simp add: pos_advance_byte)
qed

lemma string_loop_error:
  "string_loop l c m q h s = Inl e \<Longrightarrow> le_line e = l \<and> le_col e = c"
proof (induction l c m q h s rule: string_loop.induct)
  case (1 l c m q h s)
  have interp: "interpolation_loop l c d t = Inl e \<Longrightarrow> le_line e = l \<and> le_col e = c" for d t
  proof (induction l c d t rule: interpolation_loop.induct)
    case (1 l c d t)
    show ?case
      using "1.prems" "1.IH"
      by (subst (asm) interpolation_loop.simps) (auto split: if_splits option.splits)
  qed
  show ?case
    using "1.prems" "1.IH" interp
    by (subst (asm) string_loop.simps)
      (auto simp: Let_def consume_interpolation_def split: if_splits option.splits sum.splits)
qed

lemma scan_ok_string:
  assumes "boundary s" "peek_at s (leading_hashes s) = Some c_quote"
  shows "scan_ok s (string_token s)"
proof (cases "string_body (lx_line s) (lx_col s) s")
  case (Inl e)
  then have "error_at s e"
    by (auto simp: string_body_def Let_def error_at_def dest: string_loop_error)
  with Inl show ?thesis
    by (simp add: string_token_def scan_ok_def)
next
  case (Inr s')
  then show ?thesis
    using scan_ok_make [OF assms(1) string_body_walks [OF Inr assms(2,1)]]
    by (simp add: string_token_def)
qed

lemma operators_plain: "op \<in> set OPERATORS \<Longrightarrow> op \<noteq> [] \<and> list_all plain_ascii op"
proof -
  have "list_all (\<lambda>op. op \<noteq> [] \<and> list_all plain_ascii op) OPERATORS"
    by (simp add: OPERATORS_def plain_ascii_def is_ascii_def byte_def)
  then show "op \<in> set OPERATORS \<Longrightarrow> ?thesis"
    by (simp add: list_all_iff)
qed

lemma match_operator_run_ok:
  assumes "boundary s"
  shows "\<exists>r. match_operator s = Some r \<and> (\<forall>n. r = Some n \<longrightarrow> 0 < n \<and> run_ok s n)"
proof (cases "List.find (at_prefix s) OPERATORS")
  case (Some op)
  then have op: "op \<in> set OPERATORS" "at_prefix s op"
    by (auto simp: find_Some_iff)
  note ok = at_prefix_walks(4) [OF op(2) _ assms] operators_plain [OF op(1)]
  obtain m where "operator_run s (length op) = Some m" "length op \<le> m" "run_ok s m"
    using operator_run_ok ok by blast
  moreover have "0 < length op"
    using ok by simp
  ultimately have "0 < m"
    by linarith
  with \<open>operator_run s (length op) = Some m\<close> \<open>run_ok s m\<close> show ?thesis
    using ok Some by (auto simp: match_operator_def)
qed (simp add: match_operator_def)

lemma scan_ok_operator:
  assumes "boundary s" "match_operator s = Some None \<Longrightarrow> scan_ok s none"
  shows "scan_ok s (operator_token none s)"
proof -
  obtain r where r: "match_operator s = Some r" "\<And>n. r = Some n \<Longrightarrow> 0 < n \<and> run_ok s n"
    using match_operator_run_ok [OF assms(1)] by blast
  show ?thesis
  proof (cases r)
    case None
    then show ?thesis
      using r assms(2) by (simp add: operator_token_def)
  next
    case (Some n)
    then have n: "0 < n" "run_ok s n"
      using r(2) by auto
    then show ?thesis
      using scan_ok_make [OF assms(1) run_ok_walks(1) [OF n(2) assms(1)] _ run_ok_walks(2)]
        run_ok_walks(3) [OF n(2) assms(1)] r(1) Some assms(1)
      by (simp add: operator_token_def)
  qed
qed

lemma slash_matches: "peek s = Some CHR ''/'' \<Longrightarrow> match_operator s \<noteq> Some None"
proof
  assume p: "peek s = Some CHR ''/''" and m: "match_operator s = Some None"
  have "List.find (at_prefix s) OPERATORS = None"
    using m by (auto simp: match_operator_def split: option.splits if_splits)
  moreover have "''/'' \<in> set OPERATORS"
    by (simp add: OPERATORS_def)
  ultimately have "\<not> at_prefix s ''/''"
    by (auto simp: find_None_iff)
  moreover have "drop (lx_pos s) (lx_src s) = CHR ''/'' # drop (Suc (lx_pos s)) (lx_src s)"
    using p by (auto simp: peek_def get_at_Some_iff Cons_nth_drop_Suc [symmetric])
  ultimately show False
    by (simp add: at_prefix_def)
qed

lemma ident_run_progress:
  assumes "boundary s" "peek s = Some c" "is_ident_start c"
    and "\<And>ch n. 128 \<le> byte c \<Longrightarrow> scalar_at (lx_src s) (lx_pos s) = Some (ch, n) \<Longrightarrow>
      \<not> is_unicode_operator_scalar ch"
  shows "lx_pos s < lx_pos (ident_run s)"
proof (cases "byte c < 128")
  case True
  then have c: "is_ident_continue c"
    using assms(3) by (auto simp: is_ident_start_def is_ident_continue_def)
  have "plain_ascii c"
    using True assms(3) by (auto simp: plain_ascii_def is_ascii_def is_ident_start_def
        is_ascii_alpha_def byte_def)
  note st = single_step [OF assms(2) this assms(1)]
  have "ident_run s = ident_run (advance_byte s)"
    using True c assms(2) by (subst ident_run.simps) simp
  then show ?thesis
    using st(2) walks_fields(2) [OF conjunct1 [OF ident_run_walks [OF st(3)]]] by simp
next
  case False
  obtain ch n where cn: "scalar_at (lx_src s) (lx_pos s) = Some (ch, n)"
    by (rule scalar_at_boundary [OF assms(1)])
  note w = walks_scalar [OF assms(1,2) _ cn]
  have "ident_run s = ident_run (take_n n s)"
    using False cn assms(2,4) by (subst ident_run.simps) simp
  then show ?thesis
    using w False scalar_at_pos [OF cn]
      walks_fields(2) [OF conjunct1 [OF ident_run_walks [OF w(2)]]] by simp
qed

lemma scan_ok_ident:
  assumes "boundary s" "peek s = Some c" "is_ident_start c"
    and "\<And>ch n. 128 \<le> byte c \<Longrightarrow> scalar_at (lx_src s) (lx_pos s) = Some (ch, n) \<Longrightarrow>
      \<not> is_unicode_operator_scalar ch"
  shows "scan_ok s (ident_token s)"
  unfolding ident_token_def Let_def
  using ident_run_walks [OF assms(1)] ident_run_progress [OF assms]
  by (intro scan_ok_make assms(1)) auto

lemma slice_Cons:
  "a < b \<Longrightarrow> b \<le> length src \<Longrightarrow> slice src a b = src ! a # slice src (Suc a) b"
  by (simp add: slice_def Cons_nth_drop_Suc [symmetric] Suc_diff_Suc [symmetric])

lemma slice_snoc:
  "a \<le> b \<Longrightarrow> b < length src \<Longrightarrow> slice src a (Suc b) = slice src a b @ [src ! b]"
  by (simp add: slice_def Suc_diff_le take_Suc_conv_app_nth)

lemma scan_ok_backtick:
  assumes "boundary s" "peek s = Some c_backtick"
  shows "scan_ok s (backtick_token s)"
proof -
  let ?s1 = "advance_byte s"
  let ?s2 = "ident_run ?s1"
  have bt: "plain_ascii c_backtick"
    by (simp add: plain_ascii_def is_ascii_def byte_def)
  note s1 = single_step [OF assms(2) bt assms(1)]
  have s2: "walks any_char ?s1 ?s2" "boundary ?s2"
    using ident_run_walks [OF s1(3)] by auto
  note f2 = walks_fields [OF walks_trans [OF s1(1) s2(1)]] walks_fields(2) [OF s2(1)]
  show ?thesis
  proof (cases "lx_pos ?s1 < lx_pos ?s2 \<and> peek ?s2 = Some c_backtick")
    case True
    note s3 = single_step [OF conjunct2 [OF True] bt s2(2)]
    let ?s3 = "advance_byte ?s2" and ?src = "lx_src s"
    have p: "lx_pos ?s1 = Suc (lx_pos s)" "lx_pos ?s3 = Suc (lx_pos ?s2)"
      "lx_pos ?s2 < length ?src" "?src ! lx_pos ?s2 = c_backtick" "?src ! lx_pos s = c_backtick"
      using assms(2) True f2 by (auto simp: pos_advance_byte peek_def get_at_Some_iff)
    have "slice ?src (lx_pos s) (lx_pos ?s3)
        = [c_backtick] @ slice ?src (lx_pos ?s1) (lx_pos ?s2) @ [c_backtick]"
      using p f2(2) True slice_Cons [of "lx_pos s" "lx_pos ?s3" ?src]
        slice_snoc [of "Suc (lx_pos s)" "lx_pos ?s2" ?src] by simp
    moreover have "slice_ok ?src (lx_pos ?s1) (lx_pos ?s2)"
      using boundary_char_boundary [OF s1(3)] boundary_char_boundary [OF s2(2)] True f2
      by (simp add: slice_ok_def)
    moreover have "walks any_char s ?s3"
      using walks_trans [OF walks_trans [OF s1(1) s2(1)] s3(1)] .
    ultimately show ?thesis
      using True s3 f2 p walks_fields(4) [OF s3(1)]
      by (simp add: backtick_token_def Let_def scan_ok_def token_at_def make_slice_def lexeme_def)
  next
    case False
    show ?thesis
    proof (cases "lx_panic ?s2")
      case True
      then show ?thesis
        using False scan_ok_make [OF assms(1) walks_trans [OF s1(1) s2(1)] _ s2(2)] s1(2) f2
        by (auto simp: backtick_token_def Let_def)
    next
      case no_panic: False
      then show ?thesis
        using False by (auto simp: backtick_token_def Let_def scan_ok_def error_at_def)
    qed
  qed
qed

lemma single_kind_plain: "single_kind c = Some k \<Longrightarrow> plain_ascii c"
  by (auto simp: single_kind_def plain_ascii_def is_ascii_def byte_def split: if_splits)

lemma plain_literals:
  "plain_ascii CHR ''.''" "plain_ascii CHR ''?''" "plain_ascii c_backslash"
  "plain_ascii CHR ''@''" "plain_ascii CHR ''#''" "plain_ascii CHR ''<''"
  by (simp_all add: plain_ascii_def is_ascii_def byte_def)

lemma scan_ok_directive:
  assumes "boundary s" "peek s = Some c" "plain_ascii c"
  shows "scan_ok s (Inr (make kind (lx_pos s) (lx_line s) (lx_col s)
    (take_while is_ident_continue (advance_byte s))))"
proof -
  note st = single_step [OF assms(2,3,1)]
  let ?s' = "take_while is_ident_continue (advance_byte s)"
  have w: "walks is_ident_continue (advance_byte s) ?s'"
    by (rule walks_take_while) (simp add: is_ident_continue_def is_ascii_alpha_def
        is_ascii_digit_def byte_def)
  have "boundary ?s'"
    by (rule boundary_stop [OF w st(3)], drule take_while_stops)
      (auto simp: is_ident_continue_def is_cont_def)
  moreover have "lx_pos s < lx_pos ?s'"
    using st(2) walks_fields(2) [OF w] by simp
  ultimately show ?thesis
    using walks_trans [OF st(1) walks_any [OF w]] assms(1) by (intro scan_ok_make)
qed

lemma scan_ok_prefix:
  assumes "boundary s" "at_prefix s p" "list_all plain_ascii p" "p \<noteq> []" "n = length p"
  shows "scan_ok s (Inr (make kind (lx_pos s) (lx_line s) (lx_col s) (take_n n s)))"
  using at_prefix_walks [OF assms(2,3,1)] assms(1,4,5)
  by (intro scan_ok_make) (auto simp del: take_n.simps)

lemma scan_ok_single:
  assumes "boundary s" "peek s = Some c" "plain_ascii c"
  shows "scan_ok s (Inr (make kind (lx_pos s) (lx_line s) (lx_col s) (advance_byte s)))"
  using single_step [OF assms(2,3,1)] assms(1) by (intro scan_ok_make)

lemma scan_ok_regex:
  assumes "boundary s" "0 < n" "n \<le> remaining s" "is_ascii (lx_src s ! (lx_pos s + n - 1))"
  shows "scan_ok s (regex_token n s)"
  unfolding regex_token_def
  using advance_chars_walks [OF assms(2-4,1)] assms(1) by (intro scan_ok_make)

lemma scan_ok_number:
  assumes "boundary s" "peek s = Some c" "is_ascii_digit (byte c)"
  shows "scan_ok s (Inr (make kind (lx_pos s) (lx_line s) (lx_col s) (snd (number s))))"
  using walks_number [OF assms(2,3,1)] assms(1) by (intro scan_ok_make)

lemma scan_ok_unicode_operator:
  assumes "boundary s" "peek s = Some c" "128 \<le> byte c"
    and "scalar_at (lx_src s) (lx_pos s) = Some (ch, n)"
  shows "scan_ok s (Inr (make kind (lx_pos s) (lx_line s) (lx_col s)
    (unicode_operator_run (take_n n s))))"
proof -
  note w = walks_scalar [OF assms]
  note r = unicode_operator_run_walks [OF w(2)]
  have "lx_pos s < lx_pos (unicode_operator_run (take_n n s))"
    using w(3) scalar_at_pos [OF assms(4)] walks_fields(2) [OF conjunct1 [OF r]] by simp
  with r show ?thesis
    using walks_trans [OF w(1) conjunct1 [OF r]] assms(1) by (intro scan_ok_make) auto
qed

lemma leading_hashes_quote: "peek s = Some c_quote \<Longrightarrow> leading_hashes s = 0"
  by (auto simp: leading_hashes_def peek_def get_at_Some_iff Cons_nth_drop_Suc [symmetric])

lemma next_token_ok:
  assumes "boundary s" "peek s = Some c"
  shows "scan_ok s (next_token prev s)"
proof (cases "single_kind c")
  case (Some k)
  then show ?thesis
    using scan_ok_single [OF assms single_kind_plain [OF Some]] assms(2)
    by (simp add: next_token_def)
next
  case None
  note b = assms(1) and start = assms(1) assms(2)
  consider (quote) "c = c_quote"
    | (pound) "c = CHR ''#''" "pound_regex_len s \<noteq> None"
    | (raw) "c = CHR ''#''" "pound_regex_len s = None" "is_raw_string_start s"
    | (regex) "c = CHR ''/''" "regex_allowed prev" "bare_regex_len s \<noteq> None"
    | (slash) "c = CHR ''/''" "regex_allowed prev" "bare_regex_len s = None"
    | (directive) "c = CHR ''@''
        \<or> c = CHR ''#'' \<and> pound_regex_len s = None \<and> \<not> is_raw_string_start s"
    | (dot) "c = CHR ''.''" | (question) "c = CHR ''?''" | (backslash) "c = c_backslash"
    | (backtick) "c = c_backtick" | (digit) "is_ascii_digit (byte c)"
    | (other) "c \<noteq> CHR ''#''" "c \<noteq> CHR ''@''" "c \<noteq> CHR ''.''" "c \<noteq> CHR ''?''" "c \<noteq> c_quote"
        "c \<noteq> c_backslash" "c \<noteq> c_backtick"
        "\<not> (c = CHR ''/'' \<and> regex_allowed prev)" "\<not> is_ascii_digit (byte c)"
    by argo
  then show ?thesis
  proof cases
    case quote
    then show ?thesis
      using None assms scan_ok_string [OF b] leading_hashes_quote [of s]
      by (simp add: next_token_def peek_peek_at)
  next
    case pound
    then obtain n where n: "pound_regex_len s = Some n"
      by blast
    then show ?thesis
      using pound(1) None assms scan_ok_regex [OF b pound_regex_len_end [OF n]]
      by (simp add: next_token_def)
  next
    case raw
    then show ?thesis
      using None assms scan_ok_string [OF b]
      by (simp add: next_token_def is_raw_string_start_def Let_def)
  next
    case regex
    then obtain n where n: "bare_regex_len s = Some n"
      by blast
    then show ?thesis
      using regex(1,2) None assms scan_ok_regex [OF b bare_regex_len_end [OF n]]
      by (simp add: next_token_def)
  next
    case slash
    then show ?thesis
      using None assms scan_ok_operator [OF b, of "Inr (make TOper (lx_pos s) (lx_line s) (lx_col s) (panic s))"]
        slash_matches [of s]
      by (simp add: next_token_def)
  next
    case directive
    then have "next_token prev s = Inr (make (if c = CHR ''@'' then TAttribute else TDirective)
        (lx_pos s) (lx_line s) (lx_col s) (take_while is_ident_continue (advance_byte s)))"
      using None assms by (elim disjE conjE) (simp_all add: next_token_def)
    moreover have "plain_ascii c"
      using directive plain_literals by (elim disjE conjE) simp_all
    ultimately show ?thesis
      using scan_ok_directive [OF start] by simp
  next
    case dot
    then have "next_token prev s =
        (if at_prefix s ''...'' \<or> at_prefix s ''..<''
         then Inr (make TOper (lx_pos s) (lx_line s) (lx_col s) (take_n 3 s))
         else Inr (make TDot (lx_pos s) (lx_line s) (lx_col s) (advance_byte s)))"
      using None assms by (simp add: next_token_def)
    moreover have "plain_ascii c"
      using dot plain_literals by simp
    ultimately show ?thesis
      using scan_ok_single [OF start] plain_literals
        scan_ok_prefix [OF b, of "''...''" 3] scan_ok_prefix [OF b, of "''..<''" 3] by simp
  next
    case question
    then have "next_token prev s =
        (if at_prefix s ''??''
         then Inr (make TOper (lx_pos s) (lx_line s) (lx_col s) (take_n 2 s))
         else Inr (make TQuestion (lx_pos s) (lx_line s) (lx_col s) (advance_byte s)))"
      using None assms by (simp add: next_token_def)
    moreover have "plain_ascii c"
      using question plain_literals by simp
    ultimately show ?thesis
      using scan_ok_single [OF start] plain_literals scan_ok_prefix [OF b, of "''??''" 2] by simp
  next
    case backslash
    then show ?thesis
      using None assms scan_ok_single [OF start] plain_literals by (simp add: next_token_def)
  next
    case backtick
    then show ?thesis
      using None assms scan_ok_backtick [OF b] by (simp add: next_token_def)
  next
    case digit
    then have "c \<noteq> CHR ''#''" "c \<noteq> CHR ''@''" "c \<noteq> CHR ''.''" "c \<noteq> CHR ''?''" "c \<noteq> c_quote"
        "c \<noteq> c_backslash" "c \<noteq> c_backtick" "c \<noteq> CHR ''/''"
      by (auto simp: is_ascii_digit_def byte_def)
    then show ?thesis
      using digit None assms scan_ok_number [OF start digit] by (simp add: next_token_def)
  next
    case other
    obtain ch n where cn: "scalar_at (lx_src s) (lx_pos s) = Some (ch, n)"
      by (rule scalar_at_boundary [OF b])
    have err: "scan_ok s (Inl \<lparr>le_message = UnexpectedCharacter c, le_line = lx_line s,
        le_col = lx_col s\<rparr>)"
      by (simp add: scan_ok_def error_at_def)
    have eq: "next_token prev s =
        (if 128 \<le> byte c then
           (if is_unicode_operator_scalar ch
            then Inr (make TOper (lx_pos s) (lx_line s) (lx_col s)
                        (unicode_operator_run (take_n n s)))
            else ident_token s)
         else if is_ident_start c then ident_token s
         else operator_token (Inl \<lparr>le_message = UnexpectedCharacter c, le_line = lx_line s,
                le_col = lx_col s\<rparr>) s)"
      using other None assms(2) cn by (cases "c = CHR ''/''") (simp_all add: next_token_def)
    have ident: "scan_ok s (ident_token s)"
      if st: "is_ident_start c" and nu: "128 \<le> byte c \<Longrightarrow> \<not> is_unicode_operator_scalar ch"
    proof (rule scan_ok_ident [OF start st])
      fix ch' m assume "scalar_at (lx_src s) (lx_pos s) = Some (ch', m)" "128 \<le> byte c"
      then show "\<not> is_unicode_operator_scalar ch'"
        using nu cn by simp
    qed
    show ?thesis
    proof (cases "128 \<le> byte c")
      case True
      then have st: "is_ident_start c"
        by (simp add: is_ident_start_def)
      show ?thesis
      proof (cases "is_unicode_operator_scalar ch")
        case uni: True
        then show ?thesis
          unfolding eq using True scan_ok_unicode_operator [OF start _ cn] by simp
      next
        case False
        then show ?thesis
          unfolding eq using True ident [OF st] by simp
      qed
    next
      case False
      then show ?thesis
        unfolding eq using ident scan_ok_operator [OF b err] by simp
    qed
  qed
qed

section \<open>Trivia\<close>

text \<open>
  The text the lexer may skip: white space, line comments up to the line break, and block
  comments, which nest. \<open>block_tail d\<close> is the rest of a comment at depth \<open>d\<close>.
\<close>

inductive block_tail :: "nat \<Rightarrow> string \<Rightarrow> bool" where
  bt_done: "block_tail 0 []"
| bt_open: "block_tail (Suc d) s \<Longrightarrow> 0 < d \<Longrightarrow> block_tail d (CHR ''/'' # CHR ''*'' # s)"
| bt_close: "block_tail d s \<Longrightarrow> block_tail (Suc d) (CHR ''*'' # CHR ''/'' # s)"
| bt_char: "block_tail d s \<Longrightarrow> 0 < d \<Longrightarrow> block_tail d (c # s)"

inductive trivia :: "string \<Rightarrow> bool" where
  tr_nil: "trivia []"
| tr_white: "c \<in> {c_nl, c_space, c_tab, c_cr} \<Longrightarrow> trivia s \<Longrightarrow> trivia (c # s)"
| tr_line: "c_nl \<notin> set u \<Longrightarrow> trivia s \<Longrightarrow> trivia (CHR ''/'' # CHR ''/'' # u @ s)"
| tr_block: "block_tail 1 u \<Longrightarrow> trivia s \<Longrightarrow> trivia (CHR ''/'' # CHR ''*'' # u @ s)"

abbreviation gap :: "lexer \<Rightarrow> lexer \<Rightarrow> string" where
  "gap s s' \<equiv> slice (lx_src s) (lx_pos s) (lx_pos s')"

lemma slice_append:
  assumes "a \<le> b" "b \<le> c"
  shows "slice src a c = slice src a b @ slice src b c"
proof -
  obtain m n where "b = a + m" "c = b + n"
    using assms le_Suc_ex by blast
  then show ?thesis
    by (simp add: slice_def take_add add.commute)
qed

lemma gap_refl [simp]: "gap s s = []"
  by (simp add: slice_def)

lemma gap_trans:
  assumes "walks p s t" "walks q t u"
  shows "gap s u = gap s t @ gap t u"
proof -
  have "lx_src t = lx_src s" "lx_pos s \<le> lx_pos t" "lx_pos t \<le> lx_pos u"
    using walks_fields [OF assms(1)] walks_fields [OF assms(2)] by auto
  then show ?thesis
    using slice_append by metis
qed

lemma gap_byte:
  assumes "peek s = Some b"
  shows "gap s (advance_byte s) = [b]"
  using assms by (simp add: slice_def pos_advance_byte peek_def get_at_Some_iff
      Cons_nth_drop_Suc [symmetric])

lemma gap_newline:
  assumes "peek s = Some b"
  shows "gap s (newline s) = [b]"
  using assms by (simp add: slice_def newline_def peek_def get_at_Some_iff
      Cons_nth_drop_Suc [symmetric])

lemma gap_set: "walks p s s' \<Longrightarrow> lx_pos s' \<le> length (lx_src s) \<Longrightarrow> c \<in> set (gap s s') \<Longrightarrow> p c"
  using walks_fields(6) [of p s s'] by (auto simp: slice_def in_set_conv_nth)

lemma block_comment_loop_gap:
  "block_comment_loop l c d w s = Inr (w', s') \<Longrightarrow>
     block_tail d (gap s s') \<and> w' = (w \<or> c_nl \<in> set (gap s s'))"
proof (induction l c d w s rule: block_comment_loop.induct)
  case (1 l c d w s)
  show ?case
  proof (cases "d = 0 \<or> peek s = None")
    case True
    with "1.prems" show ?thesis
      by (subst (asm) block_comment_loop.simps) (auto split: if_splits intro: bt_done)
  next
    case False
    then obtain b where b: "d \<noteq> 0" "peek s = Some b"
      by auto
    have two: "gap s s' = b # b' # gap (advance_byte (advance_byte s)) s'"
      if "peek_at s 1 = Some b'" "b \<noteq> c_nl" "b' \<noteq> c_nl"
        "walks any_char (advance_byte (advance_byte s)) s'" for b'
      using that b gap_trans [OF walks_byte [of s b any_char]
          walks_trans [OF walks_byte [of "advance_byte s" b' any_char] that(4)]]
        gap_trans [OF walks_byte [of "advance_byte s" b' any_char] that(4)]
        gap_byte [of s b] gap_byte [of "advance_byte s" b']
      by (simp add: peek_advance_byte)
    consider (nl) "b = c_nl"
      | (op) "b \<noteq> c_nl" "b = CHR ''/''" "peek_at s 1 = Some CHR ''*''"
      | (cl) "b = CHR ''*''" "peek_at s 1 = Some CHR ''/''"
      | (ch) "b \<noteq> c_nl" "\<not> (b = CHR ''/'' \<and> peek_at s 1 = Some CHR ''*'')"
          "\<not> (b = CHR ''*'' \<and> peek_at s 1 = Some CHR ''/'')"
      by blast
    then show ?thesis
    proof cases
      case nl
      then have r: "block_comment_loop l c d True (newline s) = Inr (w', s')"
        using "1.prems" b by (subst (asm) block_comment_loop.simps) simp
      have "gap s s' = c_nl # gap (newline s) s'"
        using gap_trans [OF walks_newline [of s any_char] walks_block_comment_loop [OF r]] b nl
        by (simp add: gap_newline)
      with "1.IH"(1) [OF b nl r] b show ?thesis
        by (auto intro: bt_char)
    next
      case op
      then have r: "block_comment_loop l c (d + 1) w (advance_byte (advance_byte s)) = Inr (w', s')"
        using "1.prems" b by (subst (asm) block_comment_loop.simps) simp
      from two [OF op(3,1) _ walks_block_comment_loop [OF r]] op
        "1.IH"(2) [OF b _ _ r] b show ?thesis
        by (auto intro: bt_open)
    next
      case cl
      then have r: "block_comment_loop l c (d - 1) w (advance_byte (advance_byte s)) = Inr (w', s')"
        using "1.prems" b by (subst (asm) block_comment_loop.simps) simp
      from two [OF cl(2) _ _ walks_block_comment_loop [OF r]] cl
        "1.IH"(3) [OF b _ _ _ r] b show ?thesis
        by (cases d) (auto intro: bt_close)
    next
      case ch
      then have r: "block_comment_loop l c d w (advance_byte s) = Inr (w', s')"
        using "1.prems" b by (subst (asm) block_comment_loop.simps) (simp split: if_splits)
      have "gap s s' = b # gap (advance_byte s) s'"
        using gap_trans [OF walks_byte [of s b any_char] walks_block_comment_loop [OF r]] b ch
        by (simp add: gap_byte)
      with "1.IH"(4) [OF b ch r] b ch(1) show ?thesis
        by (auto intro: bt_char)
    qed
  qed
qed

lemma block_comment_loop_error:
  "block_comment_loop l c d w s = Inl e \<Longrightarrow>
     e = \<lparr>le_message = UnterminatedBlockComment, le_line = l, le_col = c\<rparr>"
proof (induction l c d w s rule: block_comment_loop.induct)
  case (1 l c d w s)
  note unfolded = "1.prems" [unfolded block_comment_loop.simps [of l c d w s]]
  show ?case
  proof (cases "d = 0 \<or> peek s = None")
    case True
    with unfolded show ?thesis
      by (auto split: if_splits)
  next
    case False
    then obtain b where b: "d \<noteq> 0" "peek s = Some b"
      by auto
    note IH = "1.IH" [OF b]
    consider (nl) "b = c_nl"
      | (op) "b \<noteq> c_nl" "b = CHR ''/'' \<and> peek_at s 1 = Some CHR ''*''"
      | (cl) "b \<noteq> c_nl" "\<not> (b = CHR ''/'' \<and> peek_at s 1 = Some CHR ''*'')"
          "b = CHR ''*'' \<and> peek_at s 1 = Some CHR ''/''"
      | (ch) "b \<noteq> c_nl" "\<not> (b = CHR ''/'' \<and> peek_at s 1 = Some CHR ''*'')"
          "\<not> (b = CHR ''*'' \<and> peek_at s 1 = Some CHR ''/'')"
      by argo
    then show ?thesis
    proof cases
      case nl
      then show ?thesis
        using unfolded b IH(1) by simp
    next
      case op
      show ?thesis
        by (rule IH(2) [OF op]) (use unfolded b op in simp)
    next
      case cl
      show ?thesis
        by (rule IH(3) [OF cl]) (use unfolded b cl in simp)
    next
      case ch
      show ?thesis
        by (rule IH(4) [OF ch]) (use unfolded b ch in \<open>simp split: if_splits\<close>)
    qed
  qed
qed

lemma block_tail_last: "block_tail d u \<Longrightarrow> 0 < d \<Longrightarrow> \<exists>v. u = v @ ''/''"
proof (induction d u rule: block_tail.induct)
  case (bt_open d s)
  then obtain v where "s = v @ ''/''"
    by auto
  then show ?case
    by (intro exI [of _ "CHR ''/'' # CHR ''*'' # v"]) simp
next
  case (bt_close d s)
  show ?case
  proof (cases "d = 0")
    case True
    with bt_close have "s = []"
      by (auto elim: block_tail.cases)
    then show ?thesis
      by (intro exI [of _ "''*''"]) simp
  next
    case False
    with bt_close obtain v where "s = v @ ''/''"
      by auto
    then show ?thesis
      by (intro exI [of _ "CHR ''*'' # CHR ''/'' # v"]) simp
  qed
next
  case (bt_char d s c)
  then obtain v where "s = v @ ''/''"
    by auto
  then show ?case
    by (intro exI [of _ "c # v"]) simp
qed simp

text \<open>What \<open>skip_trivia\<close> promises: it stops at the end of a trivia gap and knows whether the gap
  had a line break, or reports the comment that never closes at the comment's own start.\<close>

definition skip_ok :: "bool \<Rightarrow> lexer \<Rightarrow> lex_error + (bool \<times> lexer) \<Rightarrow> bool" where
  "skip_ok w s r = (case r of
     Inr (w', s') \<Rightarrow> walks any_char s s' \<and> boundary s' \<and> trivia (gap s s')
       \<and> w' = (w \<or> c_nl \<in> set (gap s s'))
   | Inl e \<Rightarrow> \<exists>s'. walks any_char s s' \<and> boundary s' \<and> trivia (gap s s')
       \<and> peek s' = Some CHR ''/'' \<and> peek_at s' 1 = Some CHR ''*''
       \<and> le_message e = UnterminatedBlockComment \<and> error_at s' e)"

lemma skip_ok_step:
  assumes "walks any_char s t" "\<And>u. trivia u \<Longrightarrow> trivia (gap s t @ u)"
    and "skip_ok (w \<or> c_nl \<in> set (gap s t)) t r"
  shows "skip_ok w s r"
proof (cases r)
  case (Inl e)
  then obtain s' where s': "walks any_char t s'" "boundary s'" "trivia (gap t s')"
      "peek s' = Some CHR ''/''" "peek_at s' 1 = Some CHR ''*''"
      "le_message e = UnterminatedBlockComment" "error_at s' e"
    using assms(3) by (auto simp: skip_ok_def)
  show ?thesis
    unfolding skip_ok_def Inl sum.case
  proof (intro exI [of _ s'] conjI)
    show "trivia (gap s s')"
      using assms(2) [OF s'(3)] gap_trans [OF assms(1) s'(1)] by simp
    show "walks any_char s s'"
      using walks_trans [OF assms(1) s'(1)] .
  qed (fact s')+
next
  case (Inr x)
  obtain w' s' where x: "x = (w', s')"
    by fastforce
  have s': "walks any_char t s'" "boundary s'" "trivia (gap t s')"
      "w' = ((w \<or> c_nl \<in> set (gap s t)) \<or> c_nl \<in> set (gap t s'))"
    using assms(3) by (simp_all add: skip_ok_def Inr x)
  have "gap s s' = gap s t @ gap t s'"
    by (rule gap_trans [OF assms(1) s'(1)])
  then show ?thesis
    using s' walks_trans [OF assms(1) s'(1)] assms(2) [OF s'(3)]
    by (auto simp: skip_ok_def Inr x)
qed

lemma white_step:
  assumes "boundary s" "peek s = Some b" "b \<in> {c_nl, c_space, c_tab, c_cr}"
  shows "boundary (advance_char s)" "walks any_char s (advance_char s)"
    "gap s (advance_char s) = [b]"
proof -
  have a: "is_ascii b"
    using assms(3) by (auto simp: is_ascii_def byte_def)
  show "boundary (advance_char s)"
    by (rule boundary_ascii_walk [OF walks_char [where p = is_ascii, OF assms(2) a] assms(1)])
  show "walks any_char s (advance_char s)"
    by (rule walks_char [OF assms(2)]) simp
  show "gap s (advance_char s) = [b]"
    using assms(2) gap_byte gap_newline by (simp add: advance_char_def)
qed

lemma line_comment_step:
  assumes "boundary s" "peek s = Some CHR ''/''" "peek_at s 1 = Some CHR ''/''"
  shows "boundary (line_comment s)" "\<exists>u. gap s (line_comment s) = CHR ''/'' # CHR ''/'' # u"
    "c_nl \<notin> set (gap s (line_comment s))"
proof -
  let ?t = "advance_byte (advance_byte s)"
  have p: "peek (advance_byte s) = Some CHR ''/''"
    using assms(2,3) by (simp add: peek_advance_byte)
  have eq: "line_comment s = line_comment ?t"
    unfolding line_comment_def
    by (subst take_while.simps, simp add: assms(2), subst take_while.simps, simp add: p)
  have w: "walks any_char s (advance_byte s)" "walks any_char (advance_byte s) ?t"
    "walks any_char ?t (line_comment ?t)"
    using assms(2) p walks_line_comment by (auto intro: walks_byte)
  have "gap s (line_comment s) = gap s (advance_byte s) @ gap (advance_byte s) ?t @ gap ?t (line_comment ?t)"
    using gap_trans [OF w(1) walks_trans [OF w(2,3)]] gap_trans [OF w(2,3)] eq by simp
  then show "\<exists>u. gap s (line_comment s) = CHR ''/'' # CHR ''/'' # u"
    using gap_byte [OF assms(2)] gap_byte [OF p] by simp
  note wl = walks_line_comment [of s]
  show "c_nl \<notin> set (gap s (line_comment s))"
    using gap_set [OF wl] walks_fields(5) [OF wl] assms(1) by (auto simp: boundary_def)
  show "boundary (line_comment s)"
  proof (rule boundary_stop [OF wl assms(1)])
    fix c assume "peek (line_comment s) = Some c"
    then have "c = c_nl"
      using take_while_stops [of "\<lambda>c. c \<noteq> c_nl" s c] by (simp add: line_comment_def)
    then show "\<not> is_cont c"
      by (simp add: is_cont_def byte_def)
  qed
qed

lemma block_comment_step:
  assumes "boundary s" "peek s = Some CHR ''/''" "peek_at s 1 = Some CHR ''*''"
    and "block_comment s = Inr (w, s')"
  shows "boundary s'" "\<exists>u. gap s s' = CHR ''/'' # CHR ''*'' # u \<and> block_tail 1 u"
    "w = (c_nl \<in> set (gap s s'))" "walks any_char s s'"
proof -
  let ?t = "advance_byte (advance_byte s)"
  have p: "peek (advance_byte s) = Some CHR ''*''"
    using assms(2,3) by (simp add: peek_advance_byte)
  note loop = assms(4) [unfolded block_comment_def]
  have w: "walks any_char s (advance_byte s)" "walks any_char (advance_byte s) ?t"
    "walks any_char ?t s'"
    using assms(2) p walks_block_comment_loop [OF loop] by (auto intro: walks_byte)
  have g: "gap s s' = CHR ''/'' # CHR ''*'' # gap ?t s'"
    using gap_trans [OF w(1) walks_trans [OF w(2,3)]] gap_trans [OF w(2,3)]
      gap_byte [OF assms(2)] gap_byte [OF p] by simp
  show walks: "walks any_char s s'"
    using w walks_trans by blast
  show "\<exists>u. gap s s' = CHR ''/'' # CHR ''*'' # u \<and> block_tail 1 u" "w = (c_nl \<in> set (gap s s'))"
    using g block_comment_loop_gap [OF loop] by auto
  obtain v where v: "gap s s' = v @ ''/''"
    using g block_tail_last [of 1 "gap ?t s'"] block_comment_loop_gap [OF loop] by fastforce
  have le: "lx_pos s' \<le> length (lx_src s)"
    using walks_fields(5) [OF walks] assms(1) by (simp add: boundary_def)
  have n: "length v + 1 = lx_pos s' - lx_pos s"
    using arg_cong [OF v, of length] le by (simp add: slice_def)
  then have pos: "lx_pos s' = lx_pos s + length v + 1"
    by linarith
  have "lx_src s ! (lx_pos s + length v) = gap s s' ! length v"
    using pos le by (simp add: slice_def)
  then have "lx_src s ! (lx_pos s' - 1) = CHR ''/''"
    using v pos by simp
  then show "boundary s'"
    using boundary_after_ascii [OF walks assms(1)] pos by (simp add: is_ascii_def byte_def)
qed

lemma skip_ok_stop: "boundary s \<Longrightarrow> skip_ok w s (Inr (w, s))"
  by (simp add: skip_ok_def tr_nil)

lemma skip_trivia_loop_ok: "boundary s \<Longrightarrow> skip_ok w s (skip_trivia_loop w s)"
proof (induction w s rule: skip_trivia_loop.induct)
  case (1 w s)
  note eq = skip_trivia_loop.simps [of w s]
  show ?case
  proof (cases "peek s")
    case None
    then show ?thesis
      using eq skip_ok_stop [OF "1.prems"] by simp
  next
    case (Some b)
    note IH = "1.IH" [OF Some]
    let ?lc = "b = CHR ''/'' \<and> peek_at s 1 = Some CHR ''/''"
    let ?bc = "b = CHR ''/'' \<and> peek_at s 1 = Some CHR ''*''"
    let ?ws = "b = c_space \<or> b = c_tab \<or> b = c_cr"
    consider (nl) "b = c_nl" | (ws) "b \<noteq> c_nl" "?ws" | (lc) "b \<noteq> c_nl" "\<not> ?ws" "?lc"
      | (bc) "b \<noteq> c_nl" "\<not> ?ws" "\<not> ?lc" "?bc" | (other) "b \<noteq> c_nl" "\<not> ?ws" "\<not> ?lc" "\<not> ?bc"
      by argo
    then show ?thesis
    proof cases
      case nl
      note st = white_step [OF "1.prems" Some]
      have a: "advance_char s = newline s"
        using Some nl by (simp add: advance_char_def)
      show ?thesis
        using eq Some nl st IH(1) [OF nl] a
        by (intro skip_ok_step [of s "newline s"]) (auto intro: tr_white)
    next
      case ws
      note st = white_step [OF "1.prems" Some]
      have a: "advance_char s = advance_byte s"
        using Some ws by (simp add: advance_char_def)
      have b: "b \<in> {c_nl, c_space, c_tab, c_cr}"
        using ws by blast
      show ?thesis
        using eq Some ws st [OF b] IH(2) [OF ws] a b
        by (intro skip_ok_step [of s "advance_byte s"]) (auto intro: tr_white)
    next
      case lc
      have pk: "peek s = Some CHR ''/''" "peek_at s 1 = Some CHR ''/''"
        using lc Some by auto
      note st = line_comment_step [OF "1.prems" pk]
      obtain u where u: "gap s (line_comment s) = CHR ''/'' # CHR ''/'' # u" "c_nl \<notin> set u"
        using st(2,3) by auto
      have r: "skip_trivia_loop w s = skip_trivia_loop w (line_comment s)"
        using eq Some lc by simp
      show ?thesis
        unfolding r
      proof (rule skip_ok_step)
        show "walks any_char s (line_comment s)"
          by (rule walks_any [OF walks_line_comment])
        show "trivia (gap s (line_comment s) @ v)" if "trivia v" for v
          using u tr_line [OF u(2) that] by simp
        show "skip_ok (w \<or> c_nl \<in> set (gap s (line_comment s))) (line_comment s)
            (skip_trivia_loop w (line_comment s))"
          using IH(3) [OF lc] st(1,3) by simp
      qed
    next
      case bc
      have pk: "peek s = Some CHR ''/''" "peek_at s 1 = Some CHR ''*''"
        using bc Some by auto
      show ?thesis
      proof (cases "block_comment s")
        case (Inl e)
        have "e = \<lparr>le_message = UnterminatedBlockComment, le_line = lx_line s, le_col = lx_col s\<rparr>"
          using block_comment_loop_error Inl unfolding block_comment_def by blast
        then show ?thesis
          using eq Some bc Inl pk "1.prems"
          by (auto simp: skip_ok_def error_at_def intro!: exI [of _ s] tr_nil)
      next
        case (Inr x)
        obtain nl s' where x: "x = (nl, s')"
          by fastforce
        note st = block_comment_step [OF "1.prems" pk Inr [unfolded x]]
        obtain u where u: "gap s s' = CHR ''/'' # CHR ''*'' # u" "block_tail 1 u"
          using st(2) by blast
        have r: "skip_trivia_loop w s = skip_trivia_loop (w \<or> nl) s'"
          using eq Some bc Inr x by simp
        show ?thesis
          unfolding r
        proof (rule skip_ok_step [OF st(4)])
          show "trivia (gap s s' @ v)" if "trivia v" for v
            using u tr_block [OF u(2) that] by simp
          show "skip_ok (w \<or> c_nl \<in> set (gap s s')) s' (skip_trivia_loop (w \<or> nl) s')"
            using IH(4) [OF bc Inr x [symmetric]] st(1,3) by simp
        qed
      qed
    next
      case other
      have "skip_trivia_loop w s = Inr (w, s)"
        by (subst eq) (simp only: Some option.case other if_False)
      then show ?thesis
        using skip_ok_stop [OF "1.prems"] by simp
    qed
  qed
qed

section \<open>Tilings\<close>

text \<open>
  \<open>tiles pre rest ts\<close>: the tokens \<open>ts\<close> tile the text \<open>rest\<close>, which follows \<open>pre\<close> in the
  source: trivia and lexemes alternate and leave nothing out, every token carries the line
  and column of its first byte and whether the trivia before it had a line break, and the
  list ends with one empty \<open>Eof\<close> token at the end of the text.
\<close>

inductive tiles :: "string \<Rightarrow> string \<Rightarrow> token list \<Rightarrow> bool" where
  tiles_eof: "trivia g \<Longrightarrow> tk_kind t = TEof \<Longrightarrow> tk_text t = [] \<Longrightarrow>
     tk_line t = line_of (pre @ g) \<Longrightarrow> tk_col t = col_of (pre @ g) \<Longrightarrow>
     tk_leading_newline t = (c_nl \<in> set g) \<Longrightarrow> tiles pre g [t]"
| tiles_tok: "trivia g \<Longrightarrow> x \<noteq> [] \<Longrightarrow> lexeme t x \<Longrightarrow>
     tk_line t = line_of (pre @ g) \<Longrightarrow> tk_col t = col_of (pre @ g) \<Longrightarrow>
     tk_leading_newline t = (c_nl \<in> set g) \<Longrightarrow> tiles (pre @ g @ x) rest ts \<Longrightarrow>
     tiles pre (g @ x @ rest) (t # ts)"

text \<open>What \<open>run\<close> promises of its result: a tiling, or an error inside the text.\<close>

definition located :: "string \<Rightarrow> string \<Rightarrow> lex_error \<Rightarrow> bool" where
  "located pre rest e \<longleftrightarrow> (\<exists>u v. rest = u @ v \<and> v \<noteq> []
     \<and> le_line e = line_of (pre @ u) \<and> le_col e = col_of (pre @ u))"

definition run_spec :: "string \<Rightarrow> string \<Rightarrow> lex_outcome \<Rightarrow> bool" where
  "run_spec pre rest r = (case r of LexOk ts \<Rightarrow> tiles pre rest ts | LexErr e \<Rightarrow> located pre rest e
     | _ \<Rightarrow> False)"

definition after :: "lexer \<Rightarrow> string" where
  "after s = drop (lx_pos s) (lx_src s)"

lemma walks_before_after:
  assumes "walks p s t" "lx_pos t \<le> length (lx_src s)"
  shows "before t = before s @ gap s t" "after s = gap s t @ after t"
proof -
  obtain n where n: "lx_pos t = lx_pos s + n" "lx_src t = lx_src s"
    using walks_fields(1,2) [OF assms(1)] le_Suc_ex by blast
  then show "before t = before s @ gap s t" "after s = gap s t @ after t"
    using assms(2) by (simp_all add: before_def after_def slice_def take_add)
      (metis add.commute append_take_drop_id drop_drop)
qed

lemma synced_line_col:
  "synced s \<Longrightarrow> lx_line s = line_of (before s)" "synced s \<Longrightarrow> lx_col s = col_of (before s)"
  by (simp_all add: synced_def)

lemma pending_simps [simp]:
  "before (s\<lparr>lx_pending_newline := w\<rparr>) = before s" "after (s\<lparr>lx_pending_newline := w\<rparr>) = after s"
  "synced (s\<lparr>lx_pending_newline := w\<rparr>) = synced s"
  "boundary (s\<lparr>lx_pending_newline := w\<rparr>) = boundary s"
  "remaining (s\<lparr>lx_pending_newline := w\<rparr>) = remaining s"
  by (simp_all add: before_def after_def synced_def boundary_def remaining_def)

lemma boundary_pos: "boundary s \<Longrightarrow> lx_pos s \<le> length (lx_src s)"
  by (simp add: boundary_def)

lemma run_spec_token:
  assumes g: "trivia g" and pos: "before s1 = pre @ g" "synced s1" "boundary s1"
    and nl: "lx_pending_newline s1 = (c_nl \<in> set g)"
    and tok: "token_at s1 t s2" and rest: "run_spec (before s2) (after s2) r"
  shows "run_spec pre (g @ after s1) (case r of LexOk ts \<Rightarrow> LexOk (t # ts) | other \<Rightarrow> other)"
proof -
  let ?x = "gap s1 s2"
  have w: "walks any_char s1 s2" and less: "lx_pos s1 < lx_pos s2"
    using tok by (auto simp: token_at_def)
  have le: "lx_pos s2 \<le> length (lx_src s1)"
    using walks_fields(5) [OF w] boundary_pos [OF pos(3)] by blast
  note ba = walks_before_after [OF w le]
  have x: "?x \<noteq> []"
    using less le by (simp add: slice_def)
  have t: "lexeme t ?x" "tk_line t = line_of (pre @ g)" "tk_col t = col_of (pre @ g)"
    "tk_leading_newline t = (c_nl \<in> set g)"
    using tok pos(1) nl synced_line_col [OF pos(2)] by (simp_all add: token_at_def)
  show ?thesis
  proof (cases r)
    case (LexOk ts)
    then have "tiles (pre @ g @ ?x) (after s2) ts"
      using rest ba(1) pos(1) by (simp add: run_spec_def)
    then have "tiles pre (g @ ?x @ after s2) (t # ts)"
      by (rule tiles_tok [OF g x t])
    then show ?thesis
      using LexOk ba(2) by (simp add: run_spec_def)
  next
    case (LexErr e)
    then obtain u v where uv: "after s2 = u @ v" "v \<noteq> []" "le_line e = line_of (before s2 @ u)"
        "le_col e = col_of (before s2 @ u)"
      using rest by (auto simp: run_spec_def located_def)
    have "located pre (g @ after s1) e"
      unfolding located_def
      using uv ba pos(1) by (intro exI [of _ "g @ ?x @ u"] exI [of _ v]) simp
    then show ?thesis
      using LexErr by (simp add: run_spec_def)
  qed (use rest in \<open>simp_all add: run_spec_def\<close>)
qed

lemma located_here:
  assumes "walks any_char s s'" "boundary s'" "synced s" "error_at s' e" "peek s' = Some c"
  shows "located (before s) (after s) e"
proof -
  have le: "lx_pos s' \<le> length (lx_src s)"
    using boundary_pos [OF assms(2)] walks_fields(1) [OF assms(1)] by simp
  note ba = walks_before_after [OF assms(1) le]
  have "after s' \<noteq> []"
    using assms(5) by (simp add: after_def peek_def get_at_Some_iff)
  then show ?thesis
    unfolding located_def
    using ba assms(4) synced_line_col [OF walks_synced [OF assms(1,3)]]
    by (intro exI [of _ "gap s s'"] exI [of _ "after s'"]) (simp add: error_at_def)
qed

lemma lex_run_spec:
  assumes "boundary s" "synced s" "\<not> lx_panic s" "remaining s < fuel"
  shows "run_spec (before s) (after s) (lex_run fuel prev s)"
  using assms
proof (induction fuel arbitrary: prev s)
  case (Suc fuel)
  note skip = skip_trivia_loop_ok [OF Suc.prems(1), of False, folded skip_trivia_def]
  show ?case
  proof (cases "skip_trivia s")
    case (Inl e)
    then show ?thesis
      using skip located_here [OF _ _ Suc.prems(2)] by (auto simp: skip_ok_def run_spec_def)
  next
    case (Inr x)
    obtain w s0 where x: "x = (w, s0)"
      by fastforce
    define s1 where "s1 = s0\<lparr>lx_pending_newline := w\<rparr>"
    have sk: "walks any_char s s0" "boundary s0" "trivia (gap s s0)" "w = (c_nl \<in> set (gap s s0))"
      using skip by (simp_all add: skip_ok_def Inr x)
    have le: "lx_pos s0 \<le> length (lx_src s)"
      using boundary_pos [OF sk(2)] walks_fields(1) [OF sk(1)] by simp
    note ba = walks_before_after [OF sk(1) le]
    have s1: "boundary s1" "synced s1" "\<not> lx_panic s1" "before s1 = before s @ gap s s0"
      "after s1 = after s0" "lx_pending_newline s1 = (c_nl \<in> set (gap s s0))"
      "remaining s1 \<le> remaining s"
      using sk ba walks_synced [OF sk(1) Suc.prems(2)] walks_fields [OF sk(1)] Suc.prems(3)
      by (simp_all add: s1_def remaining_def)
    have f: "lx_src s0 = lx_src s1" "lx_pos s0 = lx_pos s1"
      by (simp_all add: s1_def)
    show ?thesis
    proof (cases "peek s1")
      case None
      then have pos: "length (lx_src s1) \<le> lx_pos s1"
        by (simp add: peek_None_iff)
      then have eq: "lex_run (Suc fuel) prev s =
          LexOk [fst (make TEof (lx_pos s1) (lx_line s1) (lx_col s1) s1)]"
        using Inr x s1(1,3) boundary_char_boundary [OF s1(1)] boundary_pos [OF s1(1)] f
        by (simp add: s1_def [symmetric] make_def make_slice_def slice_ok_def)
      have "after s = gap s s0"
        using ba(2) s1(5) pos by (simp add: after_def)
      moreover have "tiles (before s) (gap s s0)
          [fst (make TEof (lx_pos s1) (lx_line s1) (lx_col s1) s1)]"
        using sk(3) s1 synced_line_col [OF s1(2)]
        by (intro tiles_eof) (simp_all add: make_def make_slice_def slice_def)
      ultimately show ?thesis
        unfolding eq by (simp add: run_spec_def)
    next
      case (Some c)
      then have pos: "\<not> length (lx_src s1) \<le> lx_pos s1"
        using peek_None_iff [of s1] by simp
      note ok = next_token_ok [OF s1(1) Some, of prev]
      have after: "after s = gap s s0 @ after s1"
        using ba(2) s1(5) by simp
      show ?thesis
      proof (cases "next_token prev s1")
        case err: (Inl e)
        have "error_at s1 e"
          using ok by (simp add: err scan_ok_def)
        then have "located (before s @ gap s s0) (after s1) e"
          using located_here [OF walks_refl s1(1,2) _ Some] s1(4) by simp
        then obtain u v where "after s1 = u @ v" "v \<noteq> []"
            "le_line e = line_of ((before s @ gap s s0) @ u)"
            "le_col e = col_of ((before s @ gap s s0) @ u)"
          unfolding located_def by blast
        then have "located (before s) (after s) e"
          unfolding located_def after by (intro exI [of _ "gap s s0 @ u"] exI [of _ v]) simp
        then show ?thesis
          using Inr x pos err f by (simp add: s1_def [symmetric] run_spec_def)
      next
        case tok: (Inr y)
        obtain t s2 where y: "y = (t, s2)"
          by fastforce
        have at: "token_at s1 t s2"
          using ok by (simp add: tok y scan_ok_def)
        then have w: "walks any_char s1 s2" and b2: "boundary s2" and less: "lx_pos s1 < lx_pos s2"
          by (auto simp: token_at_def)
        have s2: "synced s2" "\<not> lx_panic s2" "remaining s2 < fuel"
          using walks_synced [OF w s1(2)] walks_fields [OF w] s1(3,7) less Suc.prems(4)
            boundary_pos [OF b2] by (auto simp: remaining_def)
        have "run_spec (before s2) (after s2) (lex_run fuel (Some t) s2)"
          by (rule Suc.IH [OF b2 s2])
        from run_spec_token [OF sk(3) s1(4,2,1,6) at this]
        show ?thesis
          using Inr x pos tok y s2(2) after f by (simp add: s1_def [symmetric])
      qed
    qed
  qed
qed simp

lemma lexer_new_ok:
  assumes "utf8_valid src" "countable_source src"
  shows "boundary (lexer_new src)" "synced (lexer_new src)" "\<not> lx_panic (lexer_new src)"
    "before (lexer_new src) = []" "after (lexer_new src) = src"
    "remaining (lexer_new src) = length src"
  using assms
  by (simp_all add: lexer_new_def boundary_def synced_def before_def after_def remaining_def
      line_of_def col_of_def)

lemma tokenize_run_spec:
  assumes "utf8_valid src" "countable_source src"
  shows "run_spec [] src (tokenize src)"
  using lex_run_spec [of "lexer_new src" "length src + 1" None] lexer_new_ok [OF assms]
  by (simp add: tokenize_def)

end
