(* ===== verification/Lexer_Props.thy ===== *)
theory Lexer_Props
  imports Lexer_Correct
begin

text \<open>
  The properties of the lexer (\<open>crates/tswift-lexer/src/lib.rs\<close>): on every valid UTF-8
  source it returns, without a panic, either a tiling of the source or an error placed
  inside it; operators are taken by maximal munch; keywords are classified by the table.
\<close>

section \<open>The whole source\<close>

text \<open>C13. On valid UTF-8 of less than \<open>2 ^ 32 - 1\<close> bytes, where no counter overflows, the lexer returns
  tokens or an error, never panics, and an error's line and column are those of a position inside the
  source.\<close>

theorem tokenize_total:
  assumes "utf8_valid src" "length src < 2 ^ 32 - 1"
  shows "(\<exists>ts. tokenize src = LexOk ts)
     \<or> (\<exists>e u v. tokenize src = LexErr e \<and> src = u @ v \<and> v \<noteq> []
          \<and> le_line e = line_of u \<and> le_col e = col_of u)"
  using tokenize_run_spec [OF assms [folded countable_source_def]]
  by (cases "tokenize src") (auto simp: run_spec_def located_def)

theorem tokenize_total_witness:
  "(\<exists>ts. tokenize ''x /* a'' = LexOk ts)
     \<or> (\<exists>e u v. tokenize ''x /* a'' = LexErr e \<and> ''x /* a'' = u @ v \<and> v \<noteq> []
          \<and> le_line e = line_of u \<and> le_col e = col_of u)"
  by (rule tokenize_total) (code_simp, simp)

text \<open>C12. The tokens of a source of less than \<open>2 ^ 32 - 1\<close> bytes tile it: trivia and lexemes alternate, nothing is lost or read
  twice, every token has the line, column and newline flag of its place, \<open>Eof\<close> ends the list.\<close>

theorem tokenize_tiles:
  assumes "utf8_valid src" "length src < 2 ^ 32 - 1" "tokenize src = LexOk ts"
  shows "tiles [] src ts"
  using tokenize_run_spec [OF assms(1,2) [folded countable_source_def]] assms(3) by (simp add: run_spec_def)

theorem tokenize_tiles_witness:
  "tiles [] ''let x = 42'' (case tokenize ''let x = 42'' of LexOk ts \<Rightarrow> ts | _ \<Rightarrow> [])"
  by (rule tokenize_tiles) (code_simp, simp, code_simp)

section \<open>Maximal munch\<close>

text \<open>No table entry is a prefix of a later one, so the first match is the longest.\<close>

fun munch_ordered :: "string list \<Rightarrow> bool" where
  "munch_ordered [] = True"
| "munch_ordered (op # ops) = (list_all (\<lambda>later. \<not> starts_with later op) ops \<and> munch_ordered ops)"

lemma munch_ordered_OPERATORS: "munch_ordered OPERATORS"
  by code_simp

lemma munch_find:
  assumes "munch_ordered ops" "List.find (starts_with src) ops = Some op"
    and "op' \<in> set ops" "starts_with src op'"
  shows "length op' \<le> length op"
  using assms
proof (induction ops)
  case (Cons o1 ops)
  show ?case
  proof (cases "starts_with src o1")
    case True
    show ?thesis
    proof (rule ccontr)
      assume longer: "\<not> length op' \<le> length op"
      then have "op' \<in> set ops" "o1 = op"
        using Cons.prems True by auto
      then have "\<not> starts_with op' op"
        using Cons.prems(1) by (auto simp: list_all_iff)
      moreover have "take (length op) op' = take (length op) (take (length op') src)"
        using Cons.prems(4) by (simp add: starts_with_iff)
      moreover have "take (length op) src = op"
        using True \<open>o1 = op\<close> by (simp add: starts_with_iff)
      ultimately show False
        using longer by (simp add: starts_with_iff min_def)
    qed
  qed (use Cons in auto)
qed simp

lemma at_prefix_conv: "at_prefix s = starts_with (drop (lx_pos s) (lx_src s))"
  by (simp add: fun_eq_iff at_prefix_def)

lemma operator_run_ge: "operator_run s n = Some m \<Longrightarrow> n \<le> m"
proof (induction s n arbitrary: m rule: operator_run.induct)
  case (1 s n)
  note unfolded = "1.prems" [unfolded operator_run.simps [of s n]]
  show ?case
  proof (cases "peek_at s n")
    case (Some b)
    consider "byte b < 128" "\<not> is_pure_operator_byte b"
      | "byte b < 128" "is_pure_operator_byte b" | "128 \<le> byte b" by linarith
    then show ?thesis
    proof cases
      case 2
      then show ?thesis
        using unfolded "1.IH"(1) [OF Some 2, of m] Some by simp
    next
      case 3
      then obtain ch k where "scalar_at (lx_src s) (lx_pos s + n) = Some (ch, k)"
        using unfolded Some by (auto split: option.splits)
      with unfolded "1.IH"(2) [OF Some _ this refl, of m] Some 3 show ?thesis
        by (auto split: if_splits)
    qed (use unfolded Some in simp)
  qed (use unfolded in simp)
qed

text \<open>\<open>match_operator\<close> is maximal munch: the operator it takes is at least as long as
  every table operator that matches at the cursor, although it takes the first that does.\<close>

theorem match_operator_longest:
  assumes "match_operator s = Some (Some n)" "op \<in> set OPERATORS" "at_prefix s op"
  shows "length op \<le> n"
proof -
  obtain op1 where op1: "List.find (at_prefix s) OPERATORS = Some op1" "length op1 \<le> n"
    using assms(1) operator_run_ge
    by (auto simp: match_operator_def split: option.splits if_splits)
  then show ?thesis
    using munch_find [OF munch_ordered_OPERATORS _ assms(2)] assms(3)
    unfolding at_prefix_conv by fastforce
qed

theorem match_operator_longest_witness:
  "length ''&<<'' \<le> (case match_operator (lexer_new ''&<<=1'') of Some (Some n) \<Rightarrow> n | _ \<Rightarrow> 0)"
  by (rule match_operator_longest [where s = "lexer_new ''&<<=1''"]) code_simp+

section \<open>Keywords\<close>

definition classified :: "lex_error + (token \<times> lexer) \<Rightarrow> bool" where
  "classified r = (case r of Inl e \<Rightarrow> True | Inr (t, s') \<Rightarrow>
     tk_kind t \<in> {TKeyword, TIdentifier} \<longrightarrow> tk_kind t = TKeyword \<longleftrightarrow> tk_text t \<in> set KEYWORDS)"

lemma classified_Inl [simp]: "classified (Inl e)"
  by (simp add: classified_def)

lemma classified_make [simp]:
  "k \<notin> {TKeyword, TIdentifier} \<Longrightarrow> classified (Inr (make k a l c s))"
  by (simp add: classified_def make_def make_slice_def)

lemma classified_string: "classified (string_token s)"
  by (simp add: string_token_def split: sum.split)

lemma classified_regex: "classified (regex_token n s)"
  by (simp add: regex_token_def)

lemma classified_operator: "classified none \<Longrightarrow> classified (operator_token none s)"
  by (simp add: operator_token_def split: option.split)

lemma ident_run_src: "lx_src (ident_run s) = lx_src s"
proof (induction s rule: ident_run.induct)
  case (1 s)
  have take: "lx_src (take_n n s) = lx_src s" for n s
    by (induction n s rule: take_n.induct) (simp_all add: advance_byte_def panic_def split: option.split)
  show ?case
    using "1.IH" take
    by (subst ident_run.simps)
      (auto simp: advance_byte_def panic_def split: option.split prod.split)
qed

lemma classified_ident: "classified (ident_token s)"
  by (simp add: classified_def ident_token_def Let_def make_def make_slice_def ident_run_src)

lemma single_kind_plain_kind: "single_kind c = Some k \<Longrightarrow> k \<notin> {TKeyword, TIdentifier}"
  by (auto simp: single_kind_def split: if_splits)

lemma number_kind: "fst (number s) \<notin> {TKeyword, TIdentifier}"
  by (simp add: number_def Let_def split: prod.split)

lemma classified_if:
  "(b \<Longrightarrow> classified x) \<Longrightarrow> (\<not> b \<Longrightarrow> classified y) \<Longrightarrow> classified (if b then x else y)"
  by simp

text \<open>An identifier-like token that was not written between backticks is a keyword
  exactly when its text is in the keyword table.\<close>

theorem keyword_classified:
  assumes "next_token prev s = Inr (t, s')" "peek s \<noteq> Some c_backtick"
    and "tk_kind t = TKeyword \<or> tk_kind t = TIdentifier"
  shows "tk_kind t = TKeyword \<longleftrightarrow> tk_text t \<in> set KEYWORDS"
proof -
  have "classified (next_token prev s)"
  proof (cases "peek s")
    case (Some c)
    show ?thesis
    proof (cases "single_kind c")
      case None
      show ?thesis
        unfolding next_token_def Let_def Some option.case None
        by (intro classified_if classified_string classified_regex)
          (use assms(2) Some number_kind classified_ident classified_operator classified_regex in
            \<open>simp_all split: option.split\<close>)
    next
      case (Some k)
      then show ?thesis
        using \<open>peek s = Some c\<close> single_kind_plain_kind [OF Some]
        by (simp add: next_token_def Let_def)
    qed
  qed (simp add: next_token_def Let_def)
  then show ?thesis
    using assms(1,3) by (auto simp: classified_def)
qed

theorem keyword_classified_witness:
  "tk_kind (fst (projr (next_token None (lexer_new ''while x'')))) = TKeyword
     \<longleftrightarrow> tk_text (fst (projr (next_token None (lexer_new ''while x'')))) \<in> set KEYWORDS"
proof (rule keyword_classified)
  show "next_token None (lexer_new ''while x'')
      = Inr (fst (projr (next_token None (lexer_new ''while x''))),
             snd (projr (next_token None (lexer_new ''while x''))))"
    by code_simp
qed code_simp+

end
