(* ===== verification/Type_Repr.thy ===== *)
theory Type_Repr
  imports Prelude
begin

text \<open>
  The structured view of a written type, \<open>crates/tswift-ast/src/type_repr.rs\<close>: the parser
  of type spellings (\<open>parse\<close> and its helpers) and the queries on the parsed shape.

  A spelling is a list of scalars. The code works on byte offsets, but every separator it
  looks for is ASCII, so cutting at a byte offset and cutting at the corresponding scalar
  offset are the same cut. Slices of the input are the slices themselves.
\<close>

section \<open>Strings\<close>

definition strip_suffix :: "scalar \<Rightarrow> ustr \<Rightarrow> ustr option" where
  "strip_suffix c s = (if s \<noteq> [] \<and> last s = c then Some (butlast s) else None)"

definition ends_with :: "ustr \<Rightarrow> ustr \<Rightarrow> bool" where
  "ends_with s suffix \<longleftrightarrow> starts_with (rev s) (rev suffix)"

section \<open>Data\<close>

datatype type_repr = TypeRepr (tr_text: ustr) (tr_kind: type_repr_kind)
and type_repr_kind =
    KNamed ustr "type_repr list"
  | KOptional type_repr
  | KArray type_repr
  | KDictionary type_repr type_repr
  | KTuple "type_repr list"
  | KFunction "type_repr list" type_repr
  | KComposition "type_repr list"

section \<open>Scanning at bracket depth\<close>

abbreviation "sc_lparen \<equiv> 40::scalar"
abbreviation "sc_rparen \<equiv> 41::scalar"
abbreviation "sc_lbrack \<equiv> 91::scalar"
abbreviation "sc_rbrack \<equiv> 93::scalar"
abbreviation "sc_lt \<equiv> 60::scalar"
abbreviation "sc_gt \<equiv> 62::scalar"
abbreviation "sc_minus \<equiv> 45::scalar"
abbreviation "sc_comma \<equiv> 44::scalar"
abbreviation "sc_colon \<equiv> 58::scalar"
abbreviation "sc_amp \<equiv> 38::scalar"
abbreviation "sc_question \<equiv> 63::scalar"

definition is_open :: "scalar \<Rightarrow> bool" where
  "is_open c \<longleftrightarrow> c = sc_lparen \<or> c = sc_lbrack \<or> c = sc_lt"

definition is_close :: "scalar \<Rightarrow> bool" where
  "is_close c \<longleftrightarrow> c = sc_rparen \<or> c = sc_rbrack \<or> c = sc_gt"

definition depth_step :: "scalar \<Rightarrow> int \<Rightarrow> int" where
  "depth_step c d = (if is_open c then d + 1 else if is_close c then d - 1 else d)"

text \<open>The loops of \<open>arrow_pos\<close> and \<open>top_level_indices\<close>; \<open>i\<close> is the index of the head of the
  rest of the string.\<close>

fun arrow_pos_from :: "nat \<Rightarrow> int \<Rightarrow> ustr \<Rightarrow> nat option" where
  "arrow_pos_from i d [] = None"
| "arrow_pos_from i d [c] = None"
| "arrow_pos_from i d (c # c' # cs) =
     (if c = sc_minus \<and> c' = sc_gt then
        if d = 0 then Some i else arrow_pos_from (i + 2) d cs
      else arrow_pos_from (i + 1) (depth_step c d) (c' # cs))"

definition arrow_pos :: "ustr \<Rightarrow> nat option" where
  "arrow_pos s = arrow_pos_from 0 0 s"

definition sep_here :: "nat \<Rightarrow> int \<Rightarrow> scalar \<Rightarrow> scalar \<Rightarrow> nat list" where
  "sep_here i d sep c = (if \<not> is_open c \<and> \<not> is_close c \<and> c = sep \<and> d = 0 then [i] else [])"

fun top_level_from :: "nat \<Rightarrow> int \<Rightarrow> scalar \<Rightarrow> ustr \<Rightarrow> nat list" where
  "top_level_from i d sep [] = []"
| "top_level_from i d sep [c] = sep_here i d sep c"
| "top_level_from i d sep (c # c' # cs) =
     (if c = sc_minus \<and> c' = sc_gt then top_level_from (i + 2) d sep cs
      else sep_here i d sep c @ top_level_from (i + 1) (depth_step c d) sep (c' # cs))"

definition top_level_indices :: "ustr \<Rightarrow> scalar \<Rightarrow> nat list" where
  "top_level_indices s sep = top_level_from 0 0 sep s"

text \<open>\<open>split_at\<close>: the trimmed pieces between the given positions.\<close>

fun split_at_from :: "nat \<Rightarrow> ustr \<Rightarrow> nat list \<Rightarrow> ustr list" where
  "split_at_from start s [] = [trim (drop start s)]"
| "split_at_from start s (idx # seps) =
     trim (take (idx - start) (drop start s)) # split_at_from (idx + 1) s seps"

definition split_at :: "ustr \<Rightarrow> nat list \<Rightarrow> ustr list" where
  "split_at s seps = split_at_from 0 s seps"

definition split_commas :: "ustr \<Rightarrow> ustr list" where
  "split_commas s = split_at s (top_level_indices s sc_comma)"

text \<open>The scan of \<open>delimited_inner\<close>: does the depth come back to 0 before the last byte?\<close>

fun closes_early :: "int \<Rightarrow> ustr \<Rightarrow> bool" where
  "closes_early d [] = False"
| "closes_early d (c # cs) =
     (if is_open c then closes_early (d + 1) cs
      else if is_close c then (d - 1 = 0 \<and> cs \<noteq> []) \<or> closes_early (d - 1) cs
      else closes_early d cs)"

definition delimited_inner :: "ustr \<Rightarrow> scalar \<Rightarrow> scalar \<Rightarrow> ustr option" where
  "delimited_inner s open_c close_c =
     (if s = [] \<or> hd s \<noteq> open_c \<or> last s \<noteq> close_c then None
      else if closes_early 0 s then None
      else Some (butlast (tl s)))"

definition bracket_inner :: "ustr \<Rightarrow> ustr option" where
  "bracket_inner s = delimited_inner s sc_lbrack sc_rbrack"

definition paren_inner :: "ustr \<Rightarrow> ustr option" where
  "paren_inner s = delimited_inner s sc_lparen sc_rparen"

definition strip_tuple_label :: "ustr \<Rightarrow> ustr" where
  "strip_tuple_label part =
     (case top_level_indices part sc_colon of
        ci # _ \<Rightarrow> trim (drop (ci + 1) part)
      | [] \<Rightarrow> trim part)"

text \<open>
  The pieces \<open>parse_named\<close> and \<open>parse_param_list\<close> hand back to \<open>parse\<close>: the name with the
  spellings of the generic arguments, and the spellings of the parameters.
\<close>

definition named_parts :: "ustr \<Rightarrow> ustr \<times> ustr list" where
  "named_parts s =
     (let trimmed = trim_end s in
      case (if trimmed \<noteq> [] \<and> last trimmed = sc_gt then position (\<lambda>c. c = sc_lt) trimmed
            else None) of
        Some open_i \<Rightarrow>
          (trim (take open_i s),
           split_commas (take (length trimmed - 1 - (open_i + 1)) (drop (open_i + 1) s)))
      | None \<Rightarrow> (trim s, []))"

definition param_parts :: "ustr \<Rightarrow> ustr list" where
  "param_parts s =
     (case paren_inner s of
        Some inner \<Rightarrow>
          if trim inner = [] then [] else map strip_tuple_label (split_commas inner)
      | None \<Rightarrow> [s])"

definition optional_name :: "ustr \<Rightarrow> bool" where
  "optional_name name \<longleftrightarrow>
     name = scalars ''Optional'' \<or> ends_with name (scalars ''.Optional'')"

section \<open>Lengths of the pieces\<close>

lemma length_trim_end [simp]: "length (trim_end s) \<le> length s"
  by (simp add: trim_end_def) (metis length_dropWhile_le length_rev)

lemma length_trim: "length (trim s) \<le> length s"
  unfolding trim_def by (meson length_dropWhile_le length_trim_end order_trans)

lemma arrow_pos_from_bound:
  "arrow_pos_from i d s = Some j \<Longrightarrow> i \<le> j \<and> j + 2 \<le> i + length s
     \<and> s ! (j - i) = sc_minus \<and> s ! (j - i + 1) = sc_gt"
proof (induction i d s rule: arrow_pos_from.induct)
  case (3 i d c c' cs)
  show ?case
  proof (cases "c = sc_minus \<and> c' = sc_gt")
    case True
    show ?thesis
    proof (cases "d = 0")
      case False
      then have "arrow_pos_from (i + 2) d cs = Some j"
        using "3.prems" True by simp
      with "3.IH"(1) [OF True False] have *: "i + 2 \<le> j \<and> j + 2 \<le> i + 2 + length cs
          \<and> cs ! (j - (i + 2)) = sc_minus \<and> cs ! (j - (i + 2) + 1) = sc_gt"
        by simp
      then obtain k where "j = i + 2 + k"
        using le_Suc_ex by blast
      with * show ?thesis by simp
    qed (use "3.prems" True in simp)
  next
    case False
    then have "arrow_pos_from (i + 1) (depth_step c d) (c' # cs) = Some j"
      using "3.prems" unfolding arrow_pos_from.simps by (simp only: if_False)
    with "3.IH"(2) [OF False] have *: "i + 1 \<le> j \<and> j + 2 \<le> i + 1 + length (c' # cs)
        \<and> (c' # cs) ! (j - (i + 1)) = sc_minus \<and> (c' # cs) ! (j - (i + 1) + 1) = sc_gt"
      by simp
    then obtain k where "j = i + 1 + k"
      using le_Suc_ex by blast
    with * show ?thesis by simp
  qed
qed simp_all

lemma top_level_from_bound:
  "j \<in> set (top_level_from i d sep s) \<Longrightarrow> i \<le> j \<and> j < i + length s"
proof (induction i d sep s rule: top_level_from.induct)
  case (3 i d sep c c' cs)
  show ?case
  proof (cases "c = sc_minus \<and> c' = sc_gt")
    case True
    then have "j \<in> set (top_level_from (i + 2) d sep cs)"
      using "3.prems" by simp
    with "3.IH"(1) [OF True] show ?thesis by simp
  next
    case False
    then consider "j \<in> set (sep_here i d sep c)"
      | "j \<in> set (top_level_from (i + 1) (depth_step c d) sep (c' # cs))"
      using "3.prems" by (auto simp: if_not_P)
    then show ?thesis
    proof cases
      case 1
      then show ?thesis
        by (auto simp: sep_here_def split: if_splits)
    next
      case 2
      with "3.IH"(2) [OF False] show ?thesis by simp
    qed
  qed
qed (auto simp: sep_here_def split: if_splits)

lemma split_at_from_bound:
  "p \<in> set (split_at_from start s seps) \<Longrightarrow> length p \<le> length s"
proof (induction start s seps rule: split_at_from.induct)
  case (1 start s)
  then show ?case
    using length_trim [of "drop start s"] by simp
next
  case (2 start s idx seps)
  have "length (trim (take (idx - start) (drop start s))) \<le> length s"
    using length_trim [of "take (idx - start) (drop start s)"] by simp linarith
  then show ?case
    using 2 by auto
qed

text \<open>With at least one separator inside the string every piece is shorter than it.\<close>

lemma split_at_from_shorter:
  assumes "p \<in> set (split_at_from start s seps)" "seps \<noteq> []" "\<And>j. j \<in> set seps \<Longrightarrow> j < length s"
  shows "length p < length s"
  using assms
proof (induction start s seps rule: split_at_from.induct)
  case (2 start s idx seps)
  have idx: "idx < length s"
    using "2.prems"(3) by simp
  have hd: "length (trim (take (idx - start) (drop start s))) < length s"
    using length_trim [of "take (idx - start) (drop start s)"] idx by simp
  have tl: "length p < length s" if "p \<in> set (split_at_from (idx + 1) s seps)"
  proof (cases seps)
    case Nil
    then have "p = trim (drop (idx + 1) s)"
      using that by simp
    then show ?thesis
      using length_trim [of "drop (idx + 1) s"] idx by simp
  next
    case (Cons a as)
    then show ?thesis
      using "2.IH" "2.prems"(3) that by simp
  qed
  show ?case
    using "2.prems"(1) hd tl by auto
qed simp

lemma split_commas_bound: "p \<in> set (split_commas s) \<Longrightarrow> length p \<le> length s"
  unfolding split_commas_def split_at_def by (rule split_at_from_bound)

lemma length_trim_drop: "length (trim (drop j p)) \<le> length p"
  using length_trim [of "drop j p"] by simp

lemma strip_tuple_label_bound: "length (strip_tuple_label p) \<le> length p"
  using length_trim length_trim_drop
  by (auto simp: strip_tuple_label_def simp del: length_drop split: list.split)

lemma delimited_inner_shorter:
  "delimited_inner s a b = Some inner \<Longrightarrow> length inner < length s"
  by (auto simp: delimited_inner_def split: if_splits)

lemma param_parts_bound: "p \<in> set (param_parts s) \<Longrightarrow> length p \<le> length s"
proof -
  assume p: "p \<in> set (param_parts s)"
  show ?thesis
  proof (cases "paren_inner s")
    case (Some inner)
    then obtain q where q: "q \<in> set (split_commas inner)" "p = strip_tuple_label q"
      using p by (auto simp: param_parts_def split: if_splits)
    have "length inner < length s"
      using Some delimited_inner_shorter unfolding paren_inner_def by blast
    then show ?thesis
      using strip_tuple_label_bound [of q] split_commas_bound [OF q(1)] q(2) by simp
  qed (use p in \<open>simp add: param_parts_def\<close>)
qed

lemma named_parts_shorter:
  assumes "p \<in> set (snd (named_parts s))"
  shows "length p < length s"
proof -
  let ?t = "trim_end s"
  obtain i where i: "?t \<noteq> []" "position (\<lambda>c. c = sc_lt) ?t = Some i"
      "p \<in> set (split_commas (take (length ?t - 1 - (i + 1)) (drop (i + 1) s)))"
    using assms by (auto simp: named_parts_def Let_def split: option.splits if_splits)
  have "length p \<le> length (take (length ?t - 1 - (i + 1)) (drop (i + 1) s))"
    by (rule split_commas_bound [OF i(3)])
  also have "\<dots> \<le> length ?t - 1"
    by simp
  also have "\<dots> < length ?t"
    using i(1) by simp
  also have "\<dots> \<le> length s"
    by (rule length_trim_end)
  finally show ?thesis .
qed

lemma strip_suffix_shorter: "strip_suffix c s = Some b \<Longrightarrow> length b < length s"
  by (auto simp: strip_suffix_def split: if_splits)

text \<open>Every recursive call of \<open>parse\<close> is on a strictly shorter spelling.\<close>

lemma shorter_of_trim: "length p < length (trim s) \<Longrightarrow> length p < length s"
  using length_trim [of s] by simp

lemma arrow_pos_bound: "arrow_pos t = Some idx \<Longrightarrow> idx + 2 \<le> length t"
  using arrow_pos_from_bound [of 0 0 t idx] by (simp add: arrow_pos_def)

lemma shorter_param:
  assumes "arrow_pos t = Some idx" "p \<in> set (param_parts (trim (take idx t)))"
  shows "length p < length t"
  using param_parts_bound [OF assms(2)] length_trim [of "take idx t"] arrow_pos_bound [OF assms(1)]
  by simp

lemma shorter_ret: "arrow_pos t = Some idx \<Longrightarrow> length (trim (drop (idx + 2) t)) < length t"
  using length_trim [of "drop (idx + 2) t"] arrow_pos_bound [of t idx] by simp

lemma shorter_split:
  assumes "top_level_indices t sep \<noteq> []" "p \<in> set (split_at t (top_level_indices t sep))"
  shows "length p < length t"
  using assms split_at_from_shorter [of p 0 t] top_level_from_bound [of _ 0 0 sep t]
  by (simp add: split_at_def top_level_indices_def)

lemma shorter_optional: "strip_suffix c t = Some base \<Longrightarrow> length (trim_end base) < length t"
  using strip_suffix_shorter [of c t base] length_trim_end [of base] by linarith

lemma bracket_inner_shorter: "bracket_inner t = Some inner \<Longrightarrow> length inner < length t"
  unfolding bracket_inner_def by (rule delimited_inner_shorter)

lemma paren_inner_shorter: "paren_inner t = Some inner \<Longrightarrow> length inner < length t"
  unfolding paren_inner_def by (rule delimited_inner_shorter)

lemma shorter_bracket:
  assumes "bracket_inner t = Some inner"
  shows "length (trim inner) < length t" "length (trim (take ci inner)) < length t"
    "length (trim (drop ci inner)) < length t"
  using bracket_inner_shorter [OF assms] length_trim [of inner] length_trim [of "take ci inner"]
    length_trim_drop [of ci inner] by simp_all

lemma shorter_paren:
  assumes "paren_inner t = Some inner" "p \<in> set (split_commas inner)"
  shows "length (strip_tuple_label p) < length t"
  using paren_inner_shorter [OF assms(1)] split_commas_bound [OF assms(2)]
    strip_tuple_label_bound [of p] by simp

lemma shorter_paren_hd:
  assumes "paren_inner t = Some inner" "length (split_commas inner) = 1"
  shows "length (strip_tuple_label (hd (split_commas inner))) < length t"
proof (rule shorter_paren [OF assms(1)])
  show "hd (split_commas inner) \<in> set (split_commas inner)"
    using assms(2) by (cases "split_commas inner") auto
qed

lemma shorter_generic: "(name, ps) = named_parts t \<Longrightarrow> p \<in> set ps \<Longrightarrow> length p < length t"
  using named_parts_shorter [of p t] by (metis snd_conv)

lemmas parse_shorter = shorter_param shorter_ret shorter_split shorter_optional shorter_bracket
  shorter_paren shorter_paren_hd shorter_generic

section \<open>The parser\<close>

function parse :: "ustr \<Rightarrow> type_repr" where
  "parse spelling =
     (let t = trim spelling in
      case arrow_pos t of
        Some idx \<Rightarrow>
          TypeRepr t (KFunction (map parse (param_parts (trim (take idx t))))
                                (parse (trim (drop (idx + 2) t))))
      | None \<Rightarrow>
      if top_level_indices t sc_amp \<noteq> [] then
        TypeRepr t (KComposition (map parse (split_at t (top_level_indices t sc_amp))))
      else case strip_suffix sc_question t of
        Some base \<Rightarrow> TypeRepr t (KOptional (parse (trim_end base)))
      | None \<Rightarrow>
      case bracket_inner t of
        Some inner \<Rightarrow>
          (case top_level_indices inner sc_colon of
             ci # _ \<Rightarrow> TypeRepr t (KDictionary (parse (trim (take ci inner)))
                                              (parse (trim (drop (ci + 1) inner))))
           | [] \<Rightarrow> TypeRepr t (KArray (parse (trim inner))))
      | None \<Rightarrow>
      case paren_inner t of
        Some inner \<Rightarrow>
          if trim inner = [] then TypeRepr t (KTuple [])
          else (let parts = split_commas inner in
                if length parts = 1 then parse (strip_tuple_label (hd parts))
                else TypeRepr t (KTuple (map (\<lambda>p. parse (strip_tuple_label p)) parts)))
      | None \<Rightarrow>
          (let (name, spellings) = named_parts t; args = map parse spellings in
           if length args = 1 \<and> optional_name name
           then TypeRepr t (KOptional (last args))
           else TypeRepr t (KNamed name args)))"
  by pat_completeness auto
termination
  by (relation "measure length"; simp only: in_measure wf_measure)
    (rule shorter_of_trim, (erule parse_shorter; assumption?))+

declare parse.simps [simp del]

section \<open>Queries\<close>

definition is_optional :: "type_repr \<Rightarrow> bool" where
  "is_optional t = (case tr_kind t of KOptional _ \<Rightarrow> True | _ \<Rightarrow> False)"

fun contains_optional :: "type_repr \<Rightarrow> bool" where
  "contains_optional (TypeRepr _ (KOptional _)) = True"
| "contains_optional (TypeRepr _ (KArray inner)) = contains_optional inner"
| "contains_optional (TypeRepr _ (KDictionary k v)) = (contains_optional k \<or> contains_optional v)"
| "contains_optional (TypeRepr _ (KTuple ts)) = list_ex contains_optional ts"
| "contains_optional (TypeRepr _ (KComposition ts)) = list_ex contains_optional ts"
| "contains_optional (TypeRepr _ (KFunction ps r)) =
     (contains_optional r \<or> list_ex contains_optional ps)"
| "contains_optional (TypeRepr _ (KNamed _ args)) = list_ex contains_optional args"

definition unwrap_optional :: "type_repr \<Rightarrow> type_repr" where
  "unwrap_optional t = (case tr_kind t of KOptional inner \<Rightarrow> inner | _ \<Rightarrow> t)"

fun strip_optionals :: "type_repr \<Rightarrow> type_repr" where
  "strip_optionals (TypeRepr _ (KOptional inner)) = strip_optionals inner"
| "strip_optionals t = t"

definition array_element :: "type_repr \<Rightarrow> type_repr option" where
  "array_element t = (case tr_kind t of KArray inner \<Rightarrow> Some inner | _ \<Rightarrow> None)"

definition dictionary :: "type_repr \<Rightarrow> (type_repr \<times> type_repr) option" where
  "dictionary t = (case tr_kind t of KDictionary k v \<Rightarrow> Some (k, v) | _ \<Rightarrow> None)"

definition type_name :: "type_repr \<Rightarrow> ustr option" where
  "type_name t = (case tr_kind t of KNamed name _ \<Rightarrow> Some name | _ \<Rightarrow> None)"

end
