(* ===== verification/Type_Repr_Correct.thy ===== *)
theory Type_Repr_Correct
  imports Type_Repr
begin

text \<open>
  The type parser read against the grammar of the types it claims to know: a shape is printed
  in Swift's concrete syntax and parsed back. The scanners are proved on strings whose brackets
  nest (\<open>flat\<close>); the parser agrees with the grammar as long as no function type stands
  inside brackets, and the last section shows what happens where one does.
\<close>

section \<open>Trimming\<close>

lemma trim_end_id: "s = [] \<or> \<not> is_whitespace (last s) \<Longrightarrow> trim_end s = s"
  by (cases s rule: rev_cases) (auto simp: trim_end_def)

lemma trim_id: "s = [] \<or> \<not> is_whitespace (hd s) \<and> \<not> is_whitespace (last s) \<Longrightarrow> trim s = s"
  by (cases s) (auto simp: trim_def trim_end_id)

lemma trim_space_left: "trim (32 # s) = trim s"
  by (simp add: trim_def is_whitespace_def)

lemma trim_end_space [simp]: "trim_end (s @ [32]) = trim_end s"
  by (simp add: trim_end_def is_whitespace_def)

lemma trim_space_right: "s \<noteq> [] \<Longrightarrow> \<not> is_whitespace (hd s) \<Longrightarrow> trim (s @ [32]) = trim s"
  using trim_end_space [of s] by (cases s) (simp_all add: trim_def)

section \<open>Strings whose brackets nest\<close>

text \<open>\<open>flat S u\<close>: the brackets of \<open>u\<close> nest, \<open>u\<close> has no \<open>-\<close>, and no scalar of \<open>S\<close> stands
  outside all brackets.\<close>

inductive flat :: "scalar set \<Rightarrow> ustr \<Rightarrow> bool" where
  flat_nil: "flat S []"
| flat_char: "\<not> is_open c \<Longrightarrow> \<not> is_close c \<Longrightarrow> c \<noteq> sc_minus \<Longrightarrow> c \<notin> S \<Longrightarrow> flat S u \<Longrightarrow> flat S (c # u)"
| flat_group: "is_open a \<Longrightarrow> is_close b \<Longrightarrow> flat {} u \<Longrightarrow> flat S v \<Longrightarrow> flat S (a # u @ b # v)"

lemma flat_append: "flat S u \<Longrightarrow> flat S v \<Longrightarrow> flat S (u @ v)"
  by (induction rule: flat.induct) (auto intro: flat.intros)

lemma flat_mono: "flat S u \<Longrightarrow> T \<subseteq> S \<Longrightarrow> flat T u"
  by (induction rule: flat.induct) (auto intro: flat.intros)

lemma flat_empty: "flat S u \<Longrightarrow> flat {} u"
  by (rule flat_mono) simp_all

lemma flat_no_minus: "flat S u \<Longrightarrow> sc_minus \<notin> set u"
  by (induction rule: flat.induct) (auto simp: is_open_def is_close_def)

lemma open_not_close: "is_open c \<Longrightarrow> \<not> is_close c" "is_open c \<Longrightarrow> c \<noteq> sc_minus"
    "is_close c \<Longrightarrow> c \<noteq> sc_minus"
  by (auto simp: is_open_def is_close_def)

lemma arrow_step:
  "c \<noteq> sc_minus \<Longrightarrow> arrow_pos_from i d (c # cs) = arrow_pos_from (i + 1) (depth_step c d) cs"
  by (cases cs) auto

lemma top_level_step:
  "c \<noteq> sc_minus \<Longrightarrow> top_level_from i d sep (c # cs) =
     sep_here i d sep c @ top_level_from (i + 1) (depth_step c d) sep cs"
  by (cases cs) auto

lemma arrow_flat:
  "flat S u \<Longrightarrow> arrow_pos_from i d (u @ v) = arrow_pos_from (i + length u) d v"
proof (induction u arbitrary: i d v rule: flat.induct)
  case (flat_char c S u)
  then show ?case
    by (simp add: arrow_step depth_step_def)
next
  case (flat_group a b u S w)
  have "arrow_pos_from i d ((a # u @ b # w) @ v)
      = arrow_pos_from (i + 1) (d + 1) (u @ (b # w @ v))"
    using flat_group(1) open_not_close by (simp add: arrow_step depth_step_def)
  also have "\<dots> = arrow_pos_from (i + 1 + length u) (d + 1) (b # w @ v)"
    by (rule flat_group.IH)
  also have "\<dots> = arrow_pos_from (i + 1 + length u + 1) d (w @ v)"
    using flat_group(2) open_not_close by (auto simp: arrow_step depth_step_def)
  also have "\<dots> = arrow_pos_from (i + 1 + length u + 1 + length w) d v"
    by (rule flat_group.IH)
  finally show ?case
    by (simp add: algebra_simps)
qed simp

lemma top_level_flat:
  "flat S u \<Longrightarrow> 0 < d \<or> d = 0 \<and> sep \<in> S \<Longrightarrow>
     top_level_from i d sep (u @ v) = top_level_from (i + length u) d sep v"
proof (induction u arbitrary: i d v rule: flat.induct)
  case (flat_char c S u)
  then have "sep_here i d sep c = []"
    by (auto simp: sep_here_def)
  with flat_char show ?case
    by (simp add: top_level_step depth_step_def)
next
  case (flat_group a b u S w)
  have pos: "0 < d + 1 \<or> d + 1 = 0 \<and> sep \<in> ({} :: scalar set)"
    using flat_group.prems by auto
  have "top_level_from i d sep ((a # u @ b # w) @ v)
      = top_level_from (i + 1) (d + 1) sep (u @ (b # w @ v))"
    using flat_group(1) open_not_close by (simp add: top_level_step depth_step_def sep_here_def)
  also have "\<dots> = top_level_from (i + 1 + length u) (d + 1) sep (b # w @ v)"
    by (rule flat_group.IH(1) [OF pos])
  also have "\<dots> = top_level_from (i + 1 + length u + 1) d sep (w @ v)"
    using flat_group(2) open_not_close
    by (auto simp: top_level_step depth_step_def sep_here_def)
  also have "\<dots> = top_level_from (i + 1 + length u + 1 + length w) d sep v"
    by (rule flat_group.IH(2) [OF flat_group.prems])
  finally show ?case
    by (simp add: algebra_simps)
qed simp

lemma closes_early_flat:
  "flat S u \<Longrightarrow> 0 < d \<Longrightarrow> closes_early d (u @ v) = closes_early d v"
proof (induction u arbitrary: d v rule: flat.induct)
  case (flat_group a b u S w)
  then show ?case
    using open_not_close by auto
qed simp_all

lemma arrow_pos_flat: "flat S u \<Longrightarrow> arrow_pos u = None"
  using arrow_flat [of S u 0 0 "[]"] by (simp add: arrow_pos_def)

lemma top_level_flat_none: "flat S u \<Longrightarrow> sep \<in> S \<Longrightarrow> top_level_indices u sep = []"
  using top_level_flat [of S u 0 sep 0 "[]"] by (simp add: top_level_indices_def)

lemma delimited_inner_flat:
  assumes "flat S u" "is_open a" "is_close b"
  shows "delimited_inner (a # u @ [b]) a b = Some u"
  using closes_early_flat [OF assms(1), of 1 "[b]"] assms(2,3) open_not_close
  by (simp add: delimited_inner_def butlast_append)

section \<open>Splitting\<close>

lemma top_level_shift: "top_level_from (i + k) d sep s = map (\<lambda>j. j + k) (top_level_from i d sep s)"
proof (induction i d sep s rule: top_level_from.induct)
  case (3 i d sep c c' cs)
  have "i + k + 2 = i + 2 + k" "i + k + 1 = i + 1 + k"
    by simp_all
  moreover have "sep_here (i + k) d sep c = map (\<lambda>j. j + k) (sep_here i d sep c)"
    by (simp add: sep_here_def)
  ultimately show ?case
    using 3 by simp
qed (simp_all add: sep_here_def)

lemma split_at_from_shift:
  "split_at_from (start + length p) (p @ s) (map (\<lambda>j. j + length p) seps) =
     split_at_from start s seps"
proof (induction seps arbitrary: start)
  case (Cons idx seps)
  have "idx + length p - (start + length p) = idx - start"
    by simp
  with Cons [of "idx + 1"] show ?case
    by simp
qed simp

definition split_by :: "scalar \<Rightarrow> ustr \<Rightarrow> ustr list" where
  "split_by sep s = split_at s (top_level_indices s sep)"

lemma split_by_flat: "flat S u \<Longrightarrow> sep \<in> S \<Longrightarrow> split_by sep u = [trim u]"
  by (simp add: split_by_def top_level_flat_none split_at_def)

lemma split_by_Cons:
  assumes "flat S u" "sep \<in> S" "\<not> is_open sep" "\<not> is_close sep" "sep \<noteq> sc_minus"
  shows "split_by sep (u @ sep # v) = trim u # split_by sep v"
proof -
  have "top_level_indices (u @ sep # v) sep = length u # top_level_from (length u + 1) 0 sep v"
    using top_level_flat [OF assms(1), of 0 sep 0 "sep # v"] assms(2-5)
    by (simp add: top_level_indices_def top_level_step sep_here_def depth_step_def)
  moreover have "top_level_from (length u + 1) 0 sep v =
      map (\<lambda>j. j + length (u @ [sep])) (top_level_indices v sep)"
    using top_level_shift [of 0 "length u + 1" 0 sep v] by (simp add: top_level_indices_def)
  ultimately show ?thesis
    using split_at_from_shift [of 0 "u @ [sep]" v "top_level_indices v sep"]
    by (simp add: split_by_def split_at_def)
qed

lemma top_level_sep:
  assumes "flat S u" "sep \<in> S" "\<not> is_open sep" "\<not> is_close sep" "sep \<noteq> sc_minus"
  shows "top_level_indices (u @ sep # v) sep \<noteq> []"
    "hd (top_level_indices (u @ sep # v) sep) = length u"
  using top_level_flat [OF assms(1), of 0 sep 0 "sep # v"] assms(2-5)
  by (simp_all add: top_level_indices_def top_level_step sep_here_def)

section \<open>Shapes and their concrete syntax\<close>

datatype shape =
    SNamed ustr "shape list"
  | SOptional shape
  | SArray shape
  | SDictionary shape shape
  | STuple "shape list"
  | SFunction "shape list" shape
  | SComposition "shape list"

text \<open>The shape of a parsed type: its spelling forgotten.\<close>

fun shape_of :: "type_repr \<Rightarrow> shape" where
  "shape_of (TypeRepr _ (KNamed n args)) = SNamed n (map shape_of args)"
| "shape_of (TypeRepr _ (KOptional t)) = SOptional (shape_of t)"
| "shape_of (TypeRepr _ (KArray t)) = SArray (shape_of t)"
| "shape_of (TypeRepr _ (KDictionary k v)) = SDictionary (shape_of k) (shape_of v)"
| "shape_of (TypeRepr _ (KTuple ts)) = STuple (map shape_of ts)"
| "shape_of (TypeRepr _ (KFunction ps r)) = SFunction (map shape_of ps) (shape_of r)"
| "shape_of (TypeRepr _ (KComposition ts)) = SComposition (map shape_of ts)"

fun join :: "ustr \<Rightarrow> ustr list \<Rightarrow> ustr" where
  "join sep [] = []"
| "join sep [x] = x"
| "join sep (x # y # zs) = x @ sep @ join sep (y # zs)"

definition is_composition :: "shape \<Rightarrow> bool" where
  "is_composition t = (case t of SComposition _ \<Rightarrow> True | _ \<Rightarrow> False)"

definition in_parens :: "ustr \<Rightarrow> ustr" where
  "in_parens u = sc_lparen # u @ [sc_rparen]"

fun type_text :: "shape \<Rightarrow> ustr" where
  "type_text (SNamed n args) =
     (if args = [] then n
      else n @ sc_lt # join [sc_comma, 32] (map type_text args) @ [sc_gt])"
| "type_text (SOptional t) =
     (if is_composition t then in_parens (type_text t) else type_text t) @ [sc_question]"
| "type_text (SArray t) = sc_lbrack # type_text t @ [sc_rbrack]"
| "type_text (SDictionary k v) =
     sc_lbrack # (type_text k @ sc_colon # 32 # type_text v) @ [sc_rbrack]"
| "type_text (STuple ts) = in_parens (join [sc_comma, 32] (map type_text ts))"
| "type_text (SFunction ps r) =
     in_parens (join [sc_comma, 32] (map type_text ps)) @ 32 # sc_minus # sc_gt # 32 # type_text r"
| "type_text (SComposition ts) =
     join [32, sc_amp, 32]
       (map (\<lambda>t. if is_composition t then in_parens (type_text t) else type_text t) ts)"

definition ident_scalar :: "scalar \<Rightarrow> bool" where
  "ident_scalar c \<longleftrightarrow> \<not> is_open c \<and> \<not> is_close c \<and> \<not> is_whitespace c
     \<and> c \<notin> {sc_minus, sc_comma, sc_colon, sc_amp, sc_question}"

definition name_ok :: "ustr \<Rightarrow> bool" where
  "name_ok n \<longleftrightarrow> n \<noteq> [] \<and> list_all ident_scalar n"

text \<open>Shapes without function types; the generic spelling of an optional is not a name.\<close>

fun first_order :: "shape \<Rightarrow> bool" where
  "first_order (SNamed n args) =
     (name_ok n \<and> list_all first_order args \<and> \<not> (length args = 1 \<and> optional_name n))"
| "first_order (SOptional t) = first_order t"
| "first_order (SArray t) = first_order t"
| "first_order (SDictionary k v) = (first_order k \<and> first_order v)"
| "first_order (STuple ts) = (length ts \<noteq> 1 \<and> list_all first_order ts)"
| "first_order (SFunction ps r) = False"
| "first_order (SComposition ts) = (2 \<le> length ts \<and> list_all first_order ts)"

text \<open>Function types on the outside, with first-order parameters, and curried results.\<close>

fun type_ok :: "shape \<Rightarrow> bool" where
  "type_ok (SFunction ps r) = (list_all first_order ps \<and> type_ok r)"
| "type_ok t = first_order t"

definition atom :: "shape \<Rightarrow> ustr" where
  "atom t = (if is_composition t then in_parens (type_text t) else type_text t)"

lemma type_text_composition:
  "type_text (SComposition ts) = join [32, sc_amp, 32] (map atom ts)"
  by (simp add: atom_def cong: map_cong)

abbreviation seps :: "scalar set" where
  "seps \<equiv> {sc_comma, sc_colon}"

text \<open>What every piece of printed syntax is: not empty, and without white space at its ends.\<close>

definition snug :: "ustr \<Rightarrow> bool" where
  "snug u \<longleftrightarrow> u \<noteq> [] \<and> \<not> is_whitespace (hd u) \<and> \<not> is_whitespace (last u)"

lemma snug_trim [simp]: "snug u \<Longrightarrow> trim u = u" "snug u \<Longrightarrow> trim_end u = u"
    "snug u \<Longrightarrow> trim (32 # u) = u"
  by (simp_all add: snug_def trim_id trim_end_id trim_space_left)

lemma snug_append: "snug u \<Longrightarrow> snug v \<Longrightarrow> snug (u @ w @ v)" "snug u \<Longrightarrow> snug v \<Longrightarrow> snug (u @ v)"
  by (auto simp: snug_def)

lemma white_ascii: "\<not> is_whitespace c" if "c \<in> {40, 41, 91, 93, 60, 62, 63}"
  using that by (auto simp: is_whitespace_def)

lemma snug_parens: "snug (in_parens u)" "snug (sc_lbrack # u @ [sc_rbrack])"
  by (simp_all add: snug_def in_parens_def white_ascii)

lemma flat_special: "is_open sc_lparen" "is_open sc_lbrack" "is_open sc_lt"
    "is_close sc_rparen" "is_close sc_rbrack" "is_close sc_gt"
  by (simp_all add: is_open_def is_close_def)

lemma flat_parens: "flat {} u \<Longrightarrow> flat S (in_parens u)" "flat {} u \<Longrightarrow> flat S (sc_lbrack # u @ [sc_rbrack])"
    "flat {} u \<Longrightarrow> flat S (sc_lt # u @ [sc_gt])"
  unfolding in_parens_def by (rule flat_group [OF _ _ _ flat_nil]; simp add: flat_special)+

lemma flat_join:
  assumes "\<And>u. u \<in> set us \<Longrightarrow> flat S u" "flat S sep"
  shows "flat S (join sep us)"
  using assms by (induction sep us rule: join.induct) (auto intro: flat_nil flat_append)

lemma snug_join: "us \<noteq> [] \<Longrightarrow> (\<And>u. u \<in> set us \<Longrightarrow> snug u) \<Longrightarrow> snug (join sep us)"
  by (induction sep us rule: join.induct) (auto intro: snug_append)

lemma flat_one: "\<not> is_open c \<Longrightarrow> \<not> is_close c \<Longrightarrow> c \<noteq> sc_minus \<Longrightarrow> c \<notin> S \<Longrightarrow> flat S [c]"
  by (intro flat_char flat_nil)

lemma not_bracket: "\<not> is_open c" "\<not> is_close c" if "c \<in> {32, 44, 58, 38, 63}"
  using that by (auto simp: is_open_def is_close_def)

lemma flat_separators: "flat {} [sc_comma, 32]" "flat seps [32, sc_amp, 32]"
  by (intro flat_char flat_nil; simp add: not_bracket)+

lemma flat_name: "name_ok n \<Longrightarrow> flat {sc_comma, sc_colon, sc_amp, sc_question} n"
proof -
  have "list_all ident_scalar n \<Longrightarrow> flat {sc_comma, sc_colon, sc_amp, sc_question} n"
    by (induction n) (auto simp: ident_scalar_def intro: flat_char flat_nil)
  then show "name_ok n \<Longrightarrow> ?thesis"
    by (simp add: name_ok_def)
qed

lemma snug_name: "name_ok n \<Longrightarrow> snug n"
  by (auto simp: name_ok_def snug_def list_all_iff ident_scalar_def)

lemma text_flat_snug:
  "first_order t \<Longrightarrow> flat seps (type_text t) \<and> snug (type_text t)
     \<and> (\<not> is_composition t \<longrightarrow> flat (insert sc_amp seps) (type_text t))"
proof (induction t rule: type_text.induct)
  case (1 n args)
  have n: "flat (insert sc_amp seps) n" "snug n"
    using 1 flat_name [of n] snug_name [of n] by (auto elim: flat_mono)
  have "flat {} (type_text x)" if "x \<in> set args" for x
    using 1 that flat_empty by (fastforce simp: list_all_iff)
  then have "flat {} (join [sc_comma, 32] (map type_text args))"
    using flat_separators(1) by (intro flat_join) auto
  then have "flat (insert sc_amp seps) (type_text (SNamed n args))"
    using n(1) by (auto intro: flat_append flat_parens)
  moreover have "snug (type_text (SNamed n args))"
    using n(2) by (auto simp: snug_def white_ascii)
  ultimately show ?case
    by (auto simp: is_composition_def elim: flat_mono)
next
  case (2 t)
  have "flat (insert sc_amp seps) (if is_composition t then in_parens (type_text t) else type_text t)"
    using 2 by (auto intro: flat_parens flat_empty)
  then have "flat (insert sc_amp seps) (type_text (SOptional t))"
    by (auto intro!: flat_append flat_one simp: not_bracket split: if_splits)
  moreover have "snug (type_text (SOptional t))"
    using 2 snug_parens(1) [of "type_text t"] by (auto simp: snug_def white_ascii)
  ultimately show ?case
    by (auto elim: flat_mono)
next
  case (3 t)
  then have "flat (insert sc_amp seps) (type_text (SArray t))"
    by (auto intro: flat_parens flat_empty)
  then show ?case
    using snug_parens(2) by (auto elim: flat_mono)
next
  case (4 k v)
  then have "flat {} (type_text k @ sc_colon # 32 # type_text v)"
    by (auto intro!: flat_append flat_char intro: flat_empty simp: not_bracket)
  then have "flat (insert sc_amp seps) (type_text (SDictionary k v))"
    using flat_parens(2) by fastforce
  then show ?case
    using snug_parens(2) [of "type_text k @ sc_colon # 32 # type_text v"] by (auto elim: flat_mono)
next
  case (5 ts)
  then have "flat {} (type_text x)" if "x \<in> set ts" for x
    using that flat_empty by (fastforce simp: list_all_iff)
  then have "flat {} (join [sc_comma, 32] (map type_text ts))"
    using flat_separators(1) by (intro flat_join) auto
  then have "flat (insert sc_amp seps) (type_text (STuple ts))"
    by (auto intro: flat_parens)
  then show ?case
    using snug_parens(1) by (auto elim: flat_mono)
next
  case (7 ts)
  have "flat seps (atom t) \<and> snug (atom t)" if "t \<in> set ts" for t
    using 7 that snug_parens(1)
    by (auto simp: list_all_iff atom_def intro: flat_parens flat_empty)
  then have "flat seps (type_text (SComposition ts)) \<and> snug (type_text (SComposition ts))"
    unfolding type_text_composition using 7(3) flat_separators(2)
    by (intro conjI flat_join snug_join) auto
  then show ?case
    by (simp add: is_composition_def)
qed simp

section \<open>The parser on printed syntax\<close>

lemma strip_suffix_snoc [simp]:
  "strip_suffix c (u @ [c]) = Some u" "b \<noteq> c \<Longrightarrow> strip_suffix c (u @ [b]) = None"
  by (simp_all add: strip_suffix_def)

lemma parse_plain:
  assumes "flat {sc_amp} t" "snug t"
  shows "arrow_pos t = None" "top_level_indices t sc_amp = []" "trim t = t"
  using assms arrow_pos_flat top_level_flat_none by simp_all

lemma parse_optional:
  assumes "flat {sc_amp} u" "snug u"
  shows "parse (u @ [sc_question]) = TypeRepr (u @ [sc_question]) (KOptional (parse u))"
proof -
  have "flat {sc_amp} (u @ [sc_question])"
    using assms(1) by (auto intro!: flat_append flat_one simp: not_bracket)
  moreover have "snug (u @ [sc_question])"
    using assms(2) by (auto simp: snug_def white_ascii)
  ultimately show ?thesis
    using assms(2) by (subst parse.simps) (simp add: parse_plain Let_def)
qed

lemma parse_bracket_plain:
  assumes "flat {} u" "t = sc_lbrack # u @ [sc_rbrack]"
  shows "arrow_pos t = None" "top_level_indices t sc_amp = []" "trim t = t"
    "strip_suffix sc_question t = None" "bracket_inner t = Some u"
proof -
  have t: "flat {sc_amp} t" "snug t"
    using assms flat_parens(2) snug_parens(2) by simp_all
  show "arrow_pos t = None" "top_level_indices t sc_amp = []" "trim t = t"
    by (rule parse_plain [OF t])+
  show "strip_suffix sc_question t = None"
    using strip_suffix_snoc(2) [of sc_rbrack sc_question "sc_lbrack # u"] assms(2) by simp
  show "bracket_inner t = Some u"
    using delimited_inner_flat [OF assms(1) flat_special(2,5)] assms(2)
    by (simp add: bracket_inner_def)
qed

lemma parse_array:
  assumes "flat {sc_colon} u" "snug u"
  shows "parse (sc_lbrack # u @ [sc_rbrack])
     = TypeRepr (sc_lbrack # u @ [sc_rbrack]) (KArray (parse u))"
  using parse_bracket_plain [OF flat_empty [OF assms(1)] refl] assms
  by (subst parse.simps) (simp add: Let_def top_level_flat_none)

lemma parse_dictionary:
  assumes "flat {sc_colon} k" "flat {} v" "snug k" "snug v"
  defines "u \<equiv> k @ sc_colon # 32 # v"
  shows "parse (sc_lbrack # u @ [sc_rbrack])
     = TypeRepr (sc_lbrack # u @ [sc_rbrack]) (KDictionary (parse k) (parse v))"
proof -
  have "flat {} u"
    unfolding u_def using assms(1,2) by (auto intro!: flat_append flat_char intro: flat_empty simp: not_bracket)
  note plain = parse_bracket_plain [OF this refl]
  obtain js where "top_level_indices u sc_colon = length k # js"
    using top_level_sep [OF assms(1), of sc_colon "32 # v"] not_bracket
    unfolding u_def by (cases "top_level_indices (k @ sc_colon # 32 # v) sc_colon") auto
  then show ?thesis
    using plain assms(3,4) by (subst parse.simps) (simp add: Let_def u_def)
qed

lemma parse_paren_plain:
  assumes "flat {} u"
  shows "arrow_pos (in_parens u) = None" "top_level_indices (in_parens u) sc_amp = []"
    "trim (in_parens u) = in_parens u" "strip_suffix sc_question (in_parens u) = None"
    "bracket_inner (in_parens u) = None" "paren_inner (in_parens u) = Some u"
proof -
  have t: "flat {sc_amp} (in_parens u)" "snug (in_parens u)"
    using assms flat_parens(1) snug_parens(1) by simp_all
  show "arrow_pos (in_parens u) = None" "top_level_indices (in_parens u) sc_amp = []"
    "trim (in_parens u) = in_parens u"
    by (rule parse_plain [OF t])+
  show "strip_suffix sc_question (in_parens u) = None"
    using strip_suffix_snoc(2) [of sc_rparen sc_question "sc_lparen # u"]
    by (simp add: in_parens_def)
  show "bracket_inner (in_parens u) = None"
    by (simp add: bracket_inner_def delimited_inner_def in_parens_def)
  show "paren_inner (in_parens u) = Some u"
    using delimited_inner_flat [OF assms flat_special(1,4)]
    by (simp add: paren_inner_def in_parens_def)
qed

lemma strip_tuple_label_flat: "flat {sc_colon} u \<Longrightarrow> snug u \<Longrightarrow> strip_tuple_label u = u"
  by (simp add: strip_tuple_label_def top_level_flat_none)

lemma split_commas_by: "split_commas = split_by sc_comma"
  by (simp add: fun_eq_iff split_commas_def split_by_def)

text \<open>Splitting undoes joining, with a space after the separator and perhaps one before.\<close>

lemma snug_trim_spaces:
  assumes "snug u" "pre \<in> {[], [32]}" "post \<in> {[], [32]}"
  shows "trim (pre @ u @ post) = u"
proof -
  have "trim (u @ post) = u"
    using assms(1,3) trim_space_right [of u] by (auto simp: snug_def trim_id)
  then show ?thesis
    using assms(2) by (auto simp: trim_space_left)
qed

lemma split_join:
  assumes "us \<noteq> []" "\<And>u. u \<in> set us \<Longrightarrow> flat S u \<and> snug u"
    and "sep \<in> S" "\<not> is_open sep" "\<not> is_close sep" "sep \<noteq> sc_minus" "32 \<notin> S"
    and "pre \<in> {[], [32]}" "post \<in> {[], [32]}"
  shows "split_by sep (pre @ join (post @ [sep, 32]) us) = us"
  using assms
proof (induction "post @ [sep, 32]" us arbitrary: pre rule: join.induct)
  case (2 x)
  then have "flat S (pre @ x)"
    by (auto intro!: flat_append flat_one flat_nil simp: not_bracket)
  then show ?case
    using 2 snug_trim_spaces [of x pre "[]"] by (simp add: split_by_flat)
next
  case (3 x y zs)
  have x: "flat S x" "snug x"
    using "3.prems"(2) by simp_all
  have sp: "flat S u" if "u \<in> {[], [32]}" for u
    using that "3.prems"(7) by (auto intro!: flat_one flat_nil simp: not_bracket)
  have "flat S (pre @ x @ post)"
    using sp "3.prems"(8,9) x(1) by (simp add: flat_append)
  moreover have "pre @ join (post @ [sep, 32]) (x # y # zs)
      = (pre @ x @ post) @ sep # ([32] @ join (post @ [sep, 32]) (y # zs))"
    by simp
  ultimately have "split_by sep (pre @ join (post @ [sep, 32]) (x # y # zs))
      = trim (pre @ x @ post) # split_by sep ([32] @ join (post @ [sep, 32]) (y # zs))"
    using split_by_Cons [of S "pre @ x @ post" sep] "3.prems"(3-6) by simp
  also have "trim (pre @ x @ post) = x"
    by (rule snug_trim_spaces [OF x(2) "3.prems"(8,9)])
  also have "split_by sep ([32] @ join (post @ [sep, 32]) (y # zs)) = y # zs"
    by (rule "3.hyps") (use "3.prems" in auto)
  finally show ?case .
qed simp

lemma split_join_commas:
  assumes "us \<noteq> []" "\<And>u. u \<in> set us \<Longrightarrow> flat seps u \<and> snug u"
  shows "split_commas (join [sc_comma, 32] us) = us"
  using split_join [of us seps sc_comma "[]" "[]"] assms not_bracket by (simp add: split_commas_by)

lemma parse_tuple:
  assumes "us \<noteq> []" "\<And>u. u \<in> set us \<Longrightarrow> flat seps u \<and> snug u"
  defines "t \<equiv> in_parens (join [sc_comma, 32] us)"
  shows "parse t = (if length us = 1 then parse (hd us) else TypeRepr t (KTuple (map parse us)))"
proof -
  have "flat {} u" if "u \<in> set us" for u
    using assms(2) [OF that] flat_empty by blast
  then have flat: "flat {} (join [sc_comma, 32] us)"
    using flat_separators(1) by (intro flat_join) auto
  note plain = parse_paren_plain [OF flat, folded t_def]
  have strip: "strip_tuple_label u = u" if "u \<in> set us" for u
    using assms(2) [OF that] by (auto intro!: strip_tuple_label_flat elim: flat_mono)
  have ne: "trim (join [sc_comma, 32] us) \<noteq> []"
    using snug_join [of us "[sc_comma, 32]"] assms(1,2) by (auto simp: snug_def)
  have hd: "strip_tuple_label (hd us) = hd us"
    using strip assms(1) by simp
  have "map (\<lambda>p. parse (strip_tuple_label p)) us = map parse us"
    using strip by simp
  then show ?thesis
    using plain ne hd split_join_commas [OF assms(1,2)]
    by (subst parse.simps) (simp add: Let_def)
qed

lemma parse_empty_tuple: "parse (in_parens []) = TypeRepr (in_parens []) (KTuple [])"
  by (subst parse.simps) (simp add: parse_paren_plain flat_nil Let_def trim_id)

lemma parse_composition:
  assumes "2 \<le> length us" "\<And>u. u \<in> set us \<Longrightarrow> flat (insert sc_amp seps) u \<and> snug u"
  defines "t \<equiv> join [32, sc_amp, 32] us"
  shows "parse t = TypeRepr t (KComposition (map parse us))"
proof -
  have ne: "us \<noteq> []"
    using assms(1) by auto
  have split: "split_at t (top_level_indices t sc_amp) = us"
    using split_join [of us "insert sc_amp seps" sc_amp "[]" "[32]"] assms(2) ne not_bracket
    by (simp add: split_by_def t_def)
  have amp: "top_level_indices t sc_amp \<noteq> []"
  proof
    assume "top_level_indices t sc_amp = []"
    then have "length us = 1"
      using arg_cong [OF split, of length] by (simp add: split_at_def)
    then show False
      using assms(1) by simp
  qed
  have "flat {} u" if "u \<in> set us" for u
    using assms(2) [OF that] flat_empty by blast
  then have "flat {} t"
    unfolding t_def using flat_separators(2) by (intro flat_join) (auto intro: flat_empty)
  moreover have "snug t"
    unfolding t_def using assms(2) ne by (intro snug_join) auto
  ultimately show ?thesis
    using split amp arrow_pos_flat [of "{}" t] by (subst parse.simps) (simp add: Let_def)
qed

lemma name_scalars:
  assumes "name_ok n"
  shows "hd n \<notin> {sc_lbrack, sc_lparen}" "sc_lt \<notin> set n" "last n \<notin> {sc_question, sc_gt}" "n \<noteq> []"
  using assms by (auto simp: name_ok_def list_all_iff ident_scalar_def is_open_def is_close_def
      dest!: hd_in_set last_in_set)

lemma parse_name: "name_ok n \<Longrightarrow> parse n = TypeRepr n (KNamed n [])"
proof -
  assume n: "name_ok n"
  note plain = parse_plain [of n] flat_mono [OF flat_name [OF n], of "{sc_amp}"] snug_name [OF n]
  show ?thesis
    using plain name_scalars [OF n]
    by (subst parse.simps) (simp add: Let_def strip_suffix_def bracket_inner_def paren_inner_def
        delimited_inner_def named_parts_def)
qed

lemma position_first: "c \<notin> set n \<Longrightarrow> position (\<lambda>x. x = c) (n @ c # v) = Some (length n)"
  by (induction n) auto

lemma parse_generic:
  assumes "name_ok n" "us \<noteq> []" "\<And>u. u \<in> set us \<Longrightarrow> flat seps u \<and> snug u"
    and "\<not> (length us = 1 \<and> optional_name n)"
  defines "t \<equiv> n @ sc_lt # join [sc_comma, 32] us @ [sc_gt]"
  shows "parse t = TypeRepr t (KNamed n (map parse us))"
proof -
  have "flat {} u" if "u \<in> set us" for u
    using assms(3) [OF that] flat_empty by blast
  then have flat: "flat {} (join [sc_comma, 32] us)"
    using flat_separators(1) by (intro flat_join) auto
  have t: "flat {sc_amp} t" "snug t"
    unfolding t_def using flat_mono [OF flat_name [OF assms(1)], of "{sc_amp}"]
      flat_parens(3) [OF flat] snug_name [OF assms(1)]
    by (auto intro!: flat_append simp: snug_def white_ascii)
  have last: "last t = sc_gt" "t \<noteq> []" "hd t = hd n"
    using name_scalars(4) [OF assms(1)] by (simp_all add: t_def)
  have parts: "named_parts t = (n, us)"
  proof -
    have "position (\<lambda>c. c = sc_lt) t = Some (length n)"
      unfolding t_def by (rule position_first [OF name_scalars(2) [OF assms(1)]])
    moreover have "take (length t - 1 - (length n + 1)) (drop (length n + 1) t) = join [sc_comma, 32] us"
      by (simp add: t_def)
    ultimately show ?thesis
      using t(2) last split_join_commas [OF assms(2,3)] snug_name [OF assms(1)]
      by (simp add: named_parts_def Let_def t_def)
  qed
  show ?thesis
    using parse_plain [OF t] last name_scalars [OF assms(1)] parts assms(4)
    by (subst parse.simps) (simp add: Let_def strip_suffix_def bracket_inner_def paren_inner_def
        delimited_inner_def)
qed

section \<open>The round trip\<close>

definition parses :: "shape \<Rightarrow> bool" where
  "parses t \<longleftrightarrow> shape_of (parse (type_text t)) = t"

lemma parse_parens:
  "flat seps u \<Longrightarrow> snug u \<Longrightarrow> parse (in_parens u) = parse u"
  using parse_tuple [of "[u]"] by simp

lemma atom_flat:
  assumes "first_order t"
  shows "flat (insert sc_amp seps) (atom t)" "snug (atom t)" "parse (atom t) = parse (type_text t)"
  using text_flat_snug [OF assms] snug_parens(1) parse_parens
  by (auto simp: atom_def intro: flat_parens flat_empty)

lemma parses_list:
  "(\<And>t. t \<in> set ts \<Longrightarrow> parses t) \<Longrightarrow> map shape_of (map parse (map type_text ts)) = ts"
  by (induction ts) (auto simp: parses_def)

lemma parses_first_order: "first_order t \<Longrightarrow> parses t"
proof (induction t rule: type_text.induct)
  case (1 n args)
  have texts: "flat seps u \<and> snug u" if "u \<in> set (map type_text args)" for u
    using 1 that text_flat_snug by (auto simp: list_all_iff)
  have "parses a" if "a \<in> set args" for a
    using "1.IH" [OF _ that] "1.prems" that by (cases args) (auto simp: list_all_iff)
  then have args: "map shape_of (map parse (map type_text args)) = args"
    by (rule parses_list)
  show ?case
  proof (cases "args = []")
    case True
    then show ?thesis
      using 1 by (simp add: parses_def parse_name)
  next
    case False
    then show ?thesis
      using parse_generic [of n "map type_text args", OF _ _ texts] 1 args
      by (simp add: parses_def)
  qed
next
  case (2 t)
  then have t: "first_order t" and IH: "parses t"
    by (auto split: if_splits)
  have opt_text: "type_text (SOptional t) = atom t @ [sc_question]"
    by (simp add: atom_def)
  have "flat {sc_amp} (atom t)"
    using atom_flat(1) [OF t] by (rule flat_mono) simp
  then show ?case
    unfolding parses_def opt_text using parse_optional atom_flat(2,3) [OF t] IH
    by (simp add: parses_def)
next
  case (3 t)
  then show ?case
    using parse_array [OF flat_mono, of seps] text_flat_snug [of t] by (simp add: parses_def)
next
  case (4 k v)
  then show ?case
    using parse_dictionary [OF flat_mono flat_empty, of seps "type_text k" seps]
      text_flat_snug [of k] text_flat_snug [of v] by (simp add: parses_def)
next
  case (5 ts)
  have texts: "flat seps u \<and> snug u" if "u \<in> set (map type_text ts)" for u
    using 5 that text_flat_snug by (auto simp: list_all_iff)
  have ts: "map shape_of (map parse (map type_text ts)) = ts"
    using 5 by (intro parses_list) (auto simp: list_all_iff)
  show ?case
  proof (cases "ts = []")
    case True
    then show ?thesis
      by (simp add: parses_def parse_empty_tuple)
  next
    case False
    then show ?thesis
      using parse_tuple [of "map type_text ts", OF _ texts] 5 ts by (simp add: parses_def)
  qed
next
  case (7 ts)
  have atoms: "flat (insert sc_amp seps) u \<and> snug u" if "u \<in> set (map atom ts)" for u
    using 7 that atom_flat by (auto simp: list_all_iff)
  have "map parse (map atom ts) = map parse (map type_text ts)"
    using 7 atom_flat(3) by (auto simp: list_all_iff)
  moreover have "map shape_of (map parse (map type_text ts)) = ts"
    using 7 by (intro parses_list) (auto simp: list_all_iff)
  ultimately have "map shape_of (map parse (map atom ts)) = ts"
    by (simp only:)
  then show ?case
    using parse_composition [of "map atom ts", OF _ atoms] 7
    by (simp add: parses_def type_text_composition del: map_map type_text.simps)
qed simp

lemma snug_type_text: "type_ok t \<Longrightarrow> snug (type_text t)"
proof (induction t rule: type_ok.induct)
  case (1 ps r)
  then have "snug (type_text r)"
    by simp
  then show ?case
    using snug_parens(1) [of "join [sc_comma, 32] (map type_text ps)"]
    by (auto simp: snug_def in_parens_def)
qed (simp_all only: type_ok.simps text_flat_snug)

lemma param_parts_texts:
  assumes "\<And>u. u \<in> set us \<Longrightarrow> flat seps u \<and> snug u"
  shows "param_parts (in_parens (join [sc_comma, 32] us)) = us"
proof (cases "us = []")
  case True
  then show ?thesis
    by (simp add: param_parts_def parse_paren_plain flat_nil trim_id)
next
  case False
  have "flat {} u" if "u \<in> set us" for u
    using assms [OF that] flat_empty by blast
  then have flat: "flat {} (join [sc_comma, 32] us)"
    using flat_separators(1) by (intro flat_join) auto
  have "flat {sc_colon} u" if "u \<in> set us" for u
    using assms [OF that] flat_mono [of seps u] by simp
  then have "map strip_tuple_label us = us"
    using assms by (intro map_idI strip_tuple_label_flat) auto
  moreover have "join [sc_comma, 32] us \<noteq> []" "trim (join [sc_comma, 32] us) = join [sc_comma, 32] us"
    using snug_join [of us "[sc_comma, 32]"] assms False by (auto simp: snug_def trim_id)
  ultimately show ?thesis
    using parse_paren_plain(6) [OF flat] split_join_commas [OF False assms]
    by (simp add: param_parts_def)
qed

lemma parse_function:
  assumes "\<And>u. u \<in> set us \<Longrightarrow> flat seps u \<and> snug u" "snug r"
  defines "t \<equiv> in_parens (join [sc_comma, 32] us) @ 32 # sc_minus # sc_gt # 32 # r"
  shows "parse t = TypeRepr t (KFunction (map parse us) (parse r))"
proof -
  let ?ps = "in_parens (join [sc_comma, 32] us)"
  have "flat {} u" if "u \<in> set us" for u
    using assms(1) [OF that] flat_empty by blast
  then have flat: "flat {} ?ps"
    using flat_separators(1) by (intro flat_parens flat_join) auto
  have t: "t = (?ps @ [32]) @ sc_minus # sc_gt # 32 # r"
    by (simp add: t_def)
  have "flat {} (?ps @ [32])"
    using flat by (auto intro!: flat_append flat_one simp: not_bracket)
  then have arrow: "arrow_pos t = Some (length (?ps @ [32]))"
    using arrow_flat [of "{}" "?ps @ [32]" 0 0] by (simp add: arrow_pos_def t)
  have "snug t"
    using snug_parens(1) assms(2) by (auto simp: t_def snug_def in_parens_def)
  then have trim: "trim t = t"
    by simp
  have lhs: "trim (take (length (?ps @ [32])) t) = ?ps"
    using snug_trim_spaces [OF snug_parens(1), of "[]" "[32]"] by (simp add: t)
  have rhs: "trim (drop (length (?ps @ [32]) + 2) t) = r"
    using assms(2) by (simp add: t)
  show ?thesis
    using arrow trim lhs rhs param_parts_texts [OF assms(1)]
    by (subst parse.simps) (simp add: Let_def)
qed

lemma type_ok_parses: "type_ok t \<Longrightarrow> shape_of (parse (type_text t)) = t"
proof (induction t rule: type_ok.induct)
  case (1 ps r)
  have texts: "flat seps u \<and> snug u" if "u \<in> set (map type_text ps)" for u
    using 1 that text_flat_snug by (auto simp: list_all_iff)
  have "map shape_of (map parse (map type_text ps)) = ps"
    using 1 parses_first_order by (intro parses_list) (auto simp: list_all_iff)
  then show ?case
    using parse_function [of "map type_text ps", OF texts snug_type_text [of r]] 1
    by (simp del: map_map)
qed (simp_all only: type_ok.simps parses_first_order [unfolded parses_def])

text \<open>C23. Parsing the concrete syntax of a type gives its shape back: names and generic
  arguments, optionals, arrays, dictionaries, tuples, compositions, and function types, provided
  these do not stand inside brackets or among parameters (results may be functions again; see
  \<open>parse_array_of_function\<close> for what becomes of the others). Names have no punctuation or white space,
  tuples do not have one element, compositions have two or more, and an optional is not spelt as a
  generic type (\<open>type_ok\<close>).\<close>

theorem parse_type_text:
  assumes "type_ok t"
  shows "shape_of (parse (type_text t)) = t"
  using assms by (rule type_ok_parses)

theorem parse_type_text_witness:
  "shape_of (parse (type_text (SFunction [SDictionary (SNamed (scalars ''String'') [])
      (SOptional (SComposition [SNamed (scalars ''P'') [], SNamed (scalars ''Q'') []]))]
      (STuple []))))
   = SFunction [SDictionary (SNamed (scalars ''String'') [])
      (SOptional (SComposition [SNamed (scalars ''P'') [], SNamed (scalars ''Q'') []]))]
      (STuple [])"
  by (rule parse_type_text)
    (simp add: name_ok_def ident_scalar_def is_open_def is_close_def is_whitespace_def byte_def
      optional_name_def)

section \<open>Function types inside brackets\<close>

lemma closes_early_step:
  "\<not> is_open c \<Longrightarrow> \<not> is_close c \<Longrightarrow> closes_early d (c # cs) = closes_early d cs"
  by simp

text \<open>The scan of \<open>delimited_inner\<close> takes the \<open>>\<close> of an arrow for a closing bracket, unlike
  the other scans: an array of functions is parsed as a type whose name is the whole spelling.\<close>

theorem parse_array_of_function:
  assumes "list_all first_order ps" "first_order r"
  defines "t \<equiv> type_text (SArray (SFunction ps r))"
  shows "parse t = TypeRepr t (KNamed t [])"
proof -
  let ?ps = "in_parens (join [sc_comma, 32] (map type_text ps))"
  have "flat {} (type_text u)" if "u \<in> set ps" for u
    using assms(1) that text_flat_snug [of u] flat_empty by (auto simp: list_all_iff)
  then have ps: "flat {} (?ps @ [32])"
    using flat_separators(1)
    by (intro flat_append flat_parens(1) flat_join) (auto intro!: flat_one simp: not_bracket)
  have r: "flat {} (32 # type_text r)"
    using text_flat_snug [OF assms(2)] flat_empty by (auto intro!: flat_char simp: not_bracket)
  have t: "t = sc_lbrack # (?ps @ [32]) @ sc_minus # sc_gt # (32 # type_text r) @ [sc_rbrack]"
    by (simp add: t_def)
  have "snug t"
    using snug_parens(2) [of "(?ps @ [32]) @ sc_minus # sc_gt # (32 # type_text r)"] by (simp add: t)
  have step: "depth_step sc_lbrack 0 = 1" "sc_lbrack \<noteq> sc_minus"
    by (simp_all add: depth_step_def is_open_def)
  have "arrow_pos t = None"
    unfolding t arrow_pos_def arrow_step [OF step(2)] step(1) arrow_flat [OF ps]
    using arrow_flat [OF r] by simp
  moreover have "top_level_indices t sc_amp = []"
    unfolding t top_level_indices_def top_level_step [OF step(2)] step(1)
    using top_level_flat [OF ps, of 1 sc_amp] top_level_flat [OF r, of 1 sc_amp]
    by (simp add: sep_here_def is_close_def is_open_def)
  moreover have "strip_suffix sc_question t = None" "last t = sc_rbrack" "t \<noteq> []" "hd t = sc_lbrack"
    by (simp_all add: t strip_suffix_def)
  moreover have "closes_early 0 t"
    using closes_early_flat [OF ps, of 1] by (simp add: t is_open_def is_close_def)
  ultimately show ?thesis
    using \<open>snug t\<close>
    by (subst parse.simps) (simp add: Let_def bracket_inner_def paren_inner_def
        delimited_inner_def named_parts_def)
qed

theorem parse_array_of_function_witness:
  "parse (type_text (SArray (SFunction [SNamed (scalars ''Int'') []] (SNamed (scalars ''Int'') []))))
   = TypeRepr (scalars ''[(Int) -> Int]'') (KNamed (scalars ''[(Int) -> Int]'') [])"
  using parse_array_of_function [of "[SNamed (scalars ''Int'') []]" "SNamed (scalars ''Int'') []"]
  by (simp add: name_ok_def ident_scalar_def is_open_def is_close_def is_whitespace_def byte_def
      in_parens_def)

section \<open>Queries\<close>

fun has_optional :: "shape \<Rightarrow> bool" where
  "has_optional (SNamed _ args) = list_ex has_optional args"
| "has_optional (SOptional _) = True"
| "has_optional (SArray t) = has_optional t"
| "has_optional (SDictionary k v) = (has_optional k \<or> has_optional v)"
| "has_optional (STuple ts) = list_ex has_optional ts"
| "has_optional (SFunction ps r) = (list_ex has_optional ps \<or> has_optional r)"
| "has_optional (SComposition ts) = list_ex has_optional ts"

fun core_of :: "shape \<Rightarrow> shape" where
  "core_of (SOptional t) = core_of t"
| "core_of t = t"

lemma contains_optional_shape: "contains_optional t = has_optional (shape_of t)"
  by (induction t rule: contains_optional.induct) (auto simp: list_ex_iff)

lemma strip_optionals_shape: "shape_of (strip_optionals t) = core_of (shape_of t)"
  by (induction t rule: strip_optionals.induct) auto

text \<open>The queries asked of a parsed spelling answer for the type that was written: whether it
  has an optional anywhere in it, and what it is under its optional layers.\<close>

theorem queries_of_spelling:
  assumes "type_ok t"
  shows "contains_optional (parse (type_text t)) = has_optional t
     \<and> shape_of (strip_optionals (parse (type_text t))) = core_of t
     \<and> \<not> is_optional (strip_optionals (parse (type_text t)))"
proof -
  have "shape_of (parse (type_text t)) = t"
    using parses_first_order type_ok_parses assms by blast
  moreover have "\<not> is_optional (strip_optionals u)" for u
    by (induction u rule: strip_optionals.induct) (simp_all add: is_optional_def)
  ultimately show ?thesis
    by (simp add: contains_optional_shape strip_optionals_shape)
qed

theorem queries_of_spelling_witness:
  "contains_optional (parse (type_text (SArray (SOptional (SNamed (scalars ''Int'') [])))))
     = has_optional (SArray (SOptional (SNamed (scalars ''Int'') [])))"
  using queries_of_spelling [of "SArray (SOptional (SNamed (scalars ''Int'') []))"]
  by (simp add: name_ok_def ident_scalar_def is_open_def is_close_def is_whitespace_def byte_def)

end
