(* ===== verification/Json.thy ===== *)
theory Json
  imports Prelude "HOL-Library.List_Lexorder"
begin

text \<open>
  The JSON layer of \<open>Codable\<close>, \<open>crates/tswift-core/src/json.rs\<close>: the writer with its
  formatting options and the recursive-descent parser. The parser's cursor (\<open>chars\<close>, \<open>pos\<close>)
  is the list of the scalars still to read.

  The payload of \<open>Double\<close> is a type parameter, and the conversions between it and text are
  parameters: \<open>fd\<close> for \<open>format_double_json\<close>, \<open>pd\<close> for \<open>str::parse::<f64>\<close>.
\<close>

section \<open>Data\<close>

datatype 'f json =
    JNull
  | JBool bool
  | JInt int
  | JDouble 'f
  | JStr ustr
  | JArray "'f json list"
  | JObject "(ustr \<times> 'f json) list"

definition json_get :: "'f json \<Rightarrow> ustr \<Rightarrow> 'f json option" where
  "json_get v key = (case v of JObject entries \<Rightarrow> map_of entries key | _ \<Rightarrow> None)"

record output_formatting =
  pretty_printed :: bool
  sorted_keys :: bool

section \<open>The writer\<close>

abbreviation "sc_quote \<equiv> 34::scalar"
abbreviation "sc_backslash \<equiv> 92::scalar"
abbreviation "sc_nl \<equiv> 10::scalar"
abbreviation "sc_sp \<equiv> 32::scalar"

definition hex_upper :: "nat \<Rightarrow> scalar" where
  "hex_upper d = (if d < 10 then 48 + d else 55 + d)"

definition escape_char :: "scalar \<Rightarrow> ustr" where
  "escape_char c =
     (if c = sc_quote then [sc_backslash, sc_quote]
      else if c = sc_backslash then [sc_backslash, sc_backslash]
      else if c = 10 then [sc_backslash, 110]
      else if c = 9 then [sc_backslash, 116]
      else if c = 13 then [sc_backslash, 114]
      else if c = 8 then [sc_backslash, 98]
      else if c = 12 then [sc_backslash, 102]
      else if c < 32 then [sc_backslash, 117, 48, 48, hex_upper (c div 16), hex_upper (c mod 16)]
      else [c])"

definition write_string :: "ustr \<Rightarrow> ustr" where
  "write_string s = sc_quote # concat (map escape_char s) @ [sc_quote]"

definition push_indent :: "nat \<Rightarrow> ustr" where
  "push_indent depth = concat (replicate depth [sc_sp, sc_sp])"

text \<open>What stands before, between and after the items of a container.\<close>

definition item_lead :: "output_formatting \<Rightarrow> nat \<Rightarrow> ustr" where
  "item_lead fmt depth = (if pretty_printed fmt then sc_nl # push_indent (depth + 1) else [])"

fun comma_separated :: "ustr \<Rightarrow> ustr list \<Rightarrow> ustr" where
  "comma_separated lead [] = []"
| "comma_separated lead [x] = lead @ x"
| "comma_separated lead (x # y # zs) = lead @ x @ 44 # comma_separated lead (y # zs)"

definition write_items :: "output_formatting \<Rightarrow> nat \<Rightarrow> ustr list \<Rightarrow> ustr" where
  "write_items fmt depth items =
     comma_separated (item_lead fmt depth) items
       @ (if pretty_printed fmt \<and> items \<noteq> [] then sc_nl # push_indent depth else [])"

definition key_colon :: "output_formatting \<Rightarrow> ustr" where
  "key_colon fmt = (if pretty_printed fmt then [sc_sp, 58, sc_sp] else [58])"

definition value_depth :: "output_formatting \<Rightarrow> nat \<Rightarrow> nat" where
  "value_depth fmt depth = (if pretty_printed fmt then depth + 1 else depth)"

function (sequential) write_value_fmt ::
  "('f \<Rightarrow> ustr) \<Rightarrow> output_formatting \<Rightarrow> 'f json \<Rightarrow> nat \<Rightarrow> ustr" where
  "write_value_fmt fd fmt JNull depth = scalars ''null''"
| "write_value_fmt fd fmt (JBool b) depth = (if b then scalars ''true'' else scalars ''false'')"
| "write_value_fmt fd fmt (JInt i) depth = display_int i"
| "write_value_fmt fd fmt (JDouble d) depth = fd d"
| "write_value_fmt fd fmt (JStr s) depth = write_string s"
| "write_value_fmt fd fmt (JArray items) depth =
     91 # write_items fmt depth (map (\<lambda>v. write_value_fmt fd fmt v (depth + 1)) items) @ [93]"
| "write_value_fmt fd fmt (JObject entries) depth =
     123 # write_items fmt depth
       (map (\<lambda>(k, v). write_string k @ key_colon fmt
                @ write_value_fmt fd fmt v (value_depth fmt depth))
          (if sorted_keys fmt then sort_key fst entries else entries)) @ [125]"
  by pat_completeness auto
termination
  by (relation "measure (\<lambda>(fd, fmt, v, depth). size v)")
    (auto simp: less_Suc_eq_le split: if_splits elim!: size_list_estimation')

definition to_string_fmt :: "('f \<Rightarrow> ustr) \<Rightarrow> 'f json \<Rightarrow> output_formatting \<Rightarrow> ustr" where
  "to_string_fmt fd value fmt = write_value_fmt fd fmt value 0"

definition json_to_string :: "('f \<Rightarrow> ustr) \<Rightarrow> 'f json \<Rightarrow> ustr" where
  "json_to_string fd value =
     to_string_fmt fd value \<lparr>pretty_printed = False, sorted_keys = False\<rparr>"

section \<open>The parser\<close>

datatype json_error =
    UnexpectedToken "scalar option"
  | ExpectedColon
  | ExpectedObjectEnd "scalar option"
  | ExpectedArrayEnd "scalar option"
  | ExpectedString
  | InvalidEscape "scalar option"
  | UnterminatedString
  | InvalidLiteral
  | InvalidNumber
  | TrailingCharacters
  | JsonOutOfFuel

type_synonym 'a parsed = "json_error + ('a \<times> ustr)"

definition is_json_ws :: "scalar \<Rightarrow> bool" where
  "is_json_ws c \<longleftrightarrow> c = 32 \<or> c = 9 \<or> c = 10 \<or> c = 13"

definition skip_ws :: "ustr \<Rightarrow> ustr" where
  "skip_ws cs = dropWhile is_json_ws cs"

definition first :: "ustr \<Rightarrow> scalar option" where
  "first cs = (case cs of [] \<Rightarrow> None | c # _ \<Rightarrow> Some c)"

text \<open>\<open>u32::from_str_radix\<close> in base 16 and \<open>char::from_u32\<close>.\<close>

definition hex_digit :: "scalar \<Rightarrow> nat option" where
  "hex_digit c =
     (if 48 \<le> c \<and> c \<le> 57 then Some (c - 48)
      else if 65 \<le> c \<and> c \<le> 70 then Some (c - 55)
      else if 97 \<le> c \<and> c \<le> 102 then Some (c - 87)
      else None)"

fun hex_value :: "nat \<Rightarrow> ustr \<Rightarrow> nat option" where
  "hex_value acc [] = Some acc"
| "hex_value acc (c # cs) =
     (case hex_digit c of None \<Rightarrow> None | Some d \<Rightarrow> hex_value (16 * acc + d) cs)"

definition from_str_radix_16 :: "ustr \<Rightarrow> nat option" where
  "from_str_radix_16 s =
     (let ds = (if 2 \<le> length s \<and> hd s = 43 then tl s else s)
      in if ds = [] then None else hex_value 0 ds)"

definition char_from_u32 :: "nat \<Rightarrow> scalar option" where
  "char_from_u32 n = (if n < 0xD800 \<or> (0xE000 \<le> n \<and> n \<le> 0x10FFFF) then Some n else None)"

definition unicode_escape :: "ustr \<Rightarrow> ustr" where
  "unicode_escape hex =
     (case from_str_radix_16 hex of
        None \<Rightarrow> []
      | Some n \<Rightarrow> (case char_from_u32 n of None \<Rightarrow> [] | Some c \<Rightarrow> [c]))"

definition simple_escape :: "scalar \<Rightarrow> scalar option" where
  "simple_escape e = map_of
     [(sc_quote, sc_quote), (sc_backslash, sc_backslash), (47, 47), (110, 10), (116, 9), (114, 13)] e"

definition push_parsed :: "ustr \<Rightarrow> ustr parsed \<Rightarrow> ustr parsed" where
  "push_parsed p r = map_sum id (\<lambda>(s, rest). (p @ s, rest)) r"

text \<open>The loop of \<open>parse_string\<close>, after the opening quote.\<close>

function string_chars :: "ustr \<Rightarrow> ustr parsed" where
  "string_chars cs =
     (case cs of
        [] \<Rightarrow> Inl UnterminatedString
      | c # cs \<Rightarrow>
          if c = sc_quote then Inr ([], cs)
          else if c = sc_backslash then
            (case cs of
               [] \<Rightarrow> Inl (InvalidEscape None)
             | e # cs \<Rightarrow>
                 (case simple_escape e of
                    Some x \<Rightarrow> push_parsed [x] (string_chars cs)
                  | None \<Rightarrow>
                      if e = 117
                      then push_parsed (unicode_escape (take 4 cs)) (string_chars (drop 4 cs))
                      else Inl (InvalidEscape (Some e))))
          else push_parsed [c] (string_chars cs))"
  by pat_completeness auto
termination
  by (relation "measure length") auto

declare string_chars.simps [simp del]

definition parse_string :: "ustr \<Rightarrow> ustr parsed" where
  "parse_string cs =
     (case cs of c # cs' \<Rightarrow> if c = sc_quote then string_chars cs' else Inl ExpectedString
      | [] \<Rightarrow> Inl ExpectedString)"

definition parse_literal :: "string \<Rightarrow> 'a \<Rightarrow> ustr \<Rightarrow> 'a parsed" where
  "parse_literal word v cs =
     (if starts_with cs (scalars word) then Inr (v, drop (length word) cs) else Inl InvalidLiteral)"

definition parse_bool :: "ustr \<Rightarrow> 'f json parsed" where
  "parse_bool cs =
     (if starts_with cs (scalars ''true'') then Inr (JBool True, drop 4 cs)
      else parse_literal ''false'' (JBool False) cs)"

definition parse_null :: "ustr \<Rightarrow> 'f json parsed" where
  "parse_null cs = parse_literal ''null'' JNull cs"

definition number_char :: "scalar \<Rightarrow> bool" where
  "number_char c \<longleftrightarrow> is_ascii_digit c \<or> c \<in> set [46, 101, 69, 43, 45]"

definition parse_number :: "(ustr \<Rightarrow> 'f option) \<Rightarrow> ustr \<Rightarrow> 'f json parsed" where
  "parse_number pd cs =
     (let sign = (if first cs = Some 45 then [45] else []);
          body = takeWhile number_char (drop (length sign) cs);
          txt = sign @ body;
          rest = drop (length txt) cs
      in if list_ex (\<lambda>c. \<not> is_ascii_digit c) body
         then (case pd txt of Some d \<Rightarrow> Inr (JDouble d, rest) | None \<Rightarrow> Inl InvalidNumber)
         else (case parse_int in_i64 txt of Some i \<Rightarrow> Inr (JInt i, rest) | None \<Rightarrow> Inl InvalidNumber))"

text \<open>
  The mutually recursive part, with one unit of fuel per call; \<open>2 * length + 1\<close> units are
  enough (\<open>parse_value_enough\<close> of \<open>Json_Correct\<close>).
\<close>

fun parse_value :: "nat \<Rightarrow> (ustr \<Rightarrow> 'f option) \<Rightarrow> ustr \<Rightarrow> 'f json parsed"
and parse_entries :: "nat \<Rightarrow> (ustr \<Rightarrow> 'f option) \<Rightarrow> ustr \<Rightarrow> (ustr \<times> 'f json) list parsed"
and parse_items :: "nat \<Rightarrow> (ustr \<Rightarrow> 'f option) \<Rightarrow> ustr \<Rightarrow> 'f json list parsed" where
  "parse_value 0 pd cs = Inl JsonOutOfFuel"
| "parse_value (Suc n) pd cs =
     (let cs = skip_ws cs in
      case first cs of
        None \<Rightarrow> Inl (UnexpectedToken None)
      | Some c \<Rightarrow>
          if c = 123 then
            (let inner = skip_ws (tl cs) in
             if first inner = Some 125 then Inr (JObject [], tl inner)
             else map_sum id (\<lambda>(es, r). (JObject es, r)) (parse_entries n pd inner))
          else if c = 91 then
            (let inner = skip_ws (tl cs) in
             if first inner = Some 93 then Inr (JArray [], tl inner)
             else map_sum id (\<lambda>(vs, r). (JArray vs, r)) (parse_items n pd inner))
          else if c = sc_quote then map_sum id (\<lambda>(s, r). (JStr s, r)) (parse_string cs)
          else if c = 116 \<or> c = 102 then parse_bool cs
          else if c = 110 then parse_null cs
          else if c = 45 \<or> is_ascii_digit c then parse_number pd cs
          else Inl (UnexpectedToken (Some c)))"
| "parse_entries 0 pd cs = Inl JsonOutOfFuel"
| "parse_entries (Suc n) pd cs =
     (case parse_string (skip_ws cs) of
        Inl e \<Rightarrow> Inl e
      | Inr (key, r) \<Rightarrow>
          let r = skip_ws r in
          if first r \<noteq> Some 58 then Inl ExpectedColon
          else case parse_value n pd (tl r) of
            Inl e \<Rightarrow> Inl e
          | Inr (v, r) \<Rightarrow>
              let r = skip_ws r in
              if first r = Some 44 then
                map_sum id (\<lambda>(es, r'). ((key, v) # es, r')) (parse_entries n pd (tl r))
              else if first r = Some 125 then Inr ([(key, v)], tl r)
              else Inl (ExpectedObjectEnd (first r)))"
| "parse_items 0 pd cs = Inl JsonOutOfFuel"
| "parse_items (Suc n) pd cs =
     (case parse_value n pd cs of
        Inl e \<Rightarrow> Inl e
      | Inr (v, r) \<Rightarrow>
          let r = skip_ws r in
          if first r = Some 44 then
            map_sum id (\<lambda>(vs, r'). (v # vs, r')) (parse_items n pd (tl r))
          else if first r = Some 93 then Inr ([v], tl r)
          else Inl (ExpectedArrayEnd (first r)))"

definition parse_json :: "(ustr \<Rightarrow> 'f option) \<Rightarrow> ustr \<Rightarrow> json_error + 'f json" where
  "parse_json pd input =
     (case parse_value (2 * length input + 1) pd (skip_ws input) of
        Inl e \<Rightarrow> Inl e
      | Inr (v, r) \<Rightarrow> if skip_ws r \<noteq> [] then Inl TrailingCharacters else Inr v)"

end
