(* ===== verification/Json_Correct.thy ===== *)
theory Json_Correct
  imports Json
begin

text \<open>
  The writer and the parser against each other: with any formatting options the parser reads
  back what the writer printed, for values without doubles whose strings avoid the two
  characters the writer escapes in a way the parser does not know; and the parser always ends.
\<close>

section \<open>The parser ends\<close>

lemma length_skip_ws: "length (skip_ws cs) \<le> length cs"
  by (simp add: skip_ws_def length_dropWhile_le)

lemma first_Some: "first cs = Some c \<longleftrightarrow> (\<exists>r. cs = c # r)"
  by (cases cs) (auto simp: first_def)

lemma push_parsed_simps [simp]:
  "push_parsed p (Inl e) = Inl e" "push_parsed p (Inr (s, r)) = Inr (p @ s, r)"
  by (simp_all add: push_parsed_def)

lemma push_parsed_Inr: "push_parsed p r = Inr (s, rest) \<longleftrightarrow> (\<exists>t. r = Inr (t, rest) \<and> s = p @ t)"
  by (cases r) auto

lemma push_parsed_Inl: "push_parsed p r = Inl e \<longleftrightarrow> r = Inl e"
  by (cases r) auto

lemma string_chars_step:
  "string_chars [] = Inl UnterminatedString"
  "string_chars (sc_quote # cs) = Inr ([], cs)"
  "c \<noteq> sc_quote \<Longrightarrow> c \<noteq> sc_backslash \<Longrightarrow> string_chars (c # cs) = push_parsed [c] (string_chars cs)"
  "string_chars [sc_backslash] = Inl (InvalidEscape None)"
  "simple_escape e = Some x \<Longrightarrow>
     string_chars (sc_backslash # e # cs) = push_parsed [x] (string_chars cs)"
  "string_chars (sc_backslash # 117 # cs) =
     push_parsed (unicode_escape (take 4 cs)) (string_chars (drop 4 cs))"
  "simple_escape e = None \<Longrightarrow> e \<noteq> 117 \<Longrightarrow>
     string_chars (sc_backslash # e # cs) = Inl (InvalidEscape (Some e))"
  by (subst string_chars.simps, simp add: simple_escape_def)+

lemma string_chars_induct [case_names nil quote char escape_end simple unicode invalid]:
  assumes "P []" "\<And>cs. P (sc_quote # cs)"
    and "\<And>c cs. c \<noteq> sc_quote \<Longrightarrow> c \<noteq> sc_backslash \<Longrightarrow> P cs \<Longrightarrow> P (c # cs)"
    and "P [sc_backslash]"
    and "\<And>e x cs. simple_escape e = Some x \<Longrightarrow> P cs \<Longrightarrow> P (sc_backslash # e # cs)"
    and "\<And>cs. P (drop 4 cs) \<Longrightarrow> P (sc_backslash # 117 # cs)"
    and "\<And>e cs. simple_escape e = None \<Longrightarrow> e \<noteq> 117 \<Longrightarrow> P (sc_backslash # e # cs)"
  shows "P cs"
proof (induction cs rule: length_induct)
  case (1 cs)
  show ?case
  proof (cases cs)
    case (Cons c r)
    show ?thesis
    proof (cases "c = sc_backslash")
      case True
      show ?thesis
      proof (cases r)
        case r: (Cons e r')
        then show ?thesis
          using 1 assms(5-7) Cons True by (cases "simple_escape e"; cases "e = 117") auto
      qed (use Cons True assms(4) in simp)
    next
      case False
      then show ?thesis
        using 1 assms(2,3) Cons by (cases "c = sc_quote") auto
    qed
  qed (use assms(1) in simp)
qed

lemma string_chars_shorter: "string_chars cs = Inr (s, r) \<Longrightarrow> length r < length cs"
proof (induction cs arbitrary: s rule: string_chars_induct)
  case (unicode cs)
  then show ?case
    by (fastforce simp: string_chars_step push_parsed_Inr)
qed (auto simp: string_chars_step push_parsed_Inr intro: less_SucI)

lemma string_chars_ends: "string_chars cs \<noteq> Inl JsonOutOfFuel"
  by (induction cs rule: string_chars_induct) (simp_all add: string_chars_step push_parsed_Inl)

lemma parse_string_shorter: "parse_string cs = Inr (s, r) \<Longrightarrow> length r + 1 < length cs"
  by (auto simp: parse_string_def split: list.splits if_splits dest: string_chars_shorter)

lemma parse_string_ends: "parse_string cs \<noteq> Inl JsonOutOfFuel"
  by (auto simp: parse_string_def string_chars_ends split: list.splits)

lemma parse_atoms_shorter:
  assumes "first cs = Some c"
  shows "parse_bool cs = Inr (v, r) \<Longrightarrow> length r < length cs"
    "parse_null cs = Inr (v, r) \<Longrightarrow> length r < length cs"
    "c = 45 \<or> is_ascii_digit c \<Longrightarrow> parse_number pd cs = Inr (v, r) \<Longrightarrow> length r < length cs"
  using assms
  by (auto simp: parse_bool_def parse_null_def parse_literal_def parse_number_def Let_def
      first_Some number_char_def split: if_splits option.splits)

lemma parse_atoms_end:
  "parse_bool cs \<noteq> Inl JsonOutOfFuel" "parse_null cs \<noteq> Inl JsonOutOfFuel"
  "parse_number pd cs \<noteq> Inl JsonOutOfFuel"
  by (auto simp: parse_bool_def parse_null_def parse_literal_def parse_number_def Let_def
      split: if_splits option.splits)

lemma map_sum_Inr: "map_sum id f r = Inr y \<longleftrightarrow> (\<exists>x. r = Inr x \<and> y = f x)"
  by (cases r) auto

lemma map_sum_Inl: "map_sum id f r = Inl e \<longleftrightarrow> r = Inl e"
  by (cases r) auto

lemma skip_ws_first: "first (skip_ws cs) = Some c \<Longrightarrow> length (tl (skip_ws cs)) < length cs"
  using length_skip_ws [of cs] by (auto simp: first_Some)

text \<open>The parsers consume at least one scalar, and do not run out of fuel.\<close>

lemma parse_value_shorter:
  assumes "\<And>cs es r. parse_entries n pd cs = Inr (es, r) \<Longrightarrow> length r < length cs"
    and "\<And>cs vs r. parse_items n pd cs = Inr (vs, r) \<Longrightarrow> length r < length cs"
    and "parse_value (Suc n) pd cs = Inr (v, r)"
  shows "length r < length cs"
proof -
  let ?cs = "skip_ws cs"
  obtain c where c: "first ?cs = Some c"
    using assms(3) by (auto simp: Let_def split: option.splits)
  have len: "length (tl ?cs) < length cs" "length ?cs \<le> length cs"
    using skip_ws_first [OF c] length_skip_ws by simp_all
  consider (obj) "c = 123" | (arr) "c = 91" | (str) "c = sc_quote" | (bool) "c = 116 \<or> c = 102"
    | (null) "c = 110" | (num) "c = 45 \<or> is_ascii_digit c"
    using assms(3) c by (auto simp: Let_def split: if_splits)
  then show ?thesis
  proof cases
    case obj
    let ?inner = "skip_ws (tl ?cs)"
    show ?thesis
    proof (cases "first ?inner = Some 125")
      case True
      then show ?thesis
        using assms(3) c obj len skip_ws_first [OF True] by (auto simp: Let_def)
    next
      case False
      then obtain es where "parse_entries n pd ?inner = Inr (es, r)"
        using assms(3) c obj by (auto simp: Let_def map_sum_Inr)
      then show ?thesis
        using assms(1) len length_skip_ws [of "tl ?cs"] by fastforce
    qed
  next
    case arr
    let ?inner = "skip_ws (tl ?cs)"
    show ?thesis
    proof (cases "first ?inner = Some 93")
      case True
      then show ?thesis
        using assms(3) c arr len skip_ws_first [OF True] by (auto simp: Let_def)
    next
      case False
      then obtain vs where "parse_items n pd ?inner = Inr (vs, r)"
        using assms(3) c arr by (auto simp: Let_def map_sum_Inr)
      then show ?thesis
        using assms(2) len length_skip_ws [of "tl ?cs"] by fastforce
    qed
  next
    case str
    then obtain s where "parse_string ?cs = Inr (s, r)"
      using assms(3) c by (auto simp: Let_def map_sum_Inr)
    then show ?thesis
      using parse_string_shorter [of ?cs s r] len by simp
  next
    case bool
    then have "parse_bool ?cs = Inr (v, r)"
      using assms(3) c by (auto simp: Let_def)
    then show ?thesis
      using parse_atoms_shorter(1) [OF c, of v r] len by simp
  next
    case null
    then have "parse_null ?cs = Inr (v, r)"
      using assms(3) c by (auto simp: Let_def)
    then show ?thesis
      using parse_atoms_shorter(2) [OF c, of v r] len by simp
  next
    case num
    then have "c \<noteq> 123 \<and> c \<noteq> 91 \<and> c \<noteq> sc_quote \<and> c \<noteq> 116 \<and> c \<noteq> 102 \<and> c \<noteq> 110"
      by (auto simp: is_ascii_digit_def)
    then have "parse_number pd ?cs = Inr (v, r)"
      using assms(3) c num by (auto simp: Let_def)
    then show ?thesis
      using parse_atoms_shorter(3) [OF c num, of pd v r] len by simp
  qed
qed

lemma parse_entries_shorter:
  assumes "\<And>cs v r. parse_value n pd cs = Inr (v, r) \<Longrightarrow> length r < length cs"
    and "\<And>cs es r. parse_entries n pd cs = Inr (es, r) \<Longrightarrow> length r < length cs"
    and "parse_entries (Suc n) pd cs = Inr (es, r)"
  shows "length r < length cs"
proof -
  obtain key r1 where key: "parse_string (skip_ws cs) = Inr (key, r1)"
    using assms(3) by (auto split: sum.splits)
  obtain v r2 where v: "first (skip_ws r1) = Some 58" "parse_value n pd (tl (skip_ws r1)) = Inr (v, r2)"
    using assms(3) key by (auto simp: Let_def split: sum.splits if_splits)
  have "length r1 < length cs" "length (tl (skip_ws r1)) < length r1"
      "length r2 < length (tl (skip_ws r1))"
    using parse_string_shorter [OF key] length_skip_ws [of cs] skip_ws_first [OF v(1)]
      assms(1) [OF v(2)] by simp_all
  then have r2: "length r2 < length cs"
    by simp
  show ?thesis
  proof (cases "first (skip_ws r2) = Some 44")
    case True
    then obtain es' where "parse_entries n pd (tl (skip_ws r2)) = Inr (es', r)"
      using assms(3) key v by (auto simp: Let_def map_sum_Inr)
    then show ?thesis
      using assms(2) skip_ws_first [OF True] r2 by fastforce
  next
    case False
    then have "first (skip_ws r2) = Some 125" "r = tl (skip_ws r2)"
      using assms(3) key v by (auto simp: Let_def split: if_splits)
    then show ?thesis
      using skip_ws_first r2 by fastforce
  qed
qed

lemma parse_items_shorter:
  assumes "\<And>cs v r. parse_value n pd cs = Inr (v, r) \<Longrightarrow> length r < length cs"
    and "\<And>cs vs r. parse_items n pd cs = Inr (vs, r) \<Longrightarrow> length r < length cs"
    and "parse_items (Suc n) pd cs = Inr (vs, r)"
  shows "length r < length cs"
proof -
  obtain v r2 where v: "parse_value n pd cs = Inr (v, r2)"
    using assms(3) by (auto split: sum.splits)
  have r2: "length r2 < length cs"
    by (rule assms(1) [OF v])
  show ?thesis
  proof (cases "first (skip_ws r2) = Some 44")
    case True
    then obtain vs' where "parse_items n pd (tl (skip_ws r2)) = Inr (vs', r)"
      using assms(3) v by (auto simp: Let_def map_sum_Inr)
    then show ?thesis
      using assms(2) skip_ws_first [OF True] r2 by fastforce
  next
    case False
    then have "first (skip_ws r2) = Some 93" "r = tl (skip_ws r2)"
      using assms(3) v by (auto simp: Let_def split: if_splits)
    then show ?thesis
      using skip_ws_first r2 by fastforce
  qed
qed

lemma json_parsers_shorter:
  "(\<forall>cs v r. parse_value n pd cs = Inr (v, r) \<longrightarrow> length r < length cs)
   \<and> (\<forall>cs es r. parse_entries n pd cs = Inr (es, r) \<longrightarrow> length r < length cs)
   \<and> (\<forall>cs vs r. parse_items n pd cs = Inr (vs, r) \<longrightarrow> length r < length cs)"
proof (induction n)
  case (Suc n)
  then show ?case
    using parse_value_shorter [of n pd] parse_entries_shorter [of n pd] parse_items_shorter [of n pd]
    by (intro conjI allI impI) blast+
qed simp

lemmas value_shorter = json_parsers_shorter [THEN conjunct1, rule_format]

lemma parse_value_fuel:
  assumes "\<And>cs. 2 * length cs + 2 \<le> n \<Longrightarrow> parse_entries n pd cs \<noteq> Inl JsonOutOfFuel"
    and "\<And>cs. 2 * length cs + 2 \<le> n \<Longrightarrow> parse_items n pd cs \<noteq> Inl JsonOutOfFuel"
    and "2 * length cs + 1 \<le> Suc n"
  shows "parse_value (Suc n) pd cs \<noteq> Inl JsonOutOfFuel"
proof (cases "first (skip_ws cs)")
  case (Some c)
  have "2 * length (skip_ws (tl (skip_ws cs))) + 2 \<le> n"
    using skip_ws_first [OF Some] length_skip_ws [of "tl (skip_ws cs)"] assms(3) by linarith
  from assms(1,2) [OF this] show ?thesis
    using Some by (auto simp: Let_def map_sum_Inl parse_atoms_end parse_string_ends)
qed (simp add: Let_def)

lemma parse_entries_fuel:
  assumes "\<And>cs. 2 * length cs + 1 \<le> n \<Longrightarrow> parse_value n pd cs \<noteq> Inl JsonOutOfFuel"
    and "\<And>cs. 2 * length cs + 2 \<le> n \<Longrightarrow> parse_entries n pd cs \<noteq> Inl JsonOutOfFuel"
    and "2 * length cs + 2 \<le> Suc n"
  shows "parse_entries (Suc n) pd cs \<noteq> Inl JsonOutOfFuel"
proof (cases "parse_string (skip_ws cs)")
  case (Inl e)
  then show ?thesis
    using parse_string_ends [of "skip_ws cs"] by simp
next
  case (Inr x)
  obtain key r1 where x: "x = (key, r1)"
    by fastforce
  have r1: "length r1 < length cs"
    using parse_string_shorter [OF Inr [unfolded x]] length_skip_ws [of cs] by simp
  show ?thesis
  proof (cases "first (skip_ws r1) = Some 58")
    case colon: True
    have len: "length (tl (skip_ws r1)) < length r1"
      by (rule skip_ws_first [OF colon])
    show ?thesis
    proof (cases "parse_value n pd (tl (skip_ws r1))")
      case val: (Inl e)
      then show ?thesis
        using Inr x colon assms(1) [of "tl (skip_ws r1)"] assms(3) r1 len by (auto simp: Let_def)
    next
      case val: (Inr y)
      obtain v r2 where y: "y = (v, r2)"
        by fastforce
      have r2: "length r2 < length cs"
        using value_shorter [OF val [unfolded y]] r1 len by simp
      have "parse_entries n pd (tl (skip_ws r2)) \<noteq> Inl JsonOutOfFuel" if "first (skip_ws r2) = Some 44"
        using assms(2) [of "tl (skip_ws r2)"] skip_ws_first [OF that] assms(3) r2 by simp
      then show ?thesis
        using Inr x colon val y by (auto simp: Let_def map_sum_Inl)
    qed
  qed (use Inr x in \<open>simp add: Let_def\<close>)
qed

lemma parse_items_fuel:
  assumes "\<And>cs. 2 * length cs + 1 \<le> n \<Longrightarrow> parse_value n pd cs \<noteq> Inl JsonOutOfFuel"
    and "\<And>cs. 2 * length cs + 2 \<le> n \<Longrightarrow> parse_items n pd cs \<noteq> Inl JsonOutOfFuel"
    and "2 * length cs + 2 \<le> Suc n"
  shows "parse_items (Suc n) pd cs \<noteq> Inl JsonOutOfFuel"
proof (cases "parse_value n pd cs")
  case (Inl e)
  then show ?thesis
    using assms(1) [of cs] assms(3) by auto
next
  case (Inr y)
  obtain v r2 where y: "y = (v, r2)"
    by fastforce
  have r2: "length r2 < length cs"
    using value_shorter [OF Inr [unfolded y]] .
  have "parse_items n pd (tl (skip_ws r2)) \<noteq> Inl JsonOutOfFuel" if "first (skip_ws r2) = Some 44"
    using assms(2) [of "tl (skip_ws r2)"] skip_ws_first [OF that] assms(3) r2 by simp
  then show ?thesis
    using Inr y by (auto simp: Let_def map_sum_Inl)
qed

lemma json_parsers_fuel:
  "(\<forall>cs. 2 * length cs + 1 \<le> n \<longrightarrow> parse_value n pd cs \<noteq> Inl JsonOutOfFuel)
   \<and> (\<forall>cs. 2 * length cs + 2 \<le> n \<longrightarrow> parse_entries n pd cs \<noteq> Inl JsonOutOfFuel)
   \<and> (\<forall>cs. 2 * length cs + 2 \<le> n \<longrightarrow> parse_items n pd cs \<noteq> Inl JsonOutOfFuel)"
proof (induction n)
  case (Suc n)
  then show ?case
    using parse_value_fuel [of n pd] parse_entries_fuel [of n pd] parse_items_fuel [of n pd]
    by (intro conjI allI impI) blast+
qed simp

lemmas parse_value_enough = json_parsers_fuel [THEN conjunct1, rule_format]

text \<open>C38. The parser returns on every text: the fuel it starts with is enough.\<close>

theorem parse_json_ends: "parse_json pd input \<noteq> Inl JsonOutOfFuel"
proof -
  have "2 * length (skip_ws input) + 1 \<le> 2 * length input + 1"
    using length_skip_ws [of input] by simp
  from parse_value_enough [OF this, of pd] show ?thesis
    by (auto simp: parse_json_def split: sum.splits)
qed

section \<open>Reading back what was written\<close>

definition readable_string :: "ustr \<Rightarrow> bool" where
  "readable_string s \<longleftrightarrow> 8 \<notin> set s \<and> 12 \<notin> set s"

text \<open>
  The text of a number that is not all digits: it starts with a minus sign or a digit and goes on with
  characters of numbers. Only such a text is given to the reader of doubles, so a double written
  without fraction and exponent is read back as an integer.
\<close>

definition fractional_text :: "ustr \<Rightarrow> bool" where
  "fractional_text t \<longleftrightarrow>
     (case t of [] \<Rightarrow> False
      | c # cs \<Rightarrow> (let body = (if c = 45 then cs else t) in
          (c = 45 \<or> is_ascii_digit c) \<and> list_all number_char body \<and> list_ex (\<lambda>c. \<not> is_ascii_digit c) body))"

fun readable :: "('f \<Rightarrow> ustr) \<Rightarrow> (ustr \<Rightarrow> 'f option) \<Rightarrow> 'f json \<Rightarrow> bool" where
  "readable fd pd (JDouble d) = (fractional_text (fd d) \<and> pd (fd d) = Some d)"
| "readable fd pd (JInt i) = in_i64 i"
| "readable fd pd (JStr s) = readable_string s"
| "readable fd pd (JArray vs) = list_all (readable fd pd) vs"
| "readable fd pd (JObject es) = list_all (\<lambda>(k, v). readable_string k \<and> readable fd pd v) es"
| "readable fd pd v = True"

text \<open>What the options make of a value: with \<open>sorted_keys\<close> every object is sorted by key.\<close>

function (sequential) canonical :: "output_formatting \<Rightarrow> 'f json \<Rightarrow> 'f json" where
  "canonical fmt (JArray vs) = JArray (map (canonical fmt) vs)"
| "canonical fmt (JObject es) =
     JObject (map (\<lambda>(k, v). (k, canonical fmt v)) (if sorted_keys fmt then sort_key fst es else es))"
| "canonical fmt v = v"
  by pat_completeness auto
termination
  by (relation "measure (\<lambda>(fmt, v). size v)")
    (auto simp: less_Suc_eq_le split: if_splits elim!: size_list_estimation')

lemma hex_digit_upper: "d < 16 \<Longrightarrow> hex_digit (hex_upper d) = Some d"
  by (auto simp: hex_digit_def hex_upper_def)

lemma unicode_escape_control:
  assumes "c < 32"
  shows "unicode_escape [48, 48, hex_upper (c div 16), hex_upper (c mod 16)] = [c]"
proof -
  have "hex_digit 48 = Some 0"
    by (simp add: hex_digit_def)
  then have "from_str_radix_16 [48, 48, hex_upper (c div 16), hex_upper (c mod 16)] = Some c"
    using assms by (simp add: from_str_radix_16_def hex_digit_upper)
  then show ?thesis
    using assms by (simp add: unicode_escape_def char_from_u32_def)
qed

lemma simple_escapes:
  "simple_escape sc_quote = Some sc_quote" "simple_escape sc_backslash = Some sc_backslash"
  "simple_escape 110 = Some 10" "simple_escape 116 = Some 9" "simple_escape 114 = Some 13"
  "simple_escape 98 = None" "simple_escape 102 = None"
  by (simp_all add: simple_escape_def)

lemma string_chars_escape:
  assumes "c \<noteq> 8" "c \<noteq> 12"
  shows "string_chars (escape_char c @ cs) = push_parsed [c] (string_chars cs)"
proof -
  consider "c = sc_quote" | "c = sc_backslash" | "c = 10" | "c = 9" | "c = 13"
    | (control) "c < 32" "c \<noteq> 10" "c \<noteq> 9" "c \<noteq> 13"
    | (plain) "32 \<le> c" "c \<noteq> sc_quote" "c \<noteq> sc_backslash"
    by linarith
  then show ?thesis
  proof cases
    case control
    then have "escape_char c = [sc_backslash, 117, 48, 48, hex_upper (c div 16), hex_upper (c mod 16)]"
      using assms by (simp add: escape_char_def)
    then show ?thesis
      using string_chars_step(6) [of "48 # 48 # hex_upper (c div 16) # hex_upper (c mod 16) # cs"]
        unicode_escape_control [OF control(1)] by simp
  next
    case plain
    then have "escape_char c = [c]"
      using assms by (simp add: escape_char_def)
    then show ?thesis
      using plain string_chars_step(3) by simp
  qed (simp_all add: escape_char_def string_chars_step(5) [OF simple_escapes(1)]
      string_chars_step(5) [OF simple_escapes(2)] string_chars_step(5) [OF simple_escapes(3)]
      string_chars_step(5) [OF simple_escapes(4)] string_chars_step(5) [OF simple_escapes(5)])
qed

lemma string_chars_written:
  "readable_string s \<Longrightarrow> string_chars (concat (map escape_char s) @ sc_quote # rest) = Inr (s, rest)"
  by (induction s) (simp_all add: readable_string_def string_chars_step(2) string_chars_escape)

lemma parse_string_written:
  "readable_string s \<Longrightarrow> parse_string (write_string s @ rest) = Inr (s, rest)"
  using string_chars_written [of s rest] by (simp add: parse_string_def write_string_def)

definition ends_number :: "ustr \<Rightarrow> bool" where
  "ends_number rest \<longleftrightarrow> (case rest of [] \<Rightarrow> True | c # _ \<Rightarrow> \<not> number_char c)"

lemma takeWhile_stop:
  assumes "list_all p u" "case rest of [] \<Rightarrow> True | c # _ \<Rightarrow> \<not> p c"
  shows "takeWhile p (u @ rest) = u"
  using assms by (induction u) (auto split: list.splits)

lemma dec_digits_all: "list_all number_char (dec_digits n)" "list_all is_ascii_digit (dec_digits n)"
  by (auto simp: list_all_iff number_char_def dec_digits_digit)

lemma parse_number_double:
  assumes "fractional_text t" "pd t = Some d" "ends_number rest"
  shows "parse_number pd (t @ rest) = Inr (JDouble d, rest)"
proof -
  obtain c cs where t: "t = c # cs"
    using assms(1) by (cases t) (simp_all add: fractional_text_def)
  let ?body = "if c = 45 then cs else t"
  have body: "list_all number_char ?body" "list_ex (\<lambda>c. \<not> is_ascii_digit c) ?body"
    using assms(1) by (simp_all add: t fractional_text_def Let_def del: list_all_iff split: if_splits)
  have "takeWhile number_char (?body @ rest) = ?body"
    using takeWhile_stop [OF body(1)] assms(3) unfolding ends_number_def by blast
  with body(2) assms(2) show ?thesis
    by (auto simp: parse_number_def Let_def first_def t split: if_splits)
qed

lemma parse_number_written:
  assumes "in_i64 i" "ends_number rest"
  shows "parse_number pd (display_int i @ rest) = Inr (JInt i, rest)"
proof -
  have body: "takeWhile number_char (dec_digits n @ rest) = dec_digits n" for n
    using takeWhile_stop [OF dec_digits_all(1)] assms(2) unfolding ends_number_def by blast
  have ints: "\<not> list_ex (\<lambda>c. \<not> is_ascii_digit c) (dec_digits n)" for n
    using dec_digits_all(2) by (auto simp: list_all_iff list_ex_iff)
  have hd: "first (dec_digits n @ rest) \<noteq> Some 45" for n
    using dec_digits_hd [of n] by (cases "dec_digits n") (auto simp: first_def is_ascii_digit_def)
  note parse = parse_display_int [of in_i64 i, OF assms(1)]
  show ?thesis
  proof (cases "i < 0")
    case True
    then show ?thesis
      using parse body ints by (simp add: parse_number_def display_int_def Let_def first_def)
  next
    case False
    then show ?thesis
      using parse body ints hd by (simp add: parse_number_def display_int_def Let_def)
  qed
qed

text \<open>\<open>reads pd txt v\<close>: wherever \<open>txt\<close> stands, \<open>parse_value\<close> reads the value \<open>v\<close> from it.\<close>

definition reads :: "(ustr \<Rightarrow> 'f option) \<Rightarrow> ustr \<Rightarrow> 'f json \<Rightarrow> bool" where
  "reads pd txt v \<longleftrightarrow> txt \<noteq> [] \<and> \<not> is_json_ws (hd txt) \<and> hd txt \<noteq> 93
     \<and> (\<forall>n ws rest. list_all is_json_ws ws \<longrightarrow> ends_number rest \<longrightarrow>
          2 * length (ws @ txt @ rest) + 1 \<le> n \<longrightarrow>
          parse_value n pd (ws @ txt @ rest) = Inr (v, rest))"

lemma readsD:
  assumes "reads pd txt v" "list_all is_json_ws ws" "ends_number rest"
    "2 * length (ws @ txt @ rest) + 1 \<le> n"
  shows "parse_value n pd (ws @ txt @ rest) = Inr (v, rest)"
  using assms unfolding reads_def by blast

lemma skip_ws_append:
  "list_all is_json_ws ws \<Longrightarrow> cs = [] \<or> \<not> is_json_ws (hd cs) \<Longrightarrow> skip_ws (ws @ cs) = cs"
  by (induction ws) (auto simp: skip_ws_def dropWhile_eq_self_iff)

lemma ends_number_ws: "list_all is_json_ws tail \<Longrightarrow> c \<in> {44, 93, 125} \<Longrightarrow> ends_number (tail @ c # rest)"
  by (cases tail) (auto simp: ends_number_def number_char_def is_ascii_digit_def is_json_ws_def)

lemma ws_closers: "\<not> is_json_ws c" if "c \<in> {44, 93, 125, 58, 34, 91, 123}"
  using that by (auto simp: is_json_ws_def)

definition more_items :: "ustr \<Rightarrow> ustr list \<Rightarrow> ustr" where
  "more_items lead xs = concat (map (\<lambda>x. 44 # lead @ x) xs)"

lemma comma_separated_Cons: "comma_separated lead (x # xs) = lead @ x @ more_items lead xs"
  by (induction xs arbitrary: x) (simp_all add: more_items_def)

lemma ends_number_items:
  "list_all is_json_ws tail \<Longrightarrow> c \<in> {93, 125} \<Longrightarrow> ends_number (more_items lead xs @ tail @ c # rest)"
  using ends_number_ws [of tail c rest]
  by (cases xs) (auto simp: more_items_def ends_number_def number_char_def is_ascii_digit_def)

lemma parse_items_written:
  assumes "list_all2 (reads pd) (x # xs) (v # vs)"
    and "list_all is_json_ws ws" "list_all is_json_ws lead" "list_all is_json_ws tail"
    and "2 * length (ws @ x @ more_items lead xs @ tail @ 93 # rest) + 2 \<le> n"
  shows "parse_items n pd (ws @ x @ more_items lead xs @ tail @ 93 # rest) = Inr (v # vs, rest)"
  using assms
proof (induction xs arbitrary: x v vs ws n)
  case Nil
  obtain m where n: "n = Suc m"
    using Nil.prems(5) by (cases n) auto
  have "parse_value m pd (ws @ x @ tail @ 93 # rest) = Inr (v, tail @ 93 # rest)"
    using Nil.prems n ends_number_ws [of tail 93 rest]
    by (intro readsD) (auto simp: more_items_def)
  moreover have "skip_ws (tail @ 93 # rest) = 93 # rest"
    using Nil.prems(4) ws_closers by (intro skip_ws_append) auto
  ultimately show ?case
    using Nil.prems(1) n by (simp add: more_items_def first_def)
next
  case (Cons y ys)
  obtain m where n: "n = Suc m"
    using Cons.prems(5) by (cases n) auto
  obtain w ws' where vs: "vs = w # ws'"
    using Cons.prems(1) by (cases vs) auto
  let ?more = "more_items lead (y # ys) @ tail @ 93 # rest"
  have more: "?more = 44 # lead @ y @ more_items lead ys @ tail @ 93 # rest"
    by (simp add: more_items_def)
  have "parse_value m pd (ws @ x @ ?more) = Inr (v, ?more)"
    using Cons.prems n ends_number_items [of tail 93 lead "y # ys" rest]
    by (intro readsD) auto
  moreover have "skip_ws ?more = ?more"
    using skip_ws_append [of "[]" ?more] ws_closers [of 44] by (simp add: more)
  moreover have "parse_items m pd (lead @ y @ more_items lead ys @ tail @ 93 # rest)
      = Inr (w # ws', rest)"
    by (rule Cons.IH) (use Cons.prems n vs in \<open>auto simp: more_items_def\<close>)
  ultimately show ?case
    using n vs by (simp add: more first_def)
qed

definition reads_entry :: "output_formatting \<Rightarrow> (ustr \<Rightarrow> 'f option) \<Rightarrow> ustr \<Rightarrow> ustr \<times> 'f json \<Rightarrow> bool" where
  "reads_entry fmt pd txt kv \<longleftrightarrow>
     (\<exists>u. txt = write_string (fst kv) @ key_colon fmt @ u \<and> readable_string (fst kv)
        \<and> reads pd u (snd kv))"

lemma parse_entry_head:
  assumes "reads_entry fmt pd txt (k, v)" "list_all is_json_ws ws" "ends_number rest"
    and "2 * length (ws @ txt @ rest) + 1 \<le> n"
  shows "\<exists>r. parse_string (skip_ws (ws @ txt @ rest)) = Inr (k, r)
     \<and> first (skip_ws r) = Some 58 \<and> parse_value n pd (tl (skip_ws r)) = Inr (v, rest)"
proof -
  obtain u where u: "txt = write_string k @ key_colon fmt @ u" "readable_string k" "reads pd u v"
    using assms(1) by (auto simp: reads_entry_def)
  have skip: "skip_ws (ws @ txt @ rest) = write_string k @ key_colon fmt @ u @ rest"
    using assms(2) skip_ws_append [of ws "txt @ rest"] ws_closers [of 34]
    by (simp add: u(1) write_string_def)
  define pre where "pre = (if pretty_printed fmt then [sc_sp] else [])"
  have colon: "skip_ws (key_colon fmt @ u @ rest) = 58 # pre @ u @ rest"
    using skip_ws_append [of "[sc_sp]" "58 # sc_sp # u @ rest"]
      skip_ws_append [of "[]" "58 # u @ rest"] ws_closers [of 58]
    by (simp add: key_colon_def pre_def is_json_ws_def)
  have "parse_value n pd (pre @ u @ rest) = Inr (v, rest)"
    using assms(3,4) u(1) by (intro readsD u(3)) (auto simp: pre_def is_json_ws_def key_colon_def)
  then show ?thesis
    using parse_string_written [OF u(2)] skip colon by (simp add: first_def)
qed

lemma parse_entries_written:
  assumes "list_all2 (reads_entry fmt pd) (x # xs) (e # es)"
    and "list_all is_json_ws ws" "list_all is_json_ws lead" "list_all is_json_ws tail"
    and "2 * length (ws @ x @ more_items lead xs @ tail @ 125 # rest) + 2 \<le> n"
  shows "parse_entries n pd (ws @ x @ more_items lead xs @ tail @ 125 # rest) = Inr (e # es, rest)"
  using assms
proof (induction xs arbitrary: x e es ws n)
  case Nil
  obtain m where n: "n = Suc m"
    using Nil.prems(5) by (cases n) auto
  obtain k v where e: "e = (k, v)"
    by fastforce
  have en: "ends_number (tail @ 125 # rest)"
    using Nil.prems(4) by (rule ends_number_ws) simp
  have hd: "reads_entry fmt pd x (k, v)"
    using Nil.prems(1) e by simp
  obtain r where "parse_string (skip_ws (ws @ x @ tail @ 125 # rest)) = Inr (k, r)"
      "first (skip_ws r) = Some 58" "parse_value m pd (tl (skip_ws r)) = Inr (v, tail @ 125 # rest)"
    using parse_entry_head [OF hd Nil.prems(2) en, of m] Nil.prems(5) n by (auto simp: more_items_def)
  moreover have "skip_ws (tail @ 125 # rest) = 125 # rest"
    using Nil.prems(4) ws_closers by (intro skip_ws_append) auto
  ultimately show ?case
    using Nil.prems(1) n e by (simp add: more_items_def first_def)
next
  case (Cons y ys)
  obtain m where n: "n = Suc m"
    using Cons.prems(5) by (cases n) auto
  obtain k v where e: "e = (k, v)"
    by fastforce
  obtain w ws' where es: "es = w # ws'"
    using Cons.prems(1) by (cases es) auto
  let ?more = "more_items lead (y # ys) @ tail @ 125 # rest"
  have more: "?more = 44 # lead @ y @ more_items lead ys @ tail @ 125 # rest"
    by (simp add: more_items_def)
  have en: "ends_number ?more"
    using Cons.prems(4) by (rule ends_number_items) simp
  have hd: "reads_entry fmt pd x (k, v)"
    using Cons.prems(1) e by simp
  obtain r where "parse_string (skip_ws (ws @ x @ ?more)) = Inr (k, r)"
      "first (skip_ws r) = Some 58" "parse_value m pd (tl (skip_ws r)) = Inr (v, ?more)"
    using parse_entry_head [OF hd Cons.prems(2) en, of m] Cons.prems(5) n by auto
  moreover have "skip_ws ?more = ?more"
    using skip_ws_append [of "[]" ?more] ws_closers [of 44] by (simp add: more)
  moreover have "parse_entries m pd (lead @ y @ more_items lead ys @ tail @ 125 # rest)
      = Inr (w # ws', rest)"
    by (rule Cons.IH) (use Cons.prems n es in \<open>auto simp: more_items_def\<close>)
  ultimately show ?case
    using n es e by (simp add: more first_def)
qed

section \<open>The round trip of values\<close>

lemma indent_ws: "list_all is_json_ws (push_indent depth)"
  by (auto simp: push_indent_def list_all_iff is_json_ws_def)

lemma lead_ws: "list_all is_json_ws (item_lead fmt depth)"
  using indent_ws [of "depth + 1"] by (simp add: item_lead_def is_json_ws_def)

lemma write_items_Cons:
  "\<exists>tail. list_all is_json_ws tail \<and> write_items fmt depth (x # xs)
     = item_lead fmt depth @ x @ more_items (item_lead fmt depth) xs @ tail"
  using indent_ws [of depth]
  by (intro exI [of _ "if pretty_printed fmt then sc_nl # push_indent depth else []"])
    (simp add: write_items_def comma_separated_Cons is_json_ws_def)

lemma readsI:
  assumes "txt = c # txt'" "\<not> is_json_ws c" "c \<noteq> 93"
    and "\<And>n rest. ends_number rest \<Longrightarrow> 2 * length (txt @ rest) + 1 \<le> Suc n \<Longrightarrow>
      parse_value (Suc n) pd (txt @ rest) = Inr (v, rest)"
  shows "reads pd txt v"
proof -
  have "parse_value n pd (ws @ txt @ rest) = Inr (v, rest)"
    if "list_all is_json_ws ws" "ends_number rest" "2 * length (ws @ txt @ rest) + 1 \<le> n" for n ws rest
  proof -
    from that(3) obtain m where m: "n = Suc m"
      by (cases n) auto
    have skip: "skip_ws (ws @ txt @ rest) = txt @ rest"
      using that(1) assms(1,2) by (intro skip_ws_append) auto
    have "skip_ws (txt @ rest) = txt @ rest"
      using skip_ws_append [of "[]" "txt @ rest"] assms(1,2) by simp
    then have "parse_value n pd (ws @ txt @ rest) = parse_value n pd (txt @ rest)"
      using skip by (simp add: m del: append_assoc)
    also have "\<dots> = Inr (v, rest)"
      using assms(4) [OF that(2), of m] that(3) m by simp
    finally show ?thesis .
  qed
  then show ?thesis
    using assms(1-3) unfolding reads_def by simp
qed

lemma reads_array:
  assumes "list_all2 (reads pd) txts vs"
  shows "reads pd (91 # write_items fmt depth txts @ [93]) (JArray vs)"
proof (rule readsI [OF refl])
  fix n rest
  assume rest: "ends_number rest" and n: "2 * length ((91 # write_items fmt depth txts @ [93]) @ rest) + 1 \<le> Suc n"
  have self: "skip_ws (91 # cs) = 91 # cs" for cs
    using skip_ws_append [of "[]" "91 # cs"] ws_closers [of 91] by simp
  show "parse_value (Suc n) pd ((91 # write_items fmt depth txts @ [93]) @ rest) = Inr (JArray vs, rest)"
  proof (cases txts)
    case Nil
    have "skip_ws (93 # rest) = 93 # rest"
      using skip_ws_append [of "[]" "93 # rest"] ws_closers [of 93] by simp
    then show ?thesis
      using Nil assms self by (simp add: write_items_def first_def Let_def)
  next
    case (Cons x xs)
    obtain v vs' where vs: "vs = v # vs'"
      using assms Cons by (cases vs) auto
    obtain tail where tail: "list_all is_json_ws tail" "write_items fmt depth txts
        = item_lead fmt depth @ x @ more_items (item_lead fmt depth) xs @ tail"
      using write_items_Cons [of fmt depth x xs] Cons by blast
    let ?inner = "[] @ x @ more_items (item_lead fmt depth) xs @ tail @ 93 # rest"
    have x: "x \<noteq> []" "\<not> is_json_ws (hd x)" "hd x \<noteq> 93"
      using assms Cons vs by (auto simp: reads_def)
    have skip: "skip_ws (write_items fmt depth txts @ 93 # rest) = ?inner"
      using skip_ws_append [OF lead_ws, of ?inner fmt depth] x by (simp add: tail(2))
    have "parse_items n pd ?inner = Inr (v # vs', rest)"
      using assms Cons vs n tail by (intro parse_items_written lead_ws) auto
    moreover have "first ?inner \<noteq> Some 93"
      using x by (cases x) (auto simp: first_def)
    ultimately show ?thesis
      using self skip vs by (simp add: first_def Let_def)
  qed
qed (simp_all add: ws_closers)

lemma reads_object:
  assumes "list_all2 (reads_entry fmt pd) txts es"
  shows "reads pd (123 # write_items fmt depth txts @ [125]) (JObject es)"
proof (rule readsI [OF refl])
  fix n rest
  assume rest: "ends_number rest" and n: "2 * length ((123 # write_items fmt depth txts @ [125]) @ rest) + 1 \<le> Suc n"
  have self: "skip_ws (123 # cs) = 123 # cs" for cs
    using skip_ws_append [of "[]" "123 # cs"] ws_closers [of 123] by simp
  show "parse_value (Suc n) pd ((123 # write_items fmt depth txts @ [125]) @ rest) = Inr (JObject es, rest)"
  proof (cases txts)
    case Nil
    have "skip_ws (125 # rest) = 125 # rest"
      using skip_ws_append [of "[]" "125 # rest"] ws_closers [of 125] by simp
    then show ?thesis
      using Nil assms self by (simp add: write_items_def first_def Let_def)
  next
    case (Cons x xs)
    obtain e es' where es: "es = e # es'"
      using assms Cons by (cases es) auto
    obtain tail where tail: "list_all is_json_ws tail" "write_items fmt depth txts
        = item_lead fmt depth @ x @ more_items (item_lead fmt depth) xs @ tail"
      using write_items_Cons [of fmt depth x xs] Cons by blast
    let ?inner = "[] @ x @ more_items (item_lead fmt depth) xs @ tail @ 125 # rest"
    obtain x' where x: "x = sc_quote # x'"
      using assms Cons es by (auto simp: reads_entry_def write_string_def)
    have skip: "skip_ws (write_items fmt depth txts @ 125 # rest) = ?inner"
      using skip_ws_append [OF lead_ws, of ?inner fmt depth] x ws_closers [of 34] by (simp add: tail(2))
    have "parse_entries n pd ?inner = Inr (e # es', rest)"
      using assms Cons es n tail by (intro parse_entries_written lead_ws) auto
    moreover have "first ?inner \<noteq> Some 125"
      using x by (simp add: first_def)
    ultimately show ?thesis
      using self skip es by (simp add: first_def Let_def)
  qed
qed (simp_all add: ws_closers)

lemma readable_reads:
  "readable fd pd v \<Longrightarrow> reads pd (write_value_fmt fd fmt v depth) (canonical fmt v)"
proof (induction fd fmt v depth rule: write_value_fmt.induct)
  case (1 fd fmt depth)
  show ?case
    by (rule readsI [where c = 110]) (simp_all add: is_json_ws_def byte_def skip_ws_def first_def
        parse_null_def parse_literal_def Let_def)
next
  case (2 fd fmt b depth)
  have "reads pd (scalars ''true'') (JBool True)"
    by (rule readsI [where c = 116]) (simp_all add: is_json_ws_def byte_def skip_ws_def first_def
        parse_bool_def Let_def)
  moreover have "reads pd (scalars ''false'') (JBool False)"
    by (rule readsI [where c = 102]) (simp_all add: is_json_ws_def byte_def skip_ws_def first_def
        parse_bool_def parse_literal_def Let_def)
  ultimately show ?case
    by simp
next
  case (3 fd fmt i depth)
  obtain c cs where c: "display_int i = c # cs"
    by (cases "display_int i") (auto simp: display_int_def split: if_splits)
  have num: "c = 45 \<or> is_ascii_digit c"
    using c dec_digits_hd by (auto simp: display_int_def split: if_splits) (metis list.sel(1))
  then have ws: "\<not> is_json_ws c" "c \<notin> {93, 123, 91, 34, 116, 102, 110}"
    by (auto simp: is_json_ws_def is_ascii_digit_def)
  show ?case
  proof (rule readsI [where c = c and txt' = cs])
    fix n rest
    assume "ends_number rest"
    then show "parse_value (Suc n) pd (write_value_fmt fd fmt (JInt i) depth @ rest)
        = Inr (canonical fmt (JInt i), rest)"
      using parse_number_written [of i rest pd] 3 c num ws skip_ws_append [of "[]" "c # cs @ rest"]
      by (simp add: first_def Let_def)
  qed (use c ws in simp_all)
next
  case (4 fd fmt d depth)
  then obtain c cs where c: "fd d = c # cs" and num: "c = 45 \<or> is_ascii_digit c"
    by (auto simp: fractional_text_def Let_def split: list.splits)
  then have ws: "\<not> is_json_ws c" "c \<notin> {93, 123, 91, 34, 116, 102, 110}"
    by (auto simp: is_json_ws_def is_ascii_digit_def)
  show ?case
  proof (rule readsI [where c = c and txt' = cs])
    fix n rest
    assume "ends_number rest"
    then show "parse_value (Suc n) pd (write_value_fmt fd fmt (JDouble d) depth @ rest)
        = Inr (canonical fmt (JDouble d), rest)"
      using parse_number_double [of "fd d" pd d rest] 4 c num ws skip_ws_append [of "[]" "c # cs @ rest"]
      by (simp add: first_def Let_def)
  qed (use c ws in simp_all)
next
  case (5 fd fmt s depth)
  show ?case
  proof (rule readsI [where c = sc_quote])
    fix n rest
    show "parse_value (Suc n) pd (write_value_fmt fd fmt (JStr s) depth @ rest)
        = Inr (canonical fmt (JStr s), rest)"
      using parse_string_written [of s rest] 5 ws_closers [of 34]
        skip_ws_append [of "[]" "write_string s @ rest"]
      by (simp add: write_string_def first_def Let_def)
  qed (simp_all add: write_string_def ws_closers)
next
  case (6 fd fmt items depth)
  have "list_all2 (reads pd) (map (\<lambda>v. write_value_fmt fd fmt v (depth + 1)) items)
      (map (canonical fmt) items)"
    using 6 by (auto simp: list.rel_map list_all_iff intro!: list.rel_refl_strong)
  then show ?case
    using reads_array by fastforce
next
  case (7 fd fmt entries depth)
  let ?es = "if sorted_keys fmt then sort_key fst entries else entries"
  let ?txt = "\<lambda>(k, v). write_string k @ key_colon fmt @ write_value_fmt fd fmt v (value_depth fmt depth)"
  have "list_all2 (reads_entry fmt pd) (map ?txt ?es) (map (\<lambda>(k, v). (k, canonical fmt v)) ?es)"
    unfolding list.rel_map
  proof (rule list.rel_refl_strong)
    fix kv assume kv: "kv \<in> set ?es"
    obtain k v where kv': "kv = (k, v)"
      by fastforce
    have "(k, v) \<in> set entries"
      using kv kv' by (auto split: if_splits)
    then have "readable_string k" "readable fd pd v"
      using "7.prems" by (auto simp: list_all_iff)
    then show "reads_entry fmt pd (?txt kv) (case kv of (k, v) \<Rightarrow> (k, canonical fmt v))"
      using "7.IH" [OF kv kv' [symmetric]] by (auto simp: reads_entry_def kv')
  qed
  from reads_object [OF this] show ?case
    by simp
qed

text \<open>C18. The parser reads back what the writer printed, whatever the formatting options: the
  same value, its objects sorted by key when \<open>sorted_keys\<close> is on. This holds of values whose integers
  fit \<open>i64\<close>, whose strings and keys are without U+0008 and U+000C (see \<open>json_string_unreadable\<close>) and
  whose doubles are written with a fraction or an exponent, in a text from which the reader of
  doubles gets the double back.\<close>

theorem json_roundtrip:
  assumes "readable fd pd v"
  shows "parse_json pd (to_string_fmt fd v fmt) = Inr (canonical fmt v)"
proof -
  have reads: "reads pd (to_string_fmt fd v fmt) (canonical fmt v)"
    unfolding to_string_fmt_def by (rule readable_reads [OF assms])
  let ?txt = "to_string_fmt fd v fmt"
  have "skip_ws ?txt = ?txt"
    using reads skip_ws_append [of "[]" ?txt] by (simp add: reads_def)
  moreover have "parse_value (2 * length ?txt + 1) pd ([] @ ?txt @ []) = Inr (canonical fmt v, [])"
    by (rule readsD [OF reads]) (simp_all add: ends_number_def)
  ultimately show ?thesis
    by (simp add: parse_json_def skip_ws_def)
qed

text \<open>A type of doubles with one element, minus one half.\<close>

definition half_reader :: "ustr \<Rightarrow> unit option" where
  "half_reader t = (if t = [45, 48, 46, 53] then Some () else None)"

theorem json_roundtrip_witness:
  "parse_json half_reader
     (to_string_fmt (\<lambda>u. [45, 48, 46, 53])
        (JObject [(scalars ''b'', JInt (- 7)), (scalars ''a'', JArray [JNull, JDouble ()])])
        \<lparr>pretty_printed = True, sorted_keys = False\<rparr>)
   = Inr (canonical \<lparr>pretty_printed = True, sorted_keys = False\<rparr>
       (JObject [(scalars ''b'', JInt (- 7)), (scalars ''a'', JArray [JNull, JDouble ()])]))"
  by (rule json_roundtrip)
    (simp add: readable_string_def byte_def in_i64_def half_reader_def fractional_text_def number_char_def is_ascii_digit_def)

section \<open>Strings that cannot be read back\<close>

lemma string_chars_unreadable:
  assumes "readable_string u" "c = 8 \<or> c = 12"
  shows "string_chars (concat (map escape_char (u @ c # v)) @ rest)
     = Inl (InvalidEscape (Some (if c = 8 then 98 else 102)))"
  using assms
proof (induction u)
  case Nil
  then show ?case
    using string_chars_step(7) [OF simple_escapes(6)] string_chars_step(7) [OF simple_escapes(7)]
    by (auto simp: escape_char_def)
next
  case (Cons a u)
  then show ?case
    by (simp add: readable_string_def string_chars_escape)
qed

text \<open>A string with a backspace or a form feed is written with an escape the parser
  rejects: the round trip of such a value fails.\<close>

theorem json_string_unreadable:
  assumes "\<not> readable_string s"
  shows "\<exists>c. parse_json pd (json_to_string fd (JStr s)) = Inl (InvalidEscape (Some c))"
proof -
  obtain u c v where s: "s = u @ c # v" "c = 8 \<or> c = 12" "\<forall>x\<in>set u. \<not> (x = 8 \<or> x = 12)"
    using split_list_first_prop [of s "\<lambda>c. c = 8 \<or> c = 12"] assms
    by (auto simp: readable_string_def)
  then have "readable_string u"
    by (auto simp: readable_string_def)
  note chars = string_chars_unreadable [OF this s(2), of v "[sc_quote]"]
  have "skip_ws (write_string s) = write_string s"
    using skip_ws_append [of "[]" "write_string s"] ws_closers [of 34] by (simp add: write_string_def)
  then show ?thesis
    using chars s(1)
    by (simp add: parse_json_def json_to_string_def to_string_fmt_def parse_string_def
        write_string_def first_def Let_def)
qed

theorem json_string_unreadable_witness:
  "\<exists>c. parse_json (\<lambda>_. None :: unit option) (json_to_string (\<lambda>u::unit. []) (JStr [97, 8]))
     = Inl (InvalidEscape (Some c))"
  by (rule json_string_unreadable) (simp add: readable_string_def)

text \<open>A \<open>\u\<close> escape of a surrogate, half of what JSON writes for a scalar beyond U+FFFF, is
  dropped without an error: the escaped pair reads as the empty string.\<close>

theorem surrogate_escapes_dropped:
  assumes "from_str_radix_16 h = Some n" "0xD800 \<le> n" "n < 0xE000" "length h = 4"
  shows "parse_string (sc_quote # sc_backslash # 117 # h @ rest) = parse_string (sc_quote # rest)"
proof -
  have "unicode_escape h = []"
    using assms(1-3) by (simp add: unicode_escape_def char_from_u32_def)
  then show ?thesis
    using string_chars_step(6) [of "h @ rest"] assms(4)
    by (cases "string_chars rest") (auto simp: parse_string_def)
qed

theorem surrogate_escapes_dropped_witness:
  "parse_string (sc_quote # sc_backslash # 117 # scalars ''D83D'' @ [sc_quote])
     = parse_string [sc_quote, sc_quote]"
  using surrogate_escapes_dropped [of "scalars ''D83D''" "0xD83D" "[sc_quote]"]
  by (simp add: from_str_radix_16_def hex_digit_def byte_def)

end
