(* ===== verification/Decimal.thy ===== *)
theory Decimal
  imports Prelude Complex_Main
begin

text \<open>
  Exact base-10 arithmetic, \<open>crates/tswift-core/src/decimal.rs\<close>: a number is
  \<open>mantissa * 10 ^ exponent\<close> with an \<open>i128\<close> mantissa and an \<open>i32\<close> exponent, or NaN.

  Integers are \<open>int\<close>; where the code uses a checked operation the result is an \<open>option\<close>, where
  it uses a plain one the wrap-around of the release build is written out (\<open>wrap_i32\<close>,
  \<open>wrap_i128\<close>, \<open>mod 2 ^ 128\<close>).
\<close>

section \<open>Machine arithmetic\<close>

definition in_u128 :: "int \<Rightarrow> bool" where
  "in_u128 x \<longleftrightarrow> 0 \<le> x \<and> x < 2 ^ 128"

text \<open>\<open>10_i128.checked_pow(n)\<close>: \<open>10 ^ 38\<close> is the last power of ten below \<open>2 ^ 127\<close>.\<close>

definition checked_pow10 :: "nat \<Rightarrow> int option" where
  "checked_pow10 n = (if n < 39 then Some (10 ^ n) else None)"

section \<open>Numbers\<close>

definition DIV_PRECISION :: nat where
  "DIV_PRECISION = 38"

record dec =
  nan :: bool
  mantissa :: int
  exponent :: int

definition dec_NAN :: dec where
  "dec_NAN = \<lparr>nan = True, mantissa = 0, exponent = 0\<rparr>"

definition dec_zero :: dec where
  "dec_zero = \<lparr>nan = False, mantissa = 0, exponent = 0\<rparr>"

definition is_zero :: "dec \<Rightarrow> bool" where
  "is_zero d \<longleftrightarrow> \<not> nan d \<and> mantissa d = 0"

text \<open>The loop of \<open>normalized\<close>.\<close>

function strip_zeros :: "int \<Rightarrow> int \<Rightarrow> int \<times> int" where
  "strip_zeros m e =
     (if m \<noteq> 0 \<and> rust_rem m 10 = 0 then strip_zeros (rust_div m 10) (wrap_i32 (e + 1))
      else (m, e))"
  by pat_completeness auto
termination
proof (relation "measure (\<lambda>(m, e). nat \<bar>m\<bar>)")
  fix m e :: int
  assume "m \<noteq> 0 \<and> rust_rem m 10 = 0"
  then have m: "m \<noteq> 0"
    by simp
  have "\<bar>rust_div m 10\<bar> = \<bar>m\<bar> div 10"
    using m by (simp add: rust_div_def abs_mult abs_sgn_eq)
  also have "\<dots> < \<bar>m\<bar>"
    using m by linarith
  finally have "\<bar>rust_div m 10\<bar> < \<bar>m\<bar>" .
  then show "((rust_div m 10, wrap_i32 (e + 1)), m, e) \<in> measure (\<lambda>(m, e). nat \<bar>m\<bar>)"
    by simp
qed simp

declare strip_zeros.simps [simp del]

definition normalized :: "dec \<Rightarrow> dec" where
  "normalized d =
     (if nan d then dec_NAN
      else if mantissa d = 0 then d\<lparr>exponent := 0\<rparr>
      else let (m, e) = strip_zeros (mantissa d) (exponent d)
           in d\<lparr>mantissa := m, exponent := e\<rparr>)"

definition dec_new :: "int \<Rightarrow> int \<Rightarrow> dec" where
  "dec_new m e = normalized \<lparr>nan = False, mantissa = m, exponent = e\<rparr>"

definition magnitude :: "dec \<Rightarrow> dec" where
  "magnitude d =
     (if nan d then dec_NAN
      else \<lparr>nan = False, mantissa = wrap_i128 \<bar>mantissa d\<bar>, exponent = exponent d\<rparr>)"

definition negated :: "dec \<Rightarrow> dec" where
  "negated d =
     (if nan d then dec_NAN
      else \<lparr>nan = False, mantissa = wrap_i128 (- mantissa d), exponent = exponent d\<rparr>)"

section \<open>Arithmetic\<close>

definition scale_up :: "int \<Rightarrow> nat \<Rightarrow> int option" where
  "scale_up m n =
     (case checked_pow10 n of None \<Rightarrow> None | Some f \<Rightarrow> checked in_i128 (m * f))"

text \<open>\<open>(a.exponent - exponent) as u32\<close>.\<close>

definition exponent_gap :: "int \<Rightarrow> int \<Rightarrow> nat" where
  "exponent_gap x e = nat ((x - e) mod 2 ^ 32)"

definition align :: "dec \<Rightarrow> dec \<Rightarrow> (int \<times> int \<times> int) option" where
  "align a b =
     (let e = min (exponent a) (exponent b) in
      case scale_up (mantissa a) (exponent_gap (exponent a) e) of
        None \<Rightarrow> None
      | Some am \<Rightarrow>
          (case scale_up (mantissa b) (exponent_gap (exponent b) e) of
             None \<Rightarrow> None
           | Some bm \<Rightarrow> Some (am, bm, e)))"

definition dec_add :: "dec \<Rightarrow> dec \<Rightarrow> dec" where
  "dec_add a b =
     (if nan a \<or> nan b then dec_NAN
      else case align a b of
        None \<Rightarrow> dec_NAN
      | Some (am, bm, e) \<Rightarrow>
          (case checked in_i128 (am + bm) of
             Some s \<Rightarrow> dec_new s e
           | None \<Rightarrow> dec_NAN))"

definition dec_sub :: "dec \<Rightarrow> dec \<Rightarrow> dec" where
  "dec_sub a b = dec_add a (negated b)"

definition dec_mul :: "dec \<Rightarrow> dec \<Rightarrow> dec" where
  "dec_mul a b =
     (if nan a \<or> nan b then dec_NAN
      else case (checked in_i128 (mantissa a * mantissa b), checked in_i32 (exponent a + exponent b)) of
        (Some m, Some e) \<Rightarrow> dec_new m e
      | _ \<Rightarrow> dec_NAN)"

text \<open>
  The digit loop of \<open>div\<close>: the quotient so far, the remainder, the exponent, the digits
  produced. Where the next digit does not fit, the loop breaks with the remainder already
  multiplied by ten, as in the code.
\<close>

function div_loop :: "int \<Rightarrow> int \<Rightarrow> int \<Rightarrow> int \<Rightarrow> nat \<Rightarrow> int \<times> int \<times> int" where
  "div_loop den result rem e produced =
     (if rem \<noteq> 0 \<and> produced < DIV_PRECISION then
        (case checked in_u128 (rem * 10) of
           None \<Rightarrow> (result, rem, e)
         | Some rem' \<Rightarrow>
             (case checked in_i128 (result * 10) of
                None \<Rightarrow> (result, rem', e)
              | Some r10 \<Rightarrow>
                  (case (checked in_i128 (r10 + wrap_i128 (rem' div den)), checked in_i32 (e - 1)) of
                     (Some next, Some next_exp) \<Rightarrow>
                       div_loop den next (rem' mod den) next_exp (produced + 1)
                   | _ \<Rightarrow> (result, rem', e))))
      else (result, rem, e))"
  by pat_completeness auto
termination
  by (relation "measure (\<lambda>(d, r, m, e, p). DIV_PRECISION - p)") auto

declare div_loop.simps [simp del]

definition dec_div :: "dec \<Rightarrow> dec \<Rightarrow> dec" where
  "dec_div a b =
     (if nan a \<or> nan b \<or> mantissa b = 0 then dec_NAN
      else if mantissa a = 0 then dec_zero
      else
        let negative = ((mantissa a < 0) \<noteq> (mantissa b < 0));
            num = \<bar>mantissa a\<bar>; den = \<bar>mantissa b\<bar> in
        case checked in_i32 (exponent a - exponent b) of
          None \<Rightarrow> dec_NAN
        | Some e0 \<Rightarrow>
            (let (result, rem, e) = div_loop den (wrap_i128 (num div den)) (num mod den) e0 0 in
             if rem \<noteq> 0 \<and> den \<le> (rem * 2) mod 2 ^ 128
             then (case checked in_i128 (result + 1) of
                     None \<Rightarrow> dec_NAN
                   | Some r \<Rightarrow> dec_new (if negative then wrap_i128 (- r) else r) e)
             else dec_new (if negative then wrap_i128 (- result) else result) e))"

section \<open>Comparison\<close>

datatype ordering = Less | Equal | Greater

definition cmp_int :: "int \<Rightarrow> int \<Rightarrow> ordering" where
  "cmp_int x y = (if x < y then Less else if x = y then Equal else Greater)"

text \<open>\<open>fcmp\<close> is the comparison in \<open>f64\<close> the code falls back to where the exponents cannot be
  aligned.\<close>

definition dec_compare :: "(dec \<Rightarrow> dec \<Rightarrow> ordering) \<Rightarrow> dec \<Rightarrow> dec \<Rightarrow> ordering" where
  "dec_compare fcmp a b =
     (case align a b of Some (am, bm, _) \<Rightarrow> cmp_int am bm | None \<Rightarrow> fcmp a b)"

section \<open>Rounding\<close>

datatype rounding_mode = Plain | Down | Up | Bankers

definition rounding_mode_from_name :: "string \<Rightarrow> rounding_mode option" where
  "rounding_mode_from_name name = map_of
     [(''plain'', Plain), (''down'', Down), (''up'', Up), (''bankers'', Bankers)] name"

definition rounds_up :: "rounding_mode \<Rightarrow> int \<Rightarrow> int \<Rightarrow> int \<Rightarrow> bool" where
  "rounds_up mode twice divisor quot =
     (case mode of
        Down \<Rightarrow> False
      | Up \<Rightarrow> True
      | Plain \<Rightarrow> divisor \<le> twice
      | Bankers \<Rightarrow> divisor < twice \<or> (twice = divisor \<and> quot mod 2 = 1))"

definition rounded :: "dec \<Rightarrow> int \<Rightarrow> rounding_mode \<Rightarrow> dec" where
  "rounded value scale mode =
     (if nan value then dec_NAN
      else
        let target = wrap_i32 (- scale) in
        if target \<le> exponent value then value
        else case checked_pow10 (exponent_gap target (exponent value)) of
          None \<Rightarrow> dec_zero
        | Some divisor \<Rightarrow>
            let a = \<bar>mantissa value\<bar>;
                quot = wrap_i128 (a div divisor);
                remainder = a mod divisor;
                q = (if remainder \<noteq> 0 \<and> rounds_up mode (remainder * 2) divisor quot
                     then wrap_i128 (quot + 1) else quot)
            in dec_new (if mantissa value < 0 then wrap_i128 (- q) else q) target)"

section \<open>Text\<close>

text \<open>
  \<open>(-exponent) as usize\<close>: the negation wraps around at the least \<open>i32\<close>, and the conversion extends the
  sign. \<open>repeat\<close> panics when the result would not fit \<open>isize\<close>, which is the value \<open>None\<close>.
\<close>

definition fraction_length :: "int \<Rightarrow> nat" where
  "fraction_length e = nat (wrap_i32 (- e) mod 2 ^ 64)"

definition repeat_zero :: "nat \<Rightarrow> ustr option" where
  "repeat_zero n = (if n < 2 ^ 63 then Some (replicate n 48) else None)"

definition dec_to_string :: "dec \<Rightarrow> ustr option" where
  "dec_to_string value =
     (if nan value then Some (scalars ''NaN'')
      else if mantissa value = 0 then Some [48]
      else
        let digits = dec_digits (nat \<bar>mantissa value\<bar>);
            body = (if 0 \<le> exponent value then map_option (\<lambda>zeros. digits @ zeros) (repeat_zero (nat (exponent value)))
                    else let frac = fraction_length (exponent value) in
                      if frac < length digits
                      then Some (take (length digits - frac) digits @ [46] @ drop (length digits - frac) digits)
                      else map_option (\<lambda>zeros. [48, 46] @ zeros @ digits) (repeat_zero (frac - length digits)))
        in map_option (\<lambda>b. if mantissa value < 0 then 45 # b else b) body)"

text \<open>The loop of \<open>parse\<close>: the digits and the point, with the mantissa and the exponent so
  far; the flags say whether a digit and whether the point was seen.\<close>

fun parse_digits :: "ustr \<Rightarrow> int \<Rightarrow> int \<Rightarrow> bool \<Rightarrow> bool \<Rightarrow> (int \<times> int \<times> bool) option" where
  "parse_digits [] m e digit point = Some (m, e, digit)"
| "parse_digits (ch # cs) m e digit point =
     (if is_ascii_digit ch then
        (case checked in_i128 (m * 10) of
           None \<Rightarrow> None
         | Some m10 \<Rightarrow>
             (case checked in_i128 (m10 + int (ch - 48)) of
                None \<Rightarrow> None
              | Some m' \<Rightarrow>
                  parse_digits cs m' (if point then wrap_i32 (e - 1) else e) True point))
      else if ch = 46 \<and> \<not> point then parse_digits cs m e digit True
      else None)"

definition dec_parse :: "ustr \<Rightarrow> dec option" where
  "dec_parse input =
     (let trimmed = trim input in
      if trimmed = [] then None
      else
        let negative = (hd trimmed = 45);
            rest = (if hd trimmed = 45 \<or> hd trimmed = 43 then tl trimmed else trimmed) in
        case parse_digits rest 0 0 False False of
          None \<Rightarrow> None
        | Some (m, e, seen_digit) \<Rightarrow>
            if \<not> seen_digit then None
            else Some (dec_new (if negative then wrap_i128 (- m) else m) e))"

end
