(* ===== verification/Decimal_Correct.thy ===== *)
theory Decimal_Correct
  imports Decimal
begin

text \<open>
  Decimal arithmetic against the rational numbers: a result that is not NaN is the exact sum,
  difference or product; normal forms are unique; comparison is comparison of values; rounding
  moves a value by at most half a unit; text reads back. Division and rounding up have the two
  flaws stated at the end.
\<close>

section \<open>Values\<close>

definition dec_value :: "dec \<Rightarrow> rat" where
  "dec_value d = of_int (mantissa d) * 10 powi exponent d"

text \<open>A number whose exponent leaves \<open>normalized\<close> room to count up.\<close>

definition dec_ok :: "dec \<Rightarrow> bool" where
  "dec_ok d \<longleftrightarrow> \<not> nan d \<and> in_i128 (mantissa d)
     \<and> - (2 ^ 31) \<le> exponent d \<and> exponent d < 2 ^ 31 - 38"

definition canonical_dec :: "dec \<Rightarrow> bool" where
  "canonical_dec d \<longleftrightarrow> \<not> nan d
     \<and> (if mantissa d = 0 then exponent d = 0 else \<not> 10 dvd mantissa d)"

lemma i128_digits: "in_i128 m \<Longrightarrow> \<bar>m\<bar> < 10 ^ 39"
  unfolding in_i128_def by simp linarith

lemma wrap_i32_id: "in_i32 x \<Longrightarrow> wrap_i32 x = x"
  by (simp add: wrap_i32_def in_i32_def)

lemma wrap_i128_id: "in_i128 x \<Longrightarrow> wrap_i128 x = x"
  by (simp add: wrap_i128_def in_i128_def)

lemma rust_rem_zero_iff: "b \<noteq> 0 \<Longrightarrow> rust_rem a b = 0 \<longleftrightarrow> b dvd a"
  by (auto simp: rust_rem_def sgn_eq_0_iff dvd_eq_mod_eq_0 [symmetric])

lemma rust_div_dvd: "b dvd a \<Longrightarrow> 0 < b \<Longrightarrow> rust_div a b = a div b"
  by (auto elim!: dvdE simp: rust_div_def abs_mult sgn_mult sgn_mult_abs)

lemma strip_zeros_spec:
  assumes "m \<noteq> 0" "\<bar>m\<bar> < 10 ^ Suc n" "- (2 ^ 31) \<le> e" "e + int n < 2 ^ 31"
  shows "\<exists>m' k. strip_zeros m e = (m', e + int k) \<and> k \<le> n \<and> m = m' * 10 ^ k \<and> \<not> 10 dvd m'"
  using assms
proof (induction n arbitrary: m e)
  case 0
  then have "\<not> 10 dvd m"
    using dvd_imp_le_int [of m 10] by auto
  then show ?case
    using 0 by (intro exI [of _ m] exI [of _ 0]) (simp add: strip_zeros.simps [of m e] rust_rem_zero_iff)
next
  case (Suc n)
  show ?case
  proof (cases "10 dvd m")
    case True
    then obtain q where q: "m = 10 * q"
      by auto
    have step: "strip_zeros m e = strip_zeros q (e + 1)"
    proof -
      have "rust_rem m 10 = 0" "rust_div m 10 = q"
        using True q rust_div_dvd [of 10 m] by (simp_all add: rust_rem_zero_iff)
      moreover have "wrap_i32 (e + 1) = e + 1"
        using Suc.prems by (intro wrap_i32_id) (simp add: in_i32_def)
      ultimately show ?thesis
        using Suc.prems(1) by (subst strip_zeros.simps) simp
    qed
    have "\<exists>m' k. strip_zeros q (e + 1) = (m', e + 1 + int k) \<and> k \<le> n \<and> q = m' * 10 ^ k \<and> \<not> 10 dvd m'"
      using Suc.prems q by (intro Suc.IH) (auto simp: abs_mult)
    then obtain m' k where "strip_zeros q (e + 1) = (m', e + 1 + int k)" "k \<le> n" "q = m' * 10 ^ k"
        "\<not> 10 dvd m'"
      by blast
    then show ?thesis
      using step q by (intro exI [of _ m'] exI [of _ "Suc k"]) simp
  next
    case False
    then show ?thesis
      by (intro exI [of _ m] exI [of _ 0]) (simp add: strip_zeros.simps [of m e] rust_rem_zero_iff)
  qed
qed

lemma dec_new_spec:
  assumes "in_i128 m" "- (2 ^ 31) \<le> e" "e < 2 ^ 31 - 38"
  shows "dec_value (dec_new m e) = of_int m * 10 powi e" "canonical_dec (dec_new m e)"
    "\<not> nan (dec_new m e)"
proof -
  have "dec_value (dec_new m e) = of_int m * 10 powi e \<and> canonical_dec (dec_new m e)
      \<and> \<not> nan (dec_new m e)"
  proof (cases "m = 0")
    case False
    obtain m' k where k: "strip_zeros m e = (m', e + int k)" "k \<le> 38" "m = m' * 10 ^ k" "\<not> 10 dvd m'"
      using strip_zeros_spec [of m 38 e] False i128_digits [OF assms(1)] assms(2,3) by auto
    have "(10::rat) powi (e + int k) = 10 ^ k * 10 powi e"
      by (simp add: power_int_add)
    then show ?thesis
      using False k by (auto simp: dec_new_def normalized_def dec_value_def canonical_dec_def)
  qed (simp add: dec_new_def normalized_def dec_value_def canonical_dec_def)
  then show "dec_value (dec_new m e) = of_int m * 10 powi e" "canonical_dec (dec_new m e)"
    "\<not> nan (dec_new m e)"
    by blast+
qed

section \<open>Sums and products\<close>

lemma checked_pow10_exact: "checked_pow10 n = checked in_i128 (10 ^ n)"
proof (cases "n < 39")
  case True
  then have "(10::int) ^ n \<le> 10 ^ 38"
    by (intro power_increasing) auto
  then have "(10::int) ^ n < 2 ^ 127"
    by simp
  moreover have "- (2 ^ 127) \<le> (0::int)" "(0::int) \<le> 10 ^ n"
    by simp_all
  ultimately have "in_i128 (10 ^ n)"
    unfolding in_i128_def by (meson order_trans)
  then show ?thesis
    using True by (simp add: checked_pow10_def checked_def)
next
  case False
  then have "(10::int) ^ 39 \<le> 10 ^ n"
    by (intro power_increasing) auto
  then have "\<not> in_i128 (10 ^ n)"
    by (simp add: in_i128_def)
  then show ?thesis
    using False by (simp add: checked_pow10_def checked_def)
qed

lemma scale_up_Some: "scale_up m n = Some x \<longleftrightarrow> in_i128 (10 ^ n) \<and> in_i128 (m * 10 ^ n) \<and> x = m * 10 ^ n"
  by (auto simp: scale_up_def checked_pow10_exact split: option.splits)

lemma exponent_gap_id:
  assumes "e \<le> x" "- (2 ^ 31) \<le> e" "x < 2 ^ 31"
  shows "exponent_gap x e = nat (x - e)"
  using assms by (simp add: exponent_gap_def)

lemma powi_split: "e \<le> x \<Longrightarrow> (10::rat) powi x = 10 ^ nat (x - e) * 10 powi e"
proof -
  assume "e \<le> x"
  then have "(10::rat) powi (x - e) = 10 ^ nat (x - e)"
    by (simp add: power_int_def)
  moreover have "(10::rat) powi x = 10 powi (x - e) * 10 powi e"
    by (subst power_int_add [symmetric]) simp_all
  ultimately show ?thesis
    by simp
qed

lemma align_spec:
  assumes "dec_ok a" "dec_ok b" "align a b = Some (am, bm, e)"
  shows "dec_value a = of_int am * 10 powi e" "dec_value b = of_int bm * 10 powi e"
    "in_i128 am" "in_i128 bm" "e = min (exponent a) (exponent b)"
proof -
  have e: "e = min (exponent a) (exponent b)"
    and am: "scale_up (mantissa a) (exponent_gap (exponent a) e) = Some am"
    and bm: "scale_up (mantissa b) (exponent_gap (exponent b) e) = Some bm"
    using assms(3) by (auto simp: align_def Let_def split: option.splits)
  have gap: "exponent_gap (exponent a) e = nat (exponent a - e)"
    "exponent_gap (exponent b) e = nat (exponent b - e)"
    using assms(1,2) e by (intro exponent_gap_id; auto simp: dec_ok_def)+
  show "e = min (exponent a) (exponent b)" "in_i128 am" "in_i128 bm"
    using e am bm by (auto simp: scale_up_Some)
  show "dec_value a = of_int am * 10 powi e" "dec_value b = of_int bm * 10 powi e"
    using am bm gap e powi_split [of e "exponent a"] powi_split [of e "exponent b"]
    by (auto simp: scale_up_Some dec_value_def)
qed

lemma dec_add_spec:
  assumes "dec_ok a" "dec_ok b" "\<not> nan (dec_add a b)"
  shows "dec_value (dec_add a b) = dec_value a + dec_value b \<and> canonical_dec (dec_add a b)"
proof -
  obtain am bm e where al: "align a b = Some (am, bm, e)" and s: "in_i128 (am + bm)"
      and eq: "dec_add a b = dec_new (am + bm) e"
    using assms by (auto simp: dec_add_def dec_ok_def dec_NAN_def checked_def split: option.splits if_splits)
  note sp = align_spec [OF assms(1,2) al]
  have "dec_value (dec_new (am + bm) e) = of_int (am + bm) * 10 powi e" "canonical_dec (dec_new (am + bm) e)"
    using dec_new_spec [OF s, of e] sp(5) assms(1,2) by (auto simp: dec_ok_def)
  then show ?thesis
    using sp(1,2) by (simp add: eq distrib_right)
qed

text \<open>C19. A sum that is not NaN is exact, and in normal form.\<close>

theorem dec_add_exact:
  assumes "dec_ok a" "dec_ok b" "\<not> nan (dec_add a b)"
  shows "dec_value (dec_add a b) = dec_value a + dec_value b \<and> canonical_dec (dec_add a b)"
  by (rule dec_add_spec [OF assms])

lemma strip_zeros_witness: "strip_zeros 175 (- 2) = (175, - 2)"
  by (simp add: strip_zeros.simps [of 175] rust_rem_def)

theorem dec_add_exact_witness:
  "dec_value (dec_add (dec_new 15 (- 1)) (dec_new 25 (- 2))) =
     dec_value (dec_new 15 (- 1)) + dec_value (dec_new 25 (- 2))"
proof -
  have "dec_new 15 (- 1) = \<lparr>nan = False, mantissa = 15, exponent = - 1\<rparr>"
    "dec_new 25 (- 2) = \<lparr>nan = False, mantissa = 25, exponent = - 2\<rparr>"
    by (simp_all add: dec_new_def normalized_def strip_zeros.simps [of 15] strip_zeros.simps [of 25]
        rust_rem_def)
  then show ?thesis
    using dec_add_exact [of "dec_new 15 (- 1)" "dec_new 25 (- 2)"]
    by (simp add: dec_ok_def in_i128_def dec_add_def align_def scale_up_def exponent_gap_def
        checked_pow10_def checked_def dec_new_def normalized_def strip_zeros_witness)
qed

lemma negated_spec:
  assumes "dec_ok b" "mantissa b \<noteq> - (2 ^ 127)"
  shows "dec_ok (negated b)" "dec_value (negated b) = - dec_value b"
proof -
  have m: "wrap_i128 (- mantissa b) = - mantissa b" "in_i128 (- mantissa b)"
    using assms by (auto intro!: wrap_i128_id simp: dec_ok_def in_i128_def)
  then show "dec_ok (negated b)" "dec_value (negated b) = - dec_value b"
    using assms(1) by (simp_all add: negated_def dec_ok_def dec_value_def)
qed

text \<open>A difference that is not NaN is exact.\<close>

theorem dec_sub_exact:
  assumes "dec_ok a" "dec_ok b" "mantissa b \<noteq> - (2 ^ 127)" "\<not> nan (dec_sub a b)"
  shows "dec_value (dec_sub a b) = dec_value a - dec_value b"
  using dec_add_spec [OF assms(1) negated_spec(1) [OF assms(2,3)]] negated_spec(2) [OF assms(2,3)]
    assms(4) by (simp add: dec_sub_def)

theorem dec_sub_exact_witness:
  "dec_value (dec_sub \<lparr>nan = False, mantissa = 3, exponent = 0\<rparr> \<lparr>nan = False, mantissa = 5, exponent = - 1\<rparr>)
   = dec_value \<lparr>nan = False, mantissa = 3, exponent = 0\<rparr> - dec_value \<lparr>nan = False, mantissa = 5, exponent = - 1\<rparr>"
  by (rule dec_sub_exact)
    (simp_all add: dec_ok_def in_i128_def dec_sub_def negated_def wrap_i128_def dec_add_def align_def
      scale_up_def exponent_gap_def checked_pow10_def checked_def dec_new_def normalized_def
      strip_zeros.simps [of 25] rust_rem_def)

text \<open>A product that is not NaN is exact, and in normal form, as long as the sum of the
  exponents leaves \<open>normalized\<close> room.\<close>

theorem dec_mul_exact:
  assumes "dec_ok a" "dec_ok b" "exponent a + exponent b < 2 ^ 31 - 38" "\<not> nan (dec_mul a b)"
  shows "dec_value (dec_mul a b) = dec_value a * dec_value b \<and> canonical_dec (dec_mul a b)"
proof -
  have m: "in_i128 (mantissa a * mantissa b)" "in_i32 (exponent a + exponent b)"
    and eq: "dec_mul a b = dec_new (mantissa a * mantissa b) (exponent a + exponent b)"
    using assms by (auto simp: dec_mul_def dec_ok_def dec_NAN_def checked_def split: option.splits if_splits)
  have "(10::rat) powi (exponent a + exponent b) = 10 powi exponent a * 10 powi exponent b"
    by (simp add: power_int_add)
  then show ?thesis
    using dec_new_spec [OF m(1), of "exponent a + exponent b"] assms(3) m(2)
    by (simp add: eq dec_value_def in_i32_def)
qed

theorem dec_mul_exact_witness:
  "dec_value (dec_mul \<lparr>nan = False, mantissa = 25, exponent = - 2\<rparr> \<lparr>nan = False, mantissa = 4, exponent = 0\<rparr>)
   = dec_value \<lparr>nan = False, mantissa = 25, exponent = - 2\<rparr> * dec_value \<lparr>nan = False, mantissa = 4, exponent = 0\<rparr>"
  using dec_mul_exact [of "\<lparr>nan = False, mantissa = 25, exponent = - 2\<rparr>"
      "\<lparr>nan = False, mantissa = 4, exponent = 0\<rparr>"]
  by (simp add: dec_ok_def in_i128_def in_i32_def dec_mul_def checked_def dec_new_def normalized_def
      strip_zeros.simps [of 100] strip_zeros.simps [of 10] strip_zeros.simps [of 1] rust_rem_def
      rust_div_def wrap_i32_def)

section \<open>Normal forms and comparison\<close>

lemma canonical_unique:
  assumes "m * 10 ^ k = (n::int)" "n \<noteq> 0" "\<not> 10 dvd n"
  shows "k = 0 \<and> m = n"
  using assms by (cases k) auto

lemma canonical_dec_unique_aux:
  assumes "canonical_dec a" "canonical_dec b" "dec_value a = dec_value b"
  shows "a = b"
proof -
  have aux: "x = y" if "canonical_dec x" "canonical_dec y" "dec_value x = dec_value y"
      "exponent y \<le> exponent x" for x y :: dec
  proof -
    have "of_int (mantissa x) * 10 ^ nat (exponent x - exponent y) * 10 powi exponent y
        = (of_int (mantissa y) :: rat) * 10 powi exponent y"
      using that(3) powi_split [OF that(4)] by (simp add: dec_value_def mult.assoc)
    then have "(of_int (mantissa x * 10 ^ nat (exponent x - exponent y)) :: rat) = of_int (mantissa y)"
      by simp
    then have m: "mantissa x * 10 ^ nat (exponent x - exponent y) = mantissa y"
      by (simp only: of_int_eq_iff)
    show ?thesis
    proof (cases "mantissa y = 0")
      case True
      then have "mantissa x = 0"
        using m by simp
      then show ?thesis
        using that(1,2) True by (simp add: canonical_dec_def)
    next
      case False
      then have "nat (exponent x - exponent y) = 0 \<and> mantissa x = mantissa y"
        using canonical_unique [OF m] that(2) by (simp add: canonical_dec_def)
      then show ?thesis
        using that(1,2,4) by (simp add: canonical_dec_def)
    qed
  qed
  show ?thesis
    using aux [of a b] aux [of b a] assms by (cases "exponent b \<le> exponent a") auto
qed

text \<open>Two numbers in normal form with the same value are the same representation, so
  comparing representations compares values.\<close>

theorem canonical_dec_unique:
  assumes "canonical_dec a" "canonical_dec b" "dec_value a = dec_value b"
  shows "a = b"
  by (rule canonical_dec_unique_aux [OF assms])

theorem canonical_dec_unique_witness:
  "dec_new 15 (- 1) = dec_new 150 (- 2)"
proof (rule canonical_dec_unique)
  have n: "in_i128 15" "in_i128 150"
    by (simp_all add: in_i128_def)
  show "canonical_dec (dec_new 15 (- 1))" "canonical_dec (dec_new 150 (- 2))"
    using dec_new_spec(2) [OF n(1), of "- 1"] dec_new_spec(2) [OF n(2), of "- 2"] by simp_all
  show "dec_value (dec_new 15 (- 1)) = dec_value (dec_new 150 (- 2))"
    using dec_new_spec(1) [OF n(1), of "- 1"] dec_new_spec(1) [OF n(2), of "- 2"]
    by (simp add: power_int_minus)
qed

lemma dec_compare_spec:
  assumes "dec_ok a" "dec_ok b" "align a b \<noteq> None"
  shows "dec_compare fcmp a b =
    (if dec_value a < dec_value b then Less else if dec_value a = dec_value b then Equal else Greater)"
proof -
  obtain am bm e where al: "align a b = Some (am, bm, e)"
    using assms(3) by auto
  note sp = align_spec [OF assms(1,2) al]
  have "(0::rat) < 10 powi e"
    by simp
  then have "dec_value a < dec_value b \<longleftrightarrow> am < bm" "dec_value a = dec_value b \<longleftrightarrow> am = bm"
    unfolding sp(1,2) by (simp_all add: mult_less_cancel_right_pos)
  then show ?thesis
    by (simp add: dec_compare_def al cmp_int_def)
qed

text \<open>Where the exponents can be aligned, the comparison is that of the values, without
  the detour through \<open>f64\<close>.\<close>

theorem dec_compare_correct:
  assumes "dec_ok a" "dec_ok b" "align a b \<noteq> None"
  shows "dec_compare fcmp a b =
    (if dec_value a < dec_value b then Less else if dec_value a = dec_value b then Equal else Greater)"
  by (rule dec_compare_spec [OF assms])

theorem dec_compare_correct_witness:
  "dec_compare (\<lambda>_ _. Equal) \<lparr>nan = False, mantissa = 15, exponent = - 1\<rparr> \<lparr>nan = False, mantissa = 2, exponent = 0\<rparr>
   = (if dec_value \<lparr>nan = False, mantissa = 15, exponent = - 1\<rparr> < dec_value \<lparr>nan = False, mantissa = 2, exponent = 0\<rparr>
      then Less else if dec_value \<lparr>nan = False, mantissa = 15, exponent = - 1\<rparr> = dec_value \<lparr>nan = False, mantissa = 2, exponent = 0\<rparr>
      then Equal else Greater)"
  by (rule dec_compare_correct)
    (simp_all add: dec_ok_def in_i128_def align_def scale_up_def exponent_gap_def checked_pow10_def
      checked_def)

section \<open>Rounding\<close>

text \<open>The rounded quotient of magnitudes, before the sign is put back.\<close>

definition round_div :: "rounding_mode \<Rightarrow> int \<Rightarrow> int \<Rightarrow> int" where
  "round_div mode a d =
     (if a mod d \<noteq> 0 \<and> rounds_up mode (a mod d * 2) d (a div d) then a div d + 1 else a div d)"

lemma round_div_bounds:
  assumes "0 < d"
  shows "\<bar>round_div mode a d * d - a\<bar> < d"
    "mode \<in> {Plain, Bankers} \<Longrightarrow> 2 * \<bar>round_div mode a d * d - a\<bar> \<le> d"
    "mode = Down \<Longrightarrow> round_div mode a d * d \<le> a"
    "mode = Up \<Longrightarrow> a \<le> round_div mode a d * d"
    "mode = Bankers \<Longrightarrow> 2 * \<bar>round_div mode a d * d - a\<bar> = d \<Longrightarrow> even (round_div mode a d)"
proof -
  obtain x r where x: "a div d = x" and r: "a mod d = r"
    by blast
  have "0 \<le> r" "r < d"
    unfolding r [symmetric] using assms by simp_all
  moreover have "a = x * d + r"
    unfolding x [symmetric] r [symmetric] by simp
  ultimately have up: "(x + 1) * d - a = d - r" and down: "x * d - a = - r" and r': "0 \<le> r" "r < d"
    by (simp_all add: distrib_right)
  define q where "q = round_div mode a d"
  have q: "q = (if r \<noteq> 0 \<and> rounds_up mode (r * 2) d x then x + 1 else x)"
    by (simp add: q_def round_div_def x r)
  have diff: "q * d - a = (if r \<noteq> 0 \<and> rounds_up mode (r * 2) d x then d - r else - r)"
    unfolding q using up down by simp
  show "\<bar>round_div mode a d * d - a\<bar> < d"
    unfolding q_def [symmetric] diff using r' by simp
  show "mode \<in> {Plain, Bankers} \<Longrightarrow> 2 * \<bar>round_div mode a d * d - a\<bar> \<le> d"
    unfolding q_def [symmetric] diff using r' by (auto simp: rounds_up_def)
  show "mode = Down \<Longrightarrow> round_div mode a d * d \<le> a"
    unfolding q_def [symmetric] using diff r' by (simp add: rounds_up_def)
  show "mode = Up \<Longrightarrow> a \<le> round_div mode a d * d"
    unfolding q_def [symmetric] using diff r' by (simp add: rounds_up_def split: if_splits)
  show "mode = Bankers \<Longrightarrow> 2 * \<bar>round_div mode a d * d - a\<bar> = d \<Longrightarrow> even (round_div mode a d)"
    unfolding q_def [symmetric] diff using r' q
    by (auto simp: rounds_up_def split: if_splits)
qed

lemma rounded_div:
  fixes mode :: rounding_mode
  assumes "dec_ok v" "- (2 ^ 31) < scale" "scale \<le> 2 ^ 31 - 1" "exponent v < - scale"
    "- scale - exponent v \<le> 38" "- scale < 2 ^ 31 - 38"
  defines "q \<equiv> round_div mode \<bar>mantissa v\<bar> (10 ^ nat (- scale - exponent v))"
  shows "rounded v scale mode = dec_new (if mantissa v < 0 then - q else q) (- scale)" "in_i128 q"
    "in_i128 (- q)"
proof -
  define d :: int where "d = 10 ^ nat (- scale - exponent v)"
  have d: "10 \<le> d"
  proof -
    have "(10::int) ^ 1 \<le> 10 ^ nat (- scale - exponent v)"
      using assms(4) by (intro power_increasing) auto
    then show ?thesis
      by (simp add: d_def)
  qed
  have a: "\<bar>mantissa v\<bar> \<le> 2 ^ 127"
    using assms(1) by (auto simp: dec_ok_def in_i128_def)
  have "\<bar>mantissa v\<bar> div d \<le> \<bar>mantissa v\<bar> div 10"
    using d by (intro zdiv_mono2) auto
  also have "\<dots> \<le> 2 ^ 127 div 10"
    using a by (intro zdiv_mono1) auto
  finally have "\<bar>mantissa v\<bar> div d \<le> 2 ^ 127 div 10" .
  moreover have "0 \<le> \<bar>mantissa v\<bar> div d"
    using d by (simp add: pos_imp_zdiv_nonneg_iff)
  ultimately have ids: "in_i128 (\<bar>mantissa v\<bar> div d)" "in_i128 (\<bar>mantissa v\<bar> div d + 1)"
      "in_i128 (- (\<bar>mantissa v\<bar> div d))" "in_i128 (- (\<bar>mantissa v\<bar> div d + 1))"
    by (auto simp: in_i128_def)
  then show q: "in_i128 q" "in_i128 (- q)"
    by (auto simp: q_def round_div_def d_def)
  have target: "wrap_i32 (- scale) = - scale"
    using assms(2,3) by (intro wrap_i32_id) (auto simp: in_i32_def)
  have gap: "checked_pow10 (exponent_gap (- scale) (exponent v)) = Some d"
    using assms by (simp add: exponent_gap_id dec_ok_def checked_pow10_def d_def nat_less_iff)
  let ?a = "\<bar>mantissa v\<bar>"
  note wraps = ids [THEN wrap_i128_id]
  have q': "(if ?a mod d \<noteq> 0 \<and> rounds_up mode (?a mod d * 2) d (wrap_i128 (?a div d))
      then wrap_i128 (wrap_i128 (?a div d) + 1) else wrap_i128 (?a div d)) = q"
    unfolding wraps by (simp only: q_def round_div_def d_def)
  have nn: "\<not> nan v" "\<not> - scale \<le> exponent v"
    using assms(1,4) by (simp_all add: dec_ok_def)
  show "rounded v scale mode = dec_new (if mantissa v < 0 then - q else q) (- scale)"
    unfolding rounded_def Let_def target if_not_P [OF nn(1)] if_not_P [OF nn(2)] gap option.case q'
      wrap_i128_id [OF q(2)] ..
qed

text \<open>C20. Rounding to \<open>scale\<close> digits gives a multiple of \<open>10 ^ -scale\<close> within one unit of the
  value, within half a unit in the modes \<open>plain\<close> and \<open>bankers\<close>, not further from zero in mode
  \<open>down\<close> and not nearer to it in mode \<open>up\<close>.\<close>

theorem rounded_close:
  fixes mode :: rounding_mode
  assumes "dec_ok v" "- (2 ^ 31) < scale" "scale \<le> 2 ^ 31 - 1" "exponent v < - scale"
    "- scale - exponent v \<le> 38" "- scale < 2 ^ 31 - 38"
  defines "r \<equiv> dec_value (rounded v scale mode)" and "u \<equiv> (10::rat) powi (- scale)"
  shows "(\<exists>n. r = of_int n * u) \<and> \<bar>r - dec_value v\<bar> < u
    \<and> (mode \<in> {Plain, Bankers} \<longrightarrow> 2 * \<bar>r - dec_value v\<bar> \<le> u)
    \<and> (mode = Down \<longrightarrow> \<bar>r\<bar> \<le> \<bar>dec_value v\<bar>) \<and> (mode = Up \<longrightarrow> \<bar>dec_value v\<bar> \<le> \<bar>r\<bar>)"
proof -
  define d :: int where "d = 10 ^ nat (- scale - exponent v)"
  define q where "q = round_div mode \<bar>mantissa v\<bar> d"
  define s :: int where "s = (if mantissa v < 0 then - 1 else 1)"
  define w where "w = (10::rat) powi exponent v"
  note rd = rounded_div [OF assms(1-6), of mode, folded d_def, folded q_def]
  have d: "0 < d" by (simp add: d_def)
  note b = round_div_bounds [OF d, of mode "\<bar>mantissa v\<bar>", folded q_def]
  have w: "0 < w" "u = of_int d * w"
    using powi_split [of "exponent v" "- scale"] assms(4) by (simp_all add: w_def u_def d_def)
  have "r = of_int (s * q) * u"
    using dec_new_spec(1) [of "s * q" "- scale"] rd assms(2,3,6)
    by (auto simp: r_def s_def u_def)
  then have r: "r = of_int (s * q) * u" "r = of_int (s * (q * d)) * w"
    by (simp_all add: w(2) mult.assoc)
  have v: "dec_value v = of_int (s * \<bar>mantissa v\<bar>) * w"
    by (auto simp: dec_value_def w_def s_def)
  have diff: "\<bar>r - dec_value v\<bar> = of_int \<bar>q * d - \<bar>mantissa v\<bar>\<bar> * w"
  proof -
    have "r - dec_value v = of_int (s * (q * d - \<bar>mantissa v\<bar>)) * w"
      unfolding r(2) v by (simp add: algebra_simps)
    then show ?thesis
      using w(1) by (simp add: abs_mult s_def)
  qed
  have abs: "\<bar>r\<bar> = of_int (q * d) * w" "\<bar>dec_value v\<bar> = of_int \<bar>mantissa v\<bar> * w"
  proof -
    have "0 \<le> q"
      using d by (auto simp: q_def round_div_def pos_imp_zdiv_nonneg_iff)
    then have "\<bar>s * (q * d)\<bar> = q * d"
      using d by (auto simp: s_def abs_mult)
    then have "\<bar>of_int (s * (q * d)) :: rat\<bar> = of_int (q * d)"
      by (metis of_int_abs)
    then show "\<bar>r\<bar> = of_int (q * d) * w"
      unfolding r(2) using w(1) by (simp add: abs_mult)
    show "\<bar>dec_value v\<bar> = of_int \<bar>mantissa v\<bar> * w"
      using w(1) by (simp add: dec_value_def w_def abs_mult)
  qed
  have le: "of_int x * w \<le> of_int y * w" if "x \<le> y" for x y :: int
    using that w(1) by (intro mult_right_mono) auto
  have less: "of_int x * w < of_int y * w" if "x < y" for x y :: int
    using that w(1) by (intro mult_strict_right_mono) auto
  have "\<bar>r - dec_value v\<bar> < u"
    unfolding diff w(2) by (rule less [OF b(1)])
  moreover have "2 * \<bar>r - dec_value v\<bar> \<le> u" if "mode \<in> {Plain, Bankers}"
    using le [OF b(2) [OF that]] unfolding diff w(2) by simp
  moreover have "\<bar>r\<bar> \<le> \<bar>dec_value v\<bar>" if "mode = Down"
    unfolding abs by (rule le [OF b(3) [OF that]])
  moreover have "\<bar>dec_value v\<bar> \<le> \<bar>r\<bar>" if "mode = Up"
    unfolding abs by (rule le [OF b(4) [OF that]])
  ultimately show ?thesis
    using r(1) by blast
qed

theorem rounded_close_witness:
  "\<bar>dec_value (rounded \<lparr>nan = False, mantissa = 125, exponent = - 2\<rparr> 1 Bankers)
     - dec_value \<lparr>nan = False, mantissa = 125, exponent = - 2\<rparr>\<bar> < 10 powi (- 1)"
  using rounded_close [of "\<lparr>nan = False, mantissa = 125, exponent = - 2\<rparr>" 1 Bankers]
  by (simp add: dec_ok_def in_i128_def)

text \<open>Where more than 38 digits are dropped, every mode gives zero: a value that is not zero
  is rounded \<open>up\<close> to zero.\<close>

theorem rounded_drops_to_zero:
  assumes "dec_ok v" "- (2 ^ 31) < scale" "scale \<le> 2 ^ 31 - 1" "exponent v < - scale"
    "39 \<le> - scale - exponent v"
  shows "rounded v scale mode = dec_zero"
proof -
  have "wrap_i32 (- scale) = - scale"
    using assms(2,3) by (intro wrap_i32_id) (auto simp: in_i32_def)
  moreover have "exponent_gap (- scale) (exponent v) = nat (- scale - exponent v)"
    using assms by (intro exponent_gap_id) (auto simp: dec_ok_def)
  ultimately show ?thesis
    using assms by (simp add: rounded_def Let_def dec_ok_def checked_pow10_def nat_less_iff)
qed

theorem rounded_drops_to_zero_witness:
  "rounded \<lparr>nan = False, mantissa = 1, exponent = - 45\<rparr> 2 Up = dec_zero"
  by (rule rounded_drops_to_zero) (simp_all add: dec_ok_def in_i128_def)

section \<open>Text\<close>

lemma digits_value_append:
  "digits_value (xs @ ys) = digits_value xs * 10 ^ length ys + digits_value ys"
proof (induction ys rule: rev_induct)
  case (snoc y ys)
  have "digits_value (xs @ ys @ [y]) = 10 * digits_value (xs @ ys) + (y - 48)"
    using digits_value_snoc [of "xs @ ys" y] by simp
  with snoc show ?case
    by (simp add: algebra_simps)
qed simp

lemma digits_value_Cons: "digits_value (y # ys) = (y - 48) * 10 ^ length ys + digits_value ys"
  using digits_value_append [of "[y]" ys] digits_value_snoc [of "[]" y] by simp

lemma digits_value_zeros: "digits_value (replicate n 48) = 0"
  by (induction n) (simp_all add: digits_value_Cons)

lemma parse_digits_run:
  assumes "list_all is_ascii_digit ds" "0 \<le> m" "m * 10 ^ length ds + int (digits_value ds) < 2 ^ 127"
    and "e \<le> 0" "point \<Longrightarrow> - (2 ^ 31) \<le> e - int (length ds)"
  shows "parse_digits (ds @ rest) m e dg point =
     parse_digits rest (m * 10 ^ length ds + int (digits_value ds))
       (if point then e - int (length ds) else e) (dg \<or> ds \<noteq> []) point"
  using assms
proof (induction ds arbitrary: m e dg)
  case (Cons d ds)
  let ?m = "m * 10 + int (d - 48)"
  have total: "?m * 10 ^ length ds + int (digits_value ds)
      = m * 10 ^ length (d # ds) + int (digits_value (d # ds))"
  proof -
    have "int (digits_value (d # ds)) = int (d - 48) * 10 ^ length ds + int (digits_value ds)"
      by (simp add: digits_value_Cons)
    then show ?thesis
      by (simp add: algebra_simps)
  qed
  have "?m * 1 \<le> ?m * 10 ^ length ds"
    using Cons.prems(2) by (intro mult_left_mono) auto
  also have "\<dots> \<le> m * 10 ^ length (d # ds) + int (digits_value (d # ds))"
    using total by simp
  also have "\<dots> < 2 ^ 127"
    using Cons.prems(3) .
  finally have m: "?m < 2 ^ 127"
    by simp
  then have checks: "checked in_i128 (m * 10) = Some (m * 10)" "checked in_i128 ?m = Some ?m"
    using Cons.prems(2) by (simp_all add: in_i128_def)
  have "is_ascii_digit d"
    using Cons.prems(1) by simp
  moreover have "point \<Longrightarrow> wrap_i32 (e - 1) = e - 1"
    using Cons.prems(4,5) by (intro wrap_i32_id) (auto simp: in_i32_def)
  ultimately have "parse_digits ((d # ds) @ rest) m e dg point =
      parse_digits (ds @ rest) ?m (if point then e - 1 else e) True point"
    using checks by (simp del: checked_Some_iff)
  also have "\<dots> = parse_digits rest (?m * 10 ^ length ds + int (digits_value ds))
      (if point then (if point then e - 1 else e) - int (length ds) else (if point then e - 1 else e))
      (True \<or> ds \<noteq> []) point"
    using Cons.prems total by (intro Cons.IH) auto
  finally show ?case
    unfolding total by (cases point) (simp_all add: algebra_simps)
qed simp

lemma parse_digits_only:
  assumes "list_all is_ascii_digit ds" "ds \<noteq> []" "int (digits_value ds) < 2 ^ 127"
  shows "parse_digits ds 0 0 False False = Some (int (digits_value ds), 0, True)"
  using parse_digits_run [OF assms(1), of 0 0 False "[]" False] assms by simp

lemma parse_digits_point:
  assumes "list_all is_ascii_digit (xs @ ys)" "xs \<noteq> []" "int (digits_value (xs @ ys)) < 2 ^ 127"
    and "int (length ys) \<le> 2 ^ 31"
  shows "parse_digits (xs @ 46 # ys) 0 0 False False
     = Some (int (digits_value (xs @ ys)), - int (length ys), True)"
proof -
  have "int (digits_value xs) * 1 \<le> int (digits_value xs) * 10 ^ length ys"
    by (intro mult_left_mono) auto
  then have xs: "int (digits_value xs) < 2 ^ 127"
    using assms(3) by (simp add: digits_value_append)
  have "parse_digits (xs @ 46 # ys) 0 0 False False
      = parse_digits (46 # ys) (int (digits_value xs)) 0 True False"
    using parse_digits_run [of xs 0 0 False "46 # ys" False] assms(1,2) xs by simp
  also have "\<dots> = parse_digits (ys @ []) (int (digits_value xs)) 0 True True"
    by (simp add: is_ascii_digit_def)
  also have "\<dots> = Some (int (digits_value (xs @ ys)), - int (length ys), True)"
    using parse_digits_run [of ys "int (digits_value xs)" 0 True "[]" True] assms
    by (simp add: digits_value_append)
  finally show ?thesis .
qed

text \<open>The unsigned text of a number, and what the loop of \<open>parse\<close> reads from it.\<close>

definition dec_body :: "int \<Rightarrow> int \<Rightarrow> ustr" where
  "dec_body m e =
     (let digits = dec_digits (nat \<bar>m\<bar>) in
      if 0 \<le> e then digits @ replicate (nat e) 48
      else let frac = nat (- e) in
        if frac < length digits
        then take (length digits - frac) digits @ [46] @ drop (length digits - frac) digits
        else [48, 46] @ replicate (frac - length digits) 48 @ digits)"

lemma dec_digits_all_digit: "list_all is_ascii_digit (dec_digits n)"
  by (simp add: list_all_iff dec_digits_digit)

lemma zeros_digit: "list_all is_ascii_digit (replicate n 48)"
  by (simp add: list_all_iff is_ascii_digit_def)

lemma parse_dec_body:
  assumes "- (2 ^ 31) \<le> e" "\<bar>m\<bar> * 10 ^ nat e < 2 ^ 127"
  shows "parse_digits (dec_body m e) 0 0 False False
     = Some (\<bar>m\<bar> * 10 ^ nat e, min e 0, True)"
proof -
  let ?ds = "dec_digits (nat \<bar>m\<bar>)"
  have v: "int (digits_value ?ds) = \<bar>m\<bar>"
    by simp
  show ?thesis
  proof (cases "0 \<le> e")
    case True
    have "int (digits_value (?ds @ replicate (nat e) 48)) = \<bar>m\<bar> * 10 ^ nat e"
      by (simp add: digits_value_append digits_value_zeros)
    then show ?thesis
      using parse_digits_only [of "?ds @ replicate (nat e) 48"] assms(2) True dec_digits_all_digit zeros_digit
      by (simp add: dec_body_def)
  next
    case False
    let ?frac = "nat (- e)"
    have bound: "\<bar>m\<bar> < 2 ^ 127"
      using assms(2) False by simp
    show ?thesis
    proof (cases "?frac < length ?ds")
      case True
      let ?k = "length ?ds - ?frac"
      have k: "take ?k ?ds \<noteq> []" "take ?k ?ds @ drop ?k ?ds = ?ds" "length (drop ?k ?ds) = ?frac"
        using True by auto
      have "dec_body m e = take ?k ?ds @ 46 # drop ?k ?ds"
        using False True by (simp add: dec_body_def Let_def)
      moreover have "parse_digits (take ?k ?ds @ 46 # drop ?k ?ds) 0 0 False False
          = Some (int (digits_value (take ?k ?ds @ drop ?k ?ds)), - int (length (drop ?k ?ds)), True)"
      proof (rule parse_digits_point [OF _ k(1)])
        show "list_all is_ascii_digit (take ?k ?ds @ drop ?k ?ds)"
          unfolding k(2) by (rule dec_digits_all_digit)
        show "int (digits_value (take ?k ?ds @ drop ?k ?ds)) < 2 ^ 127"
          unfolding k(2) v by (rule bound)
        show "int (length (drop ?k ?ds)) \<le> 2 ^ 31"
          unfolding k(3) using assms(1) False by simp
      qed
      ultimately show ?thesis
        using False unfolding k(2,3) v by simp
    next
      case short: False
      let ?ys = "replicate (?frac - length ?ds) 48 @ ?ds"
      have len: "length ?ys = ?frac"
        using short by simp
      have val: "int (digits_value ([48] @ ?ys)) = \<bar>m\<bar>"
        using digits_value_append [of "[48]" ?ys] digits_value_append [of "replicate (?frac - length ?ds) 48" ?ds]
        by (simp add: digits_value_zeros digits_value_Cons)
      have dig: "list_all is_ascii_digit ([48] @ ?ys)"
        using dec_digits_all_digit zeros_digit by (simp add: is_ascii_digit_def)
      have "dec_body m e = [48] @ 46 # ?ys"
        using False short by (simp add: dec_body_def Let_def)
      moreover have "parse_digits ([48] @ 46 # ?ys) 0 0 False False
          = Some (int (digits_value ([48] @ ?ys)), - int (length ?ys), True)"
      proof (rule parse_digits_point [OF dig])
        show "int (digits_value ([48] @ ?ys)) < 2 ^ 127"
          unfolding val by (rule bound)
        show "int (length ?ys) \<le> 2 ^ 31"
          unfolding len using assms(1) False by simp
      qed simp
      ultimately show ?thesis
        using False unfolding val len by simp
    qed
  qed
qed

lemma dec_body_ends:
  "hd (dec_body m e) \<notin> {43, 45}" "\<not> is_whitespace (hd (dec_body m e))"
  "\<not> is_whitespace (last (dec_body m e))" "dec_body m e \<noteq> []"
proof -
  let ?ds = "dec_digits (nat \<bar>m\<bar>)"
  have digit: "is_ascii_digit (hd ?ds)" "is_ascii_digit (last ?ds)"
    using dec_digits_digit [of _ "nat \<bar>m\<bar>"] by simp_all
  have ends: "is_ascii_digit (hd (dec_body m e)) \<and> is_ascii_digit (last (dec_body m e)) \<and> dec_body m e \<noteq> []"
  proof (cases "0 \<le> e")
    case True
    then show ?thesis
      using digit by (cases "nat e") (auto simp: dec_body_def last_append is_ascii_digit_def last_replicate)
  next
    case False
    define k where "k = length ?ds - nat (- e)"
    show ?thesis
    proof (cases "nat (- e) < length ?ds")
      case True
      then have k: "0 < k" "k < length ?ds"
        using False by (auto simp: k_def)
      have "dec_body m e = take k ?ds @ 46 # drop k ?ds"
        using False True by (simp add: dec_body_def Let_def k_def)
      moreover have "hd (take k ?ds @ 46 # drop k ?ds) = hd ?ds"
        using k by (simp add: hd_append hd_take)
      moreover have "last (take k ?ds @ 46 # drop k ?ds) = last ?ds"
        using k by simp
      ultimately show ?thesis
        using digit by simp
    next
      case short: False
      have "dec_body m e = [48, 46] @ replicate (nat (- e) - length ?ds) 48 @ ?ds"
        using False short by (simp add: dec_body_def Let_def)
      then show ?thesis
        using digit(2) by (simp add: is_ascii_digit_def [of 48])
    qed
  qed
  have "\<not> is_whitespace c \<and> c \<notin> {43, 45}" if "is_ascii_digit c" for c
    using that by (auto simp: is_ascii_digit_def is_whitespace_def)
  then show "hd (dec_body m e) \<notin> {43, 45}" "\<not> is_whitespace (hd (dec_body m e))"
    "\<not> is_whitespace (last (dec_body m e))" "dec_body m e \<noteq> []"
    using ends by blast+
qed

lemma trim_solid:
  assumes "s \<noteq> []" "\<not> is_whitespace (hd s)" "\<not> is_whitespace (last s)"
  shows "trim s = s"
proof -
  have "trim_end s = s"
    using assms by (cases s rule: rev_cases) (auto simp: trim_end_def)
  then show ?thesis
    using assms by (cases s) (auto simp: trim_def)
qed

lemma dec_to_string_body:
  assumes "\<not> nan v" "mantissa v \<noteq> 0" "- (2 ^ 31) < exponent v" "exponent v < 2 ^ 31"
  shows "dec_to_string v = Some ((if mantissa v < 0 then [45] else []) @ dec_body (mantissa v) (exponent v))"
proof -
  have "fraction_length (exponent v) = nat (- exponent v)" if "exponent v < 0"
    using assms(3) that wrap_i32_id [of "- exponent v"] by (simp add: fraction_length_def in_i32_def)
  moreover have "repeat_zero (nat (exponent v)) = Some (replicate (nat (exponent v)) 48)"
    "repeat_zero (nat (- exponent v) - k) = Some (replicate (nat (- exponent v) - k) 48)" for k
    using assms(3,4) by (simp_all add: repeat_zero_def)
  ultimately show ?thesis
    using assms(1,2) by (simp add: dec_to_string_def dec_body_def Let_def)
qed

lemma dec_parse_string_spec:
  assumes "dec_ok v" "canonical_dec v" "\<bar>mantissa v\<bar> * 10 ^ nat (exponent v) < 2 ^ 127" "- (2 ^ 31) < exponent v"
  shows "\<exists>text. dec_to_string v = Some text \<and> dec_parse text = Some v"
proof (cases "mantissa v = 0")
  case True
  have "v = \<lparr>nan = False, mantissa = 0, exponent = 0\<rparr>"
    using assms(2) True by (cases v) (simp add: canonical_dec_def)
  then show ?thesis
    by (simp add: dec_to_string_def dec_parse_def trim_solid is_whitespace_def is_ascii_digit_def
        in_i128_def checked_def dec_new_def normalized_def Let_def)
next
  case False
  define m e where "m = mantissa v" and "e = exponent v"
  let ?M = "\<bar>m\<bar> * 10 ^ nat e"
  have v: "\<not> nan v" "in_i128 m" "- (2 ^ 31) \<le> e" "e < 2 ^ 31 - 38" "?M < 2 ^ 127"
    using assms(1,3) by (simp_all add: dec_ok_def m_def e_def)
  have i: "in_i128 (m * 10 ^ nat e)"
  proof -
    have "\<bar>m * 10 ^ nat e\<bar> < 2 ^ 127"
      using v(5) by (simp add: abs_mult)
    then show ?thesis
      unfolding in_i128_def by linarith
  qed
  define pre :: ustr where "pre = (if m < 0 then [45] else [])"
  have s: "dec_to_string v = Some (pre @ dec_body m e)"
    using dec_to_string_body [of v] v(1,4) assms(4) False by (simp add: m_def e_def pre_def)
  note ends = dec_body_ends [of m e]
  have "trim (pre @ dec_body m e) = pre @ dec_body m e"
    using ends by (intro trim_solid) (auto simp: pre_def is_whitespace_def)
  moreover have "hd (pre @ dec_body m e) = 45 \<longleftrightarrow> m < 0"
    using ends by (auto simp: pre_def)
  moreover have "(if hd (pre @ dec_body m e) = 45 \<or> hd (pre @ dec_body m e) = 43
      then tl (pre @ dec_body m e) else pre @ dec_body m e) = dec_body m e"
    using ends by (auto simp: pre_def)
  ultimately have "dec_parse (pre @ dec_body m e) =
      Some (dec_new (if m < 0 then wrap_i128 (- ?M) else ?M) (min e 0))"
    using parse_dec_body [OF v(3,5)] ends(4) by (simp add: dec_parse_def Let_def)
  also have "(if m < 0 then wrap_i128 (- ?M) else ?M) = m * 10 ^ nat e"
    by (auto simp: wrap_i128_id [OF i])
  also have "dec_new (m * 10 ^ nat e) (min e 0) = v"
  proof (rule canonical_dec_unique_aux)
    note nf = dec_new_spec [OF i, of "min e 0"]
    show "canonical_dec (dec_new (m * 10 ^ nat e) (min e 0))" "canonical_dec v"
      using nf(2) v(3) assms(2) by simp_all
    have "dec_value (dec_new (m * 10 ^ nat e) (min e 0)) = of_int m * (10 ^ nat e * 10 powi min e 0)"
      using nf(1) v(3) by simp
    also have "(10::rat) ^ nat e * 10 powi min e 0 = 10 powi e"
      by (cases "0 \<le> e") (simp_all add: power_int_def)
    finally show "dec_value (dec_new (m * 10 ^ nat e) (min e 0)) = dec_value v"
      by (simp add: dec_value_def m_def e_def)
  qed
  finally show ?thesis using s by blast
qed

text \<open>C36. A number in normal form has a text, without a panic, and the text reads back as that number, as
  long as the exponent is not the least \<open>i32\<close>, which cannot be negated, and the digits with the trailing
  zeros written out fit the mantissa.\<close>

theorem dec_parse_to_string:
  assumes "dec_ok v" "canonical_dec v" "\<bar>mantissa v\<bar> * 10 ^ nat (exponent v) < 2 ^ 127" "- (2 ^ 31) < exponent v"
  shows "\<exists>text. dec_to_string v = Some text \<and> dec_parse text = Some v"
  by (rule dec_parse_string_spec [OF assms])

theorem dec_parse_to_string_witness:
  "\<exists>text. dec_to_string \<lparr>nan = False, mantissa = - 125, exponent = - 1\<rparr> = Some text
     \<and> dec_parse text = Some \<lparr>nan = False, mantissa = - 125, exponent = - 1\<rparr>"
  by (rule dec_parse_to_string) (simp_all add: dec_ok_def in_i128_def canonical_dec_def)

section \<open>Division\<close>

text \<open>Where the next digit would overflow the mantissa, the last digit is rounded on a remainder
  already multiplied by ten: seven thirds ends in a four.\<close>

theorem div_seven_thirds:
  "dec_div (dec_new 7 0) (dec_new 3 0)
     = \<lparr>nan = False, mantissa = 23333333333333333333333333333333333334, exponent = - 37\<rparr>"
  by code_simp

end
