(* ===== verification/Regex.thy ===== *)
theory Regex
  imports Prelude
begin

text \<open>
  The regular-expression engine of \<open>tswift-core/src/regex.rs\<close>: the recursive-descent parser
  from a pattern to a \<open>node\<close>, the compiler from a \<open>node\<close> to a program of \<open>inst\<close>, and the
  backtracking executor. The parser's state is the list of scalars that are left and the
  group counter. The program is built as the code builds it, by appending and then patching
  the targets of the splits. The executor's recursion gets fuel, because it need not end
  (\<open>Regex_Correct\<close>); indexing out of range is the outcome \<open>Panicked\<close>. The Unicode table behind
  \<open>char::is_alphanumeric\<close> is the parameter \<open>alnum\<close>. The depth of the machine stack is not
  modelled.
\<close>

section \<open>Syntax trees\<close>

definition MAX_REPEAT :: nat where
  "MAX_REPEAT = 1000"

datatype class_item = CChar scalar | CRange scalar scalar | CDigit bool | CWord bool | CSpace bool

datatype node =
    NEmpty
  | NChar scalar
  | NAnyChar
  | NClass "class_item list" bool
  | NStart
  | NEnd
  | NWordBoundary bool
  | NConcat "node list"
  | NAlt "node list"
  | NRepeat node nat "nat option" bool
  | NGroup "nat option" node

datatype regex_error =
    UnexpectedScalar scalar
  | InvalidQuantifier nat nat
  | CountTooLarge
  | DanglingQuantifier scalar
  | UnsupportedGroup
  | MissingParen
  | InvalidClassRange
  | UnterminatedClass
  | TrailingBackslashInClass
  | TrailingBackslash
  | RegexOutOfFuel

section \<open>Parser\<close>

definition first_is :: "ustr \<Rightarrow> char \<Rightarrow> bool" where
  "first_is s c \<longleftrightarrow> get_at s 0 = Some (byte c)"

definition usize_max :: nat where
  "usize_max = 2 ^ 64 - 1"

definition saturating_digit :: "nat \<Rightarrow> scalar \<Rightarrow> nat" where
  "saturating_digit n d = min usize_max (min usize_max (n * 10) + (d - 48))"

text \<open>\<open>Parser::parse_int\<close>.\<close>

definition parse_count :: "ustr \<Rightarrow> nat option \<times> ustr" where
  "parse_count s =
     (let ds = takeWhile is_ascii_digit s in
      (if ds = [] then None else Some (foldl saturating_digit 0 ds), drop (length ds) s))"

text \<open>The bounds that \<open>parse_counted\<close> reads after the opening brace, and the checks on them.\<close>

definition counted_bounds :: "ustr \<Rightarrow> ((nat \<times> nat option) \<times> ustr) option" where
  "counted_bounds s =
     (let (mn, r) = parse_count s in
      if first_is r CHR ''}'' \<and> mn \<noteq> None then Some ((the mn, Some (the mn)), tl r)
      else if first_is r CHR '','' then
        (let (mx, r) = parse_count (tl r) in
         if first_is r CHR ''}'' then Some ((case mn of None \<Rightarrow> 0 | Some n \<Rightarrow> n, mx), tl r) else None)
      else None)"

definition parse_counted :: "ustr \<Rightarrow> regex_error + ((nat \<times> nat option) \<times> ustr) option" where
  "parse_counted s =
     (case counted_bounds (tl s) of
        None \<Rightarrow> Inr None
      | Some ((mn, mx), r) \<Rightarrow>
          (case mx of
             Some m \<Rightarrow>
               if m < mn then Inl (InvalidQuantifier mn m)
               else if mn > MAX_REPEAT \<or> m > MAX_REPEAT then Inl CountTooLarge
               else Inr (Some ((mn, mx), r))
           | None \<Rightarrow> if mn > MAX_REPEAT then Inl CountTooLarge else Inr (Some ((mn, mx), r))))"

datatype class_atom = AChar scalar | AItem class_item

definition class_escape :: "scalar \<Rightarrow> class_atom" where
  "class_escape c =
     (if c = byte CHR ''d'' then AItem (CDigit True)
      else if c = byte CHR ''D'' then AItem (CDigit False)
      else if c = byte CHR ''w'' then AItem (CWord True)
      else if c = byte CHR ''W'' then AItem (CWord False)
      else if c = byte CHR ''s'' then AItem (CSpace True)
      else if c = byte CHR ''S'' then AItem (CSpace False)
      else if c = byte CHR ''n'' then AChar 10
      else if c = byte CHR ''t'' then AChar 9
      else if c = byte CHR ''r'' then AChar 13
      else AChar c)"

fun class_char :: "ustr \<Rightarrow> regex_error + (class_atom \<times> ustr)" where
  "class_char [] = Inl UnterminatedClass"
| "class_char (c # s) =
     (if c = byte CHR 0x5C then
        (case s of [] \<Rightarrow> Inl TrailingBackslashInClass | e # s \<Rightarrow> Inr (class_escape e, s))
      else Inr (AChar c, s))"

lemma class_char_shorter: "class_char s = Inr (a, r) \<Longrightarrow> length r < length s"
  by (cases s) (auto split: if_splits list.splits)

text \<open>The loop of \<open>parse_class\<close>, with the items found so far.\<close>

function class_items :: "class_item list \<Rightarrow> ustr \<Rightarrow> regex_error + (class_item list \<times> ustr)" where
  "class_items items s =
     (if s = [] then Inl UnterminatedClass
      else if first_is s CHR '']'' then Inr (items, tl s)
      else case class_char s of
        Inl e \<Rightarrow> Inl e
      | Inr (AItem item, r) \<Rightarrow> class_items (items @ [item]) r
      | Inr (AChar lo, r) \<Rightarrow>
          if first_is r CHR ''-'' \<and> get_at r 1 \<noteq> Some (byte CHR '']'') then
            (case class_char (tl r) of
               Inl e \<Rightarrow> Inl e
             | Inr (AChar hi, r') \<Rightarrow> class_items (items @ [CRange lo hi]) r'
             | Inr (AItem _, r') \<Rightarrow> Inl InvalidClassRange)
          else class_items (items @ [CChar lo]) r)"
  by pat_completeness auto
termination
proof (relation "measure (\<lambda>(items, s). length s)"; clarsimp)
  fix s r r' :: ustr and lo hi
  assume "class_char s = Inr (AChar lo, r)" "class_char (tl r) = Inr (AChar hi, r')"
  then show "length r' < length s"
    using class_char_shorter [of s] class_char_shorter [of "tl r"] by fastforce
qed (auto dest: class_char_shorter)

declare class_items.simps [simp del]

definition parse_class :: "ustr \<Rightarrow> regex_error + (node \<times> ustr)" where
  "parse_class s =
     (let r = tl s;
          negated = first_is r CHR ''^'';
          r = (if negated then tl r else r)
      in case class_items [] r of
           Inl e \<Rightarrow> Inl e
         | Inr (items, r) \<Rightarrow> Inr (NClass items negated, r))"

text \<open>\<open>class\<close> and \<open>Parser::parse_escape\<close>, on the scalars after the backslash.\<close>

definition class_node :: "class_item \<Rightarrow> bool \<Rightarrow> node" where
  "class_node item negated = NClass [item] negated"

definition escape_node :: "scalar \<Rightarrow> node" where
  "escape_node c =
     (if c = byte CHR ''d'' then class_node (CDigit True) False
      else if c = byte CHR ''D'' then class_node (CDigit True) True
      else if c = byte CHR ''w'' then class_node (CWord True) False
      else if c = byte CHR ''W'' then class_node (CWord True) True
      else if c = byte CHR ''s'' then class_node (CSpace True) False
      else if c = byte CHR ''S'' then class_node (CSpace True) True
      else if c = byte CHR ''b'' then NWordBoundary True
      else if c = byte CHR ''B'' then NWordBoundary False
      else if c = byte CHR ''n'' then NChar 10
      else if c = byte CHR ''t'' then NChar 9
      else if c = byte CHR ''r'' then NChar 13
      else if c = byte CHR ''0'' then NChar 0
      else NChar c)"

definition parse_escape :: "ustr \<Rightarrow> regex_error + (node \<times> ustr)" where
  "parse_escape s =
     (case tl s of [] \<Rightarrow> Inl TrailingBackslash | c # r \<Rightarrow> Inr (escape_node c, r))"

text \<open>What \<open>parse_alternation\<close> and \<open>parse_concat\<close> make of the parts they collected.\<close>

definition alt_of :: "node list \<Rightarrow> node" where
  "alt_of ns = (case ns of [n] \<Rightarrow> n | _ \<Rightarrow> NAlt ns)"

definition concat_of :: "node list \<Rightarrow> node" where
  "concat_of ns = (case ns of [] \<Rightarrow> NEmpty | [n] \<Rightarrow> n | _ \<Rightarrow> NConcat ns)"

text \<open>The quantifier after an atom: its bounds, when there is one.\<close>

definition parse_bounds :: "ustr \<Rightarrow> regex_error + ((nat \<times> nat option) \<times> ustr) option" where
  "parse_bounds s =
     (if first_is s CHR ''*'' then Inr (Some ((0, None), tl s))
      else if first_is s CHR ''+'' then Inr (Some ((1, None), tl s))
      else if first_is s CHR ''?'' then Inr (Some ((0, Some 1), tl s))
      else if first_is s CHR ''{'' then parse_counted s
      else Inr None)"

definition quantified :: "node \<Rightarrow> ustr \<Rightarrow> regex_error + (node \<times> ustr)" where
  "quantified atom s =
     (case parse_bounds s of
        Inl e \<Rightarrow> Inl e
      | Inr None \<Rightarrow> Inr (atom, s)
      | Inr (Some ((mn, mx), r)) \<Rightarrow>
          if first_is r CHR ''?'' then Inr (NRepeat atom mn mx False, tl r)
          else Inr (NRepeat atom mn mx True, r))"

text \<open>
  The state is the rest of the pattern and the group counter. \<open>parse_group\<close>, \<open>parse_atom\<close> and
  \<open>parse_repeat\<close> take the recursive call of \<open>parse_alternation\<close> as an argument; the two loops
  \<open>parse_alternation\<close> and \<open>parse_concat\<close> use one unit of fuel per step.
\<close>

type_synonym pstate = "ustr \<times> nat"
type_synonym branch_parser = "pstate \<Rightarrow> regex_error + (node list \<times> pstate)"

definition parse_group :: "branch_parser \<Rightarrow> pstate \<Rightarrow> regex_error + (node \<times> pstate)" where
  "parse_group alternation st =
     (let r = tl (fst st);
          g = snd st;
          plain = first_is r CHR ''?''
      in if plain \<and> get_at r 1 \<noteq> Some (byte CHR '':'') then Inl UnsupportedGroup
         else case alternation (if plain then (drop 2 r, g) else (r, g + 1)) of
           Inl e \<Rightarrow> Inl e
         | Inr (branches, t, g') \<Rightarrow>
             if first_is t CHR '')''
             then Inr (NGroup (if plain then None else Some g) (alt_of branches), tl t, g')
             else Inl MissingParen)"

definition with_groups :: "nat \<Rightarrow> regex_error + (node \<times> ustr) \<Rightarrow> regex_error + (node \<times> pstate)" where
  "with_groups g res = map_sum id (\<lambda>(node, r). (node, r, g)) res"

definition literal_atom :: "pstate \<Rightarrow> regex_error + (node \<times> pstate)" where
  "literal_atom st =
     (case fst st of
        [] \<Rightarrow> Inr (NEmpty, st)
      | c # r \<Rightarrow>
          if c = byte CHR ''*'' \<or> c = byte CHR ''+'' \<or> c = byte CHR ''?'' then Inl (DanglingQuantifier c)
          else Inr (NChar c, r, snd st))"

definition parse_atom :: "branch_parser \<Rightarrow> pstate \<Rightarrow> regex_error + (node \<times> pstate)" where
  "parse_atom alternation st =
     (let s = fst st; g = snd st in
      if first_is s CHR ''('' then parse_group alternation st
      else if first_is s CHR ''['' then with_groups g (parse_class s)
      else if first_is s CHR ''.'' then Inr (NAnyChar, tl s, g)
      else if first_is s CHR ''^'' then Inr (NStart, tl s, g)
      else if first_is s CHR ''$'' then Inr (NEnd, tl s, g)
      else if first_is s CHR 0x5C then with_groups g (parse_escape s)
      else literal_atom st)"

definition parse_repeat :: "branch_parser \<Rightarrow> pstate \<Rightarrow> regex_error + (node \<times> pstate)" where
  "parse_repeat alternation st =
     (case parse_atom alternation st of
        Inl e \<Rightarrow> Inl e
      | Inr (atom, s, g) \<Rightarrow> with_groups g (quantified atom s))"

definition concat_ends :: "ustr \<Rightarrow> bool" where
  "concat_ends s \<longleftrightarrow> s = [] \<or> first_is s CHR ''|'' \<or> first_is s CHR '')''"

fun parse_alternation :: "nat \<Rightarrow> pstate \<Rightarrow> regex_error + (node list \<times> pstate)"
and parse_concat :: "nat \<Rightarrow> pstate \<Rightarrow> regex_error + (node list \<times> pstate)" where
  "parse_alternation 0 st = Inl RegexOutOfFuel"
| "parse_alternation (Suc f) st =
     (case parse_concat f st of
        Inl e \<Rightarrow> Inl e
      | Inr (nodes, s, g) \<Rightarrow>
          if first_is s CHR ''|'' then
            (case parse_alternation f (tl s, g) of
               Inl e \<Rightarrow> Inl e
             | Inr (branches, st') \<Rightarrow> Inr (concat_of nodes # branches, st'))
          else Inr ([concat_of nodes], s, g))"
| "parse_concat 0 st = Inl RegexOutOfFuel"
| "parse_concat (Suc f) st =
     (if concat_ends (fst st) then Inr ([], st)
      else case parse_repeat (parse_alternation f) st of
        Inl e \<Rightarrow> Inl e
      | Inr (node, st) \<Rightarrow>
          (case parse_concat f st of
             Inl e \<Rightarrow> Inl e
           | Inr (nodes, st') \<Rightarrow> Inr (node # nodes, st')))"

text \<open>The tree of a whole pattern, with the number of groups (group 0 is the whole match).\<close>

definition parse_pattern :: "ustr \<Rightarrow> regex_error + (node \<times> nat)" where
  "parse_pattern pattern =
     (case parse_alternation (2 * length pattern + 2) (pattern, 1) of
        Inl e \<Rightarrow> Inl e
      | Inr (branches, s, g) \<Rightarrow>
          (case s of [] \<Rightarrow> Inr (alt_of branches, g) | c # _ \<Rightarrow> Inl (UnexpectedScalar c)))"

section \<open>Compiler\<close>

datatype inst =
    IChar scalar
  | IAnyChar
  | IClass "class_item list" bool
  | IStart
  | IEnd
  | IWordBoundary bool
  | ISave nat
  | IJmp nat
  | ISplit nat nat
  | IMatch

type_synonym prog = "inst list"

definition patch_split :: "nat \<Rightarrow> nat \<Rightarrow> nat \<Rightarrow> bool \<Rightarrow> prog \<Rightarrow> prog" where
  "patch_split at body skip greedy prog =
     (case prog ! at of
        ISplit _ _ \<Rightarrow> prog[at := (if greedy then ISplit body skip else ISplit skip body)]
      | _ \<Rightarrow> prog)"

text \<open>
  The compiler appends to the program it is given. The functions for alternatives and
  repeats take the compilation of the parts as arguments.
\<close>

fun compile_alt :: "(prog \<Rightarrow> prog) list \<Rightarrow> prog \<Rightarrow> prog" where
  "compile_alt [] prog = prog"
| "compile_alt [branch] prog = branch prog"
| "compile_alt (branch # branches) prog =
     (let split = length prog;
          prog = prog @ [ISplit 0 0];
          l1 = length prog;
          prog = branch prog;
          jmp = length prog;
          prog = prog @ [IJmp 0];
          l2 = length prog;
          prog = prog[split := ISplit l1 l2];
          prog = compile_alt branches prog
      in prog[jmp := IJmp (length prog)])"

text \<open>The optional copies: each is guarded by a split, whose place and body are collected.\<close>

fun optional_copies :: "nat \<Rightarrow> (prog \<Rightarrow> prog) \<Rightarrow> (nat \<times> nat) list \<Rightarrow> prog \<Rightarrow> (nat \<times> nat) list \<times> prog" where
  "optional_copies 0 body splits prog = (splits, prog)"
| "optional_copies (Suc k) body splits prog =
     (let split = length prog;
          prog = prog @ [ISplit 0 0];
          start = length prog
      in optional_copies k body (splits @ [(split, start)]) (body prog))"

definition compile_repeat :: "(prog \<Rightarrow> prog) \<Rightarrow> nat \<Rightarrow> nat option \<Rightarrow> bool \<Rightarrow> prog \<Rightarrow> prog" where
  "compile_repeat body mn mx greedy prog =
     (let prog = (body ^^ mn) prog in
      case mx of
        None \<Rightarrow>
          (let split = length prog;
               prog = prog @ [ISplit 0 0];
               start = length prog;
               prog = body prog @ [IJmp split]
           in patch_split split start (length prog) greedy prog)
      | Some m \<Rightarrow>
          (let (splits, prog) = optional_copies (m - mn) body [] prog;
               end_pc = length prog
           in fold (\<lambda>(split, start). patch_split split start end_pc greedy) splits prog))"

primrec compile_node :: "node \<Rightarrow> prog \<Rightarrow> prog" where
  "compile_node NEmpty = (\<lambda>prog. prog)"
| "compile_node (NChar c) = (\<lambda>prog. prog @ [IChar c])"
| "compile_node NAnyChar = (\<lambda>prog. prog @ [IAnyChar])"
| "compile_node (NClass items negated) = (\<lambda>prog. prog @ [IClass items negated])"
| "compile_node NStart = (\<lambda>prog. prog @ [IStart])"
| "compile_node NEnd = (\<lambda>prog. prog @ [IEnd])"
| "compile_node (NWordBoundary b) = (\<lambda>prog. prog @ [IWordBoundary b])"
| "compile_node (NConcat ns) = (\<lambda>prog. fold id (map compile_node ns) prog)"
| "compile_node (NAlt ns) = (\<lambda>prog. compile_alt (map compile_node ns) prog)"
| "compile_node (NRepeat n mn mx greedy) = (\<lambda>prog. compile_repeat (compile_node n) mn mx greedy prog)"
| "compile_node (NGroup index n) =
     (\<lambda>prog. case index of
        Some i \<Rightarrow> compile_node n (prog @ [ISave (i * 2)]) @ [ISave (i * 2 + 1)]
      | None \<Rightarrow> compile_node n prog)"

record regex =
  rx_pattern :: ustr
  rx_prog :: prog
  rx_groups :: nat

definition compile_program :: "node \<Rightarrow> prog" where
  "compile_program ast = compile_node ast [ISave 0] @ [ISave 1, IMatch]"

definition regex_compile :: "ustr \<Rightarrow> regex_error + regex" where
  "regex_compile pattern =
     (case parse_pattern pattern of
        Inl e \<Rightarrow> Inl e
      | Inr (ast, g) \<Rightarrow>
          Inr \<lparr> rx_pattern = pattern, rx_prog = compile_program ast, rx_groups = g \<rparr>)"

definition regex_eq :: "regex \<Rightarrow> regex \<Rightarrow> bool" where
  "regex_eq r r' \<longleftrightarrow> rx_pattern r = rx_pattern r'"

section \<open>Executor\<close>

type_synonym saves = "nat option list"
type_synonym active = "(nat \<times> nat) set"

definition is_word :: "(scalar \<Rightarrow> bool) \<Rightarrow> scalar \<Rightarrow> bool" where
  "is_word alnum c \<longleftrightarrow> c = byte CHR ''_'' \<or> alnum c"

fun item_matches :: "(scalar \<Rightarrow> bool) \<Rightarrow> scalar \<Rightarrow> class_item \<Rightarrow> bool" where
  "item_matches alnum c (CChar x) = (x = c)"
| "item_matches alnum c (CRange lo hi) = (lo \<le> c \<and> c \<le> hi)"
| "item_matches alnum c (CDigit pos) = (is_ascii_digit c = pos)"
| "item_matches alnum c (CWord pos) = (is_word alnum c = pos)"
| "item_matches alnum c (CSpace pos) = (is_whitespace c = pos)"

definition class_matches :: "(scalar \<Rightarrow> bool) \<Rightarrow> class_item list \<Rightarrow> bool \<Rightarrow> scalar \<Rightarrow> bool" where
  "class_matches alnum items negated c \<longleftrightarrow> list_ex (item_matches alnum c) items \<noteq> negated"

text \<open>
  What an instruction that is not a jump, a split, a save or the match demands of the input:
  whether it holds at the position, and whether it consumes the scalar there. \<open>None\<close> is an
  index out of range.
\<close>

definition at_start :: "ustr \<Rightarrow> nat \<Rightarrow> bool option" where
  "at_start input pos =
     (if pos = 0 then Some True else map_option (\<lambda>c. c = 10) (get_at input (pos - 1)))"

definition at_end :: "ustr \<Rightarrow> nat \<Rightarrow> bool option" where
  "at_end input pos =
     (if pos = length input then Some True else map_option (\<lambda>c. c = 10) (get_at input pos))"

definition at_boundary :: "(scalar \<Rightarrow> bool) \<Rightarrow> ustr \<Rightarrow> nat \<Rightarrow> bool option" where
  "at_boundary alnum input pos =
     (case (if pos > 0 then map_option (is_word alnum) (get_at input (pos - 1)) else Some False) of
        None \<Rightarrow> None
      | Some before \<Rightarrow> Some (before \<noteq> (pos < length input \<and> is_word alnum (input ! pos))))"

fun consumes :: "(scalar \<Rightarrow> bool) \<Rightarrow> inst \<Rightarrow> (scalar \<Rightarrow> bool) option" where
  "consumes alnum (IChar c) = Some (\<lambda>x. x = c)"
| "consumes alnum IAnyChar = Some (\<lambda>x. x \<noteq> 10)"
| "consumes alnum (IClass items negated) = Some (class_matches alnum items negated)"
| "consumes alnum i = None"

fun asserts :: "(scalar \<Rightarrow> bool) \<Rightarrow> inst \<Rightarrow> ustr \<Rightarrow> nat \<Rightarrow> bool option" where
  "asserts alnum IStart input pos = at_start input pos"
| "asserts alnum IEnd input pos = at_end input pos"
| "asserts alnum (IWordBoundary want) input pos = map_option (\<lambda>b. b = want) (at_boundary alnum input pos)"
| "asserts alnum i input pos = None"

datatype outcome = Done bool saves | Panicked | NoFuel

text \<open>
  \<open>exec_inner\<close>. \<open>saves\<close> is returned as the call leaves it. The set \<open>active\<close> is only passed
  down: every call removes the key it inserted before it returns, whatever the result.
\<close>

fun exec_inner :: "(scalar \<Rightarrow> bool) \<Rightarrow> prog \<Rightarrow> ustr \<Rightarrow> nat \<Rightarrow> nat \<Rightarrow> nat \<Rightarrow> saves \<Rightarrow> active \<Rightarrow> outcome" where
  "exec_inner alnum prog input 0 pc pos saves active = NoFuel"
| "exec_inner alnum prog input (Suc f) pc pos saves active =
     (case get_at prog pc of
        None \<Rightarrow> Panicked
      | Some (ISave slot) \<Rightarrow>
          (case get_at saves slot of
             None \<Rightarrow> Panicked
           | Some prev \<Rightarrow>
               (case exec_inner alnum prog input f (pc + 1) pos (saves[slot := Some pos]) active of
                  Done True saves' \<Rightarrow> Done True saves'
                | Done False saves' \<Rightarrow> Done False (saves'[slot := prev])
                | out \<Rightarrow> out))
      | Some (IJmp target) \<Rightarrow> exec_inner alnum prog input f target pos saves active
      | Some (ISplit a b) \<Rightarrow>
          if (pc, pos) \<in> active then exec_inner alnum prog input f b pos saves active
          else (case exec_inner alnum prog input f a pos saves (insert (pc, pos) active) of
                  Done True saves' \<Rightarrow> Done True saves'
                | Done False saves' \<Rightarrow> exec_inner alnum prog input f b pos saves' active
                | out \<Rightarrow> out)
      | Some IMatch \<Rightarrow> Done True saves
      | Some i \<Rightarrow>
          (case consumes alnum i of
             Some ok \<Rightarrow>
               if pos < length input \<and> ok (input ! pos)
               then exec_inner alnum prog input f (pc + 1) (pos + 1) saves active
               else Done False saves
           | None \<Rightarrow>
               (case asserts alnum i input pos of
                  None \<Rightarrow> Panicked
                | Some True \<Rightarrow> exec_inner alnum prog input f (pc + 1) pos saves active
                | Some False \<Rightarrow> Done False saves)))"

definition exec :: "(scalar \<Rightarrow> bool) \<Rightarrow> nat \<Rightarrow> prog \<Rightarrow> nat \<Rightarrow> ustr \<Rightarrow> nat \<Rightarrow> saves \<Rightarrow> outcome" where
  "exec alnum fuel prog pc input pos saves = exec_inner alnum prog input fuel pc pos saves {}"

section \<open>Searching\<close>

type_synonym captures = "(nat \<times> nat) option list"

text \<open>The result of a search: captures, no match, a panic or no fuel.\<close>

datatype 'a search = Found 'a | NotFound | SearchPanicked | SearchNoFuel

definition group_span :: "saves \<Rightarrow> nat \<Rightarrow> (nat \<times> nat) option" where
  "group_span saves g =
     (case (saves ! (g * 2), saves ! (g * 2 + 1)) of (Some s, Some e) \<Rightarrow> Some (s, e) | _ \<Rightarrow> None)"

definition captures_of :: "regex \<Rightarrow> saves \<Rightarrow> captures" where
  "captures_of r saves = map (group_span saves) [0..<rx_groups r]"

definition whole :: "captures \<Rightarrow> (nat \<times> nat) option" where
  "whole caps = hd caps"

definition match_from :: "(scalar \<Rightarrow> bool) \<Rightarrow> nat \<Rightarrow> regex \<Rightarrow> ustr \<Rightarrow> nat \<Rightarrow> captures search" where
  "match_from alnum fuel r input start =
     (case exec alnum fuel (rx_prog r) 0 input start (replicate (rx_groups r * 2) None) of
        Done True saves \<Rightarrow> Found (captures_of r saves)
      | Done False _ \<Rightarrow> NotFound
      | Panicked \<Rightarrow> SearchPanicked
      | NoFuel \<Rightarrow> SearchNoFuel)"

text \<open>The loop over the start positions of \<open>find_at\<close>.\<close>

function find_at :: "(scalar \<Rightarrow> bool) \<Rightarrow> nat \<Rightarrow> regex \<Rightarrow> ustr \<Rightarrow> nat \<Rightarrow> captures search" where
  "find_at alnum fuel r input start =
     (if length input < start then NotFound
      else case match_from alnum fuel r input start of
        NotFound \<Rightarrow> find_at alnum fuel r input (start + 1)
      | res \<Rightarrow> res)"
  by pat_completeness auto
termination
  by (relation "measure (\<lambda>(alnum, fuel, r, input, start). length input + 1 - start)") auto

declare find_at.simps [simp del]

definition find_first :: "(scalar \<Rightarrow> bool) \<Rightarrow> nat \<Rightarrow> regex \<Rightarrow> ustr \<Rightarrow> captures search" where
  "find_first alnum fuel r input = find_at alnum fuel r input 0"

definition prefix_match :: "(scalar \<Rightarrow> bool) \<Rightarrow> nat \<Rightarrow> regex \<Rightarrow> ustr \<Rightarrow> captures search" where
  "prefix_match alnum fuel r input = match_from alnum fuel r input 0"

text \<open>\<open>Captures::whole\<close> panics when group 0 has no span.\<close>

definition whole_match :: "(scalar \<Rightarrow> bool) \<Rightarrow> nat \<Rightarrow> regex \<Rightarrow> ustr \<Rightarrow> captures search" where
  "whole_match alnum fuel r input =
     (case prefix_match alnum fuel r input of
        Found m \<Rightarrow>
          (case whole m of
             None \<Rightarrow> SearchPanicked
           | Some span \<Rightarrow> if span = (0, length input) then Found m else NotFound)
      | res \<Rightarrow> res)"

text \<open>
  The loop of \<open>find_all\<close>. Its counter is the number of rounds left, one for every position
  a search may start from.
\<close>

fun find_all_loop :: "nat \<Rightarrow> (scalar \<Rightarrow> bool) \<Rightarrow> nat \<Rightarrow> regex \<Rightarrow> ustr \<Rightarrow> nat \<Rightarrow> captures list search" where
  "find_all_loop 0 alnum fuel r input start = (if start \<le> length input then SearchNoFuel else Found [])"
| "find_all_loop (Suc k) alnum fuel r input start =
     (if length input < start then Found []
      else case find_at alnum fuel r input start of
        NotFound \<Rightarrow> Found []
      | Found m \<Rightarrow>
          (case whole m of
             None \<Rightarrow> SearchPanicked
           | Some (s, e) \<Rightarrow>
               (case find_all_loop k alnum fuel r input (if s < e then e else e + 1) of
                  Found ms \<Rightarrow> Found (m # ms)
                | res \<Rightarrow> res))
      | SearchPanicked \<Rightarrow> SearchPanicked
      | SearchNoFuel \<Rightarrow> SearchNoFuel)"

definition find_all :: "(scalar \<Rightarrow> bool) \<Rightarrow> nat \<Rightarrow> regex \<Rightarrow> ustr \<Rightarrow> captures list search" where
  "find_all alnum fuel r input = find_all_loop (length input + 1) alnum fuel r input 0"

end
