(* ===== verification/Regex_Layout.thy ===== *)
theory Regex_Layout
  imports Regex
begin

text \<open>
  The shape of compiled programs. \<open>emit\<close> writes the code of a node down as one list, with all
  targets in place, from the address where it starts; the compiler of the source, which
  appends, remembers places and patches them, yields exactly this list (\<open>compile_node_emit\<close>).
  The proofs about the executor read the code through \<open>emit\<close>.
\<close>

section \<open>The emitted code\<close>

definition split_to :: "bool \<Rightarrow> nat \<Rightarrow> nat \<Rightarrow> inst" where
  "split_to greedy body skip = (if greedy then ISplit body skip else ISplit skip body)"

fun emit_seq :: "(nat \<Rightarrow> prog) list \<Rightarrow> nat \<Rightarrow> prog" where
  "emit_seq [] p = []"
| "emit_seq (e # es) p = e p @ emit_seq es (p + length (e p))"

fun emit_alt :: "(nat \<Rightarrow> prog) list \<Rightarrow> nat \<Rightarrow> prog" where
  "emit_alt [] p = []"
| "emit_alt [e] p = e p"
| "emit_alt (e # es) p =
     (let c = e (p + 1);
          q = p + 1 + length c;
          rest = emit_alt es (q + 1)
      in ISplit (p + 1) (q + 1) # c @ IJmp (q + 1 + length rest) # rest)"

fun emit_opt :: "nat \<Rightarrow> (nat \<Rightarrow> prog) \<Rightarrow> bool \<Rightarrow> nat \<Rightarrow> nat \<Rightarrow> prog" where
  "emit_opt 0 e greedy skip p = []"
| "emit_opt (Suc k) e greedy skip p =
     split_to greedy (p + 1) skip # e (p + 1) @ emit_opt k e greedy skip (p + 1 + length (e (p + 1)))"

definition emit_star :: "(nat \<Rightarrow> prog) \<Rightarrow> bool \<Rightarrow> nat \<Rightarrow> prog" where
  "emit_star e greedy p =
     (let c = e (p + 1) in split_to greedy (p + 1) (p + 2 + length c) # c @ [IJmp p])"

definition emit_tail :: "(nat \<Rightarrow> prog) \<Rightarrow> nat \<Rightarrow> nat option \<Rightarrow> bool \<Rightarrow> nat \<Rightarrow> prog" where
  "emit_tail e mn mx greedy p =
     (case mx of
        None \<Rightarrow> emit_star e greedy p
      | Some m \<Rightarrow> emit_opt (m - mn) e greedy (p + length (emit_opt (m - mn) e greedy 0 p)) p)"

primrec emit :: "node \<Rightarrow> nat \<Rightarrow> prog" where
  "emit NEmpty = (\<lambda>p. [])"
| "emit (NChar c) = (\<lambda>p. [IChar c])"
| "emit NAnyChar = (\<lambda>p. [IAnyChar])"
| "emit (NClass items negated) = (\<lambda>p. [IClass items negated])"
| "emit NStart = (\<lambda>p. [IStart])"
| "emit NEnd = (\<lambda>p. [IEnd])"
| "emit (NWordBoundary b) = (\<lambda>p. [IWordBoundary b])"
| "emit (NConcat ns) = (\<lambda>p. emit_seq (map emit ns) p)"
| "emit (NAlt ns) = (\<lambda>p. emit_alt (map emit ns) p)"
| "emit (NRepeat n mn mx greedy) =
     (\<lambda>p. emit_seq (replicate mn (emit n) @ [emit_tail (emit n) mn mx greedy]) p)"
| "emit (NGroup index n) =
     (\<lambda>p. case index of
        Some i \<Rightarrow> ISave (i * 2) # emit n (p + 1) @ [ISave (i * 2 + 1)]
      | None \<Rightarrow> emit n p)"

section \<open>The compiler emits this code\<close>

definition appends :: "(prog \<Rightarrow> prog) \<Rightarrow> (nat \<Rightarrow> prog) \<Rightarrow> bool" where
  "appends body e \<longleftrightarrow> (\<forall>prog. body prog = prog @ e (length prog))"

lemma appendsD: "appends body e \<Longrightarrow> body prog = prog @ e (length prog)"
  by (simp add: appends_def)

lemma fold_appends:
  "list_all2 appends bodies es \<Longrightarrow> fold id bodies prog = prog @ emit_seq es (length prog)"
proof (induction bodies es arbitrary: prog rule: list_all2_induct)
  case (Cons b bs e es)
  then show ?case
    using appendsD [of b e prog] Cons.IH [of "prog @ e (length prog)"] by simp
qed simp

lemma funpow_appends:
  "appends body e \<Longrightarrow> (body ^^ k) prog = prog @ emit_seq (replicate k e) (length prog)"
proof -
  assume *: "appends body e"
  then have "list_all2 appends (replicate k body) (replicate k e)"
    by (simp add: list_all2_conv_all_nth)
  from fold_appends [OF this] have "fold id (replicate k body) prog = prog @ emit_seq (replicate k e) (length prog)" .
  moreover have "fold id (replicate k body) prog = (body ^^ k) prog"
    by (induction k arbitrary: prog) (simp_all add: funpow_swap1)
  ultimately show ?thesis by simp
qed

lemma emit_seq_append:
  "emit_seq (es @ fs) p = emit_seq es p @ emit_seq fs (p + length (emit_seq es p))"
  by (induction es arbitrary: p) (simp_all add: add.assoc)

lemma compile_alt_emit:
  "list_all2 appends bodies es \<Longrightarrow> compile_alt bodies prog = prog @ emit_alt es (length prog)"
proof (induction bodies prog arbitrary: es rule: compile_alt.induct)
  case (2 b prog)
  then obtain e where "es = [e]" "appends b e"
    by (auto simp: list_all2_Cons1)
  then show ?case by (simp add: appendsD)
next
  case (3 b b' bs prog)
  then obtain e e' es' where es: "es = e # e' # es'" "appends b e" "list_all2 appends (b' # bs) (e' # es')"
    by (auto simp: list_all2_Cons1)
  let ?l = "length prog"
  let ?c = "e (?l + 1)"
  let ?q = "?l + 1 + length ?c"
  let ?pre = "prog @ ISplit (?l + 1) (?q + 1) # ?c @ [IJmp 0]"
  have b: "b (prog @ [ISplit 0 0]) = prog @ ISplit 0 0 # ?c"
    using appendsD [OF es(2), of "prog @ [ISplit 0 0]"] by simp
  have len: "length ?pre = ?q + 1" by simp
  have ih: "compile_alt (b' # bs) ?pre = ?pre @ emit_alt (e' # es') (?q + 1)"
    using "3.IH" [OF refl refl refl refl refl refl refl refl es(3)] b len
    by (simp add: list_update_append)
  show ?case
    using ih
    by (simp add: es(1) b Let_def list_update_append numeral_2_eq_2)
qed simp

fun opt_raw :: "nat \<Rightarrow> (nat \<Rightarrow> prog) \<Rightarrow> nat \<Rightarrow> prog" where
  "opt_raw 0 e p = []"
| "opt_raw (Suc k) e p = ISplit 0 0 # e (p + 1) @ opt_raw k e (p + 1 + length (e (p + 1)))"

fun opt_splits :: "nat \<Rightarrow> (nat \<Rightarrow> prog) \<Rightarrow> nat \<Rightarrow> (nat \<times> nat) list" where
  "opt_splits 0 e p = []"
| "opt_splits (Suc k) e p = (p, p + 1) # opt_splits k e (p + 1 + length (e (p + 1)))"

lemma optional_copies_raw:
  "appends body e \<Longrightarrow>
   optional_copies k body splits prog
   = (splits @ opt_splits k e (length prog), prog @ opt_raw k e (length prog))"
  by (induction k arbitrary: splits prog) (simp_all add: appendsD)

lemma patch_split_at:
  "length pre = p \<Longrightarrow>
   patch_split p body skip greedy (pre @ ISplit x y # post) = pre @ split_to greedy body skip # post"
  by (auto simp: patch_split_def split_to_def)

lemma patch_opt_raw:
  "length pre = p \<Longrightarrow>
   fold (\<lambda>(split, start). patch_split split start skip greedy) (opt_splits k e p) (pre @ opt_raw k e p)
   = pre @ emit_opt k e greedy skip p"
proof (induction k arbitrary: pre p)
  case (Suc k)
  let ?pre = "pre @ split_to greedy (p + 1) skip # e (p + 1)"
  have "length ?pre = p + 1 + length (e (p + 1))"
    using Suc.prems by simp
  from Suc.IH [OF this] show ?case
    using Suc.prems by (simp add: patch_split_at)
qed simp

lemma length_opt_raw: "length (opt_raw k e p) = length (emit_opt k e greedy skip p)"
  by (induction k arbitrary: p) simp_all

lemma compile_repeat_emit:
  assumes "appends body e"
  shows "compile_repeat body mn mx greedy prog
    = prog @ emit_seq (replicate mn e @ [emit_tail e mn mx greedy]) (length prog)"
proof -
  let ?pre = "prog @ emit_seq (replicate mn e) (length prog)"
  have "compile_repeat body mn mx greedy prog = ?pre @ emit_tail e mn mx greedy (length ?pre)"
  proof (cases mx)
    case None
    then show ?thesis
      using patch_split_at [OF refl, of ?pre]
      by (simp add: compile_repeat_def funpow_appends [OF assms] appendsD [OF assms] emit_tail_def
          emit_star_def Let_def)
  next
    case (Some m)
    then show ?thesis
      by (simp only: compile_repeat_def funpow_appends [OF assms] optional_copies_raw [OF assms] Let_def
          option.case prod.case append_Nil length_append patch_opt_raw length_opt_raw [of _ e _ greedy 0]
          emit_tail_def)
  qed
  then show ?thesis
    by (simp add: emit_seq_append)
qed

lemma appends_compile_node: "appends (compile_node n) (emit n)"
proof (induction n)
  case (NConcat ns)
  then have "list_all2 appends (map compile_node ns) (map emit ns)"
    by (simp add: list_all2_conv_all_nth)
  then show ?case by (simp add: appends_def fold_appends)
next
  case (NAlt ns)
  then have "list_all2 appends (map compile_node ns) (map emit ns)"
    by (simp add: list_all2_conv_all_nth)
  then show ?case by (simp add: appends_def compile_alt_emit)
next
  case (NRepeat n mn mx greedy)
  then show ?case by (simp add: appends_def compile_repeat_emit)
next
  case (NGroup index n)
  then show ?case by (cases index) (simp_all add: appends_def)
qed (simp_all add: appends_def)

lemma compile_node_emit: "compile_node n prog = prog @ emit n (length prog)"
  by (rule appendsD [OF appends_compile_node])

lemma compile_program_emit: "compile_program n = ISave 0 # emit n 1 @ [ISave 1, IMatch]"
  by (simp add: compile_program_def compile_node_emit)

section \<open>Code at an address\<close>

definition code_at :: "prog \<Rightarrow> nat \<Rightarrow> prog \<Rightarrow> bool" where
  "code_at prog p c \<longleftrightarrow> (\<exists>pre post. prog = pre @ c @ post \<and> length pre = p)"

named_theorems code_simp_rules \<open>code at an address, taken apart\<close>

lemma code_at_Nil: "code_at prog p [] \<Longrightarrow> p \<le> length prog"
  by (auto simp: code_at_def)

lemma code_at_Cons [code_simp_rules]:
  "code_at prog p (i # c) \<longleftrightarrow> get_at prog p = Some i \<and> code_at prog (p + 1) c"
proof
  assume "code_at prog p (i # c)"
  then obtain pre post where "prog = pre @ (i # c) @ post" "length pre = p"
    by (auto simp: code_at_def)
  then have "prog = (pre @ [i]) @ c @ post" "length (pre @ [i]) = p + 1" "get_at prog p = Some i"
    by (auto simp: get_at_def nth_append)
  then show "get_at prog p = Some i \<and> code_at prog (p + 1) c"
    unfolding code_at_def by blast
next
  assume *: "get_at prog p = Some i \<and> code_at prog (p + 1) c"
  then obtain pre post where pp: "prog = pre @ c @ post" "length pre = p + 1"
    by (auto simp: code_at_def)
  then have "pre = butlast pre @ [pre ! p]"
    using append_butlast_last_id [of pre] last_conv_nth [of pre] by (cases pre) auto
  moreover have "pre ! p = i"
    using * pp by (auto simp: get_at_def nth_append)
  ultimately have "prog = butlast pre @ (i # c) @ post" "length (butlast pre) = p"
    using pp by (metis append.assoc append_Cons append_Nil, simp)
  then show "code_at prog p (i # c)"
    unfolding code_at_def by blast
qed

lemma code_at_append [code_simp_rules]:
  "code_at prog p (c @ d) \<longleftrightarrow> code_at prog p c \<and> code_at prog (p + length c) d" if "p \<le> length prog"
  using that
proof (induction c arbitrary: p)
  case Nil
  then have "code_at prog p []"
    unfolding code_at_def by (intro exI [of _ "take p prog"] exI [of _ "drop p prog"]) simp
  then show ?case by simp
next
  case (Cons i c)
  show ?case
  proof (cases "get_at prog p = Some i")
    case True
    then have "p + 1 \<le> length prog"
      by (auto simp: get_at_def split: if_splits)
    from Cons.IH [OF this] show ?thesis
      by (simp add: code_at_Cons)
  qed (simp add: code_at_Cons)
qed

lemma code_at_bound: "code_at prog p c \<Longrightarrow> p + length c \<le> length prog"
  by (auto simp: code_at_def)

lemma code_at_appendD:
  assumes "code_at prog p (c @ d)"
  shows "code_at prog p c" "code_at prog (p + length c) d"
  using assms code_at_append [of p prog c d] code_at_bound [OF assms] by simp_all

lemma code_at_program: "code_at prog 0 prog"
  by (simp add: code_at_def)

end
