(* ===== verification/Regex_Exec.thy ===== *)
theory Regex_Exec
  imports Regex_Layout
begin

text \<open>
  Facts on the executor that hold for every program: more fuel does not change a result,
  a failing call leaves the slots as it found them, and a well-formed program never indexes
  out of range.
\<close>

section \<open>One step\<close>

fun is_assertion :: "inst \<Rightarrow> bool" where
  "is_assertion IStart = True"
| "is_assertion IEnd = True"
| "is_assertion (IWordBoundary _) = True"
| "is_assertion _ = False"

lemma inst_kinds:
  obtains (consume) ok where "consumes alnum i = Some ok"
    | (assertion) "is_assertion i"
    | (save) k where "i = ISave k"
    | (jump) t where "i = IJmp t"
    | (split) a b where "i = ISplit a b"
    | (match) "i = IMatch"
  by (cases i) auto

lemma exec_consume:
  "get_at prog pc = Some i \<Longrightarrow> consumes alnum i = Some ok \<Longrightarrow>
   exec_inner alnum prog input (Suc f) pc pos saves active =
     (if pos < length input \<and> ok (input ! pos)
      then exec_inner alnum prog input f (pc + 1) (pos + 1) saves active
      else Done False saves)"
  by (cases i) auto

lemma exec_assert:
  "get_at prog pc = Some i \<Longrightarrow> is_assertion i \<Longrightarrow>
   exec_inner alnum prog input (Suc f) pc pos saves active =
     (case asserts alnum i input pos of
        None \<Rightarrow> Panicked
      | Some True \<Rightarrow> exec_inner alnum prog input f (pc + 1) pos saves active
      | Some False \<Rightarrow> Done False saves)"
  by (cases i) auto

lemma exec_save:
  "get_at prog pc = Some (ISave slot) \<Longrightarrow>
   exec_inner alnum prog input (Suc f) pc pos saves active =
     (if slot < length saves then
        (case exec_inner alnum prog input f (pc + 1) pos (saves[slot := Some pos]) active of
           Done True saves' \<Rightarrow> Done True saves'
         | Done False saves' \<Rightarrow> Done False (saves'[slot := saves ! slot])
         | out \<Rightarrow> out)
      else Panicked)"
  by (simp add: get_at_def)

lemma exec_jump:
  "get_at prog pc = Some (IJmp target) \<Longrightarrow>
   exec_inner alnum prog input (Suc f) pc pos saves active
   = exec_inner alnum prog input f target pos saves active"
  by simp

lemma exec_split:
  "get_at prog pc = Some (ISplit a b) \<Longrightarrow>
   exec_inner alnum prog input (Suc f) pc pos saves active =
     (if (pc, pos) \<in> active then exec_inner alnum prog input f b pos saves active
      else case exec_inner alnum prog input f a pos saves (insert (pc, pos) active) of
        Done True saves' \<Rightarrow> Done True saves'
      | Done False saves' \<Rightarrow> exec_inner alnum prog input f b pos saves' active
      | out \<Rightarrow> out)"
  by simp

lemma exec_match:
  "get_at prog pc = Some IMatch \<Longrightarrow>
   exec_inner alnum prog input (Suc f) pc pos saves active = Done True saves"
  by simp

lemma exec_outside: "length prog \<le> pc \<Longrightarrow> exec_inner alnum prog input (Suc f) pc pos saves active = Panicked"
  by (simp add: get_at_def)

lemmas exec_steps = exec_consume exec_assert exec_save exec_jump exec_split exec_match exec_outside

declare exec_inner.simps(2) [simp del]

section \<open>Fuel\<close>

lemma exec_inner_mono:
  assumes "exec_inner alnum prog input f pc pos saves active \<noteq> NoFuel" "f \<le> f'"
  shows "exec_inner alnum prog input f' pc pos saves active = exec_inner alnum prog input f pc pos saves active"
  using assms
proof (induction f arbitrary: f' pc pos saves active)
  case (Suc f)
  obtain f'' where f': "f' = Suc f''" "f \<le> f''"
    using Suc.prems(2) by (cases f') auto
  have ih: "exec_inner alnum prog input f'' pc pos saves active = exec_inner alnum prog input f pc pos saves active"
    if "exec_inner alnum prog input f pc pos saves active \<noteq> NoFuel" for pc pos saves active
    by (rule Suc.IH [OF that f'(2)])
  show ?case
  proof (cases "get_at prog pc")
    case (Some i)
    show ?thesis
    proof (cases rule: inst_kinds [of alnum i])
      case (split a b)
      show ?thesis
      proof (cases "(pc, pos) \<in> active")
        case True
        then show ?thesis
          using Suc.prems(1) Some split ih [of b pos saves active] by (simp add: f'(1) exec_split)
      next
        case False
        let ?r = "exec_inner alnum prog input f a pos saves (insert (pc, pos) active)"
        have "?r \<noteq> NoFuel"
          using Suc.prems(1) Some split False by (auto simp: exec_split)
        note r = ih [OF this]
        show ?thesis
        proof (cases ?r)
          case (Done r s)
          then show ?thesis
            using Suc.prems(1) Some split False r ih [of b pos s active]
            by (cases r) (simp_all add: f'(1) exec_split)
        qed (use Some split False r in \<open>simp_all add: f'(1) exec_split\<close>)
      qed
    next
      case (save k)
      then show ?thesis
        using Suc.prems(1) Some ih [of "pc + 1" pos "saves[k := Some pos]" active]
        by (cases "exec_inner alnum prog input f (pc + 1) pos (saves[k := Some pos]) active = NoFuel")
          (simp_all add: f'(1) exec_save split: if_splits)
    next
      case (consume ok)
      then show ?thesis
        using Suc.prems(1) Some ih [of "pc + 1" "pos + 1" saves active]
        by (auto simp: f'(1) exec_consume split: if_splits)
    next
      case assertion
      then show ?thesis
        using Suc.prems(1) Some ih [of "pc + 1" pos saves active]
        by (simp add: f'(1) exec_assert split: option.splits bool.splits)
    next
      case (jump t)
      then show ?thesis
        using Suc.prems(1) Some ih [of t pos saves active] by (simp add: f'(1) exec_jump)
    next
      case match
      then show ?thesis
        using Some by (simp add: f'(1) exec_match)
    qed
  qed (simp add: f'(1) exec_outside)
qed simp

section \<open>Failing calls restore the slots\<close>

lemma exec_inner_saves:
  assumes "exec_inner alnum prog input f pc pos saves active = Done b saves'"
  shows "length saves' = length saves" "\<not> b \<Longrightarrow> saves' = saves"
proof -
  have "length saves' = length saves \<and> (\<not> b \<longrightarrow> saves' = saves)"
    using assms
  proof (induction f arbitrary: pc pos saves active b saves')
    case (Suc f)
    show ?case
    proof (cases "get_at prog pc")
      case (Some i)
      show ?thesis
      proof (cases rule: inst_kinds [of alnum i])
        case (split a c)
        show ?thesis
        proof (cases "(pc, pos) \<in> active")
          case True
          then show ?thesis
            using Suc Some split by (auto simp: exec_split)
        next
          case False
          obtain r s where rs: "exec_inner alnum prog input f a pos saves (insert (pc, pos) active) = Done r s"
            using Suc.prems Some split False by (auto simp: exec_split split: outcome.splits)
          show ?thesis
            using Suc.IH [OF rs] Suc.IH [of c pos s active] Suc.prems Some split False rs
            by (auto simp: exec_split split: bool.splits)
        qed
      next
        case (save k)
        then obtain r s where rs: "exec_inner alnum prog input f (pc + 1) pos (saves[k := Some pos]) active = Done r s"
          and k: "k < length saves"
          using Suc.prems Some by (auto simp: exec_save split: outcome.splits if_splits)
        then show ?thesis
          using Suc.IH [OF rs] Suc.prems Some save
          by (auto simp: exec_save split: bool.splits)
      qed (use Suc Some in \<open>auto simp: exec_steps split: option.splits bool.splits if_splits\<close>)
    qed (use Suc.prems in \<open>simp add: exec_outside\<close>)
  qed simp
  then show "length saves' = length saves" "\<not> b \<Longrightarrow> saves' = saves"
    by auto
qed

section \<open>A program that indexes in range\<close>

fun inst_ok :: "nat \<Rightarrow> nat \<Rightarrow> inst \<Rightarrow> bool" where
  "inst_ok slots len (ISave k) = (k < slots)"
| "inst_ok slots len (IJmp t) = (t < len)"
| "inst_ok slots len (ISplit a b) = (a < len \<and> b < len)"
| "inst_ok slots len i = True"

text \<open>Every target and slot is in range, and only a jump or the match ends the program.\<close>

definition prog_ok :: "nat \<Rightarrow> prog \<Rightarrow> bool" where
  "prog_ok slots prog \<longleftrightarrow> prog \<noteq> [] \<and> last prog = IMatch \<and> list_all (inst_ok slots (length prog)) prog"

lemma prog_ok_inst:
  assumes "prog_ok slots prog" "get_at prog pc = Some i"
  shows "inst_ok slots (length prog) i" "i \<noteq> IMatch \<Longrightarrow> pc + 1 < length prog"
proof -
  have pc: "pc < length prog" "prog ! pc = i"
    using assms(2) by (auto simp: get_at_Some_iff)
  then show "inst_ok slots (length prog) i"
    using assms(1) by (auto simp: prog_ok_def list_all_length)
  show "pc + 1 < length prog" if "i \<noteq> IMatch"
  proof (rule ccontr)
    assume "\<not> pc + 1 < length prog"
    then have "pc = length prog - 1"
      using pc by simp
    then show False
      using assms(1) pc that by (auto simp: prog_ok_def last_conv_nth)
  qed
qed

lemma asserts_in_range: "pos \<le> length input \<Longrightarrow> is_assertion i \<Longrightarrow> \<exists>b. asserts alnum i input pos = Some b"
  by (cases i) (auto simp: at_start_def at_end_def at_boundary_def get_at_def)

lemma exec_inner_no_panic:
  assumes "prog_ok (length saves) prog" "pc < length prog" "pos \<le> length input"
  shows "exec_inner alnum prog input f pc pos saves active \<noteq> Panicked"
  using assms
proof (induction f arbitrary: pc pos saves active)
  case (Suc f)
  obtain i where i: "get_at prog pc = Some i"
    using Suc.prems(2) by (auto simp: get_at_def)
  note ok = prog_ok_inst [OF Suc.prems(1) i]
  have ih: "exec_inner alnum prog input f pc pos saves' active \<noteq> Panicked"
    if "length saves' = length saves" "pc < length prog" "pos \<le> length input" for pc pos saves' active
    using Suc.IH [of saves' pc pos active] Suc.prems that by simp
  show ?case
  proof (cases rule: inst_kinds [of alnum i])
    case (split a b)
    then have ab: "a < length prog" "b < length prog"
      using ok(1) by simp_all
    show ?thesis
    proof (cases "exec_inner alnum prog input f a pos saves (insert (pc, pos) active)")
      case (Done r s)
      then show ?thesis
        using i split ab ih [of s b pos active] ih [of saves b pos active] Suc.prems exec_inner_saves(1) [OF Done]
        by (cases r) (simp_all add: exec_split)
    qed (use i split ab ih [of saves] Suc.prems in \<open>simp_all add: exec_split\<close>)
  next
    case (save k)
    have "exec_inner alnum prog input f (pc + 1) pos (saves[k := Some pos]) active \<noteq> Panicked"
      using ih ok save Suc.prems by simp
    then show ?thesis
      using i save ok by (simp add: exec_save split: outcome.splits bool.splits)
  next
    case assertion
    then have "pc + 1 < length prog"
      using ok(2) by (cases i) simp_all
    then show ?thesis
      using asserts_in_range [OF Suc.prems(3) assertion, of alnum] i assertion
        ih [of saves "pc + 1" pos active] Suc.prems(3)
      by (auto simp: exec_assert split: option.splits bool.splits)
  next
    case (consume ok')
    then have "pc + 1 < length prog"
      using ok(2) by (cases i) simp_all
    then show ?thesis
      using i consume ih [of saves "pc + 1" "pos + 1" active] by (auto simp: exec_consume)
  next
    case (jump t)
    then show ?thesis
      using i ok ih [of saves t pos active] Suc.prems(3) by (simp add: exec_jump)
  next
    case match
    then show ?thesis
      using i by (simp add: exec_match)
  qed
qed simp

end
