(* ===== verification/Regex_Logic.thy ===== *)
theory Regex_Logic
  imports Regex_Exec
begin

text \<open>
  A logic of compiled code. A node has a denotation in every algebra of the regular
  operations: its relation between configurations, or the mere fact that it consumes input.
  The locale \<open>code_logic\<close> is the contract between an algebra and a judgement \<open>E r p q\<close> on code
  that starts at address \<open>p\<close> and continues at \<open>q\<close>: one law for every shape of code that the
  compiler emits. From the laws, the code of every node is judged by the denotation of the
  node (\<open>emit_judged\<close>); soundness, completeness and termination of the executor are
  interpretations of the locale.
\<close>

section \<open>Algebras and denotations\<close>

record 'r algebra =
  a_skip :: 'r
  a_seq :: "'r \<Rightarrow> 'r \<Rightarrow> 'r"
  a_alt :: "'r \<Rightarrow> 'r \<Rightarrow> 'r"
  a_star :: "'r \<Rightarrow> 'r"
  a_item :: "inst \<Rightarrow> 'r"
  a_mark :: "nat \<Rightarrow> 'r"

definition a_seqs :: "'r algebra \<Rightarrow> 'r list \<Rightarrow> 'r" where
  "a_seqs alg rs = foldr (a_seq alg) rs (a_skip alg)"

fun a_alts :: "'r algebra \<Rightarrow> 'r list \<Rightarrow> 'r" where
  "a_alts alg [] = a_skip alg"
| "a_alts alg [r] = r"
| "a_alts alg (r # rs) = a_alt alg r (a_alts alg rs)"

primrec a_opts :: "'r algebra \<Rightarrow> 'r \<Rightarrow> nat \<Rightarrow> 'r" where
  "a_opts alg r 0 = a_skip alg"
| "a_opts alg r (Suc k) = a_alt alg (a_seq alg r (a_opts alg r k)) (a_skip alg)"

definition a_tail :: "'r algebra \<Rightarrow> 'r \<Rightarrow> nat \<Rightarrow> nat option \<Rightarrow> 'r" where
  "a_tail alg r mn mx = (case mx of None \<Rightarrow> a_star alg r | Some m \<Rightarrow> a_opts alg r (m - mn))"

primrec denote :: "'r algebra \<Rightarrow> node \<Rightarrow> 'r" where
  "denote alg NEmpty = a_skip alg"
| "denote alg (NChar c) = a_item alg (IChar c)"
| "denote alg NAnyChar = a_item alg IAnyChar"
| "denote alg (NClass items negated) = a_item alg (IClass items negated)"
| "denote alg NStart = a_item alg IStart"
| "denote alg NEnd = a_item alg IEnd"
| "denote alg (NWordBoundary b) = a_item alg (IWordBoundary b)"
| "denote alg (NConcat ns) = a_seqs alg (map (denote alg) ns)"
| "denote alg (NAlt ns) = a_alts alg (map (denote alg) ns)"
| "denote alg (NRepeat n mn mx greedy) =
     a_seqs alg (replicate mn (denote alg n) @ [a_tail alg (denote alg n) mn mx])"
| "denote alg (NGroup index n) =
     (case index of
        Some k \<Rightarrow> a_seq alg (a_mark alg (k * 2)) (a_seq alg (denote alg n) (a_mark alg (k * 2 + 1)))
      | None \<Rightarrow> denote alg n)"

text \<open>The unbounded repeats of a node are admitted by a condition on laziness and body.\<close>

primrec admits :: "'r algebra \<Rightarrow> (bool \<Rightarrow> 'r \<Rightarrow> bool) \<Rightarrow> node \<Rightarrow> bool" where
  "admits alg adm NEmpty = True"
| "admits alg adm (NChar c) = True"
| "admits alg adm NAnyChar = True"
| "admits alg adm (NClass items negated) = True"
| "admits alg adm NStart = True"
| "admits alg adm NEnd = True"
| "admits alg adm (NWordBoundary b) = True"
| "admits alg adm (NConcat ns) = list_all id (map (admits alg adm) ns)"
| "admits alg adm (NAlt ns) = list_all id (map (admits alg adm) ns)"
| "admits alg adm (NRepeat n mn mx greedy) =
     (admits alg adm n \<and> (mx = None \<longrightarrow> adm greedy (denote alg n)))"
| "admits alg adm (NGroup index n) = admits alg adm n"

text \<open>The save slots of a node.\<close>

primrec slots :: "node \<Rightarrow> nat set" where
  "slots NEmpty = {}"
| "slots (NChar c) = {}"
| "slots NAnyChar = {}"
| "slots (NClass items negated) = {}"
| "slots NStart = {}"
| "slots NEnd = {}"
| "slots (NWordBoundary b) = {}"
| "slots (NConcat ns) = \<Union> (set (map slots ns))"
| "slots (NAlt ns) = \<Union> (set (map slots ns))"
| "slots (NRepeat n mn mx greedy) = slots n"
| "slots (NGroup index n) =
     (case index of Some k \<Rightarrow> {k * 2, k * 2 + 1} | None \<Rightarrow> {}) \<union> slots n"

section \<open>The contract\<close>

locale code_logic =
  fixes alnum :: "scalar \<Rightarrow> bool"
    and prog :: prog
    and alg :: "'r algebra"
    and E :: "'r \<Rightarrow> nat \<Rightarrow> nat \<Rightarrow> bool"
    and adm :: "bool \<Rightarrow> 'r \<Rightarrow> bool"
    and slot_ok :: "nat \<Rightarrow> bool"
  assumes seq_skip: "a_seq alg r (a_skip alg) = r"
    and alt_comm: "a_alt alg r s = a_alt alg s r"
    and skip: "E (a_skip alg) p p"
    and seq: "E r p q \<Longrightarrow> E s q t \<Longrightarrow> E (a_seq alg r s) p t"
    and item: "get_at prog p = Some i \<Longrightarrow> consumes alnum i \<noteq> None \<or> is_assertion i \<Longrightarrow>
      E (a_item alg i) p (p + 1)"
    and mark: "get_at prog p = Some (ISave k) \<Longrightarrow> slot_ok k \<Longrightarrow> E (a_mark alg k) p (p + 1)"
    and jump: "get_at prog p = Some (IJmp t) \<Longrightarrow> E (a_skip alg) p t"
    and alt: "get_at prog p = Some (ISplit a b) \<Longrightarrow> E r a q \<Longrightarrow> E s b q \<Longrightarrow> E (a_alt alg r s) p q"
    and star: "get_at prog p = Some (split_to greedy (p + 1) q) \<Longrightarrow> get_at prog m = Some (IJmp p) \<Longrightarrow>
      adm greedy r \<Longrightarrow> E r (p + 1) m \<Longrightarrow> E (a_star alg r) p q"
begin

lemma seq_jump: "E r p q \<Longrightarrow> get_at prog q = Some (IJmp t) \<Longrightarrow> E r p t"
  using seq [OF _ jump, of r p q t] by (simp add: seq_skip)

lemma alt_split:
  assumes "get_at prog p = Some (split_to greedy a b)" "E r a q" "E s b q"
  shows "E (a_alt alg r s) p q"
proof (cases greedy)
  case True
  then have "get_at prog p = Some (ISplit a b)"
    using assms(1) by (simp add: split_to_def)
  from alt [OF this assms(2,3)] show ?thesis .
next
  case False
  then have "get_at prog p = Some (ISplit b a)"
    using assms(1) by (simp add: split_to_def)
  from alt [OF this assms(3,2)] show ?thesis
    by (subst alt_comm)
qed

lemma item_Suc:
  "get_at prog p = Some i \<Longrightarrow> consumes alnum i \<noteq> None \<or> is_assertion i \<Longrightarrow> E (a_item alg i) p (Suc p)"
  using item by simp

lemma seq_judged:
  assumes "list_all2 (\<lambda>e r. \<forall>p. code_at prog p (e p) \<longrightarrow> E r p (p + length (e p))) es rs"
    and "code_at prog p (emit_seq es p)"
  shows "E (a_seqs alg rs) p (p + length (emit_seq es p))"
  using assms
proof (induction es rs arbitrary: p rule: list_all2_induct)
  case Nil
  then show ?case by (simp add: a_seqs_def skip)
next
  case (Cons e es r rs)
  then have "E r p (p + length (e p))"
    "E (a_seqs alg rs) (p + length (e p)) (p + length (e p) + length (emit_seq es (p + length (e p))))"
    using code_at_appendD [of prog p "e p"] by simp_all
  from seq [OF this] show ?case
    by (simp add: a_seqs_def add.assoc)
qed

lemma alt_judged:
  assumes "list_all2 (\<lambda>e r. \<forall>p. code_at prog p (e p) \<longrightarrow> E r p (p + length (e p))) es rs"
    and "code_at prog p (emit_alt es p)"
  shows "E (a_alts alg rs) p (p + length (emit_alt es p))"
  using assms
proof (induction es p arbitrary: rs rule: emit_alt.induct)
  case (1 p)
  then show ?case by (simp add: skip)
next
  case (2 e p)
  then show ?case by (auto simp: list_all2_Cons1)
next
  case (3 e e' es p)
  then obtain r r' rs' where rs: "rs = r # r' # rs'" and e: "\<And>p. code_at prog p (e p) \<Longrightarrow> E r p (p + length (e p))"
    and es: "list_all2 (\<lambda>e r. \<forall>p. code_at prog p (e p) \<longrightarrow> E r p (p + length (e p))) (e' # es) (r' # rs')"
    by (auto simp: list_all2_Cons1)
  define q where "q = p + 1 + length (e (p + 1))"
  define rest where "rest = emit_alt (e' # es) (q + 1)"
  have code: "emit_alt (e # e' # es) p
      = ISplit (p + 1) (q + 1) # e (p + 1) @ IJmp (q + 1 + length rest) # rest"
    by (simp add: q_def rest_def Let_def)
  have split: "get_at prog p = Some (ISplit (p + 1) (q + 1))"
    and tail: "code_at prog (p + 1) (e (p + 1) @ IJmp (q + 1 + length rest) # rest)"
    using "3.prems"(2) unfolding code by (simp_all add: code_at_Cons)
  have body: "code_at prog (p + 1) (e (p + 1))" and jmp: "get_at prog q = Some (IJmp (q + 1 + length rest))"
    and after: "code_at prog (q + 1) rest"
    using code_at_appendD [OF tail] by (simp_all add: code_at_Cons q_def)
  have "E r (p + 1) (q + 1 + length rest)"
    using seq_jump [OF e [OF body]] jmp by (simp add: q_def)
  moreover have "E (a_alts alg (r' # rs')) (q + 1) (q + 1 + length rest)"
    using "3.IH" [OF refl refl es] after by (simp add: rest_def q_def)
  ultimately have "E (a_alt alg r (a_alts alg (r' # rs'))) p (q + 1 + length rest)"
    using alt [OF split] by blast
  moreover have "p + length (emit_alt (e # e' # es) p) = q + 1 + length rest"
    unfolding code by (simp add: q_def)
  ultimately show ?case
    by (simp only: rs a_alts.simps)
qed

lemma opt_judged:
  assumes "\<And>p. code_at prog p (e p) \<Longrightarrow> E r p (p + length (e p))"
    and "code_at prog p (emit_opt k e greedy q p)" and "q = p + length (emit_opt k e greedy q p)"
  shows "E (a_opts alg r k) p q"
  using assms(2,3)
proof (induction k arbitrary: p)
  case 0
  then show ?case by (simp add: skip)
next
  case (Suc k)
  let ?m = "p + 1 + length (e (p + 1))"
  have split: "get_at prog p = Some (split_to greedy (p + 1) q)"
    and tail: "code_at prog (p + 1) (e (p + 1) @ emit_opt k e greedy q ?m)"
    using Suc.prems(1) by (simp_all add: code_at_Cons)
  have "E r (p + 1) ?m"
    using assms(1) [OF code_at_appendD(1) [OF tail]] .
  moreover have "E (a_opts alg r k) ?m q"
    using Suc.IH [OF code_at_appendD(2) [OF tail]] Suc.prems(2) by simp
  ultimately show ?case
    using alt_split [OF split seq skip] by simp
qed

lemma star_judged:
  assumes "\<And>p. code_at prog p (e p) \<Longrightarrow> E r p (p + length (e p))"
    and "code_at prog p (emit_star e greedy p)" and "adm greedy r"
  shows "E (a_star alg r) p (p + length (emit_star e greedy p))"
proof -
  let ?c = "e (p + 1)"
  have split: "get_at prog p = Some (split_to greedy (p + 1) (p + 2 + length ?c))"
    and tail: "code_at prog (p + 1) (?c @ [IJmp p])"
    using assms(2) by (simp_all add: emit_star_def code_at_Cons Let_def)
  have "get_at prog (p + 1 + length ?c) = Some (IJmp p)"
    using code_at_appendD(2) [OF tail] by (simp add: code_at_Cons)
  from star [OF split this assms(3) assms(1) [OF code_at_appendD(1) [OF tail]]] show ?thesis
    by (simp add: emit_star_def Let_def)
qed

lemma tail_judged:
  assumes "\<And>p. code_at prog p (e p) \<Longrightarrow> E r p (p + length (e p))"
    and "code_at prog p (emit_tail e mn mx greedy p)" and "mx = None \<Longrightarrow> adm greedy r"
  shows "E (a_tail alg r mn mx) p (p + length (emit_tail e mn mx greedy p))"
proof (cases mx)
  case None
  then show ?thesis
    using star_judged [of e r p greedy] assms by (simp add: emit_tail_def a_tail_def)
next
  case (Some m)
  let ?q = "p + length (emit_opt (m - mn) e greedy 0 p)"
  have "length (emit_opt (m - mn) e greedy ?q p) = length (emit_opt (m - mn) e greedy 0 p)"
    using length_opt_raw [of "m - mn" e p greedy] by metis
  then show ?thesis
    using opt_judged [of e r p "m - mn" greedy ?q] assms Some by (simp add: emit_tail_def a_tail_def)
qed

lemma emit_judged:
  "admits alg adm n \<Longrightarrow> (\<And>k. k \<in> slots n \<Longrightarrow> slot_ok k) \<Longrightarrow> code_at prog p (emit n p) \<Longrightarrow>
   E (denote alg n) p (p + length (emit n p))"
proof (induction n arbitrary: p)
  case (NConcat ns)
  have "E (denote alg n) p (p + length (emit n p))" if "n \<in> set ns" "code_at prog p (emit n p)" for n p
    by (rule NConcat.IH) (use that NConcat.prems(1,2) in \<open>auto simp: list_all_iff\<close>)
  with NConcat.prems(3) show ?case
    by (auto intro!: seq_judged simp: list_all2_conv_all_nth)
next
  case (NAlt ns)
  have "E (denote alg n) p (p + length (emit n p))" if "n \<in> set ns" "code_at prog p (emit n p)" for n p
    by (rule NAlt.IH) (use that NAlt.prems(1,2) in \<open>auto simp: list_all_iff\<close>)
  with NAlt.prems(3) show ?case
    by (auto intro!: alt_judged simp: list_all2_conv_all_nth)
next
  case (NRepeat n mn mx greedy)
  have body: "\<And>p. code_at prog p (emit n p) \<Longrightarrow> E (denote alg n) p (p + length (emit n p))"
    using NRepeat by simp
  have "E (a_tail alg (denote alg n) mn mx) p (p + length (emit_tail (emit n) mn mx greedy p))"
    if "code_at prog p (emit_tail (emit n) mn mx greedy p)" for p
    by (rule tail_judged [OF body that]) (use NRepeat.prems in auto)
  with body NRepeat.prems(3) show ?case
    by (auto intro!: seq_judged simp: list_all2_append list_all2_conv_all_nth nth_append)
next
  case (NGroup index n)
  show ?case
  proof (cases index)
    case (Some k)
    have save: "get_at prog p = Some (ISave (k * 2))"
      and tail: "code_at prog (p + 1) (emit n (p + 1) @ [ISave (k * 2 + 1)])"
      using NGroup.prems(3) Some by (simp_all add: code_at_Cons)
    let ?q = "p + 1 + length (emit n (p + 1))"
    have close: "get_at prog ?q = Some (ISave (k * 2 + 1))"
      using code_at_appendD(2) [OF tail] by (simp add: code_at_Cons)
    have "E (denote alg n) (p + 1) ?q"
      using NGroup.IH [of "p + 1"] NGroup.prems code_at_appendD(1) [OF tail] by simp
    with mark [OF save] mark [OF close] have
      "E (a_seq alg (a_mark alg (k * 2)) (a_seq alg (denote alg n) (a_mark alg (k * 2 + 1)))) p (?q + 1)"
      using NGroup.prems(2) Some by (intro seq) auto
    then show ?thesis
      using Some by simp
  qed (use NGroup in simp)
qed (auto simp: skip code_at_Cons intro!: item_Suc)

end

end
