(* ===== verification/Regex_Parse.thy ===== *)
theory Regex_Parse
  imports Regex_Logic
begin

text \<open>
  What the regular-expression parser promises: it returns with the fuel it starts with, the
  groups of the tree are numbered below the group counter it returns, and the counts of the
  repeats are ordered and bounded. From this, the program of a parsed pattern is well formed.
\<close>

section \<open>Well-formed trees\<close>

primrec counts_ok :: "node \<Rightarrow> bool" where
  "counts_ok NEmpty = True"
| "counts_ok (NChar c) = True"
| "counts_ok NAnyChar = True"
| "counts_ok (NClass items negated) = True"
| "counts_ok NStart = True"
| "counts_ok NEnd = True"
| "counts_ok (NWordBoundary b) = True"
| "counts_ok (NConcat ns) = list_all id (map counts_ok ns)"
| "counts_ok (NAlt ns) = list_all id (map counts_ok ns)"
| "counts_ok (NRepeat n mn mx greedy) =
     (counts_ok n \<and> mn \<le> MAX_REPEAT \<and> (case mx of None \<Rightarrow> True | Some m \<Rightarrow> mn \<le> m \<and> m \<le> MAX_REPEAT))"
| "counts_ok (NGroup index n) = counts_ok n"

definition node_ok :: "nat \<Rightarrow> nat \<Rightarrow> node \<Rightarrow> bool" where
  "node_ok g g' n \<longleftrightarrow> counts_ok n \<and> slots n \<subseteq> {2 * g..<2 * g'}"

lemma node_ok_mono: "node_ok g g' n \<Longrightarrow> h \<le> g \<Longrightarrow> g' \<le> h' \<Longrightarrow> node_ok h h' n"
  by (fastforce simp: node_ok_def)

lemma node_ok_simple:
  "node_ok g g' NEmpty" "node_ok g g' (NChar c)" "node_ok g g' NAnyChar" "node_ok g g' NStart"
  "node_ok g g' NEnd" "node_ok g g' (NWordBoundary b)" "node_ok g g' (NClass items negated)"
  by (simp_all add: node_ok_def)

lemma node_ok_many:
  assumes "\<forall>n\<in>set ns. node_ok g g' n"
  shows "node_ok g g' (NAlt ns)" "node_ok g g' (NConcat ns)"
  using assms by (fastforce simp: node_ok_def list_all_iff)+

lemma node_ok_alt_of: "\<forall>n\<in>set ns. node_ok g g' n \<Longrightarrow> node_ok g g' (alt_of ns)"
  using node_ok_many(1) [of ns g g'] by (auto simp: alt_of_def split: list.splits)

lemma node_ok_concat_of: "\<forall>n\<in>set ns. node_ok g g' n \<Longrightarrow> node_ok g g' (concat_of ns)"
  using node_ok_many(2) [of ns g g'] by (auto simp: concat_of_def node_ok_simple split: list.splits)

text \<open>
  A result of a parser at group counter \<open>g\<close>: it is not out of fuel, leaves at most \<open>len\<close>
  scalars and its nodes are well formed.
\<close>

definition ok_result :: "('a \<Rightarrow> node set) \<Rightarrow> nat \<Rightarrow> nat \<Rightarrow> regex_error + ('a \<times> pstate) \<Rightarrow> bool" where
  "ok_result nodes len g res \<longleftrightarrow>
     (case res of
        Inl e \<Rightarrow> e \<noteq> RegexOutOfFuel
      | Inr (x, s, g') \<Rightarrow> length s \<le> len \<and> g \<le> g' \<and> (\<forall>n\<in>nodes x. node_ok g g' n))"

lemma ok_result_simps [simp]:
  "ok_result nodes len g (Inl e) \<longleftrightarrow> e \<noteq> RegexOutOfFuel"
  "ok_result nodes len g (Inr (x, s, g')) \<longleftrightarrow> length s \<le> len \<and> g \<le> g' \<and> (\<forall>n\<in>nodes x. node_ok g g' n)"
  by (simp_all add: ok_result_def)

abbreviation one :: "node \<Rightarrow> node set" where
  "one n \<equiv> {n}"

lemma first_is_Cons: "first_is s c \<Longrightarrow> s = byte c # tl s"
  by (cases s) (auto simp: first_is_def get_at_def)

lemma first_is_length: "first_is s c \<Longrightarrow> length (tl s) < length s"
  by (metis first_is_Cons length_Cons lessI)

section \<open>Atoms and quantifiers\<close>

lemma class_char_fuel: "class_char s \<noteq> Inl RegexOutOfFuel"
  by (cases s) (auto split: list.splits)

lemma class_items_ok:
  "class_items items s \<noteq> Inl RegexOutOfFuel \<and> (\<forall>x r. class_items items s = Inr (x, r) \<longrightarrow> length r < length s)"
proof (induction "length s" arbitrary: items s rule: less_induct)
  case less
  show ?case
  proof (cases "s = [] \<or> first_is s CHR '']'' \<or> (\<exists>e. class_char s = Inl e)")
    case True
    then show ?thesis
      using first_is_length [of s "CHR '']''"] class_char_fuel [of s] by (auto simp: class_items.simps [of items s])
  next
    case False
    then obtain a r where ar: "class_char s = Inr (a, r)"
      by (cases "class_char s") auto
    have r: "length r < length s"
      using ar class_char_shorter by blast
    have rest: "class_items is t \<noteq> Inl RegexOutOfFuel \<and> (\<forall>x q. class_items is t = Inr (x, q) \<longrightarrow> length q < length s)"
      if "length t \<le> length r" for "is" t
      using less.hyps [of t "is"] that r by fastforce
    show ?thesis
    proof (cases a)
      case (AItem item)
      then show ?thesis
        using False ar rest [of r] by (simp add: class_items.simps [of items s])
    next
      case (AChar lo)
      show ?thesis
      proof (cases "first_is r CHR ''-'' \<and> get_at r 1 \<noteq> Some (byte CHR '']'')")
        case True
        show ?thesis
        proof (cases "class_char (tl r)")
          case (Inl e)
          then show ?thesis
            using True False ar AChar class_char_fuel [of "tl r"] by (auto simp: class_items.simps [of items s])
        next
          case (Inr br)
          obtain b r' where br: "br = (b, r')"
            by (cases br)
          have "length r' \<le> length r"
            using Inr br class_char_shorter [of "tl r" b r'] by simp
          then show ?thesis
            using True False ar AChar Inr br rest [of r']
            by (cases b) (simp_all add: class_items.simps [of items s])
        qed
      next
        case no_range: False
        then show ?thesis
          using False ar AChar rest [of r] by (auto simp: class_items.simps [of items s])
      qed
    qed
  qed
qed

lemma parse_class_ok:
  assumes "first_is s CHR ''[''"
  shows "ok_result one (length s - 1) g (with_groups g (parse_class s))"
proof -
  define r where "r = (if first_is (tl s) CHR ''^'' then tl (tl s) else tl s)"
  have "length r < length s"
    using first_is_length [OF assms] by (auto simp: r_def)
  then show ?thesis
    using class_items_ok [of "[]" r]
    by (auto simp: parse_class_def with_groups_def Let_def node_ok_simple simp flip: r_def split: sum.splits)
qed

lemma parse_escape_ok:
  assumes "first_is s CHR 0x5C"
  shows "ok_result one (length s - 1) g (with_groups g (parse_escape s))"
  using first_is_Cons [OF assms]
  by (auto simp: parse_escape_def with_groups_def escape_node_def class_node_def node_ok_simple split: list.splits)

lemma counted_bounds_length: "counted_bounds s = Some (b, r) \<Longrightarrow> length r \<le> length s"
  by (auto simp: counted_bounds_def parse_count_def Let_def split: if_splits)

lemma parse_bounds_ok:
  "parse_bounds s \<noteq> Inl RegexOutOfFuel"
  "parse_bounds s = Inr (Some ((mn, mx), r)) \<Longrightarrow>
     length r \<le> length s \<and> mn \<le> MAX_REPEAT \<and> (\<forall>m. mx = Some m \<longrightarrow> mn \<le> m \<and> m \<le> MAX_REPEAT)"
proof -
  show "parse_bounds s \<noteq> Inl RegexOutOfFuel"
    by (auto simp: parse_bounds_def parse_counted_def split: option.splits prod.splits)
  assume *: "parse_bounds s = Inr (Some ((mn, mx), r))"
  show "length r \<le> length s \<and> mn \<le> MAX_REPEAT \<and> (\<forall>m. mx = Some m \<longrightarrow> mn \<le> m \<and> m \<le> MAX_REPEAT)"
    using * counted_bounds_length [of "tl s" "(mn, mx)" r]
    by (auto simp: parse_bounds_def parse_counted_def MAX_REPEAT_def split: option.splits prod.splits if_splits)
qed

lemma quantified_ok:
  assumes "node_ok g g' atom" "g \<le> g'"
  shows "ok_result one (length s) g (with_groups g' (quantified atom s))"
proof (cases "parse_bounds s")
  case (Inl e)
  then show ?thesis
    using parse_bounds_ok(1) [of s] by (auto simp: quantified_def with_groups_def)
next
  case (Inr b)
  show ?thesis
  proof (cases b)
    case None
    then show ?thesis
      using Inr assms by (simp add: quantified_def with_groups_def)
  next
    case (Some c)
    obtain mn mx r where c: "c = ((mn, mx), r)"
      by (metis prod.exhaust)
    have "length r \<le> length s" "node_ok g g' (NRepeat atom mn mx greedy)" for greedy
      using parse_bounds_ok(2) [of s mn mx r] Inr Some c assms
      by (auto simp: node_ok_def split: option.splits)
    then show ?thesis
      using Inr Some c assms by (auto simp: quantified_def with_groups_def intro: le_trans [of _ "length r"])
  qed
qed

section \<open>The recursive parser\<close>

definition ok_parser :: "nat \<Rightarrow> branch_parser \<Rightarrow> bool" where
  "ok_parser len alternation \<longleftrightarrow>
     (\<forall>st. length (fst st) \<le> len \<longrightarrow> ok_result set (length (fst st)) (snd st) (alternation st))"

lemma parse_group_ok:
  assumes "ok_parser len alternation" "length s \<le> Suc len" "first_is s CHR ''(''"
  shows "ok_result one (length s - 1) g (parse_group alternation (s, g))"
proof -
  let ?r = "tl s"
  let ?plain = "first_is ?r CHR ''?''"
  let ?st = "if ?plain then (drop 2 ?r, g) else (?r, g + 1)"
  have len: "length (fst ?st) \<le> length s - 1" "length s - 1 \<le> len"
    using assms(2) by auto
  then have "ok_result set (length (fst ?st)) (snd ?st) (alternation ?st)"
    using assms(1) unfolding ok_parser_def by (meson le_trans)
  then have "ok_result set (length s - 1) (snd ?st) (alternation ?st)"
    using len(1) by (cases "alternation ?st") (auto simp: ok_result_def)
  moreover have "node_ok g g' (NGroup (if ?plain then None else Some g) (alt_of bs))"
    if "\<forall>n\<in>set bs. node_ok (snd ?st) g' n" "snd ?st \<le> g'" for bs g'
    using node_ok_alt_of [of bs "snd ?st" g'] that by (fastforce simp: node_ok_def split: if_splits)
  ultimately show ?thesis
    by (cases "alternation ?st")
      (auto simp: parse_group_def Let_def split: if_splits)
qed

lemma parse_atom_ok:
  assumes "ok_parser len alternation" "length s \<le> Suc len" "s \<noteq> []"
  shows "ok_result one (length s - 1) g (parse_atom alternation (s, g))"
  using assms parse_group_ok [OF assms(1,2)] parse_class_ok [of s g] parse_escape_ok [of s g]
  by (cases s) (auto simp: parse_atom_def literal_atom_def Let_def node_ok_simple)

lemma parse_repeat_ok:
  assumes "ok_parser len alternation" "length s \<le> Suc len" "s \<noteq> []"
  shows "ok_result one (length s - 1) g (parse_repeat alternation (s, g))"
proof (cases "parse_atom alternation (s, g)")
  case (Inl e)
  then show ?thesis
    using parse_atom_ok [OF assms, of g] by (simp add: parse_repeat_def)
next
  case (Inr x)
  obtain atom r g' where x: "x = (atom, r, g')"
    by (metis prod.exhaust)
  have atom: "length r \<le> length s - 1" "g \<le> g'" "node_ok g g' atom"
    using parse_atom_ok [OF assms, of g] Inr x by auto
  have "ok_result one (length s - 1) g (with_groups g' (quantified atom r))"
    using quantified_ok [OF atom(3,2), of r] atom(1)
    by (cases "with_groups g' (quantified atom r)") (auto simp: ok_result_def)
  then show ?thesis
    using Inr x by (simp add: parse_repeat_def)
qed

lemma parse_concat_ok:
  assumes alternation: "\<And>n. 2 * n + 2 \<le> f \<Longrightarrow> ok_parser n (parse_alternation f)"
    and concat: "\<And>n s g. 2 * n + 1 \<le> f \<Longrightarrow> length s \<le> n \<Longrightarrow> ok_result set (length s) g (parse_concat f (s, g))"
    and "2 * n \<le> f" "length s \<le> n"
  shows "ok_result set (length s) g (parse_concat (Suc f) (s, g))"
proof (cases "concat_ends s")
  case False
  then have s: "s \<noteq> []"
    by (auto simp: concat_ends_def)
  then obtain m where m: "n = Suc m"
    using assms(4) by (cases n) auto
  have rep: "ok_result one (length s - 1) g (parse_repeat (parse_alternation f) (s, g))"
    by (rule parse_repeat_ok [OF alternation [of m]]) (use assms(3,4) m s in auto)
  show ?thesis
  proof (cases "parse_repeat (parse_alternation f) (s, g)")
    case (Inl e)
    then show ?thesis
      using rep False by simp
  next
    case (Inr x)
    obtain node r g' where x: "x = (node, r, g')"
      by (metis prod.exhaust)
    have node: "length r \<le> length s - 1" "g \<le> g'" "node_ok g g' node"
      using rep Inr x by auto
    have rest: "ok_result set (length r) g' (parse_concat f (r, g'))"
      by (rule concat [of m]) (use assms(3,4) m node(1) in auto)
    show ?thesis
    proof (cases "parse_concat f (r, g')")
      case (Inl e)
      then show ?thesis
        using rest False Inr x by simp
    next
      case Inr2: (Inr y)
      obtain nodes t g'' where y: "y = (nodes, t, g'')"
        by (metis prod.exhaust)
      have "length t \<le> length r" "g' \<le> g''" "\<forall>n\<in>set nodes. node_ok g' g'' n"
        using rest Inr2 y by auto
      moreover have "\<forall>n\<in>set nodes. node_ok g g'' n" "node_ok g g'' node"
        using calculation node node_ok_mono by blast+
      ultimately show ?thesis
        using False Inr x Inr2 y node by auto
    qed
  qed
qed simp

lemma parse_alternation_ok:
  assumes alternation: "\<And>n. 2 * n + 2 \<le> f \<Longrightarrow> ok_parser n (parse_alternation f)"
    and concat: "\<And>n s g. 2 * n + 1 \<le> f \<Longrightarrow> length s \<le> n \<Longrightarrow> ok_result set (length s) g (parse_concat f (s, g))"
    and "2 * n + 1 \<le> f" "length s \<le> n"
  shows "ok_result set (length s) g (parse_alternation (Suc f) (s, g))"
proof (cases "parse_concat f (s, g)")
  case (Inl e)
  then show ?thesis
    using concat [OF assms(3,4), of g] by simp
next
  case (Inr x)
  obtain nodes r g' where x: "x = (nodes, r, g')"
    by (metis prod.exhaust)
  have r: "length r \<le> length s" "g \<le> g'" "node_ok g g' (concat_of nodes)"
    using concat [OF assms(3,4), of g] Inr x by (auto intro: node_ok_concat_of)
  show ?thesis
  proof (cases "first_is r CHR ''|''")
    case False
    then show ?thesis
      using Inr x r by simp
  next
    case True
    have less: "length (tl r) < length r"
      using first_is_length [OF True] .
    then obtain m where m: "n = Suc m"
      using assms(4) r(1) by (cases n) auto
    have "ok_parser m (parse_alternation f)"
      using alternation assms(3) m by simp
    moreover have "length (tl r) \<le> m"
      using less r(1) assms(4) m by linarith
    ultimately have rest: "ok_result set (length (tl r)) g' (parse_alternation f (tl r, g'))"
      unfolding ok_parser_def by (metis fst_conv snd_conv)
    show ?thesis
    proof (cases "parse_alternation f (tl r, g')")
      case (Inl e)
      then show ?thesis
        using rest True Inr x by simp
    next
      case Inr2: (Inr y)
      obtain branches t g'' where y: "y = (branches, t, g'')"
        by (metis prod.exhaust)
      have "length t \<le> length (tl r)" "g' \<le> g''" "\<forall>n\<in>set branches. node_ok g' g'' n"
        using rest Inr2 y by auto
      moreover have "\<forall>n\<in>set branches. node_ok g g'' n" "node_ok g g'' (concat_of nodes)"
        using calculation r node_ok_mono by blast+
      ultimately show ?thesis
        using True Inr x Inr2 y r less by auto
    qed
  qed
qed

lemma parse_loops_ok:
  "(\<forall>n. 2 * n + 2 \<le> f \<longrightarrow> ok_parser n (parse_alternation f)) \<and>
   (\<forall>n s g. 2 * n + 1 \<le> f \<longrightarrow> length s \<le> n \<longrightarrow> ok_result set (length s) g (parse_concat f (s, g)))"
proof (induction f)
  case (Suc f)
  have "ok_result set (length s) g (parse_concat (Suc f) (s, g))"
    if "2 * n + 1 \<le> Suc f" "length s \<le> n" for n s g
    by (rule parse_concat_ok [of f n]) (use Suc.IH that in auto)
  moreover have "ok_result set (length s) g (parse_alternation (Suc f) (s, g))"
    if "2 * n + 2 \<le> Suc f" "length s \<le> n" for n s g
    by (rule parse_alternation_ok [of f n]) (use Suc.IH that in auto)
  ultimately show ?case
    unfolding ok_parser_def by (metis prod.collapse)
qed simp

lemma parse_pattern_ok:
  "parse_pattern pattern \<noteq> Inl RegexOutOfFuel"
  "parse_pattern pattern = Inr (ast, g) \<Longrightarrow> 1 \<le> g \<and> node_ok 1 g ast"
proof -
  let ?f = "2 * length pattern + 2"
  have "ok_parser (length pattern) (parse_alternation ?f)"
    using parse_loops_ok [of ?f] by blast
  then have ok: "ok_result set (length pattern) 1 (parse_alternation ?f (pattern, 1))"
    unfolding ok_parser_def by (metis fst_conv order_refl snd_conv)
  show "parse_pattern pattern \<noteq> Inl RegexOutOfFuel"
    using ok by (auto simp del: parse_alternation.simps simp: parse_pattern_def ok_result_def
        split: sum.splits list.splits prod.splits)
  show "1 \<le> g \<and> node_ok 1 g ast" if "parse_pattern pattern = Inr (ast, g)"
    using ok that by (auto simp del: parse_alternation.simps simp: parse_pattern_def ok_result_def
        intro: node_ok_alt_of split: sum.splits list.splits prod.splits)
qed

section \<open>The program of a parsed pattern\<close>

text \<open>Targets up to the address after the code, and the slots of the node.\<close>

fun inst_within :: "nat set \<Rightarrow> nat \<Rightarrow> inst \<Rightarrow> bool" where
  "inst_within S e (ISave k) = (k \<in> S)"
| "inst_within S e (IJmp t) = (t \<le> e)"
| "inst_within S e (ISplit a b) = (a \<le> e \<and> b \<le> e)"
| "inst_within S e IMatch = False"
| "inst_within S e i = True"

definition code_within :: "nat set \<Rightarrow> nat \<Rightarrow> prog \<Rightarrow> bool" where
  "code_within S e c \<longleftrightarrow> (\<forall>i\<in>set c. inst_within S e i)"

lemma inst_within_mono: "inst_within S e i \<Longrightarrow> S \<subseteq> T \<Longrightarrow> e \<le> e' \<Longrightarrow> inst_within T e' i"
  by (cases i) auto

lemma code_within_mono: "code_within S e c \<Longrightarrow> S \<subseteq> T \<Longrightarrow> e \<le> e' \<Longrightarrow> code_within T e' c"
  using inst_within_mono unfolding code_within_def by blast

lemma code_within_simps [simp]:
  "code_within S e []" "code_within S e (i # c) \<longleftrightarrow> inst_within S e i \<and> code_within S e c"
  "code_within S e (c @ d) \<longleftrightarrow> code_within S e c \<and> code_within S e d"
  by (auto simp: code_within_def)

definition emits_within :: "nat set \<Rightarrow> (nat \<Rightarrow> prog) \<Rightarrow> bool" where
  "emits_within S e \<longleftrightarrow> (\<forall>p. code_within S (p + length (e p)) (e p))"

lemma emits_withinD: "emits_within S e \<Longrightarrow> p + length (e p) \<le> q \<Longrightarrow> code_within S q (e p)"
  unfolding emits_within_def using code_within_mono by blast

lemma emits_within_mono: "emits_within S e \<Longrightarrow> S \<subseteq> T \<Longrightarrow> emits_within T e"
  unfolding emits_within_def using code_within_mono by blast

lemma seq_within: "\<forall>e\<in>set es. emits_within S e \<Longrightarrow> emits_within S (emit_seq es)"
proof (induction es)
  case (Cons e es)
  show ?case
    unfolding emits_within_def
  proof
    fix p
    have "code_within S (p + length (e p) + length (emit_seq es (p + length (e p)))) (emit_seq es (p + length (e p)))"
      using Cons unfolding emits_within_def by simp
    then show "code_within S (p + length (emit_seq (e # es) p)) (emit_seq (e # es) p)"
      using Cons.prems by (auto intro: emits_withinD simp: add.assoc)
  qed
qed (simp add: emits_within_def)

lemma alt_within: "\<forall>e\<in>set es. emits_within S e \<Longrightarrow> code_within S (p + length (emit_alt es p)) (emit_alt es p)"
proof (induction es p rule: emit_alt.induct)
  case (2 e p)
  then show ?case by (simp add: emits_within_def)
next
  case (3 e e' es p)
  let ?c = "e (p + 1)"
  let ?q = "p + 1 + length ?c"
  let ?rest = "emit_alt (e' # es) (?q + 1)"
  have "code_within S (?q + 1 + length ?rest) ?rest"
    using "3.IH" [OF refl refl] "3.prems" by simp
  moreover have "code_within S (?q + 1 + length ?rest) ?c"
    by (rule emits_withinD) (use "3.prems" in auto)
  ultimately show ?case
    by (simp add: Let_def add_ac)
qed simp

lemma opt_within:
  "emits_within S e \<Longrightarrow> p + length (emit_opt k e greedy q p) \<le> q \<Longrightarrow> code_within S q (emit_opt k e greedy q p)"
proof (induction k arbitrary: p)
  case (Suc k)
  have "code_within S q (e (p + 1))"
    by (rule emits_withinD) (use Suc.prems in auto)
  moreover have "code_within S q (emit_opt k e greedy q (p + 1 + length (e (p + 1))))"
    using Suc by simp
  ultimately show ?case
    using Suc.prems(2) by (simp add: split_to_def)
qed simp

lemma tail_within:
  assumes "emits_within S e"
  shows "emits_within S (emit_tail e mn mx greedy)"
  unfolding emits_within_def
proof
  fix p
  show "code_within S (p + length (emit_tail e mn mx greedy p)) (emit_tail e mn mx greedy p)"
  proof (cases mx)
    case None
    have "code_within S (p + 2 + length (e (p + 1))) (e (p + 1))"
      by (rule emits_withinD [OF assms]) simp
    then show ?thesis
      using None by (auto simp: emit_tail_def emit_star_def split_to_def Let_def)
  next
    case (Some m)
    let ?q = "p + length (emit_opt (m - mn) e greedy 0 p)"
    have "length (emit_opt (m - mn) e greedy ?q p) = length (emit_opt (m - mn) e greedy 0 p)"
      using length_opt_raw [of "m - mn" e p greedy] by metis
    then show ?thesis
      using Some opt_within [OF assms, of p "m - mn" greedy ?q] by (simp add: emit_tail_def)
  qed
qed

lemma emit_within: "emits_within (slots n) (emit n)"
proof (induction n)
  case (NConcat ns)
  have "emits_within (slots (NConcat ns)) (emit n)" if "n \<in> set ns" for n
    by (rule emits_within_mono [OF NConcat [OF that]]) (use that in auto)
  then show ?case
    using seq_within [of "map emit ns"] by simp
next
  case (NAlt ns)
  have "emits_within (slots (NAlt ns)) (emit n)" if "n \<in> set ns" for n
    by (rule emits_within_mono [OF NAlt [OF that]]) (use that in auto)
  then show ?case
    using alt_within [of "map emit ns"] by (simp add: emits_within_def)
next
  case (NRepeat n mn mx greedy)
  have "emits_within (slots n) e" if "e \<in> set (replicate mn (emit n) @ [emit_tail (emit n) mn mx greedy])" for e
    using that tail_within [OF NRepeat] NRepeat by (auto simp: set_replicate_conv_if split: if_splits)
  then show ?case
    unfolding emit.simps slots.simps by (intro seq_within ballI)
next
  case (NGroup index n)
  have "code_within (slots (NGroup (Some k) n)) (p + (2 + length (emit n (p + 1)))) (emit n (p + 1))" for k p
    by (rule code_within_mono [OF emits_withinD [OF NGroup, of "p + 1" "p + (2 + length (emit n (p + 1)))"]]) auto
  then show ?case
    using NGroup by (cases index) (simp_all add: emits_within_def)
qed (simp_all add: emits_within_def)

lemma inst_within_ok: "inst_within S e i \<Longrightarrow> S \<subseteq> {..<n} \<Longrightarrow> e < len \<Longrightarrow> inst_ok n len i"
  by (cases i) auto

lemma compiled_ok:
  assumes "1 \<le> g" "slots ast \<subseteq> {..<2 * g}"
  shows "prog_ok (2 * g) (compile_program ast)"
proof -
  have "code_within (slots ast) (1 + length (emit ast 1)) (emit ast 1)"
    using emit_within unfolding emits_within_def by blast
  then have "inst_ok (2 * g) (length (emit ast 1) + 3) i" if "i \<in> set (emit ast 1)" for i
    using inst_within_ok [OF _ assms(2)] that unfolding code_within_def by fastforce
  then show ?thesis
    using assms(1) by (auto simp: prog_ok_def compile_program_emit list_all_iff numeral_3_eq_3)
qed

lemma compiled_code:
  "code_at (compile_program ast) 1 (emit ast 1)"
  "get_at (compile_program ast) 0 = Some (ISave 0)"
  "get_at (compile_program ast) (1 + length (emit ast 1)) = Some (ISave 1)"
  "get_at (compile_program ast) (2 + length (emit ast 1)) = Some IMatch"
proof -
  have code: "code_at (compile_program ast) 0 (ISave 0 # emit ast 1 @ [ISave 1, IMatch])"
    using code_at_program [of "compile_program ast"] by (simp add: compile_program_emit)
  then have "code_at (compile_program ast) (0 + 1) (emit ast 1 @ [ISave 1, IMatch])"
    unfolding code_at_Cons by blast
  from code_at_appendD [OF this]
  show "code_at (compile_program ast) 1 (emit ast 1)"
    "get_at (compile_program ast) (1 + length (emit ast 1)) = Some (ISave 1)"
    "get_at (compile_program ast) (2 + length (emit ast 1)) = Some IMatch"
    by (simp_all add: code_at_Cons)
  show "get_at (compile_program ast) 0 = Some (ISave 0)"
    using code by (simp add: code_at_Cons)
qed

end
