(* ===== verification/Regex_Sound.thy ===== *)
theory Regex_Sound
  imports Regex_Logic
begin

text \<open>
  The reference semantics of a node: a relation between configurations (a position and the
  save slots), built from the regular operations on relations. The executor is sound for it
  on every pattern, whatever the set of active splits does: a successful run follows the
  relation.
\<close>

section \<open>Reference semantics\<close>

type_synonym config = "nat \<times> saves"

definition item_rel :: "(scalar \<Rightarrow> bool) \<Rightarrow> ustr \<Rightarrow> inst \<Rightarrow> config rel" where
  "item_rel alnum input i =
     {((pos, saves), (pos', saves')). saves' = saves \<and>
        (case consumes alnum i of
           Some ok \<Rightarrow> pos < length input \<and> ok (input ! pos) \<and> pos' = pos + 1
         | None \<Rightarrow> asserts alnum i input pos = Some True \<and> pos' = pos)}"

definition mark_rel :: "nat \<Rightarrow> config rel" where
  "mark_rel k = {((pos, saves), (pos', saves')). pos' = pos \<and> saves' = saves[k := Some pos]}"

definition rel_algebra :: "(scalar \<Rightarrow> bool) \<Rightarrow> ustr \<Rightarrow> config rel algebra" where
  "rel_algebra alnum input =
     \<lparr> a_skip = Id, a_seq = (O), a_alt = (\<union>), a_star = rtrancl,
       a_item = item_rel alnum input, a_mark = mark_rel \<rparr>"

definition matches :: "(scalar \<Rightarrow> bool) \<Rightarrow> ustr \<Rightarrow> node \<Rightarrow> config rel" where
  "matches alnum input n = denote (rel_algebra alnum input) n"

lemma rel_algebra_simps [simp]:
  "a_skip (rel_algebra alnum input) = Id" "a_seq (rel_algebra alnum input) = (O)"
  "a_alt (rel_algebra alnum input) = (\<union>)" "a_star (rel_algebra alnum input) = rtrancl"
  "a_item (rel_algebra alnum input) = item_rel alnum input" "a_mark (rel_algebra alnum input) = mark_rel"
  by (simp_all add: rel_algebra_def)

lemma in_mark_rel [simp]: "((i, sv), (j, sv')) \<in> mark_rel k \<longleftrightarrow> j = i \<and> sv' = sv[k := Some i]"
  by (auto simp: mark_rel_def)

section \<open>Soundness\<close>

text \<open>A successful run through the code passes its end in a related configuration.\<close>

definition sound_code :: "(scalar \<Rightarrow> bool) \<Rightarrow> ustr \<Rightarrow> prog \<Rightarrow> config rel \<Rightarrow> nat \<Rightarrow> nat \<Rightarrow> bool" where
  "sound_code alnum input prog R p q \<longleftrightarrow>
     (\<forall>f i sv A sv'. exec_inner alnum prog input f p i sv A = Done True sv' \<longrightarrow>
        (\<exists>f' j sv1 A'. f' \<le> f \<and> ((i, sv), (j, sv1)) \<in> R \<and>
           exec_inner alnum prog input f' q j sv1 A' = Done True sv'))"

lemma sound_codeD:
  assumes "sound_code alnum input prog R p q" "exec_inner alnum prog input f p i sv A = Done True sv'"
  obtains f' j sv1 A' where "f' \<le> f" "((i, sv), (j, sv1)) \<in> R"
    "exec_inner alnum prog input f' q j sv1 A' = Done True sv'"
  using assms unfolding sound_code_def by blast

lemma sound_codeI:
  assumes "\<And>f i sv A sv'. exec_inner alnum prog input (Suc f) p i sv A = Done True sv' \<Longrightarrow>
      \<exists>f' j sv1 A'. f' \<le> Suc f \<and> ((i, sv), (j, sv1)) \<in> R \<and>
        exec_inner alnum prog input f' q j sv1 A' = Done True sv'"
  shows "sound_code alnum input prog R p q"
  unfolding sound_code_def
proof (intro allI impI)
  fix f i sv A sv'
  assume *: "exec_inner alnum prog input f p i sv A = Done True sv'"
  then obtain g where "f = Suc g"
    by (cases f) auto
  with * show "\<exists>f' j sv1 A'. f' \<le> f \<and> ((i, sv), (j, sv1)) \<in> R \<and>
      exec_inner alnum prog input f' q j sv1 A' = Done True sv'"
    using assms by blast
qed

lemma exec_split_True:
  assumes "get_at prog p = Some (ISplit a b)" "exec_inner alnum prog input (Suc f) p i sv A = Done True sv'"
  obtains A' where "exec_inner alnum prog input f a i sv A' = Done True sv'"
    | A' where "exec_inner alnum prog input f b i sv A' = Done True sv'"
proof (cases "(p, i) \<in> A")
  case True
  then show ?thesis
    using assms that by (simp add: exec_split)
next
  case False
  then show ?thesis
    using assms that exec_inner_saves(2) [of alnum prog input f a i sv "insert (p, i) A" False]
    by (auto simp: exec_split split: outcome.splits bool.splits)
qed

lemma sound_item:
  assumes i: "get_at prog p = Some i" "consumes alnum i \<noteq> None \<or> is_assertion i"
  shows "sound_code alnum input prog (item_rel alnum input i) p (p + 1)"
proof (rule sound_codeI)
  fix f pos sv A sv'
  assume run: "exec_inner alnum prog input (Suc f) p pos sv A = Done True sv'"
  show "\<exists>f' j sv1 A'. f' \<le> Suc f \<and> ((pos, sv), (j, sv1)) \<in> item_rel alnum input i \<and>
      exec_inner alnum prog input f' (p + 1) j sv1 A' = Done True sv'"
  proof (cases "consumes alnum i")
    case (Some ok)
    then have "pos < length input \<and> ok (input ! pos)"
      "exec_inner alnum prog input f (p + 1) (pos + 1) sv A = Done True sv'"
      using run i exec_consume [OF i(1) Some] by (auto split: if_splits)
    then show ?thesis
      using Some by (intro exI [of _ f] exI [of _ "pos + 1"] exI [of _ sv] exI [of _ A]) (simp add: item_rel_def)
  next
    case None
    then have "asserts alnum i input pos = Some True"
      "exec_inner alnum prog input f (p + 1) pos sv A = Done True sv'"
      using run i exec_assert [OF i(1)] by (auto split: option.splits bool.splits)
    then show ?thesis
      using None by (intro exI [of _ f] exI [of _ pos] exI [of _ sv] exI [of _ A]) (simp add: item_rel_def)
  qed
qed

lemma sound_mark:
  assumes "get_at prog p = Some (ISave k)"
  shows "sound_code alnum input prog (mark_rel k) p (p + 1)"
proof (rule sound_codeI)
  fix f pos sv A sv'
  assume "exec_inner alnum prog input (Suc f) p pos sv A = Done True sv'"
  then have "exec_inner alnum prog input f (p + 1) pos (sv[k := Some pos]) A = Done True sv'"
    using assms by (auto simp: exec_save split: if_splits outcome.splits bool.splits)
  then show "\<exists>f' j sv1 A'. f' \<le> Suc f \<and> ((pos, sv), (j, sv1)) \<in> mark_rel k \<and>
      exec_inner alnum prog input f' (p + 1) j sv1 A' = Done True sv'"
    by (intro exI [of _ f] exI [of _ pos] exI [of _ "sv[k := Some pos]"] exI [of _ A]) simp
qed

lemma sound_alt:
  assumes "get_at prog p = Some (ISplit a b)" "sound_code alnum input prog R a q"
    "sound_code alnum input prog S b q"
  shows "sound_code alnum input prog (R \<union> S) p q"
proof (rule sound_codeI)
  fix f i sv A sv'
  assume run: "exec_inner alnum prog input (Suc f) p i sv A = Done True sv'"
  have *: "\<exists>f' j sv1 A'. f' \<le> Suc f \<and> ((i, sv), (j, sv1)) \<in> R \<union> S \<and>
      exec_inner alnum prog input f' q j sv1 A' = Done True sv'"
    if "sound_code alnum input prog T c q" "T \<subseteq> R \<union> S" "exec_inner alnum prog input f c i sv A' = Done True sv'"
    for T c A'
    using sound_codeD [OF that(1,3)] that(2) le_Suc_eq by (metis subsetD)
  from assms(1) run show "\<exists>f' j sv1 A'. f' \<le> Suc f \<and> ((i, sv), (j, sv1)) \<in> R \<union> S \<and>
      exec_inner alnum prog input f' q j sv1 A' = Done True sv'"
    by (cases rule: exec_split_True) (use * assms(2,3) in blast)+
qed

lemma sound_star:
  assumes "get_at prog p = Some (split_to greedy (p + 1) q)" "get_at prog m = Some (IJmp p)"
    "sound_code alnum input prog R (p + 1) m"
  shows "sound_code alnum input prog (R\<^sup>*) p q"
  unfolding sound_code_def
proof (intro allI impI)
  fix f i sv A sv'
  assume "exec_inner alnum prog input f p i sv A = Done True sv'"
  then show "\<exists>f' j sv1 A'. f' \<le> f \<and> ((i, sv), (j, sv1)) \<in> R\<^sup>* \<and>
      exec_inner alnum prog input f' q j sv1 A' = Done True sv'"
  proof (induction f arbitrary: i sv A rule: less_induct)
    case (less f)
    then obtain g where f: "f = Suc g"
      by (cases f) auto
    obtain A' c where c: "c = p + 1 \<or> c = q" "exec_inner alnum prog input g c i sv A' = Done True sv'"
      using assms(1) less.prems unfolding f split_to_def
      by (cases greedy) (auto elim!: exec_split_True)
    from c(1) show ?case
    proof
      assume "c = p + 1"
      with c obtain g' j sv1 A1 where step: "g' \<le> g" "((i, sv), (j, sv1)) \<in> R"
        "exec_inner alnum prog input g' m j sv1 A1 = Done True sv'"
        using sound_codeD [OF assms(3)] by metis
      then obtain h where h: "g' = Suc h" "exec_inner alnum prog input h p j sv1 A1 = Done True sv'"
        using exec_jump [OF assms(2)] by (cases g') auto
      then obtain f' k sv2 A2 where "f' \<le> h" "((j, sv1), (k, sv2)) \<in> R\<^sup>*"
        "exec_inner alnum prog input f' q k sv2 A2 = Done True sv'"
        using less.IH [of h j sv1 A1] f step(1) by auto
      moreover have "((i, sv), (k, sv2)) \<in> R\<^sup>*"
        using step(2) \<open>((j, sv1), (k, sv2)) \<in> R\<^sup>*\<close> by (rule converse_rtrancl_into_rtrancl)
      moreover have "f' \<le> f"
        using \<open>f' \<le> h\<close> h step f by simp
      ultimately show ?thesis by blast
    next
      assume "c = q"
      with c f show ?thesis
        by (intro exI [of _ g] exI [of _ i] exI [of _ sv] exI [of _ A']) simp
    qed
  qed
qed

lemma sound_skip: "sound_code alnum input prog Id p p"
  unfolding sound_code_def by blast

lemma sound_jump: "get_at prog p = Some (IJmp t) \<Longrightarrow> sound_code alnum input prog Id p t"
  by (rule sound_codeI) (metis IdI exec_jump le_SucI order_refl)

lemma sound_seq:
  assumes "sound_code alnum input prog R p q" "sound_code alnum input prog S q t"
  shows "sound_code alnum input prog (R O S) p t"
  unfolding sound_code_def
proof (intro allI impI)
  fix f i sv A sv'
  assume "exec_inner alnum prog input f p i sv A = Done True sv'"
  with assms(1) obtain f' j sv1 A' where 1: "f' \<le> f" "((i, sv), (j, sv1)) \<in> R"
    "exec_inner alnum prog input f' q j sv1 A' = Done True sv'"
    by (rule sound_codeD)
  from assms(2) 1(3) obtain f'' k sv2 A2 where "f'' \<le> f'" "((j, sv1), (k, sv2)) \<in> S"
    "exec_inner alnum prog input f'' t k sv2 A2 = Done True sv'"
    by (rule sound_codeD)
  then show "\<exists>f' j sv1 A'. f' \<le> f \<and> ((i, sv), (j, sv1)) \<in> R O S \<and>
      exec_inner alnum prog input f' t j sv1 A' = Done True sv'"
    using 1 by (meson le_trans relcomp.relcompI)
qed

interpretation soundness: code_logic alnum prog "rel_algebra alnum input" "sound_code alnum input prog"
  "\<lambda>_ _. True" "\<lambda>_. True" for alnum input prog
proof (unfold_locales, unfold rel_algebra_simps)
  show "R O Id = R" "R \<union> S = S \<union> R" for R S :: "config rel"
    by auto
qed (rule sound_skip sound_seq sound_item sound_mark sound_jump sound_alt sound_star; assumption)+

end
