(* ===== verification/Regex_Search.thy ===== *)
theory Regex_Search
  imports Regex_Sound
begin

text \<open>
  Plain backtracking search, without save slots and without the set of active splits, as a
  step relation with the height of the search tree. Where the search ends, the executor ends
  with the same answer (\<open>exec_follows_search\<close>): on the stack of a search that ends no state
  repeats, so the set of active splits is never consulted with success.
\<close>

section \<open>The search relation\<close>

inductive search :: "(scalar \<Rightarrow> bool) \<Rightarrow> prog \<Rightarrow> ustr \<Rightarrow> nat \<Rightarrow> nat \<Rightarrow> nat \<Rightarrow> bool \<Rightarrow> bool"
  for alnum :: "scalar \<Rightarrow> bool" and prog :: prog and input :: ustr where
  consume: "get_at prog pc = Some i \<Longrightarrow> consumes alnum i = Some ok \<Longrightarrow> pos < length input \<Longrightarrow>
    ok (input ! pos) \<Longrightarrow> search alnum prog input h (pc + 1) (pos + 1) b \<Longrightarrow>
    search alnum prog input (Suc h) pc pos b"
| mismatch: "get_at prog pc = Some i \<Longrightarrow> consumes alnum i = Some ok \<Longrightarrow>
    \<not> (pos < length input \<and> ok (input ! pos)) \<Longrightarrow> search alnum prog input 0 pc pos False"
| holds: "get_at prog pc = Some i \<Longrightarrow> is_assertion i \<Longrightarrow> asserts alnum i input pos = Some True \<Longrightarrow>
    search alnum prog input h (pc + 1) pos b \<Longrightarrow> search alnum prog input (Suc h) pc pos b"
| fails: "get_at prog pc = Some i \<Longrightarrow> is_assertion i \<Longrightarrow> asserts alnum i input pos = Some False \<Longrightarrow>
    search alnum prog input 0 pc pos False"
| save: "get_at prog pc = Some (ISave k) \<Longrightarrow> search alnum prog input h (pc + 1) pos b \<Longrightarrow>
    search alnum prog input (Suc h) pc pos b"
| jump: "get_at prog pc = Some (IJmp t) \<Longrightarrow> search alnum prog input h t pos b \<Longrightarrow>
    search alnum prog input (Suc h) pc pos b"
| first: "get_at prog pc = Some (ISplit a c) \<Longrightarrow> search alnum prog input h a pos True \<Longrightarrow>
    search alnum prog input (Suc h) pc pos True"
| second: "get_at prog pc = Some (ISplit a c) \<Longrightarrow> search alnum prog input h a pos False \<Longrightarrow>
    search alnum prog input h' c pos b \<Longrightarrow> search alnum prog input (Suc (max h h')) pc pos b"
| match: "get_at prog pc = Some IMatch \<Longrightarrow> search alnum prog input 0 pc pos True"

inductive_cases search_at: "search alnum prog input h pc pos b"

text \<open>The search from a state, by the instruction there.\<close>

lemma search_consume:
  assumes i: "get_at prog pc = Some i" "consumes alnum i = Some ok"
  shows "search alnum prog input h pc pos b \<longleftrightarrow>
    (if pos < length input \<and> ok (input ! pos)
     then \<exists>g. h = Suc g \<and> search alnum prog input g (pc + 1) (pos + 1) b else h = 0 \<and> \<not> b)"
    (is "?l = ?r")
proof
  show "?l \<Longrightarrow> ?r"
    using i by (cases i) (auto elim: search_at)
  show "?r \<Longrightarrow> ?l"
    using search.consume [OF i] search.mismatch [OF i] by (auto split: if_splits)
qed

lemma search_assert:
  assumes i: "get_at prog pc = Some i" "is_assertion i"
  shows "search alnum prog input h pc pos b \<longleftrightarrow>
    (asserts alnum i input pos = Some True \<and> (\<exists>g. h = Suc g \<and> search alnum prog input g (pc + 1) pos b)
     \<or> asserts alnum i input pos = Some False \<and> h = 0 \<and> \<not> b)"
    (is "?l = ?r")
proof
  show "?l \<Longrightarrow> ?r"
    using i by (cases i) (auto elim: search_at)
  show "?r \<Longrightarrow> ?l"
    using search.holds [OF i] search.fails [OF i] by auto
qed

lemma search_save:
  assumes "get_at prog pc = Some (ISave k)"
  shows "search alnum prog input h pc pos b \<longleftrightarrow> (\<exists>g. h = Suc g \<and> search alnum prog input g (pc + 1) pos b)"
  using assms by (auto elim: search_at intro: search.intros)

lemma search_jump:
  assumes "get_at prog pc = Some (IJmp t)"
  shows "search alnum prog input h pc pos b \<longleftrightarrow> (\<exists>g. h = Suc g \<and> search alnum prog input g t pos b)"
  using assms by (auto elim: search_at intro: search.intros)

lemma search_split:
  assumes "get_at prog pc = Some (ISplit a c)"
  shows "search alnum prog input h pc pos b \<longleftrightarrow>
    (b \<and> (\<exists>g. h = Suc g \<and> search alnum prog input g a pos True)
     \<or> (\<exists>g g'. h = Suc (max g g') \<and> search alnum prog input g a pos False \<and> search alnum prog input g' c pos b))"
  using assms by (auto elim: search_at intro: search.intros)

lemma search_match:
  assumes "get_at prog pc = Some IMatch"
  shows "search alnum prog input h pc pos b \<longleftrightarrow> h = 0 \<and> b"
  using assms by (auto elim: search_at intro: search.intros)

lemmas search_steps = search_consume search_assert search_save search_jump search_split search_match

lemma search_unique:
  "search alnum prog input h pc pos b \<Longrightarrow> search alnum prog input h' pc pos b' \<Longrightarrow> h' = h \<and> b' = b"
proof (induction arbitrary: h' b' rule: search.induct)
  case (consume pc i ok pos h b)
  from consume.prems obtain g where g: "h' = Suc g" "search alnum prog input g (pc + 1) (pos + 1) b'"
    using consume.hyps by (auto simp: search_consume [OF consume.hyps(1,2)])
  then show ?case
    using consume.IH [OF g(2)] by simp
next
  case (mismatch pc i ok pos)
  then show ?case
    using search_consume [OF mismatch.hyps(1,2), of input h' pos b'] by auto
next
  case (holds pc i pos h b)
  from holds.prems obtain g where g: "h' = Suc g" "search alnum prog input g (pc + 1) pos b'"
    using holds.hyps by (auto simp: search_assert [OF holds.hyps(1,2)])
  then show ?case
    using holds.IH [OF g(2)] by simp
next
  case (fails pc i pos)
  then show ?case
    using search_assert [OF fails.hyps(1,2), of alnum input h' pos b'] by auto
next
  case (save pc k h pos b)
  from save.prems obtain g where g: "h' = Suc g" "search alnum prog input g (pc + 1) pos b'"
    using save.hyps by (auto simp: search_save [OF save.hyps(1)])
  then show ?case
    using save.IH [OF g(2)] by simp
next
  case (jump pc t h pos b)
  from jump.prems obtain g where g: "h' = Suc g" "search alnum prog input g t pos b'"
    using jump.hyps by (auto simp: search_jump [OF jump.hyps(1)])
  then show ?case
    using jump.IH [OF g(2)] by simp
next
  case (first pc a c h pos)
  have "False" if "search alnum prog input g a pos False" for g
    using first.IH [OF that] by simp
  moreover have "g = h" if "search alnum prog input g a pos True" for g
    using first.IH [OF that] by simp
  ultimately show ?case
    using first.prems unfolding search_split [OF first.hyps(1)] by metis
next
  case (second pc a c h pos g b)
  have "False" if "search alnum prog input k a pos True" for k
    using second.IH(1) [OF that] by simp
  moreover have "k = h" if "search alnum prog input k a pos False" for k
    using second.IH(1) [OF that] by simp
  moreover have "k = g \<and> r = b" if "search alnum prog input k c pos r" for k r
    using second.IH(2) [OF that] .
  ultimately show ?case
    using second.prems unfolding search_split [OF second.hyps(1)] by metis
next
  case (match pc pos)
  then show ?case
    using search_match [OF match.hyps(1), of alnum input h' pos b'] by simp
qed

section \<open>The executor follows the search\<close>

lemma exec_follows_search:
  assumes "search alnum prog input h pc pos b"
    and "\<And>k. ISave k \<in> set prog \<Longrightarrow> k < length saves"
    and "\<And>k x. (k, x) \<in> A \<Longrightarrow> \<exists>g c. h < g \<and> search alnum prog input g k x c"
  shows "\<exists>f saves'. exec_inner alnum prog input f pc pos saves A = Done b saves'"
  using assms
proof (induction arbitrary: saves A rule: search.induct)
  case (consume pc i ok pos h b)
  have "\<exists>g c. h < g \<and> search alnum prog input g k x c" if "(k, x) \<in> A" for k x
    using consume.prems(2) [OF that] Suc_lessD by blast
  then obtain f saves' where "exec_inner alnum prog input f (pc + 1) (pos + 1) saves A = Done b saves'"
    using consume.IH consume.prems(1) by blast
  then show ?case
    using consume.hyps by (intro exI [of _ "Suc f"] exI [of _ saves']) (simp add: exec_consume)
next
  case (mismatch pc i ok pos)
  then show ?case
    by (intro exI [of _ "Suc 0"] exI [of _ saves]) (simp add: exec_consume)
next
  case (holds pc i pos h b)
  have "\<exists>g c. h < g \<and> search alnum prog input g k x c" if "(k, x) \<in> A" for k x
    using holds.prems(2) [OF that] Suc_lessD by blast
  then obtain f saves' where "exec_inner alnum prog input f (pc + 1) pos saves A = Done b saves'"
    using holds.IH holds.prems(1) by blast
  then show ?case
    using holds.hyps by (intro exI [of _ "Suc f"] exI [of _ saves']) (simp add: exec_assert)
next
  case (fails pc i pos)
  then show ?case
    by (intro exI [of _ "Suc 0"] exI [of _ saves]) (simp add: exec_assert)
next
  case (save pc k h pos b)
  have k: "k < length saves"
    using save.hyps(1) save.prems(1) by (metis get_at_Some_iff nth_mem)
  have "\<exists>g c. h < g \<and> search alnum prog input g k x c" if "(k, x) \<in> A" for k x
    using save.prems(2) [OF that] Suc_lessD by blast
  then obtain f saves' where "exec_inner alnum prog input f (pc + 1) pos (saves[k := Some pos]) A = Done b saves'"
    using save.IH [of "saves[k := Some pos]" A] save.prems(1) by auto
  then show ?case
    using save.hyps k by (intro exI [of _ "Suc f"]) (cases b; simp add: exec_save)
next
  case (jump pc t h pos b)
  have "\<exists>g c. h < g \<and> search alnum prog input g k x c" if "(k, x) \<in> A" for k x
    using jump.prems(2) [OF that] Suc_lessD by blast
  then obtain f saves' where "exec_inner alnum prog input f t pos saves A = Done b saves'"
    using jump.IH jump.prems(1) by blast
  then show ?case
    using jump.hyps by (intro exI [of _ "Suc f"] exI [of _ saves']) (simp add: exec_jump)
next
  case (first pc a c h pos)
  have this_search: "search alnum prog input (Suc h) pc pos True"
    by (rule search.first [OF first.hyps(1,2)])
  have "(pc, pos) \<notin> A"
    using first.prems(2) search_unique [OF this_search] by blast
  moreover have "\<exists>g c. h < g \<and> search alnum prog input g k x c" if "(k, x) \<in> insert (pc, pos) A" for k x
    using that first.prems(2) [of k x] this_search Suc_lessD by blast
  then obtain f saves' where "exec_inner alnum prog input f a pos saves (insert (pc, pos) A) = Done True saves'"
    using first.IH first.prems(1) by blast
  ultimately show ?case
    using first.hyps by (intro exI [of _ "Suc f"] exI [of _ saves']) (simp add: exec_split)
next
  case (second pc a c h pos g b)
  have this_search: "search alnum prog input (Suc (max h g)) pc pos b"
    by (rule search.second [OF second.hyps(1-3)])
  have "(pc, pos) \<notin> A"
    using second.prems(2) search_unique [OF this_search] by blast
  moreover have "\<exists>g c. h < g \<and> search alnum prog input g k x c" if "(k, x) \<in> insert (pc, pos) A" for k x
  proof (cases "(k, x) \<in> A")
    case True
    then show ?thesis
      using second.prems(2) [OF True] by (meson Suc_lessD max.strict_boundedE)
  next
    case False
    then show ?thesis
      using that this_search by (intro exI [of _ "Suc (max h g)"] exI [of _ b]) simp
  qed
  then obtain f saves' where f: "exec_inner alnum prog input f a pos saves (insert (pc, pos) A) = Done False saves'"
    using second.IH(1) second.prems(1) by blast
  moreover have "\<exists>h c. g < h \<and> search alnum prog input h k x c" if "(k, x) \<in> A" for k x
    using second.prems(2) [OF that] by (meson Suc_lessD max.strict_boundedE)
  then obtain f' saves'' where f': "exec_inner alnum prog input f' c pos saves A = Done b saves''"
    using second.IH(2) second.prems(1) by blast
  moreover have "saves' = saves"
    using exec_inner_saves(2) [OF f] by simp
  moreover have "exec_inner alnum prog input (max f f') a pos saves (insert (pc, pos) A) = Done False saves'"
    "exec_inner alnum prog input (max f f') c pos saves A = Done b saves''"
    using exec_inner_mono [of alnum prog input f a pos saves _ "max f f'"]
      exec_inner_mono [of alnum prog input f' c pos saves _ "max f f'"] f f' by simp_all
  ultimately show ?case
    using second.hyps by (intro exI [of _ "Suc (max f f')"] exI [of _ saves'']) (simp add: exec_split)
next
  case (match pc pos)
  then show ?case
    by (intro exI [of _ "Suc 0"] exI [of _ saves]) (simp add: exec_match)
qed

end
