(* ===== verification/Regex_Halts.thy ===== *)
theory Regex_Halts
  imports Regex_Search
begin

text \<open>
  Termination and failure. The width of a node says whether all its matches consume input.
  \<open>halting\<close> is the interface of the termination argument: a predicate on states that a step
  of a program carries backwards; the search relation and the executor both satisfy it, and
  the executor satisfies the stronger \<open>guarded_halting\<close> because of its set of active splits.
  The last section shows that a failing search refutes every match of the node.
\<close>

section \<open>Width\<close>

definition width_algebra :: "bool algebra" where
  "width_algebra =
     \<lparr> a_skip = False, a_seq = (\<or>), a_alt = (\<and>), a_star = (\<lambda>_. False),
       a_item = (\<lambda>i. \<not> is_assertion i), a_mark = (\<lambda>_. False) \<rparr>"

lemma width_algebra_simps [simp]:
  "a_skip width_algebra = False" "a_seq width_algebra = (\<or>)" "a_alt width_algebra = (\<and>)"
  "a_star width_algebra = (\<lambda>_. False)" "a_item width_algebra = (\<lambda>i. \<not> is_assertion i)"
  "a_mark width_algebra = (\<lambda>_. False)"
  by (simp_all add: width_algebra_def)

section \<open>The interface of the termination argument\<close>

text \<open>
  Code ends when it does so whenever every continuation does: at a later position, strictly
  later if the code consumes input, with at least the active splits of the start.
\<close>

definition ends_code :: "ustr \<Rightarrow> nat \<Rightarrow> (nat \<Rightarrow> nat \<Rightarrow> saves \<Rightarrow> active \<Rightarrow> bool) \<Rightarrow> bool \<Rightarrow> nat \<Rightarrow> nat \<Rightarrow> bool" where
  "ends_code input n H w p q \<longleftrightarrow>
     (\<forall>i sv A. i \<le> length input \<longrightarrow> length sv = n \<longrightarrow>
        (\<forall>j sv' A'. i \<le> j \<longrightarrow> (w \<longrightarrow> i < j) \<longrightarrow> j \<le> length input \<longrightarrow> length sv' = n \<longrightarrow> A \<subseteq> A' \<longrightarrow> H q j sv' A') \<longrightarrow>
        H p i sv A)"

lemma ends_codeI:
  assumes "\<And>i sv A. i \<le> length input \<Longrightarrow> length sv = n \<Longrightarrow>
      (\<And>j sv' A'. i \<le> j \<Longrightarrow> (w \<Longrightarrow> i < j) \<Longrightarrow> j \<le> length input \<Longrightarrow> length sv' = n \<Longrightarrow> A \<subseteq> A' \<Longrightarrow> H q j sv' A') \<Longrightarrow>
      H p i sv A"
  shows "ends_code input n H w p q"
  using assms unfolding ends_code_def by blast

lemma ends_codeD:
  assumes "ends_code input n H w p q" "i \<le> length input" "length sv = n"
    and "\<And>j sv' A'. i \<le> j \<Longrightarrow> (w \<Longrightarrow> i < j) \<Longrightarrow> j \<le> length input \<Longrightarrow> length sv' = n \<Longrightarrow> A \<subseteq> A' \<Longrightarrow> H q j sv' A'"
  shows "H p i sv A"
  using assms unfolding ends_code_def by blast

locale halting =
  fixes alnum :: "scalar \<Rightarrow> bool" and input :: ustr and prog :: prog and n :: nat
    and H :: "nat \<Rightarrow> nat \<Rightarrow> saves \<Rightarrow> active \<Rightarrow> bool"
  assumes item_step: "get_at prog pc = Some i \<Longrightarrow> consumes alnum i = Some ok \<Longrightarrow>
      (pos < length input \<Longrightarrow> H (pc + 1) (pos + 1) sv A) \<Longrightarrow> H pc pos sv A"
    and assert_step: "get_at prog pc = Some i \<Longrightarrow> is_assertion i \<Longrightarrow> pos \<le> length input \<Longrightarrow>
      H (pc + 1) pos sv A \<Longrightarrow> H pc pos sv A"
    and save_step: "get_at prog pc = Some (ISave k) \<Longrightarrow> k < length sv \<Longrightarrow>
      H (pc + 1) pos (sv[k := Some pos]) A \<Longrightarrow> H pc pos sv A"
    and jump_step: "get_at prog pc = Some (IJmp t) \<Longrightarrow> H t pos sv A \<Longrightarrow> H pc pos sv A"
    and split_step: "get_at prog pc = Some (ISplit a b) \<Longrightarrow> H a pos sv (insert (pc, pos) A) \<Longrightarrow>
      H b pos sv A \<Longrightarrow> H pc pos sv A"
    and match_step: "get_at prog pc = Some IMatch \<Longrightarrow> H pc pos sv A"
begin

lemma ends_item:
  assumes "get_at prog p = Some i" "consumes alnum i \<noteq> None \<or> is_assertion i"
  shows "ends_code input n H (\<not> is_assertion i) p (p + 1)"
proof (rule ends_codeI)
  fix pos and sv :: saves and A :: active
  assume pos: "pos \<le> length input" "length sv = n"
    and rest: "\<And>j sv' A'. pos \<le> j \<Longrightarrow> (\<not> is_assertion i \<Longrightarrow> pos < j) \<Longrightarrow> j \<le> length input \<Longrightarrow>
      length sv' = n \<Longrightarrow> A \<subseteq> A' \<Longrightarrow> H (p + 1) j sv' A'"
  show "H p pos sv A"
  proof (cases "is_assertion i")
    case True
    then show ?thesis
      using assert_step [OF assms(1) True pos(1)] rest [of pos sv A] pos by simp
  next
    case False
    then obtain ok where "consumes alnum i = Some ok"
      using assms(2) by auto
    then show ?thesis
      using item_step [OF assms(1)] rest [of "pos + 1" sv A] pos by simp
  qed
qed

lemma ends_mark:
  assumes "get_at prog p = Some (ISave k)" "k < n"
  shows "ends_code input n H False p (p + 1)"
  by (rule ends_codeI) (use assms save_step in auto)

lemma ends_jump: "get_at prog p = Some (IJmp t) \<Longrightarrow> ends_code input n H False p t"
  by (rule ends_codeI) (use jump_step in auto)

lemma ends_skip: "ends_code input n H False p p"
  by (rule ends_codeI) simp

lemma ends_seq:
  assumes "ends_code input n H v p q" "ends_code input n H w q t"
  shows "ends_code input n H (v \<or> w) p t"
proof (rule ends_codeI)
  fix i and sv :: saves and A :: active
  assume i: "i \<le> length input" "length sv = n"
    and rest: "\<And>j sv' A'. i \<le> j \<Longrightarrow> (v \<or> w \<Longrightarrow> i < j) \<Longrightarrow> j \<le> length input \<Longrightarrow> length sv' = n \<Longrightarrow> A \<subseteq> A' \<Longrightarrow> H t j sv' A'"
  show "H p i sv A"
  proof (rule ends_codeD [OF assms(1) i])
    fix j and sv' :: saves and A' :: active
    assume j: "i \<le> j" "v \<Longrightarrow> i < j" "j \<le> length input" "length sv' = n" "A \<subseteq> A'"
    show "H q j sv' A'"
    proof (rule ends_codeD [OF assms(2) j(3,4)])
      fix k and sv'' :: saves and A'' :: active
      assume "j \<le> k" "w \<Longrightarrow> j < k" "k \<le> length input" "length sv'' = n" "A' \<subseteq> A''"
      then show "H t k sv'' A''"
        using j rest [of k sv'' A''] by (meson le_trans le_less_trans less_le_trans subset_trans)
    qed
  qed
qed

lemma ends_alt:
  assumes "get_at prog p = Some (ISplit a b)" "ends_code input n H v a q" "ends_code input n H w b q"
  shows "ends_code input n H (v \<and> w) p q"
proof (rule ends_codeI)
  fix i and sv :: saves and A :: active
  assume i: "i \<le> length input" "length sv = n"
    and rest: "\<And>j sv' A'. i \<le> j \<Longrightarrow> (v \<and> w \<Longrightarrow> i < j) \<Longrightarrow> j \<le> length input \<Longrightarrow> length sv' = n \<Longrightarrow> A \<subseteq> A' \<Longrightarrow> H q j sv' A'"
  have "H a i sv (insert (p, i) A)"
    by (rule ends_codeD [OF assms(2) i]) (use rest in auto)
  moreover have "H b i sv A"
    by (rule ends_codeD [OF assms(3) i]) (use rest in auto)
  ultimately show "H p i sv A"
    by (rule split_step [OF assms(1)])
qed

lemma ends_star:
  assumes split: "get_at prog p = Some (split_to greedy (p + 1) q)" and jmp: "get_at prog m = Some (IJmp p)"
    and body: "ends_code input n H True (p + 1) m"
  shows "ends_code input n H False p q"
proof (rule ends_codeI)
  fix i and sv :: saves and A :: active
  assume "i \<le> length input" "length sv = n"
    and "\<And>j sv' A'. i \<le> j \<Longrightarrow> (False \<Longrightarrow> i < j) \<Longrightarrow> j \<le> length input \<Longrightarrow> length sv' = n \<Longrightarrow> A \<subseteq> A' \<Longrightarrow> H q j sv' A'"
  then show "H p i sv A"
  proof (induction "length input - i" arbitrary: i sv A rule: less_induct)
    case less
    have body_ends: "H (p + 1) i sv B" if "A \<subseteq> B" for B
    proof (rule ends_codeD [OF body less.prems(1,2)])
      fix j and sv' :: saves and A' :: active
      assume j: "i \<le> j" "True \<Longrightarrow> i < j" "j \<le> length input" "length sv' = n" "B \<subseteq> A'"
      have "H p j sv' A'"
      proof (rule less.hyps)
        show "H q k sv'' A''" if "j \<le> k" "k \<le> length input" "length sv'' = n" "A' \<subseteq> A''" for k sv'' A''
          using that j \<open>A \<subseteq> B\<close> by (intro less.prems(3)) auto
      qed (use j in auto)
      then show "H m j sv' A'"
        by (rule jump_step [OF jmp])
    qed
    have exit_ends: "H q i sv B" if "A \<subseteq> B" for B
      using that less.prems by simp
    have "A \<subseteq> insert (p, i) A" by auto
    note ends = body_ends [OF this] body_ends [OF order_refl] exit_ends [OF this] exit_ends [OF order_refl]
    show ?case
    proof (cases greedy)
      case True
      then show ?thesis
        using split ends by (intro split_step [of p "p + 1" q]) (simp_all add: split_to_def)
    next
      case False
      then show ?thesis
        using split ends by (intro split_step [of p q "p + 1"]) (simp_all add: split_to_def)
    qed
  qed
qed

end

text \<open>
  An active split takes its second branch, so a greedy loop whose body made no progress is left.
\<close>

locale guarded_halting = halting +
  assumes reentry: "get_at prog pc = Some (ISplit a b) \<Longrightarrow> (pc, pos) \<in> A \<Longrightarrow> H b pos sv A \<Longrightarrow> H pc pos sv A"
begin

lemma ends_greedy_star:
  assumes split: "get_at prog p = Some (split_to True (p + 1) q)" and jmp: "get_at prog m = Some (IJmp p)"
    and body: "ends_code input n H w (p + 1) m"
  shows "ends_code input n H False p q"
proof (rule ends_codeI)
  have split: "get_at prog p = Some (ISplit (p + 1) q)"
    using split by (simp add: split_to_def)
  fix i and sv :: saves and A :: active
  assume "i \<le> length input" "length sv = n"
    and "\<And>j sv' A'. i \<le> j \<Longrightarrow> (False \<Longrightarrow> i < j) \<Longrightarrow> j \<le> length input \<Longrightarrow> length sv' = n \<Longrightarrow> A \<subseteq> A' \<Longrightarrow> H q j sv' A'"
  then show "H p i sv A"
  proof (induction "length input - i" arbitrary: i sv A rule: less_induct)
    case less
    have "H (p + 1) i sv (insert (p, i) A)"
    proof (rule ends_codeD [OF body less.prems(1,2)])
      fix j and sv' :: saves and A' :: active
      assume j: "i \<le> j" "j \<le> length input" "length sv' = n" "insert (p, i) A \<subseteq> A'"
      have "H p j sv' A'"
      proof (cases "j = i")
        case True
        then show ?thesis
          using j less.prems(3) [of i sv' A'] by (intro reentry [OF split]) auto
      next
        case False
        show ?thesis
        proof (rule less.hyps)
          show "H q k sv'' A''" if "j \<le> k" "k \<le> length input" "length sv'' = n" "A' \<subseteq> A''" for k sv'' A''
            using that j by (intro less.prems(3)) auto
        qed (use j False in auto)
      qed
      then show "H m j sv' A'"
        by (rule jump_step [OF jmp])
    qed
    moreover have "H q i sv A"
      using less.prems by simp
    ultimately show ?case
      by (rule split_step [OF split])
  qed
qed

end

sublocale halting \<subseteq> consuming: code_logic alnum prog width_algebra "ends_code input n H"
  "\<lambda>greedy w. w" "\<lambda>k. k < n"
proof (unfold_locales, unfold width_algebra_simps)
  show "(r \<or> False) = r" "(r \<and> s) = (s \<and> r)" for r s
    by auto
  show "ends_code input n H False p q"
    if "get_at prog p = Some (split_to greedy (p + 1) q)" "get_at prog m = Some (IJmp p)" "r"
      "ends_code input n H r (p + 1) m" for p greedy q m r
    using that ends_star by simp
qed (rule ends_skip ends_seq ends_item ends_mark ends_jump ends_alt; assumption)+

sublocale guarded_halting \<subseteq> lenient: code_logic alnum prog width_algebra "ends_code input n H"
  "\<lambda>greedy w. greedy \<or> w" "\<lambda>k. k < n"
proof (unfold_locales, unfold width_algebra_simps)
  show "(r \<or> False) = r" "(r \<and> s) = (s \<and> r)" for r s
    by auto
  show "ends_code input n H False p q"
    if "get_at prog p = Some (split_to greedy (p + 1) q)" "get_at prog m = Some (IJmp p)" "greedy \<or> r"
      "ends_code input n H r (p + 1) m" for p greedy q m r
    using that ends_star ends_greedy_star by (cases greedy) auto
qed (rule ends_skip ends_seq ends_item ends_mark ends_jump ends_alt; assumption)+

section \<open>The search and the executor end\<close>

definition search_ends :: "(scalar \<Rightarrow> bool) \<Rightarrow> prog \<Rightarrow> ustr \<Rightarrow> nat \<Rightarrow> nat \<Rightarrow> bool" where
  "search_ends alnum prog input pc pos \<longleftrightarrow> (\<exists>h b. search alnum prog input h pc pos b)"

interpretation search_halting: halting alnum input prog n "\<lambda>pc pos sv A. search_ends alnum prog input pc pos"
  for alnum input prog n
proof
  show "search_ends alnum prog input pc pos"
    if "get_at prog pc = Some i" "consumes alnum i = Some ok"
      "pos < length input \<Longrightarrow> search_ends alnum prog input (pc + 1) (pos + 1)" for pc i ok pos
    using that search.consume [OF that(1,2)] search.mismatch [OF that(1,2)]
    unfolding search_ends_def by metis
  show "search_ends alnum prog input pc pos"
    if "get_at prog pc = Some i" "is_assertion i" "pos \<le> length input" "search_ends alnum prog input (pc + 1) pos"
    for pc i pos
    using that asserts_in_range [OF that(3,2), of alnum] search.holds [OF that(1,2)] search.fails [OF that(1,2)]
    unfolding search_ends_def by metis
  show "search_ends alnum prog input pc pos"
    if "get_at prog pc = Some (ISplit a b)" "search_ends alnum prog input a pos" "search_ends alnum prog input b pos"
    for pc a b pos
    using that search.first [OF that(1)] search.second [OF that(1)]
    unfolding search_ends_def by metis
  show "search_ends alnum prog input pc pos"
    if "get_at prog pc = Some (ISave k)" "search_ends alnum prog input (pc + 1) pos" for pc k pos
    using that search.save unfolding search_ends_def by blast
qed (auto simp: search_ends_def intro: search.jump search.match)

definition exec_ends :: "(scalar \<Rightarrow> bool) \<Rightarrow> prog \<Rightarrow> ustr \<Rightarrow> nat \<Rightarrow> nat \<Rightarrow> saves \<Rightarrow> active \<Rightarrow> bool" where
  "exec_ends alnum prog input pc pos sv A \<longleftrightarrow>
     (\<exists>f b sv'. exec_inner alnum prog input f pc pos sv A = Done b sv')"

lemma exec_endsI: "exec_inner alnum prog input f pc pos sv A = Done b sv' \<Longrightarrow> exec_ends alnum prog input pc pos sv A"
  by (auto simp: exec_ends_def)

lemma exec_ends_split:
  assumes split: "get_at prog pc = Some (ISplit a b)"
    and b: "exec_ends alnum prog input b pos sv A"
    and a: "(pc, pos) \<in> A \<or> exec_ends alnum prog input a pos sv (insert (pc, pos) A)"
  shows "exec_ends alnum prog input pc pos sv A"
proof (cases "(pc, pos) \<in> A")
  case True
  then show ?thesis
    using b exec_split [OF split] by (metis exec_ends_def)
next
  case False
  then obtain f r sv' where f: "exec_inner alnum prog input f a pos sv (insert (pc, pos) A) = Done r sv'"
    using a by (auto simp: exec_ends_def)
  obtain g r' sv'' where g: "exec_inner alnum prog input g b pos sv A = Done r' sv''"
    using b by (auto simp: exec_ends_def)
  let ?k = "max f g"
  have "exec_inner alnum prog input ?k a pos sv (insert (pc, pos) A) = Done r sv'"
    "exec_inner alnum prog input ?k b pos sv A = Done r' sv''"
    using exec_inner_mono [of alnum prog input f a pos sv _ ?k]
      exec_inner_mono [of alnum prog input g b pos sv _ ?k] f g by simp_all
  moreover have "sv' = sv" if "\<not> r"
    using exec_inner_saves(2) [OF f that] .
  ultimately have "\<exists>r sv'. exec_inner alnum prog input (Suc ?k) pc pos sv A = Done r sv'"
    using False by (cases r) (auto simp: exec_split [OF split])
  then show ?thesis
    by (auto simp: exec_ends_def)
qed

interpretation exec_halting: guarded_halting alnum input prog n "exec_ends alnum prog input"
  for alnum input prog n
proof
  show "exec_ends alnum prog input pc pos sv A"
    if "get_at prog pc = Some i" "consumes alnum i = Some ok"
      "pos < length input \<Longrightarrow> exec_ends alnum prog input (pc + 1) (pos + 1) sv A" for pc i ok pos sv A
    using that exec_consume [OF that(1,2)] by (metis exec_ends_def)
  show "exec_ends alnum prog input pc pos sv A"
    if prem: "get_at prog pc = Some i" "is_assertion i" "pos \<le> length input"
      "exec_ends alnum prog input (pc + 1) pos sv A" for pc i pos sv A
  proof -
    obtain f r sv' where "exec_inner alnum prog input f (pc + 1) pos sv A = Done r sv'"
      using prem(4) by (auto simp: exec_ends_def)
    moreover obtain b where "asserts alnum i input pos = Some b"
      using asserts_in_range [OF prem(3,2)] by blast
    ultimately have "\<exists>r sv'. exec_inner alnum prog input (Suc f) pc pos sv A = Done r sv'"
      by (cases b) (auto simp: exec_assert [OF prem(1,2)])
    then show ?thesis
      by (auto simp: exec_ends_def)
  qed
  show "exec_ends alnum prog input pc pos sv A"
    if prem: "get_at prog pc = Some (ISave k)" "k < length sv" "exec_ends alnum prog input (pc + 1) pos (sv[k := Some pos]) A"
    for pc k sv pos A
  proof -
    obtain f r sv' where "exec_inner alnum prog input f (pc + 1) pos (sv[k := Some pos]) A = Done r sv'"
      using prem(3) by (auto simp: exec_ends_def)
    then have "\<exists>r sv'. exec_inner alnum prog input (Suc f) pc pos sv A = Done r sv'"
      using prem(2) by (cases r) (auto simp: exec_save [OF prem(1)])
    then show ?thesis
      by (auto simp: exec_ends_def)
  qed
  show "exec_ends alnum prog input pc pos sv A"
    if "get_at prog pc = Some (IJmp t)" "exec_ends alnum prog input t pos sv A" for pc t pos sv A
    using that exec_jump [OF that(1)] by (metis exec_ends_def)
  show "exec_ends alnum prog input pc pos sv A" if "get_at prog pc = Some IMatch" for pc pos sv A
    using exec_match [OF that] by (metis exec_ends_def)
qed (auto intro: exec_ends_split)

section \<open>Failure refutes matches\<close>

definition search_fails :: "(scalar \<Rightarrow> bool) \<Rightarrow> prog \<Rightarrow> ustr \<Rightarrow> nat \<Rightarrow> nat \<Rightarrow> bool" where
  "search_fails alnum prog input pc pos \<longleftrightarrow> (\<exists>h. search alnum prog input h pc pos False)"

text \<open>Where the search fails, it fails at the end of the code from every related configuration.\<close>

definition fails_code :: "(scalar \<Rightarrow> bool) \<Rightarrow> ustr \<Rightarrow> prog \<Rightarrow> config rel \<Rightarrow> nat \<Rightarrow> nat \<Rightarrow> bool" where
  "fails_code alnum input prog R p q \<longleftrightarrow>
     (\<forall>i sv j sv'. ((i, sv), (j, sv')) \<in> R \<longrightarrow> search_fails alnum prog input p i \<longrightarrow> search_fails alnum prog input q j)"

lemma fails_codeI:
  "(\<And>i sv j sv'. ((i, sv), (j, sv')) \<in> R \<Longrightarrow> search_fails alnum prog input p i \<Longrightarrow> search_fails alnum prog input q j) \<Longrightarrow>
   fails_code alnum input prog R p q"
  unfolding fails_code_def by blast

lemma fails_codeD:
  "fails_code alnum input prog R p q \<Longrightarrow> ((i, sv), (j, sv')) \<in> R \<Longrightarrow> search_fails alnum prog input p i \<Longrightarrow>
   search_fails alnum prog input q j"
  unfolding fails_code_def by blast

lemma search_fails_split:
  "get_at prog p = Some (ISplit a b) \<Longrightarrow>
   search_fails alnum prog input p i \<longleftrightarrow> search_fails alnum prog input a i \<and> search_fails alnum prog input b i"
  by (auto simp: search_fails_def search_split)

lemma search_fails_jump:
  "get_at prog p = Some (IJmp t) \<Longrightarrow> search_fails alnum prog input p i \<longleftrightarrow> search_fails alnum prog input t i"
  by (auto simp: search_fails_def search_jump)

lemma fails_item:
  assumes "get_at prog p = Some i" "consumes alnum i \<noteq> None \<or> is_assertion i"
  shows "fails_code alnum input prog (item_rel alnum input i) p (p + 1)"
proof (rule fails_codeI)
  fix pos sv j sv'
  assume *: "((pos, sv), (j, sv')) \<in> item_rel alnum input i" "search_fails alnum prog input p pos"
  show "search_fails alnum prog input (p + 1) j"
  proof (cases "consumes alnum i")
    case (Some ok)
    then show ?thesis
      using * search_consume [OF assms(1) Some] by (auto simp: item_rel_def search_fails_def)
  next
    case None
    then have "is_assertion i"
      using assms(2) by simp
    with None * show ?thesis
      using search_assert [OF assms(1)] by (auto simp: item_rel_def search_fails_def)
  qed
qed

lemma fails_star:
  assumes "get_at prog p = Some (split_to greedy (p + 1) q)" "get_at prog m = Some (IJmp p)"
    "fails_code alnum input prog R (p + 1) m"
  shows "fails_code alnum input prog (R\<^sup>*) p q"
proof (rule fails_codeI)
  have split: "search_fails alnum prog input p i \<longleftrightarrow>
      search_fails alnum prog input (p + 1) i \<and> search_fails alnum prog input q i" for i
    using assms(1) by (cases greedy) (auto simp: split_to_def search_fails_split)
  fix i sv j sv'
  assume "((i, sv), (j, sv')) \<in> R\<^sup>*" "search_fails alnum prog input p i"
  then have "search_fails alnum prog input p j"
  proof (induction rule: rtrancl_induct2)
    case (step j sv' k sv'')
    then have "search_fails alnum prog input m k"
      using split fails_codeD [OF assms(3)] by blast
    then show ?case
      by (simp add: search_fails_jump [OF assms(2)])
  qed
  then show "search_fails alnum prog input q j"
    using split by blast
qed

interpretation failing: code_logic alnum prog "rel_algebra alnum input" "fails_code alnum input prog"
  "\<lambda>_ _. True" "\<lambda>_. True" for alnum input prog
proof (unfold_locales, unfold rel_algebra_simps)
  show "R O Id = R" "R \<union> S = S \<union> R" for R S :: "config rel"
    by auto
  show "fails_code alnum input prog Id p p" for p
    by (rule fails_codeI) simp
  show "fails_code alnum input prog (R O S) p t"
    if "fails_code alnum input prog R p q" "fails_code alnum input prog S q t" for R S p q t
    by (rule fails_codeI) (use that in \<open>auto dest: fails_codeD\<close>)
  show "fails_code alnum input prog (mark_rel k) p (p + 1)" if "get_at prog p = Some (ISave k)" for p k
    by (rule fails_codeI) (use that in \<open>auto simp: search_fails_def search_save\<close>)
  show "fails_code alnum input prog Id p t" if "get_at prog p = Some (IJmp t)" for p t
    by (rule fails_codeI) (use that in \<open>auto simp: search_fails_jump\<close>)
  show "fails_code alnum input prog (R \<union> S) p q"
    if "get_at prog p = Some (ISplit a b)" "fails_code alnum input prog R a q" "fails_code alnum input prog S b q"
    for p a b q R S
    by (rule fails_codeI) (use that in \<open>auto simp: search_fails_split dest: fails_codeD\<close>)
qed (rule fails_item fails_star; assumption)+

end
