(* ===== verification/Regex_Correct.thy ===== *)
theory Regex_Correct
  imports Regex_Parse Regex_Halts
begin

text \<open>
  Correctness of the regular-expression engine: searching, on compiled patterns, against the
  reference relation of \<open>Regex_Sound\<close>; termination, on the patterns whose lazy unbounded
  repeats have a consuming body; and the pattern on which the executor does not return.
\<close>

lemma admits_all: "admits alg (\<lambda>_ _. True) n"
  by (induction n) (auto simp: list_all_iff)

section \<open>What a match may change\<close>

text \<open>Positions grow and stay in range; only the slots of the node change, to positions passed.\<close>

definition frame :: "ustr \<Rightarrow> nat set \<Rightarrow> config rel" where
  "frame input S =
     {((i, sv), (j, sv')). i \<le> j \<and> (i \<le> length input \<longrightarrow> j \<le> length input) \<and> length sv' = length sv \<and>
        (\<forall>k<length sv. sv' ! k = sv ! k \<or> k \<in> S \<and> (\<exists>x. sv' ! k = Some x \<and> i \<le> x \<and> x \<le> j))}"

lemma frame_refl: "Id \<subseteq> frame input S"
  by (auto simp: frame_def)

lemma frame_mono: "S \<subseteq> T \<Longrightarrow> frame input S \<subseteq> frame input T"
  by (fastforce simp: frame_def)

lemma frame_step:
  assumes "((i, sv), (j, sv1)) \<in> frame input S" "((j, sv1), (l, sv2)) \<in> frame input S"
  shows "((i, sv), (l, sv2)) \<in> frame input S"
proof -
  have ij: "i \<le> j" "j \<le> l"
    using assms by (auto simp: frame_def)
  have "sv2 ! k = sv ! k \<or> k \<in> S \<and> (\<exists>x. sv2 ! k = Some x \<and> i \<le> x \<and> x \<le> l)" if "k < length sv" for k
  proof -
    have 1: "sv1 ! k = sv ! k \<or> k \<in> S \<and> (\<exists>x. sv1 ! k = Some x \<and> i \<le> x \<and> x \<le> j)"
      and 2: "sv2 ! k = sv1 ! k \<or> k \<in> S \<and> (\<exists>x. sv2 ! k = Some x \<and> j \<le> x \<and> x \<le> l)"
      using assms that by (auto simp: frame_def)
    from 2 show ?thesis
    proof
      assume "sv2 ! k = sv1 ! k"
      with 1 \<open>j \<le> l\<close> show ?thesis
        by (auto intro: order_trans)
    next
      assume "k \<in> S \<and> (\<exists>x. sv2 ! k = Some x \<and> j \<le> x \<and> x \<le> l)"
      with \<open>i \<le> j\<close> show ?thesis
        by (auto intro: order_trans)
    qed
  qed
  then show ?thesis
    using assms ij by (simp add: frame_def)
qed

lemma frame_trans: "R \<subseteq> frame input S \<Longrightarrow> Q \<subseteq> frame input S \<Longrightarrow> R O Q \<subseteq> frame input S"
  using frame_step by (auto elim!: relcompE) blast

lemma mark_frame: "k \<in> S \<Longrightarrow> mark_rel k \<subseteq> frame input S"
proof
  fix c
  assume "k \<in> S" "c \<in> mark_rel k"
  then obtain i sv where c: "c = ((i, sv), (i, sv[k := Some i]))"
    by (auto simp: mark_rel_def)
  have "sv[k := Some i] ! l = (if l = k then Some i else sv ! l)" if "l < length sv" for l
    using that by (cases "l = k") auto
  with c \<open>k \<in> S\<close> show "c \<in> frame input S"
    by (auto simp: frame_def)
qed

lemma frame_star: "R \<subseteq> frame input S \<Longrightarrow> R\<^sup>* \<subseteq> frame input S"
proof
  fix c
  assume R: "R \<subseteq> frame input S" and "c \<in> R\<^sup>*"
  then obtain a b where c: "c = (a, b)" "(a, b) \<in> R\<^sup>*"
    by (metis surj_pair)
  from c(2) have "(a, b) \<in> frame input S"
  proof (induction rule: rtrancl_induct)
    case base
    then show ?case using frame_refl by blast
  next
    case (step b c)
    then show ?case
      using frame_trans [of "frame input S" input S R] R by blast
  qed
  with c show "c \<in> frame input S"
    by simp
qed

lemma frame_seqs:
  "\<forall>R\<in>set Rs. R \<subseteq> frame input S \<Longrightarrow> a_seqs (rel_algebra alnum input) Rs \<subseteq> frame input S"
proof (induction Rs)
  case (Cons R Rs)
  then show ?case
    using frame_trans [of R input S "a_seqs (rel_algebra alnum input) Rs"] by (simp add: a_seqs_def)
qed (simp add: a_seqs_def frame_refl)

lemma frame_alts:
  "\<forall>R\<in>set Rs. R \<subseteq> frame input S \<Longrightarrow> a_alts (rel_algebra alnum input) Rs \<subseteq> frame input S"
proof (induction Rs rule: induct_list012)
  case 1
  then show ?case using frame_refl by simp
qed auto

lemma frame_tail:
  assumes "R \<subseteq> frame input S"
  shows "a_tail (rel_algebra alnum input) R mn mx \<subseteq> frame input S"
proof -
  have "a_opts (rel_algebra alnum input) R k \<subseteq> frame input S" for k
  proof (induction k)
    case (Suc k)
    then show ?case
      using frame_trans [OF assms] frame_refl by auto
  qed (simp add: frame_refl)
  then show ?thesis
    using frame_star [OF assms] by (simp add: a_tail_def split: option.split)
qed

lemma denote_frame: "denote (rel_algebra alnum input) n \<subseteq> frame input (slots n)"
proof (induction n)
  case (NConcat ns)
  have "denote (rel_algebra alnum input) n \<subseteq> frame input (slots (NConcat ns))" if "n \<in> set ns" for n
    by (rule order_trans [OF NConcat [OF that] frame_mono]) (use that in auto)
  then show ?case
    using frame_seqs [of "map (denote (rel_algebra alnum input)) ns"] by simp
next
  case (NAlt ns)
  have "denote (rel_algebra alnum input) n \<subseteq> frame input (slots (NAlt ns))" if "n \<in> set ns" for n
    by (rule order_trans [OF NAlt [OF that] frame_mono]) (use that in auto)
  then show ?case
    using frame_alts [of "map (denote (rel_algebra alnum input)) ns"] by simp
next
  case (NRepeat n mn mx greedy)
  have "R \<subseteq> frame input (slots n)"
    if "R \<in> set (replicate mn (denote (rel_algebra alnum input) n)
        @ [a_tail (rel_algebra alnum input) (denote (rel_algebra alnum input) n) mn mx])" for R
    using that frame_tail [OF NRepeat] NRepeat by (auto simp: set_replicate_conv_if split: if_splits)
  then show ?case
    unfolding denote.simps slots.simps by (intro frame_seqs ballI)
next
  case (NGroup index n)
  show ?case
  proof (cases index)
    case (Some k)
    let ?S = "slots (NGroup index n)"
    have "mark_rel (k * 2) \<subseteq> frame input ?S" "mark_rel (k * 2 + 1) \<subseteq> frame input ?S"
      using Some by (auto intro!: mark_frame)
    moreover have "denote (rel_algebra alnum input) n \<subseteq> frame input ?S"
      by (rule order_trans [OF NGroup frame_mono]) auto
    ultimately show ?thesis
      using Some by (simp del: slots.simps add: frame_trans)
  qed (use NGroup in simp)
qed (auto simp: frame_def item_rel_def split: option.splits)

lemma matches_frame:
  assumes "((i, sv), (j, sv')) \<in> matches alnum input n"
  shows "i \<le> j" "i \<le> length input \<Longrightarrow> j \<le> length input" "length sv' = length sv"
    "k < length sv \<Longrightarrow> k \<notin> slots n \<Longrightarrow> sv' ! k = sv ! k"
    "k < length sv \<Longrightarrow> sv' ! k = sv ! k \<or> (\<exists>x. sv' ! k = Some x \<and> i \<le> x \<and> x \<le> j)"
  using assms subsetD [OF denote_frame, of "((i, sv), (j, sv'))" alnum input n]
  by (auto simp: matches_def frame_def)

section \<open>A search is a match of the pattern\<close>

lemma regex_compile_parse:
  assumes "regex_compile pattern = Inr r"
  obtains ast g where "parse_pattern pattern = Inr (ast, g)" "rx_prog r = compile_program ast"
    "rx_groups r = g" "1 \<le> g" "slots ast \<subseteq> {2..<2 * g}" "prog_ok (g * 2) (rx_prog r)"
proof -
  obtain ast g where p: "parse_pattern pattern = Inr (ast, g)"
    "r = \<lparr>rx_pattern = pattern, rx_prog = compile_program ast, rx_groups = g\<rparr>"
    using assms by (auto simp: regex_compile_def split: sum.splits)
  have "1 \<le> g" "slots ast \<subseteq> {2..<2 * g}"
    using parse_pattern_ok(2) [OF p(1)] by (auto simp: node_ok_def)
  moreover have "prog_ok (g * 2) (compile_program ast)"
    using compiled_ok [of g ast] calculation by (auto simp: mult.commute subset_iff)
  ultimately show ?thesis
    using that p by simp
qed

definition start_slots :: "nat \<Rightarrow> nat \<Rightarrow> saves" where
  "start_slots g start = (replicate (g * 2) None)[0 := Some start]"

lemma program_sound:
  assumes "exec_inner alnum (compile_program ast) input f 0 start sv A = Done True sv'"
  shows "\<exists>j sv1. ((start, sv[0 := Some start]), (j, sv1)) \<in> matches alnum input ast \<and> sv' = sv1[1 := Some j]"
proof -
  let ?prog = "compile_program ast"
  note code = compiled_code [of ast]
  have 1: "sound_code alnum input ?prog (mark_rel 0) 0 1"
    using sound_mark [OF code(2)] by simp
  have 2: "sound_code alnum input ?prog (matches alnum input ast) 1 (1 + length (emit ast 1))"
    unfolding matches_def by (rule soundness.emit_judged [OF _ _ code(1)]) (simp_all add: admits_all)
  have 3: "sound_code alnum input ?prog (mark_rel 1) (1 + length (emit ast 1)) (2 + length (emit ast 1))"
    using sound_mark [OF code(3)] by simp
  from sound_codeD [OF sound_seq [OF sound_seq [OF 1 2] 3] assms]
  obtain f' j sv1 A' where run: "((start, sv), (j, sv1)) \<in> (mark_rel 0 O matches alnum input ast) O mark_rel 1"
    "exec_inner alnum ?prog input f' (2 + length (emit ast 1)) j sv1 A' = Done True sv'"
    by metis
  have "sv' = sv1"
    using run(2) exec_match [OF code(4)] by (cases f') auto
  moreover obtain sv2 where "((start, sv[0 := Some start]), (j, sv2)) \<in> matches alnum input ast" "sv1 = sv2[1 := Some j]"
    using run(1) by (auto elim!: relcompE)
  ultimately show ?thesis
    by blast
qed

lemma match_from_found:
  assumes "regex_compile pattern = Inr r" "parse_pattern pattern = Inr (ast, g)"
    and "match_from alnum fuel r input start = Found caps" "start \<le> length input"
  obtains e sv where "((start, start_slots g start), (e, sv)) \<in> matches alnum input ast"
    "caps = map (group_span (sv[1 := Some e])) [0..<g]" "whole caps = Some (start, e)"
    "start \<le> e" "e \<le> length input"
proof -
  have r: "rx_prog r = compile_program ast" "rx_groups r = g" "1 \<le> g" "slots ast \<subseteq> {2..<2 * g}"
    using regex_compile_parse [OF assms(1)] assms(2) by (metis Inr_inject prod.inject)+
  obtain saves where run: "exec_inner alnum (compile_program ast) input fuel 0 start (replicate (g * 2) None) {}
      = Done True saves" and caps: "caps = captures_of r saves"
    using assms(3) r by (auto simp: match_from_def exec_def split: outcome.splits bool.splits)
  obtain e sv where m: "((start, start_slots g start), (e, sv)) \<in> matches alnum input ast" "saves = sv[1 := Some e]"
    using program_sound [OF run] by (auto simp: start_slots_def)
  have len: "length sv = g * 2"
    using matches_frame(3) [OF m(1)] by (simp add: start_slots_def)
  have "0 \<notin> slots ast"
    using r(4) by fastforce
  then have "sv ! 0 = Some start"
    using matches_frame(4) [OF m(1), of 0] r(3) by (simp add: start_slots_def)
  then have "group_span saves 0 = Some (start, e)"
    using m(2) len r(3) by (simp add: group_span_def)
  moreover have "whole caps = group_span saves 0"
    using r(2,3) caps upt_conv_Cons [of 0 g] by (simp add: whole_def captures_of_def)
  ultimately have "whole caps = Some (start, e)"
    by simp
  moreover have "caps = map (group_span (sv[1 := Some e])) [0..<g]"
    using caps r(2) m(2) by (simp add: captures_of_def)
  ultimately show ?thesis
    using that m(1) matches_frame(1,2) [OF m(1)] assms(4) by blast
qed

lemma find_at_cases:
  assumes "start \<le> length input + 1"
  obtains (found) s caps where "start \<le> s" "s \<le> length input" "match_from alnum fuel r input s = Found caps"
      "find_at alnum fuel r input start = Found caps" "\<And>t. start \<le> t \<Longrightarrow> t < s \<Longrightarrow> match_from alnum fuel r input t = NotFound"
    | (none) "find_at alnum fuel r input start = NotFound"
      "\<And>t. start \<le> t \<Longrightarrow> t \<le> length input \<Longrightarrow> match_from alnum fuel r input t = NotFound"
    | (other) s where "start \<le> s" "s \<le> length input" "match_from alnum fuel r input s = find_at alnum fuel r input start"
      "find_at alnum fuel r input start \<in> {SearchPanicked, SearchNoFuel}"
  using assms
proof (induction "length input + 1 - start" arbitrary: start thesis rule: less_induct)
  case less
  show ?case
  proof (cases "length input < start")
    case True
    then show ?thesis
      using less.prems(2) by (auto simp: find_at.simps [of alnum fuel r input start])
  next
    case False
    have unfold: "find_at alnum fuel r input start =
        (case match_from alnum fuel r input start of
           NotFound \<Rightarrow> find_at alnum fuel r input (start + 1) | res \<Rightarrow> res)"
      using False by (subst find_at.simps) simp
    show ?thesis
    proof (cases "match_from alnum fuel r input start")
      case (Found caps)
      then show ?thesis
        using less.prems(1) [of start caps] False unfold by simp
    next
      case NotFound
      then have step: "find_at alnum fuel r input start = find_at alnum fuel r input (start + 1)"
        by (simp add: unfold)
      have from_start: "match_from alnum fuel r input t = NotFound"
        if "start \<le> t" "start + 1 \<le> t \<Longrightarrow> match_from alnum fuel r input t = NotFound" for t
        using that NotFound by (cases "t = start") auto
      show ?thesis
      proof (rule less.hyps [of "start + 1"])
        fix s caps
        assume *: "start + 1 \<le> s" "s \<le> length input" "match_from alnum fuel r input s = Found caps"
          "find_at alnum fuel r input (start + 1) = Found caps"
          "\<And>t. start + 1 \<le> t \<Longrightarrow> t < s \<Longrightarrow> match_from alnum fuel r input t = NotFound"
        show ?thesis
        proof (rule less.prems(1))
          show "start \<le> s" "find_at alnum fuel r input start = Found caps"
            using *(1,4) step by simp_all
          show "match_from alnum fuel r input t = NotFound" if "start \<le> t" "t < s" for t
            using from_start [OF that(1)] *(5) that(2) by blast
        qed (fact *(2,3))+
      next
        assume *: "find_at alnum fuel r input (start + 1) = NotFound"
          "\<And>t. start + 1 \<le> t \<Longrightarrow> t \<le> length input \<Longrightarrow> match_from alnum fuel r input t = NotFound"
        show ?thesis
        proof (rule less.prems(2))
          show "find_at alnum fuel r input start = NotFound"
            using *(1) step by simp
          show "match_from alnum fuel r input t = NotFound" if "start \<le> t" "t \<le> length input" for t
            using from_start [OF that(1)] *(2) that(2) by blast
        qed
      next
        fix s
        assume *: "start + 1 \<le> s" "s \<le> length input"
          "match_from alnum fuel r input s = find_at alnum fuel r input (start + 1)"
          "find_at alnum fuel r input (start + 1) \<in> {SearchPanicked, SearchNoFuel}"
        show ?thesis
          by (rule less.prems(3) [of s]) (use *(1,2) in simp, fact *(2), simp only: step *(3), simp only: step *(4))
      qed (use False in simp_all)
    next
      case SearchPanicked
      then show ?thesis
        using less.prems(3) [of start] False unfold by simp
    next
      case SearchNoFuel
      then show ?thesis
        using less.prems(3) [of start] False unfold by simp
    qed
  qed
qed

lemma match_from_no_panic:
  assumes "regex_compile pattern = Inr r" "start \<le> length input"
  shows "match_from alnum fuel r input start \<noteq> SearchPanicked"
proof -
  have "exec_inner alnum (rx_prog r) input fuel 0 start (replicate (rx_groups r * 2) None) {} \<noteq> Panicked"
    by (rule regex_compile_parse [OF assms(1)], rule exec_inner_no_panic)
      (use assms(2) in \<open>auto simp: prog_ok_def\<close>)
  then show ?thesis
    by (auto simp: match_from_def exec_def split: outcome.splits bool.splits)
qed

lemma match_from_whole:
  assumes "regex_compile pattern = Inr r" "match_from alnum fuel r input start = Found caps" "start \<le> length input"
  obtains e where "whole caps = Some (start, e)" "start \<le> e" "e \<le> length input"
  by (rule regex_compile_parse [OF assms(1)], erule match_from_found [OF assms(1) _ assms(2,3)])
    (use that in blast)

lemma find_all_loop_no_panic:
  assumes "regex_compile pattern = Inr r" "start \<le> length input + 1"
  shows "find_all_loop k alnum fuel r input start \<noteq> SearchPanicked"
  using assms(2)
proof (induction k arbitrary: start)
  case (Suc k)
  from Suc.prems show ?case
  proof (cases rule: find_at_cases [of start input alnum fuel r])
    case (found s caps)
    obtain e where e: "whole caps = Some (s, e)" "s \<le> e" "e \<le> length input"
      by (rule match_from_whole [OF assms(1) found(3,2)])
    define n where "n = (if s < e then e else e + 1)"
    have "find_all_loop k alnum fuel r input n \<noteq> SearchPanicked"
      using Suc.IH e by (simp add: n_def)
    moreover have "find_all_loop (Suc k) alnum fuel r input start =
        (case find_all_loop k alnum fuel r input n of Found ms \<Rightarrow> Found (caps # ms) | res \<Rightarrow> res)"
      using found(1,2,4) e(1) by (simp add: n_def)
    ultimately show ?thesis
      by (simp split: search.splits)
  next
    case (other s)
    then show ?thesis
      using match_from_no_panic [OF assms(1) other(2)] by auto
  qed simp
qed simp

section \<open>Properties\<close>

section \<open>Deciding and terminating\<close>

text \<open>Patterns whose unbounded repeats, or the lazy ones among them, have a consuming body.\<close>

definition productive :: "node \<Rightarrow> bool" where
  "productive ast \<longleftrightarrow> admits width_algebra (\<lambda>greedy w. w) ast"

definition lenient :: "node \<Rightarrow> bool" where
  "lenient ast \<longleftrightarrow> admits width_algebra (\<lambda>greedy w. greedy \<or> w) ast"

lemma search_end:
  "search alnum (compile_program ast) input h (1 + length (emit ast 1)) pos b \<longleftrightarrow> h = 1 \<and> b"
  using search_save [OF compiled_code(3), of alnum ast input] search_match [OF compiled_code(4), of alnum ast input]
  by auto

lemma program_search_ends:
  assumes "productive ast" "start \<le> length input" "slots ast \<subseteq> {..<n}"
  shows "search_ends alnum (compile_program ast) input 1 start"
proof -
  let ?prog = "compile_program ast"
  have "ends_code input n (\<lambda>pc pos sv A. search_ends alnum ?prog input pc pos) (denote width_algebra ast)
      1 (1 + length (emit ast 1))"
    by (rule search_halting.consuming.emit_judged [OF _ _ compiled_code(1)])
      (use assms(1,3) in \<open>auto simp: productive_def\<close>)
  then show ?thesis
    by (rule ends_codeD [OF _ assms(2), of n _ _ _ _ "replicate n None" "{}"])
      (auto simp: search_ends_def search_end [simplified])
qed

lemma program_search_complete:
  assumes "search alnum (compile_program ast) input h 1 start b"
    and "((start, sv), (j, sv')) \<in> matches alnum input ast"
  shows "b"
proof (rule ccontr)
  let ?prog = "compile_program ast"
  have "fails_code alnum input ?prog (matches alnum input ast) 1 (1 + length (emit ast 1))"
    unfolding matches_def by (rule failing.emit_judged [OF _ _ compiled_code(1)]) (simp_all add: admits_all)
  moreover assume "\<not> b"
  with assms(1) have "search_fails alnum ?prog input 1 start"
    by (auto simp: search_fails_def)
  ultimately have "search_fails alnum ?prog input (1 + length (emit ast 1)) j"
    using fails_codeD assms(2) by blast
  then show False
    by (auto simp: search_fails_def search_end [simplified])
qed

lemma program_exec_search:
  assumes "search alnum (compile_program ast) input h 1 start b" "prog_ok (length sv) (compile_program ast)"
  shows "\<exists>f sv'. exec_inner alnum (compile_program ast) input f 0 start sv {} = Done b sv'"
proof (rule exec_follows_search)
  show "search alnum (compile_program ast) input (Suc h) 0 start b"
    using search.save [OF compiled_code(2)] assms(1) by simp
  show "k < length sv" if "ISave k \<in> set (compile_program ast)" for k
    using assms(2) that by (auto simp: prog_ok_def list_all_iff)
qed simp

lemma program_exec_ends:
  assumes "lenient ast" "start \<le> length input" "slots ast \<subseteq> {..<length sv}" "2 \<le> length sv"
  shows "exec_ends alnum (compile_program ast) input 0 start sv {}"
proof -
  let ?prog = "compile_program ast"
  have end_ends: "exec_ends alnum ?prog input (1 + length (emit ast 1)) j sv' A" if "length sv' = length sv" for j sv' A
    using exec_halting.save_step [OF compiled_code(3), where pos = j and sv = sv' and A = A]
      exec_halting.match_step [OF compiled_code(4)] that assms(4) by simp
  have "ends_code input (length sv) (exec_ends alnum ?prog input) (denote width_algebra ast) 1 (1 + length (emit ast 1))"
    by (rule exec_halting.lenient.emit_judged [OF _ _ compiled_code(1)])
      (use assms(1,3) in \<open>auto simp: lenient_def\<close>)
  then have "exec_ends alnum ?prog input 1 start (sv[0 := Some start]) {}"
    by (rule ends_codeD [OF _ assms(2)]) (auto intro: end_ends [simplified])
  moreover have "0 < length sv"
    using assms(4) by linarith
  ultimately show ?thesis
    using exec_halting.save_step [OF compiled_code(2), where pos = start and sv = sv and A = "{}"] by simp
qed

lemma match_from_mono:
  "match_from alnum f r input start \<noteq> SearchNoFuel \<Longrightarrow> f \<le> f' \<Longrightarrow>
   match_from alnum f' r input start = match_from alnum f r input start"
  using exec_inner_mono [of alnum "rx_prog r" input f 0 start "replicate (rx_groups r * 2) None" "{}" f']
  by (cases "exec_inner alnum (rx_prog r) input f 0 start (replicate (rx_groups r * 2) None) {} = NoFuel")
    (simp_all add: match_from_def exec_def)

lemma match_from_ends:
  assumes "regex_compile pattern = Inr r" "parse_pattern pattern = Inr (ast, g)" "lenient ast" "start \<le> length input"
  shows "\<exists>f. match_from alnum f r input start \<noteq> SearchNoFuel"
proof -
  have r: "rx_prog r = compile_program ast" "rx_groups r = g" "1 \<le> g" "slots ast \<subseteq> {2..<2 * g}"
    using regex_compile_parse [OF assms(1)] assms(2) by (metis Inr_inject prod.inject)+
  have "exec_ends alnum (compile_program ast) input 0 start (replicate (g * 2) None) {}"
    by (rule program_exec_ends [OF assms(3,4)]) (use r(3,4) in \<open>auto simp: mult.commute\<close>)
  then obtain f b sv' where "exec_inner alnum (compile_program ast) input f 0 start (replicate (g * 2) None) {} = Done b sv'"
    by (auto simp: exec_ends_def)
  then have "match_from alnum f r input start \<noteq> SearchNoFuel"
    using r by (cases b) (simp_all add: match_from_def exec_def)
  then show ?thesis ..
qed

lemma match_from_uniform_fuel:
  assumes "\<And>s. s \<le> n \<Longrightarrow> \<exists>f. match_from alnum f r input s \<noteq> SearchNoFuel"
  shows "\<exists>f. \<forall>s\<le>n. match_from alnum f r input s \<noteq> SearchNoFuel"
  using assms
proof (induction n)
  case (Suc n)
  then obtain f f' where f: "\<forall>s\<le>n. match_from alnum f r input s \<noteq> SearchNoFuel"
    "match_from alnum f' r input (Suc n) \<noteq> SearchNoFuel"
    by (metis le_SucI order_refl)
  have "match_from alnum (max f f') r input s \<noteq> SearchNoFuel" if "s \<le> Suc n" for s
    using match_from_mono [of alnum f r input s "max f f'"] match_from_mono [of alnum f' r input s "max f f'"] f that
    by (cases "s = Suc n") auto
  then show ?case by blast
qed simp

lemma find_all_loop_ends:
  assumes "regex_compile pattern = Inr r" "\<forall>s\<le>length input. match_from alnum f r input s \<noteq> SearchNoFuel"
    and "start \<le> length input + 1" "length input + 1 \<le> start + k"
  shows "\<exists>ms. find_all_loop k alnum f r input start = Found ms"
  using assms(3,4)
proof (induction k arbitrary: start)
  case (Suc k)
  from Suc.prems(1) show ?case
  proof (cases rule: find_at_cases [of start input alnum f r])
    case (found s caps)
    obtain e where e: "whole caps = Some (s, e)" "s \<le> e" "e \<le> length input"
      by (rule match_from_whole [OF assms(1) found(3,2)])
    define n where "n = (if s < e then e else e + 1)"
    have "\<exists>ms. find_all_loop k alnum f r input n = Found ms"
      using Suc.IH [of n] Suc.prems(2) e found(1) by (auto simp: n_def)
    moreover have "find_all_loop (Suc k) alnum f r input start =
        (case find_all_loop k alnum f r input n of Found ms \<Rightarrow> Found (caps # ms) | res \<Rightarrow> res)"
      using found(1,2,4) e(1) by (simp add: n_def)
    ultimately show ?thesis
      by auto
  next
    case (other s)
    then show ?thesis
      using match_from_no_panic [OF assms(1) other(2)] assms(2) by auto
  qed simp
qed simp

section \<open>Properties\<close>

text \<open>Compiling a pattern returns: the parser's fuel is enough for every pattern.\<close>

theorem regex_compile_ends: "regex_compile pattern \<noteq> Inl RegexOutOfFuel"
  using parse_pattern_ok(1) [of pattern] by (auto simp: regex_compile_def split: sum.splits)

text \<open>C15. Searching with a compiled pattern never indexes out of range, whatever the fuel: not
  in the program, not in the slots, not in the input, and group 0 always has its span.
\<close>

theorem regex_search_safe:
  assumes "regex_compile pattern = Inr r"
  shows "find_first alnum fuel r input \<noteq> SearchPanicked \<and> prefix_match alnum fuel r input \<noteq> SearchPanicked \<and>
    whole_match alnum fuel r input \<noteq> SearchPanicked \<and> find_all alnum fuel r input \<noteq> SearchPanicked"
proof (intro conjI)
  show "find_first alnum fuel r input \<noteq> SearchPanicked"
    unfolding find_first_def
    by (rule find_at_cases [of 0 input alnum fuel r]) (use match_from_no_panic [OF assms] in auto)
  show prefix: "prefix_match alnum fuel r input \<noteq> SearchPanicked"
    unfolding prefix_match_def using match_from_no_panic [OF assms] by simp
  show "whole_match alnum fuel r input \<noteq> SearchPanicked"
  proof (cases "prefix_match alnum fuel r input")
    case (Found caps)
    then obtain e where "whole caps = Some (0, e)"
      using match_from_whole [OF assms, of alnum fuel input 0 caps] unfolding prefix_match_def by blast
    with Found show ?thesis
      by (simp add: whole_match_def)
  qed (use prefix in \<open>auto simp: whole_match_def\<close>)
  show "find_all alnum fuel r input \<noteq> SearchPanicked"
    unfolding find_all_def by (rule find_all_loop_no_panic [OF assms]) simp
qed

text \<open>C14. The first match that is found is a match of the pattern's tree from some start in
  range, its captures are the spans that the match recorded, group 0 is the whole match, and
  the search failed from every earlier start.
\<close>

theorem find_first_sound:
  assumes "regex_compile pattern = Inr r" "parse_pattern pattern = Inr (ast, g)"
    and "find_first alnum fuel r input = Found caps"
  shows "\<exists>start e sv. start \<le> e \<and> e \<le> length input \<and>
    ((start, start_slots g start), (e, sv)) \<in> matches alnum input ast \<and>
    caps = map (group_span (sv[1 := Some e])) [0..<g] \<and> whole caps = Some (start, e) \<and>
    (\<forall>s < start. match_from alnum fuel r input s = NotFound)"
proof -
  obtain start where s: "start \<le> length input" "match_from alnum fuel r input start = Found caps"
    "\<And>s. s < start \<Longrightarrow> match_from alnum fuel r input s = NotFound"
    using assms(3) by (rule_tac find_at_cases [of 0 input alnum fuel r]) (auto simp: find_first_def)
  obtain e sv where "((start, start_slots g start), (e, sv)) \<in> matches alnum input ast"
    "caps = map (group_span (sv[1 := Some e])) [0..<g]" "whole caps = Some (start, e)"
    "start \<le> e" "e \<le> length input"
    by (rule match_from_found [OF assms(1,2) s(2,1)])
  with s(3) show ?thesis by blast
qed

text \<open>C24. On a pattern whose unbounded repeats all have a consuming body the executor decides
  matching: with enough fuel it answers, and it finds a match from a start exactly when the
  tree has one there.
\<close>

theorem productive_decides:
  assumes "regex_compile pattern = Inr r" "parse_pattern pattern = Inr (ast, g)" "productive ast"
    and "start \<le> length input"
  shows "\<exists>f. \<forall>f'\<ge>f.
    (if (start, start_slots g start) \<in> Domain (matches alnum input ast)
     then \<exists>caps. match_from alnum f' r input start = Found caps
     else match_from alnum f' r input start = NotFound)"
proof -
  have r: "rx_prog r = compile_program ast" "rx_groups r = g" "slots ast \<subseteq> {2..<2 * g}"
    "prog_ok (g * 2) (compile_program ast)"
    using regex_compile_parse [OF assms(1)] assms(2) by (metis Inr_inject prod.inject)+
  obtain h b where search: "search alnum (compile_program ast) input h 1 start b"
    using program_search_ends [OF assms(3,4), of "2 * g"] r(3) by (fastforce simp: search_ends_def)
  then obtain f sv' where f: "exec_inner alnum (compile_program ast) input f 0 start (replicate (g * 2) None) {} = Done b sv'"
    using program_exec_search [OF search, of "replicate (g * 2) None"] r(4) by auto
  have "b \<longleftrightarrow> (start, start_slots g start) \<in> Domain (matches alnum input ast)"
  proof
    assume b
    with f program_sound [of alnum ast input f start "replicate (g * 2) None" "{}" sv']
    show "(start, start_slots g start) \<in> Domain (matches alnum input ast)"
      by (auto simp: start_slots_def)
  next
    assume "(start, start_slots g start) \<in> Domain (matches alnum input ast)"
    then show b
      using program_search_complete [OF search] by auto
  qed
  moreover have here: "match_from alnum f r input start = (if b then Found (captures_of r sv') else NotFound)"
    using f r by (cases b) (simp_all add: match_from_def exec_def)
  moreover have "match_from alnum f' r input start = (if b then Found (captures_of r sv') else NotFound)"
    if "f \<le> f'" for f'
    using match_from_mono [of alnum f r input start, OF _ that] here by (simp split: if_splits)
  ultimately show ?thesis
    by (intro exI [of _ f] allI impI) simp
qed

text \<open>C25. Searching for all matches returns, given enough fuel, when every lazy unbounded
  repeat of the pattern has a consuming body; greedy repeats may have any body.
\<close>

theorem lenient_terminates:
  assumes "regex_compile pattern = Inr r" "parse_pattern pattern = Inr (ast, g)" "lenient ast"
  shows "\<exists>f ms. find_all alnum f r input = Found ms"
proof -
  obtain f where "\<forall>s\<le>length input. match_from alnum f r input s \<noteq> SearchNoFuel"
    using match_from_uniform_fuel [of "length input" alnum r input] match_from_ends [OF assms] by blast
  from find_all_loop_ends [OF assms(1) this, of 0 "length input + 1"] show ?thesis
    unfolding find_all_def by auto
qed

text \<open>The program of the next property's pattern.\<close>

definition lazy_prog :: prog where
  "lazy_prog = [ISave 0, ISplit 5 2, ISplit 3 4, IChar 97, IJmp 1, IChar 98, ISave 1, IMatch]"

lemma lazy_loop_no_fuel: "exec_inner alnum lazy_prog [99] f 1 0 saves {} = NoFuel"
proof (induction f rule: less_induct)
  case (less f)
  let ?e = "exec_inner alnum lazy_prog [99]"
  have at: "get_at lazy_prog (Suc 0) = Some (ISplit 5 2)" "get_at lazy_prog 2 = Some (ISplit 3 4)"
    "get_at lazy_prog 3 = Some (IChar 97)" "get_at lazy_prog 4 = Some (IJmp 1)" "get_at lazy_prog 5 = Some (IChar 98)"
    by (simp_all add: lazy_prog_def get_at_def)
  have b: "?e (Suc g) 5 0 saves A = Done False saves" "?e (Suc g) 3 0 saves A = Done False saves" for g A
    using exec_consume [OF at(5)] exec_consume [OF at(3)] by simp_all
  show ?case
  proof (cases "f < 4")
    case True
    then consider "f = 0" | "f = Suc 0" | "f = Suc (Suc 0)" | "f = Suc (Suc (Suc 0))"
      by linarith
    then show ?thesis
      by cases (simp_all add: exec_split [OF at(1)] exec_split [OF at(2)] exec_jump [OF at(4)] b)
  next
    case False
    define g where "g = f - 4"
    have f: "f = Suc (Suc (Suc (Suc g)))"
      using False by (simp add: g_def)
    have "?e f 1 0 saves {} = ?e (Suc g) 1 0 saves {}"
      unfolding f by (simp add: exec_split [OF at(1)] exec_split [OF at(2)] exec_jump [OF at(4)] b)
    then show ?thesis
      using less [of "Suc g"] f by simp
  qed
qed

text \<open>C31. A lazy repeat whose body can match nothing makes the executor run forever: for
  \<open>(?:a?)*?b\<close> on \<open>c\<close> no amount of fuel yields an answer. The comment in \<open>exec\<close> says that a
  body of empty width cannot make it recurse forever; for a lazy split the second branch,
  which is taken on re-entry, is the body.
\<close>

theorem lazy_empty_loop_diverges:
  "\<exists>r. regex_compile (scalars ''(?:a?)*?b'') = Inr r \<and>
     (\<forall>fuel. find_first alnum fuel r (scalars ''c'') = SearchNoFuel)"
proof -
  let ?r = "\<lparr> rx_pattern = scalars ''(?:a?)*?b'', rx_prog = lazy_prog, rx_groups = 1 \<rparr>"
  have compiled: "regex_compile (scalars ''(?:a?)*?b'') = Inr ?r"
    by code_simp
  have "exec_inner alnum lazy_prog [99] fuel 0 0 [None, None] {} = NoFuel" for fuel
  proof (cases fuel)
    case (Suc f)
    have "get_at lazy_prog 0 = Some (ISave 0)"
      by (simp add: lazy_prog_def get_at_def)
    then show ?thesis
      using lazy_loop_no_fuel [of alnum f] by (simp add: Suc exec_save)
  qed simp
  then have "match_from alnum fuel ?r [99] 0 = SearchNoFuel" for fuel
    by (simp add: match_from_def exec_def numeral_2_eq_2)
  then have "find_first alnum fuel ?r [99] = SearchNoFuel" for fuel
    by (simp add: find_first_def find_at.simps [of _ _ _ _ 0])
  moreover have "scalars ''c'' = [99]"
    by code_simp
  ultimately show ?thesis
    using compiled by simp
qed

text \<open>\<open>whole_match\<close> only looks at the match the priorities prefer: for \<open>a|ab\<close> it rejects
  \<open>ab\<close>, although the tree matches the whole text.
\<close>

theorem whole_match_prefers_first:
  "\<exists>r ast g. regex_compile (scalars ''a|ab'') = Inr r \<and> parse_pattern (scalars ''a|ab'') = Inr (ast, g) \<and>
     (\<exists>sv. ((0, start_slots g 0), (2, sv)) \<in> matches alnum (scalars ''ab'') ast) \<and>
     whole_match alnum 10 r (scalars ''ab'') = NotFound"
proof -
  let ?ast = "NAlt [NChar 97, NConcat [NChar 97, NChar 98]]"
  let ?r = "\<lparr> rx_pattern = scalars ''a|ab'', rx_prog = [ISave 0, ISplit 2 4, IChar 97, IJmp 6, IChar 97, IChar 98, ISave 1, IMatch], rx_groups = 1 \<rparr>"
  have 1: "parse_pattern (scalars ''a|ab'') = Inr (?ast, 1)" "regex_compile (scalars ''a|ab'') = Inr ?r"
    by code_simp+
  have ab: "scalars ''ab'' = [97, 98]"
    by code_simp
  have "((0, sv), (1, sv)) \<in> item_rel alnum [97, 98] (IChar 97)" "((1, sv), (2, sv)) \<in> item_rel alnum [97, 98] (IChar 98)" for sv
    by (simp_all add: item_rel_def)
  then have 2: "((0, start_slots 1 0), (2, start_slots 1 0)) \<in> matches alnum [97, 98] ?ast"
    by (auto simp: matches_def a_seqs_def)
  have 3: "whole_match alnum 10 ?r [97, 98] = NotFound"
    by code_simp
  show ?thesis
    using 1 2 3 unfolding ab by blast
qed

section \<open>Witnesses\<close>

definition demo :: regex where
  "demo = \<lparr> rx_pattern = scalars ''(a|b)*c'',
     rx_prog = [ISave 0, ISplit 2 9, ISave 2, ISplit 4 6, IChar 97, IJmp 7, IChar 98, ISave 3, IJmp 1, IChar 99, ISave 1, IMatch],
     rx_groups = 2 \<rparr>"

definition demo_ast :: node where
  "demo_ast = NConcat [NRepeat (NGroup (Some 1) (NAlt [NChar 97, NChar 98])) 0 None True, NChar 99]"

lemma demo_compiled:
  "regex_compile (scalars ''(a|b)*c'') = Inr demo" "parse_pattern (scalars ''(a|b)*c'') = Inr (demo_ast, 2)"
  by code_simp+

lemma demo_classes: "productive demo_ast" "lenient demo_ast"
  by (simp_all add: productive_def lenient_def demo_ast_def)

lemma regex_search_safe_witness:
  "find_first (\<lambda>_. False) 30 demo (scalars ''xabc'') \<noteq> SearchPanicked"
  using regex_search_safe [OF demo_compiled(1)] by blast

lemma find_first_sound_witness:
  "\<exists>start e sv. start \<le> e \<and> e \<le> length (scalars ''xabc'') \<and>
     ((start, start_slots 2 start), (e, sv)) \<in> matches (\<lambda>_. False) (scalars ''xabc'') demo_ast \<and>
     [Some (1, 4), Some (2, 3)] = map (group_span (sv[1 := Some e])) [0..<2] \<and>
     whole [Some (1, 4), Some (2, 3)] = Some (start, e) \<and>
     (\<forall>s < start. match_from (\<lambda>_. False) 30 demo (scalars ''xabc'') s = NotFound)"
proof -
  have "find_first (\<lambda>_. False) 30 demo (scalars ''xabc'') = Found [Some (1, 4), Some (2, 3)]"
    by code_simp
  from find_first_sound [OF demo_compiled this] show ?thesis .
qed

lemma productive_decides_witness:
  "\<exists>f. match_from (\<lambda>_. False) f demo (scalars ''abc'') 0 \<noteq> SearchNoFuel"
proof -
  obtain f where "\<forall>f'\<ge>f. (if (0, start_slots 2 0) \<in> Domain (matches (\<lambda>_. False) (scalars ''abc'') demo_ast)
     then \<exists>caps. match_from (\<lambda>_. False) f' demo (scalars ''abc'') 0 = Found caps
     else match_from (\<lambda>_. False) f' demo (scalars ''abc'') 0 = NotFound)"
    using productive_decides [OF demo_compiled demo_classes(1), of 0 "scalars ''abc''" "\<lambda>_. False"] by auto
  then have "match_from (\<lambda>_. False) f demo (scalars ''abc'') 0 \<noteq> SearchNoFuel"
    by (metis order_refl search.distinct(5) search.distinct(9))
  then show ?thesis ..
qed

lemma lenient_terminates_witness: "\<exists>f ms. find_all (\<lambda>_. False) f demo (scalars ''abcc'') = Found ms"
  by (rule lenient_terminates [OF demo_compiled demo_classes(2)])

end
