(* ===== verification/Int_Value.thy ===== *)
theory Int_Value
  imports Prelude
begin

text \<open>
  Fixed-width integers, \<open>IntWidth\<close> and \<open>IntValue\<close> of \<open>tswift-core/src/value.rs\<close>: a raw \<open>i128\<close>
  with the width it belongs to. \<open>wrapped\<close> is the reduction of the wrapping operators; the
  properties relate it to machine words.
\<close>

section \<open>Widths\<close>

datatype int_width = I8 | I16 | I32 | I64 | U8 | U16 | U32 | U64

definition is_signed :: "int_width \<Rightarrow> bool" where
  "is_signed w \<longleftrightarrow> w \<in> {I8, I16, I32, I64}"

fun bits :: "int_width \<Rightarrow> nat" where
  "bits I8 = 8" | "bits U8 = 8"
| "bits I16 = 16" | "bits U16 = 16"
| "bits I32 = 32" | "bits U32 = 32"
| "bits I64 = 64" | "bits U64 = 64"

definition width_min :: "int_width \<Rightarrow> int" where
  "width_min w = (if is_signed w then - (2 ^ (bits w - 1)) else 0)"

definition width_max :: "int_width \<Rightarrow> int" where
  "width_max w = (if is_signed w then 2 ^ (bits w - 1) - 1 else 2 ^ bits w - 1)"

fun width_name :: "int_width \<Rightarrow> ustr" where
  "width_name I8 = scalars ''Int8''"
| "width_name I16 = scalars ''Int16''"
| "width_name I32 = scalars ''Int32''"
| "width_name I64 = scalars ''Int''"
| "width_name U8 = scalars ''UInt8''"
| "width_name U16 = scalars ''UInt16''"
| "width_name U32 = scalars ''UInt32''"
| "width_name U64 = scalars ''UInt''"

definition width_from_name :: "ustr \<Rightarrow> int_width option" where
  "width_from_name name = map_of
     [(scalars ''Int'', I64), (scalars ''Int64'', I64), (scalars ''Int8'', I8), (scalars ''Int16'', I16),
      (scalars ''Int32'', I32), (scalars ''UInt'', U64), (scalars ''UInt64'', U64), (scalars ''UInt8'', U8),
      (scalars ''UInt16'', U16), (scalars ''UInt32'', U32)] name"

section \<open>Values\<close>

record int_value =
  raw :: int
  width :: int_width

definition int_new :: "int \<Rightarrow> int_width \<Rightarrow> int_value" where
  "int_new r w = \<lparr> raw = r, width = w \<rparr>"

definition platform_int :: "int \<Rightarrow> int_value" where
  "platform_int r = int_new r I64"

definition in_range :: "int_value \<Rightarrow> bool" where
  "in_range v \<longleftrightarrow> width_min (width v) \<le> raw v \<and> raw v \<le> width_max (width v)"

definition wrapped :: "int_width \<Rightarrow> int \<Rightarrow> int_value" where
  "wrapped w r =
     (let modulo = 2 ^ bits w;
          m = rust_rem r modulo;
          m = (if m < 0 then m + modulo else m)
      in int_new (if is_signed w \<and> width_max w < m then m - modulo else m) w)"

section \<open>Properties\<close>

lemma int_new_simps [simp]: "raw (int_new r w) = r" "width (int_new r w) = w"
  by (simp_all add: int_new_def)

lemma rust_rem_mod: "0 < b \<Longrightarrow> (if rust_rem a b < 0 then rust_rem a b + b else rust_rem a b) = a mod b"
proof -
  assume b: "0 < b"
  have "rust_rem a b mod b = a mod b"
    by (metis mod_mult_self3 rust_div_rem)
  moreover have "\<bar>rust_rem a b\<bar> < b"
    using b by (simp add: rust_rem_def abs_mult abs_sgn_eq)
  ultimately show ?thesis
    using b by (smt (verit) mod_add_self2 mod_pos_pos_trivial)
qed

lemma bits_pos [simp]: "0 < bits w"
  by (cases w) simp_all

lemma modulus_halves: "(2::int) ^ bits w = 2 * 2 ^ (bits w - 1)"
  by (cases w) simp_all

lemma wrapped_raw:
  "raw (wrapped w r) = (let m = r mod 2 ^ bits w in if is_signed w \<and> width_max w < m then m - 2 ^ bits w else m)"
  using rust_rem_mod [of "2 ^ bits w" r] by (simp add: wrapped_def Let_def)

lemma wrapped_width [simp]: "width (wrapped w r) = w"
  by (simp add: wrapped_def Let_def)

text \<open>The representative of a residue in a range around zero.\<close>

lemma signed_residue:
  fixes x h :: int
  assumes "- h \<le> x" "x < h"
  shows "(let m = x mod (2 * h) in if h - 1 < m then m - 2 * h else m) = x"
proof (cases "0 \<le> x")
  case True
  then show ?thesis
    using assms by (simp add: mod_pos_pos_trivial)
next
  case False
  have "x mod (2 * h) = (x + 2 * h) mod (2 * h)"
    by simp
  also have "\<dots> = x + 2 * h"
    using assms False by (intro mod_pos_pos_trivial) linarith+
  finally show ?thesis
    using assms False by simp
qed

lemma signed_reduced:
  fixes r h :: int
  assumes "0 < h"
  defines "s \<equiv> (let m = r mod (2 * h) in if h - 1 < m then m - 2 * h else m)"
  shows "- h \<le> s" "s < h" "s mod (2 * h) = r mod (2 * h)"
proof -
  have m: "0 \<le> r mod (2 * h)" "r mod (2 * h) < 2 * h"
    using assms(1) by simp_all
  show "- h \<le> s" "s < h"
    using m unfolding s_def Let_def by (auto split: if_splits)
  have "s = r mod (2 * h) \<or> s = r mod (2 * h) - 2 * h"
    unfolding s_def Let_def by simp
  then show "s mod (2 * h) = r mod (2 * h)"
    by (elim disjE) (simp_all add: mod_diff_left_eq [symmetric])
qed

text \<open>Wrapping gives the one value of the width that is congruent to the argument modulo the
  number of values of the width.
\<close>

theorem wrapped_spec:
  "wrapped w r = v \<longleftrightarrow> width v = w \<and> in_range v \<and> raw v mod 2 ^ bits w = r mod 2 ^ bits w"
proof -
  define h :: int where "h = 2 ^ (bits w - 1)"
  have h: "2 ^ bits w = 2 * h" "0 < h"
    using modulus_halves [of w] by (simp_all add: h_def)
  have bounds: "width_min w = - h" "width_max w = h - 1" if "is_signed w"
    using that by (simp_all add: width_min_def width_max_def h_def)
  have "in_range (wrapped w r) \<and> raw (wrapped w r) mod 2 ^ bits w = r mod 2 ^ bits w"
  proof (cases "is_signed w")
    case True
    then have "raw (wrapped w r) = (let m = r mod (2 * h) in if h - 1 < m then m - 2 * h else m)"
      by (simp add: wrapped_raw bounds h Let_def)
    with True signed_reduced [OF h(2), of r] show ?thesis
      by (simp add: in_range_def bounds h)
  next
    case False
    then show ?thesis
      using h(2) by (simp add: wrapped_raw in_range_def width_min_def width_max_def h(1) Let_def)
  qed
  moreover have "raw v = raw (wrapped w r)" if "width v = w" "in_range v" "raw v mod 2 ^ bits w = r mod 2 ^ bits w"
  proof (cases "is_signed w")
    case True
    then have "- h \<le> raw v" "raw v < h"
      using that bounds by (simp_all add: in_range_def)
    from signed_residue [OF this] show ?thesis
      using True that(3) by (simp add: wrapped_raw bounds h Let_def split: if_splits)
  next
    case False
    then have "raw v mod 2 ^ bits w = raw v"
      using that h by (intro mod_pos_pos_trivial) (simp_all add: in_range_def width_min_def width_max_def)
    then show ?thesis
      using False that(3) by (simp add: wrapped_raw Let_def)
  qed
  ultimately show ?thesis
    by (metis int_value.equality old.unit.exhaust wrapped_width)
qed

lemma sint_reduced:
  fixes r h :: int
  assumes "h = 2 ^ (LENGTH('a) - 1)"
  shows "sint (word_of_int r :: 'a::len word) = (let m = r mod (2 * h) in if h - 1 < m then m - 2 * h else m)"
proof -
  let ?x = "word_of_int r :: 'a word"
  have h: "2 ^ LENGTH('a) = 2 * h"
    unfolding assms by (metis len_gt_0 power_minus_mult mult.commute)
  have "- h \<le> sint ?x" "sint ?x < h"
    using sint_greater_eq [of ?x] sint_less [of ?x] by (simp_all add: assms)
  moreover have "sint ?x mod (2 * h) = r mod (2 * h)"
    using uint_sint [of ?x] uint_word_of_int [of r, where 'a = 'a] by (simp add: take_bit_eq_mod h)
  ultimately show ?thesis
    using signed_residue by metis
qed

text \<open>Wrapping is conversion to a machine word of the width and back.\<close>

theorem wrapped_word:
  "raw (wrapped I8 r) = sint (word_of_int r :: 8 word) \<and> raw (wrapped U8 r) = uint (word_of_int r :: 8 word) \<and>
   raw (wrapped I16 r) = sint (word_of_int r :: 16 word) \<and> raw (wrapped U16 r) = uint (word_of_int r :: 16 word) \<and>
   raw (wrapped I32 r) = sint (word_of_int r :: 32 word) \<and> raw (wrapped U32 r) = uint (word_of_int r :: 32 word) \<and>
   raw (wrapped I64 r) = sint (word_of_int r :: 64 word) \<and> raw (wrapped U64 r) = uint (word_of_int r :: 64 word)"
  using sint_reduced [of "2 ^ 7" r, where 'a = 8] sint_reduced [of "2 ^ 15" r, where 'a = 16]
    sint_reduced [of "2 ^ 31" r, where 'a = 32] sint_reduced [of "2 ^ 63" r, where 'a = 64]
  by (simp add: wrapped_raw is_signed_def width_max_def uint_word_of_int Let_def)

text \<open>A width is read back from its Swift name.\<close>

lemma width_from_name_of: "width_from_name (width_name w) = Some w"
  by (cases w) (simp_all add: width_from_name_def)

end
