(* ===== verification/Grapheme.thy ===== *)
theory Grapheme
  imports Prelude
begin

text \<open>
  Extended grapheme clusters, \<open>tswift-core/src/grapheme.rs\<close>: a text is a list of scalars and
  is cut into clusters by one rule on the scalars around a position, with a count of the
  regional indicators before it. The properties: the clusters are not empty and join to the
  text; plain text has one cluster per scalar; a run of regional indicators is cut into pairs.
\<close>

section \<open>Segmentation\<close>

definition ZWJ :: scalar where
  "ZWJ = 0x200D"

definition is_regional :: "scalar \<Rightarrow> bool" where
  "is_regional c \<longleftrightarrow> 0x1F1E6 \<le> c \<and> c \<le> 0x1F1FF"

definition extend_ranges :: "(scalar \<times> scalar) list" where
  "extend_ranges =
     [(0x0300, 0x036F), (0x0483, 0x0489), (0x0591, 0x05BD), (0x0610, 0x061A), (0x064B, 0x065F),
      (0x0670, 0x0670), (0x06D6, 0x06DC), (0x0E31, 0x0E31), (0x0E34, 0x0E3A), (0x1AB0, 0x1AFF),
      (0x1DC0, 0x1DFF), (0x20D0, 0x20FF), (0xFE00, 0xFE0F), (0xFE20, 0xFE2F), (0xE0100, 0xE01EF)]"

definition is_extend :: "scalar \<Rightarrow> bool" where
  "is_extend c \<longleftrightarrow> list_ex (\<lambda>(lo, hi). lo \<le> c \<and> c \<le> hi) extend_ranges"

definition range_of :: "'a list \<Rightarrow> nat \<Rightarrow> nat \<Rightarrow> 'a list" where
  "range_of xs i j = take (j - i) (drop i xs)"

definition regional_run :: "ustr \<Rightarrow> nat" where
  "regional_run s = length (takeWhile is_regional (rev s))"

text \<open>Whether the scalar at \<open>i\<close> belongs to the cluster that began at \<open>start\<close>.\<close>

definition joins :: "ustr \<Rightarrow> nat \<Rightarrow> nat \<Rightarrow> bool" where
  "joins chars start i =
     (let prev = chars ! (i - 1); cur = chars ! i in
      if prev = 13 \<and> cur = 10 then True
      else if is_extend cur \<or> cur = ZWJ then True
      else if prev = ZWJ then True
      else is_regional prev \<and> is_regional cur \<and> odd (regional_run (range_of chars start i)))"

text \<open>The inner loop: where the cluster ends.\<close>

function cluster_end :: "ustr \<Rightarrow> nat \<Rightarrow> nat \<Rightarrow> nat" where
  "cluster_end chars start i =
     (if length chars \<le> i then i
      else if joins chars start i then cluster_end chars start (i + 1)
      else i)"
  by pat_completeness auto
termination
  by (relation "measure (\<lambda>(chars, start, i). length chars - i)") auto

declare cluster_end.simps [simp del]

lemma cluster_end_bounds: "i \<le> length chars \<Longrightarrow> i \<le> cluster_end chars start i \<and> cluster_end chars start i \<le> length chars"
proof (induction chars start i rule: cluster_end.induct)
  case (1 chars start i)
  then show ?case
    by (subst (1 2) cluster_end.simps) auto
qed

function graphemes_from :: "ustr \<Rightarrow> nat \<Rightarrow> ustr list" where
  "graphemes_from chars i =
     (if length chars \<le> i then []
      else let j = cluster_end chars i (i + 1) in range_of chars i j # graphemes_from chars j)"
  by pat_completeness auto
termination
proof (relation "measure (\<lambda>(chars, i). length chars - i)")
  fix chars :: ustr and i j
  assume "\<not> length chars \<le> i" "j = cluster_end chars i (i + 1)"
  then show "((chars, j), chars, i) \<in> measure (\<lambda>(chars, i). length chars - i)"
    using cluster_end_bounds [of "i + 1" chars i] by auto
qed simp

declare graphemes_from.simps [simp del]

definition graphemes :: "ustr \<Rightarrow> ustr list" where
  "graphemes s = graphemes_from s 0"

section \<open>Properties\<close>

lemma range_of_append: "i \<le> j \<Longrightarrow> j \<le> length xs \<Longrightarrow> range_of xs i j @ drop j xs = drop i xs"
  by (simp add: range_of_def) (metis append_take_drop_id drop_drop le_add_diff_inverse2)

lemma graphemes_from_parts:
  "concat (graphemes_from chars i) = drop i chars \<and> [] \<notin> set (graphemes_from chars i)"
proof (induction chars i rule: graphemes_from.induct)
  case (1 chars i)
  show ?case
  proof (cases "length chars \<le> i")
    case True
    then show ?thesis
      by (simp add: graphemes_from.simps)
  next
    case False
    define j where "j = cluster_end chars i (i + 1)"
    have j: "i + 1 \<le> j" "j \<le> length chars"
      using cluster_end_bounds [of "i + 1" chars i] False by (auto simp: j_def)
    have "graphemes_from chars i = range_of chars i j # graphemes_from chars j"
      using False by (simp add: graphemes_from.simps [of chars i] j_def Let_def)
    moreover have "range_of chars i j \<noteq> []"
      using j by (simp add: range_of_def)
    ultimately show ?thesis
      using "1.IH" [OF False j_def] j range_of_append [of i j chars] by simp
  qed
qed

text \<open>C39. The clusters of a text are not empty, and they join to the text.\<close>

theorem graphemes_partition: "concat (graphemes s) = s \<and> [] \<notin> set (graphemes s)"
  using graphemes_from_parts [of s 0] by (simp add: graphemes_def)

definition plain_scalar :: "scalar \<Rightarrow> bool" where
  "plain_scalar c \<longleftrightarrow> c \<noteq> 13 \<and> c \<noteq> ZWJ \<and> \<not> is_extend c \<and> \<not> is_regional c"

lemma graphemes_from_step:
  "i < length chars \<Longrightarrow> graphemes_from chars i =
   range_of chars i (cluster_end chars i (i + 1)) # graphemes_from chars (cluster_end chars i (i + 1))"
  by (subst graphemes_from.simps) (simp add: Let_def)

lemma plain_graphemes_from:
  assumes "\<forall>c\<in>set chars. plain_scalar c"
  shows "graphemes_from chars i = map (\<lambda>c. [c]) (drop i chars)"
proof (induction "length chars - i" arbitrary: i)
  case 0
  then show ?case
    by (simp add: graphemes_from.simps)
next
  case (Suc n)
  then have i: "i < length chars"
    by simp
  have "\<not> joins chars i (i + 1)" if "i + 1 < length chars"
  proof -
    have "plain_scalar (chars ! i)" "plain_scalar (chars ! (i + 1))"
      using assms i that by simp_all
    then show ?thesis
      by (auto simp: joins_def plain_scalar_def Let_def)
  qed
  then have "cluster_end chars i (i + 1) = i + 1"
    by (subst cluster_end.simps) auto
  moreover have "range_of chars i (i + 1) = [chars ! i]" "drop i chars = chars ! i # drop (i + 1) chars"
    using i by (simp_all add: range_of_def take_Suc_conv_app_nth Cons_nth_drop_Suc)
  ultimately show ?case
    using Suc.hyps(1) [of "i + 1"] Suc.hyps(2) by (simp add: graphemes_from_step [OF i])
qed

text \<open>Text without joining scalars, flags or carriage returns has one cluster per scalar.\<close>

theorem graphemes_plain:
  assumes "\<forall>c\<in>set s. plain_scalar c"
  shows "graphemes s = map (\<lambda>c. [c]) s"
  using plain_graphemes_from [OF assms, of 0] by (simp add: graphemes_def)

lemma regional_not_joining: "is_regional c \<Longrightarrow> \<not> is_extend c \<and> c \<noteq> ZWJ \<and> c \<noteq> 13 \<and> c \<noteq> 10"
  by (auto simp: is_regional_def is_extend_def extend_ranges_def ZWJ_def)

lemma regional_run_all: "\<forall>c\<in>set s. is_regional c \<Longrightarrow> regional_run s = length s"
  by (simp add: regional_run_def takeWhile_eq_all_conv [THEN iffD2])

lemma regional_joins:
  assumes "\<forall>c\<in>set chars. is_regional c" "start < i" "i < length chars"
  shows "joins chars start i \<longleftrightarrow> odd (i - start)"
proof -
  have "is_regional (chars ! (i - 1))" "is_regional (chars ! i)"
    using assms by auto
  moreover have "regional_run (range_of chars start i) = i - start"
  proof -
    have "set (range_of chars start i) \<subseteq> set chars"
      unfolding range_of_def by (meson set_drop_subset set_take_subset subset_trans)
    then show ?thesis
      using assms regional_run_all [of "range_of chars start i"] by (auto simp: range_of_def)
  qed
  ultimately show ?thesis
    using regional_not_joining by (auto simp: joins_def Let_def)
qed

lemma regional_cluster_end:
  assumes "\<forall>c\<in>set chars. is_regional c" "i < length chars"
  shows "cluster_end chars i (i + 1) = min (i + 2) (length chars)"
proof (cases "i + 1 < length chars")
  case True
  have "cluster_end chars i (i + 2) = i + 2"
    using regional_joins [OF assms(1), of i "i + 2"] by (subst cluster_end.simps) auto
  then show ?thesis
    using True regional_joins [OF assms(1), of i "i + 1"]
    by (subst cluster_end.simps) (simp add: numeral_2_eq_2)
next
  case False
  then show ?thesis
    using assms(2) by (subst cluster_end.simps) auto
qed

lemma regional_graphemes_from:
  assumes "\<forall>c\<in>set chars. is_regional c"
  shows "graphemes_from chars i = chunks 2 (drop i chars)"
proof (induction "length chars - i" arbitrary: i rule: less_induct)
  case less
  show ?case
  proof (cases "i < length chars")
    case False
    then show ?thesis
      by (simp add: graphemes_from.simps)
  next
    case True
    define j where "j = min (i + 2) (length chars)"
    have "graphemes_from chars i = range_of chars i j # graphemes_from chars j"
      using graphemes_from_step [OF True] regional_cluster_end [OF assms True] by (simp add: j_def)
    moreover have "range_of chars i j = take 2 (drop i chars)" "drop j chars = drop 2 (drop i chars)"
      using True by (auto simp: range_of_def j_def min_def numeral_2_eq_2)
    moreover have "graphemes_from chars j = chunks 2 (drop j chars)"
      by (rule less.hyps) (use True in \<open>auto simp: j_def\<close>)
    ultimately show ?thesis
      using True by (subst chunks.simps) simp
  qed
qed

text \<open>A run of regional indicators is cut into flags of two.\<close>

theorem graphemes_flags:
  assumes "\<forall>c\<in>set s. is_regional c"
  shows "graphemes s = chunks 2 s"
  using regional_graphemes_from [OF assms, of 0] by (simp add: graphemes_def)

section \<open>Witnesses\<close>

lemma graphemes_plain_witness: "graphemes [97, 98] = [[97], [98]]"
proof -
  have "\<forall>c\<in>set [97, 98]. plain_scalar c"
    by (simp add: plain_scalar_def ZWJ_def is_extend_def extend_ranges_def is_regional_def)
  from graphemes_plain [OF this] show ?thesis
    by simp
qed

lemma graphemes_flags_witness:
  "graphemes [0x1F1FA, 0x1F1F8, 0x1F1EC] = [[0x1F1FA, 0x1F1F8], [0x1F1EC]]"
proof -
  have "\<forall>c\<in>set [0x1F1FA, 0x1F1F8, 0x1F1EC]. is_regional c"
    by (simp add: is_regional_def)
  from graphemes_flags [OF this] show ?thesis
    by (simp add: chunks.simps)
qed

end
