(* ===== verification/Value.thy ===== *)
theory Value
  imports Int_Value Grapheme Decimal Type_Repr
begin

text \<open>
  The runtime values of the interpreter, \<open>tswift-core/src/value.rs\<close>: the value type, equality,
  type names, and the text that \<open>print\<close> writes, with and without a static type.

  Values of type \<open>f64\<close> are of a type \<open>'f\<close> with a record of operations, because the kernel has
  no theory of them here; texts are lists of scalars. An \<open>Rc\<close> to immutable data is the data
  (copy on write makes sharing unobservable); an \<open>Rc\<close> to a class instance is an address, and
  the instances are in a heap, where an address without an instance is one that was
  deallocated. A window of a substring or a slice is taken to be in range, as the
  constructors of the code make it. Printing follows references, so it gets fuel.
\<close>

section \<open>Floating point\<close>

text \<open>
  \<open>f_sci\<close> is the text of \<open>{:e}\<close> without the sign, in its two parts: the mantissa and the exponent.
\<close>

record 'f f64 =
  f_add :: "'f \<Rightarrow> 'f \<Rightarrow> 'f"
  f_sub :: "'f \<Rightarrow> 'f \<Rightarrow> 'f"
  f_mul :: "'f \<Rightarrow> 'f \<Rightarrow> 'f"
  f_div :: "'f \<Rightarrow> 'f \<Rightarrow> 'f"
  f_neg :: "'f \<Rightarrow> 'f"
  f_eq :: "'f \<Rightarrow> 'f \<Rightarrow> bool"
  f_lt :: "'f \<Rightarrow> 'f \<Rightarrow> bool"
  f_le :: "'f \<Rightarrow> 'f \<Rightarrow> bool"
  f_of_int :: "int \<Rightarrow> 'f"
  f_is_nan :: "'f \<Rightarrow> bool"
  f_is_infinite :: "'f \<Rightarrow> bool"
  f_is_zero :: "'f \<Rightarrow> bool"
  f_is_positive :: "'f \<Rightarrow> bool"
  f_sign_negative :: "'f \<Rightarrow> bool"
  f_is_integral :: "'f \<Rightarrow> bool"
  f_is_exact :: "'f \<Rightarrow> bool"
  f_fixed0 :: "'f \<Rightarrow> ustr"
  f_sci :: "'f \<Rightarrow> ustr \<times> int"
  f_display :: "'f \<Rightarrow> ustr"

definition fmt_sci :: "bool \<Rightarrow> ustr \<Rightarrow> int \<Rightarrow> ustr" where
  "fmt_sci neg mantissa_abs ex =
     (let sign = (if neg then scalars ''-'' else []);
          exp_sign = (if 0 \<le> ex then scalars ''+'' else scalars ''-'');
          exp_mag = nat \<bar>ex\<bar>;
          exp_str = (if exp_mag < 10 then 48 # dec_digits exp_mag else dec_digits exp_mag)
      in sign @ mantissa_abs @ scalars ''e'' @ exp_sign @ exp_str)"

definition fmt_decimal :: "bool \<Rightarrow> ustr \<Rightarrow> int \<Rightarrow> ustr" where
  "fmt_decimal neg digits ex =
     (let sign = (if neg then scalars ''-'' else []) in
      if ex < 0 then sign @ scalars ''0.'' @ replicate (nat (- ex - 1)) 48 @ digits
      else
        let int_len = nat (ex + 1); n = length digits in
        if n \<le> int_len then sign @ digits @ replicate (int_len - n) 48
        else sign @ take int_len digits @ scalars ''.'' @ drop int_len digits)"

definition fmt_double_impl :: "'f f64 \<Rightarrow> 'f \<Rightarrow> bool \<Rightarrow> ustr" where
  "fmt_double_impl F d dot_zero =
     (if f_is_nan F d then scalars ''nan''
      else if f_is_infinite F d then (if f_is_positive F d then scalars ''inf'' else scalars ''-inf'')
      else if f_is_zero F d then
        (if f_sign_negative F d then (if dot_zero then scalars ''-0.0'' else scalars ''-0'')
         else (if dot_zero then scalars ''0.0'' else scalars ''0''))
      else if f_is_integral F d \<and> f_is_exact F d then
        (if dot_zero then f_fixed0 F d @ scalars ''.0'' else f_fixed0 F d)
      else
        let (mantissa_abs, ex) = f_sci F d; neg = f_sign_negative F d in
        if f_is_integral F d then fmt_sci neg mantissa_abs ex
        else if - 4 \<le> ex \<and> ex \<le> 15 then fmt_decimal neg (filter is_ascii_digit mantissa_abs) ex
        else fmt_sci neg mantissa_abs ex)"

definition format_double :: "'f f64 \<Rightarrow> 'f \<Rightarrow> ustr" where
  "format_double F d = fmt_double_impl F d True"

definition format_double_json :: "'f f64 \<Rightarrow> 'f \<Rightarrow> ustr" where
  "format_double_json F d = fmt_double_impl F d False"

section \<open>Values\<close>

text \<open>Named fields in order: \<open>StructObj\<close> and \<open>ClassObj\<close>; an enum case with its payload.\<close>

datatype 'v struct_obj = StructObj (so_name: ustr) (so_fields: "(ustr \<times> 'v) list")

datatype 'v enum_obj = EnumObj (eo_type: ustr) (eo_case: ustr) (eo_payload: "'v list")

fun get_field :: "(ustr \<times> 'v) list \<Rightarrow> ustr \<Rightarrow> 'v option" where
  "get_field [] name = None"
| "get_field ((n, v) # fs) name = (if n = name then Some v else get_field fs name)"

fun set_field :: "(ustr \<times> 'v) list \<Rightarrow> ustr \<Rightarrow> 'v \<Rightarrow> (ustr \<times> 'v) list" where
  "set_field [] name v = [(name, v)]"
| "set_field ((n, w) # fs) name v = (if n = name then (n, v) # fs else (n, w) # set_field fs name v)"

lemma get_field_mem: "get_field fs name = Some v \<Longrightarrow> (name, v) \<in> set fs"
  by (induction fs) (auto split: if_splits)

datatype 'f swift_value =
    VVoid
  | VBool bool
  | VInt int_value
  | VDouble 'f
  | VStr ustr
  | VSubstring ustr nat nat
  | VTuple "'f swift_value list" "ustr option list"
  | VArray "'f swift_value list"
  | VArraySlice "'f swift_value list" nat nat
  | VDict "('f swift_value \<times> 'f swift_value) list"
  | VSet "'f swift_value list"
  | VRange int int bool
  | VFunction nat
  | VStruct "'f swift_value struct_obj"
  | VNil
  | VEnum "'f swift_value enum_obj"
  | VObject nat
  | VWeak nat
  | VUnowned nat
  | VRegex ustr
  | VClosure nat
  | VTask nat
  | VTaskGroup nat
  | VContinuation nat
  | VStreamContinuation nat
  | VAsyncStreamHandle nat
  | VMetatype ustr
  | VAccessorVar nat

type_synonym 'f heap = "nat \<Rightarrow> 'f swift_value struct_obj option"

definition struct_get :: "'v struct_obj \<Rightarrow> ustr \<Rightarrow> 'v option" where
  "struct_get obj name = get_field (so_fields obj) name"

definition struct_set :: "'v struct_obj \<Rightarrow> ustr \<Rightarrow> 'v \<Rightarrow> 'v struct_obj" where
  "struct_set obj name v = StructObj (so_name obj) (set_field (so_fields obj) name v)"

definition value_int :: "int \<Rightarrow> 'f swift_value" where
  "value_int r = VInt (platform_int r)"

definition value_tuple :: "'f swift_value list \<Rightarrow> 'f swift_value" where
  "value_tuple items = VTuple items (replicate (length items) None)"

definition tuple_label_index :: "ustr option list \<Rightarrow> ustr \<Rightarrow> nat option" where
  "tuple_label_index labels name = position (\<lambda>l. l = Some name) labels"

definition as_bool :: "'f swift_value \<Rightarrow> bool option" where
  "as_bool v = (case v of VBool b \<Rightarrow> Some b | _ \<Rightarrow> None)"

fun type_name_of :: "'f heap \<Rightarrow> 'f swift_value \<Rightarrow> ustr" where
  "type_name_of H VVoid = scalars ''()''"
| "type_name_of H (VBool _) = scalars ''Bool''"
| "type_name_of H (VInt i) = width_name (width i)"
| "type_name_of H (VDouble _) = scalars ''Double''"
| "type_name_of H (VStr _) = scalars ''String''"
| "type_name_of H (VSubstring _ _ _) = scalars ''Substring''"
| "type_name_of H (VTuple _ _) = scalars ''tuple''"
| "type_name_of H (VArray _) = scalars ''Array''"
| "type_name_of H (VArraySlice _ _ _) = scalars ''ArraySlice''"
| "type_name_of H (VDict _) = scalars ''Dictionary''"
| "type_name_of H (VSet _) = scalars ''Set''"
| "type_name_of H (VRange _ _ _) = scalars ''Range''"
| "type_name_of H (VFunction _) = scalars ''function''"
| "type_name_of H (VRegex _) = scalars ''Regex''"
| "type_name_of H (VStruct s) = so_name s"
| "type_name_of H VNil = scalars ''Optional''"
| "type_name_of H (VEnum e) = eo_type e"
| "type_name_of H (VObject a) = (case H a of Some obj \<Rightarrow> so_name obj | None \<Rightarrow> [])"
| "type_name_of H (VWeak _) = scalars ''Optional''"
| "type_name_of H (VUnowned a) = (case H a of Some obj \<Rightarrow> so_name obj | None \<Rightarrow> scalars ''unowned'')"
| "type_name_of H (VClosure _) = scalars ''closure''"
| "type_name_of H (VTask _) = scalars ''Task''"
| "type_name_of H (VTaskGroup _) = scalars ''TaskGroup''"
| "type_name_of H (VContinuation _) = scalars ''Continuation''"
| "type_name_of H (VStreamContinuation _) = scalars ''AsyncStream.Continuation''"
| "type_name_of H (VAsyncStreamHandle _) = scalars ''AsyncStream''"
| "type_name_of H (VMetatype name) = name @ scalars ''.Type''"
| "type_name_of H (VAccessorVar _) = scalars ''variable''"

section \<open>Equality\<close>

text \<open>The text of a substring: its window of clusters.\<close>

definition window_text :: "ustr \<Rightarrow> nat \<Rightarrow> nat \<Rightarrow> ustr" where
  "window_text base i j = concat (range_of (graphemes base) i j)"

text \<open>
  Pointwise comparison with a list of equality tests, as recursion on the left operand gives
  them; of labelled fields; of unordered pairs and elements.
\<close>

definition all_eq :: "('a \<Rightarrow> bool) list \<Rightarrow> 'a list \<Rightarrow> bool" where
  "all_eq ps ys \<longleftrightarrow> list_all2 (\<lambda>p y. p y) ps ys"

definition struct_eq :: "('a \<Rightarrow> bool) struct_obj \<Rightarrow> 'a struct_obj \<Rightarrow> bool" where
  "struct_eq p obj \<longleftrightarrow>
     so_name p = so_name obj \<and> list_all2 (\<lambda>(n, p) (m, y). n = m \<and> p y) (so_fields p) (so_fields obj)"

definition enum_eq :: "('a \<Rightarrow> bool) enum_obj \<Rightarrow> 'a enum_obj \<Rightarrow> bool" where
  "enum_eq p e \<longleftrightarrow> eo_type p = eo_type e \<and> eo_case p = eo_case e \<and> all_eq (eo_payload p) (eo_payload e)"

definition dict_eq :: "(('a \<Rightarrow> bool) \<times> ('a \<Rightarrow> bool)) list \<Rightarrow> ('a \<times> 'a) list \<Rightarrow> bool" where
  "dict_eq ps qs \<longleftrightarrow>
     length ps = length qs \<and> list_all (\<lambda>(pk, pv). list_ex (\<lambda>(k, v). pk k \<and> pv v) qs) ps"

definition set_eq :: "('a \<Rightarrow> bool) list \<Rightarrow> 'a list \<Rightarrow> bool" where
  "set_eq ps ys \<longleftrightarrow> length ps = length ys \<and> list_all (\<lambda>p. list_ex p ys) ps"

primrec swift_eq :: "'f f64 \<Rightarrow> 'f swift_value \<Rightarrow> 'f swift_value \<Rightarrow> bool" where
  "swift_eq F VVoid = (\<lambda>v. v = VVoid)"
| "swift_eq F VNil = (\<lambda>v. v = VNil)"
| "swift_eq F (VBool a) = (\<lambda>v. v = VBool a)"
| "swift_eq F (VInt a) = (\<lambda>v. v = VInt a)"
| "swift_eq F (VDouble a) = (\<lambda>v. case v of VDouble b \<Rightarrow> f_eq F a b | _ \<Rightarrow> False)"
| "swift_eq F (VStr a) =
     (\<lambda>v. case v of VStr b \<Rightarrow> a = b | VSubstring b i j \<Rightarrow> a = window_text b i j | _ \<Rightarrow> False)"
| "swift_eq F (VSubstring a i j) =
     (\<lambda>v. case v of
        VSubstring b k l \<Rightarrow> window_text a i j = window_text b k l
      | VStr b \<Rightarrow> b = window_text a i j
      | _ \<Rightarrow> False)"
| "swift_eq F (VTuple xs _) = (\<lambda>v. case v of VTuple ys _ \<Rightarrow> all_eq (map (swift_eq F) xs) ys | _ \<Rightarrow> False)"
| "swift_eq F (VArray xs) = (\<lambda>v. case v of VArray ys \<Rightarrow> all_eq (map (swift_eq F) xs) ys | _ \<Rightarrow> False)"
| "swift_eq F (VArraySlice xs i j) =
     (\<lambda>v. case v of
        VArraySlice ys k l \<Rightarrow> all_eq (range_of (map (swift_eq F) xs) i j) (range_of ys k l)
      | _ \<Rightarrow> False)"
| "swift_eq F (VDict ps) =
     (\<lambda>v. case v of VDict qs \<Rightarrow> dict_eq (map (map_prod (swift_eq F) (swift_eq F)) ps) qs | _ \<Rightarrow> False)"
| "swift_eq F (VSet xs) = (\<lambda>v. case v of VSet ys \<Rightarrow> set_eq (map (swift_eq F) xs) ys | _ \<Rightarrow> False)"
| "swift_eq F (VRange lo hi inc) = (\<lambda>v. v = VRange lo hi inc)"
| "swift_eq F (VFunction a) = (\<lambda>v. v = VFunction a)"
| "swift_eq F (VRegex p) = (\<lambda>v. v = VRegex p)"
| "swift_eq F (VClosure a) = (\<lambda>v. v = VClosure a)"
| "swift_eq F (VStruct obj) = (\<lambda>v. case v of VStruct obj' \<Rightarrow> struct_eq (map_struct_obj (swift_eq F) obj) obj' | _ \<Rightarrow> False)"
| "swift_eq F (VEnum e) = (\<lambda>v. case v of VEnum e' \<Rightarrow> enum_eq (map_enum_obj (swift_eq F) e) e' | _ \<Rightarrow> False)"
| "swift_eq F (VObject a) = (\<lambda>v. v = VObject a)"
| "swift_eq F (VWeak a) = (\<lambda>v. v = VWeak a)"
| "swift_eq F (VUnowned a) = (\<lambda>v. v = VUnowned a)"
| "swift_eq F (VMetatype a) = (\<lambda>v. v = VMetatype a)"
| "swift_eq F (VTask a) = (\<lambda>v. False)"
| "swift_eq F (VTaskGroup a) = (\<lambda>v. False)"
| "swift_eq F (VContinuation a) = (\<lambda>v. False)"
| "swift_eq F (VStreamContinuation a) = (\<lambda>v. False)"
| "swift_eq F (VAsyncStreamHandle a) = (\<lambda>v. False)"
| "swift_eq F (VAccessorVar a) = (\<lambda>v. False)"

section \<open>Text\<close>

text \<open>\<open>{:02X}\<close> of a control character.\<close>

definition hex2 :: "nat \<Rightarrow> ustr" where
  "hex2 n = (let hex = (\<lambda>d. if d < 10 then 48 + d else 55 + d) in [hex (n div 16), hex (n mod 16)])"

definition escape_collection_char :: "scalar \<Rightarrow> ustr" where
  "escape_collection_char c =
     (if c = 0x5C then [0x5C, 0x5C]
      else if c = 0x22 then [0x5C, 0x22]
      else if c = 0 then [0x5C, 48]
      else if c = 9 then [0x5C, 116]
      else if c = 10 then [0x5C, 110]
      else if c = 13 then [0x5C, 114]
      else if c \<le> 8 \<or> c = 0x0B \<or> c = 0x0C \<or> (0x0E \<le> c \<and> c \<le> 0x1F) \<or> c = 0x7F
      then [0x5C, 117, 123] @ hex2 c @ [125]
      else [c])"

definition escape_collection :: "ustr \<Rightarrow> ustr" where
  "escape_collection s = concat (map escape_collection_char s)"

definition quoted :: "ustr \<Rightarrow> ustr" where
  "quoted s = 0x22 # escape_collection s @ [0x22]"

fun joined :: "ustr list \<Rightarrow> ustr" where
  "joined [] = []"
| "joined [s] = s"
| "joined (s # ss) = s @ scalars '', '' @ joined ss"

text \<open>\<open>fmt_element\<close>, given how other values are shown.\<close>

definition fmt_element :: "('f swift_value \<Rightarrow> ustr option) \<Rightarrow> 'f swift_value \<Rightarrow> ustr option" where
  "fmt_element other v =
     (case v of
        VStr s \<Rightarrow> Some (quoted s)
      | VSubstring b i j \<Rightarrow> Some (quoted (window_text b i j))
      | _ \<Rightarrow> other v)"

definition bracketed :: "ustr \<Rightarrow> ustr \<Rightarrow> ustr list option \<Rightarrow> ustr option" where
  "bracketed open_text close_text parts = map_option (\<lambda>ss. open_text @ joined ss @ close_text) parts"

definition show_all :: "('a \<Rightarrow> ustr option) \<Rightarrow> 'a list \<Rightarrow> ustr list option" where
  "show_all f xs = those (map f xs)"

definition show_field :: "('a \<Rightarrow> ustr option) \<Rightarrow> ustr \<times> 'a \<Rightarrow> ustr option" where
  "show_field f nv = map_option (\<lambda>t. fst nv @ scalars '': '' @ t) (f (snd nv))"

definition show_pair :: "('a \<Rightarrow> ustr option) \<Rightarrow> 'a \<times> 'a \<Rightarrow> ustr option" where
  "show_pair f kv =
     (case (f (fst kv), f (snd kv)) of (Some k, Some v) \<Rightarrow> Some (k @ scalars '': '' @ v) | _ \<Rightarrow> None)"

definition show_object :: "('a \<Rightarrow> ustr option) \<Rightarrow> 'a struct_obj \<Rightarrow> ustr option" where
  "show_object f obj = bracketed (so_name obj @ scalars ''('') (scalars '')'') (show_all (show_field f) (so_fields obj))"

text \<open>The label of a tuple element, when it has one: \<open>labels.get(i)\<close>.\<close>

definition label_prefix :: "ustr option list \<Rightarrow> nat \<Rightarrow> ustr" where
  "label_prefix labels i =
     (case get_at labels i of Some (Some l) \<Rightarrow> l @ scalars '': '' | _ \<Rightarrow> [])"

text \<open>\<open>Display\<close>: \<open>None\<close> when the nesting, through the objects of the heap, is deeper than the fuel.\<close>

fun display :: "'f f64 \<Rightarrow> 'f heap \<Rightarrow> nat \<Rightarrow> 'f swift_value \<Rightarrow> ustr option" where
  "display F H 0 v = None"
| "display F H (Suc n) v =
     (let self = display F H n; element = fmt_element self in
      case v of
        VVoid \<Rightarrow> Some (scalars ''()'')
      | VBool b \<Rightarrow> Some (if b then scalars ''true'' else scalars ''false'')
      | VInt i \<Rightarrow> Some (display_int (raw i))
      | VDouble d \<Rightarrow> Some (format_double F d)
      | VStr s \<Rightarrow> Some s
      | VSubstring b i j \<Rightarrow> Some (window_text b i j)
      | VTuple items labels \<Rightarrow>
          bracketed (scalars ''('') (scalars '')'')
            (show_all (\<lambda>(i, item). map_option (\<lambda>t. label_prefix labels i @ t) (element item))
              (enumerate 0 items))
      | VArray items \<Rightarrow> bracketed (scalars ''['') (scalars '']'') (show_all element items)
      | VArraySlice base i j \<Rightarrow> bracketed (scalars ''['') (scalars '']'') (show_all element (range_of base i j))
      | VDict pairs \<Rightarrow>
          if pairs = [] then Some (scalars ''[:]'')
          else bracketed (scalars ''['') (scalars '']'') (show_all (show_pair element) pairs)
      | VSet items \<Rightarrow> bracketed (scalars ''['') (scalars '']'') (show_all element items)
      | VRange lo hi inclusive \<Rightarrow>
          Some (display_int lo @ (if inclusive then scalars ''...'' else scalars ''..<'') @ display_int hi)
      | VFunction _ \<Rightarrow> Some (scalars ''(Function)'')
      | VRegex p \<Rightarrow> Some p
      | VStruct s \<Rightarrow> show_object self s
      | VNil \<Rightarrow> Some (scalars ''nil'')
      | VObject a \<Rightarrow> (case H a of Some obj \<Rightarrow> show_object self obj | None \<Rightarrow> None)
      | VWeak a \<Rightarrow> (case H a of Some _ \<Rightarrow> self (VObject a) | None \<Rightarrow> Some (scalars ''nil''))
      | VUnowned a \<Rightarrow> (case H a of Some _ \<Rightarrow> self (VObject a) | None \<Rightarrow> Some (scalars ''<deallocated>''))
      | VClosure _ \<Rightarrow> Some (scalars ''(Function)'')
      | VTask _ \<Rightarrow> Some (scalars ''Task'')
      | VTaskGroup _ \<Rightarrow> Some (scalars ''TaskGroup'')
      | VContinuation _ \<Rightarrow> Some (scalars ''Continuation'')
      | VStreamContinuation _ \<Rightarrow> Some (scalars ''AsyncStream.Continuation'')
      | VAsyncStreamHandle _ \<Rightarrow> Some (scalars ''AsyncStream'')
      | VMetatype name \<Rightarrow> Some name
      | VAccessorVar _ \<Rightarrow> Some (scalars ''(Variable)'')
      | VEnum e \<Rightarrow>
          if eo_payload e = [] then Some (eo_case e)
          else bracketed (eo_case e @ scalars ''('') (scalars '')'') (show_all self (eo_payload e)))"

declare display.simps(2) [simp del]

section \<open>Text with a static type\<close>

definition set_element :: "type_repr \<Rightarrow> type_repr option" where
  "set_element repr =
     (case tr_kind repr of
        KNamed name args \<Rightarrow>
          if (name = scalars ''Set'' \<or> ends_with name (scalars ''.Set'')) \<and> length args = 1
          then Some (hd args) else None
      | _ \<Rightarrow> None)"

definition array_like_items :: "'f swift_value \<Rightarrow> 'f swift_value list option" where
  "array_like_items v =
     (case v of VArray items \<Rightarrow> Some items | VArraySlice base i j \<Rightarrow> Some (range_of base i j) | _ \<Rightarrow> None)"

definition plain_text :: "('f swift_value \<Rightarrow> ustr option) \<Rightarrow> bool \<Rightarrow> 'f swift_value \<Rightarrow> ustr option" where
  "plain_text sh as_element v = (if as_element then fmt_element sh v else sh v)"

text \<open>
  \<open>describe_with_repr\<close> takes one unit of fuel per call; every call is on a part of the type.
  \<open>sh\<close> is \<open>Display\<close>.
\<close>

fun describe_with_repr :: "('f swift_value \<Rightarrow> ustr option) \<Rightarrow> nat \<Rightarrow> 'f swift_value \<Rightarrow> type_repr \<Rightarrow> bool \<Rightarrow> ustr option" where
  "describe_with_repr sh 0 v repr as_element = None"
| "describe_with_repr sh (Suc n) v repr as_element =
     (let part = (\<lambda>ty w. describe_with_repr sh n w ty True) in
      if is_optional repr then
        (if v = VNil then Some (scalars ''nil'')
         else map_option (\<lambda>t. scalars ''Optional('' @ t @ scalars '')'') (part (unwrap_optional repr) v))
      else case (array_element repr, array_like_items v) of
        (Some elem, Some items) \<Rightarrow> bracketed (scalars ''['') (scalars '']'') (show_all (part elem) items)
      | _ \<Rightarrow>
          (case (dictionary repr, v) of
             (Some (key_ty, val_ty), VDict pairs) \<Rightarrow>
               if pairs = [] then Some (scalars ''[:]'')
               else bracketed (scalars ''['') (scalars '']'')
                 (show_all (\<lambda>(k, w).
                    case (part key_ty k, part val_ty w) of
                      (Some s, Some t) \<Rightarrow> Some (s @ scalars '': '' @ t)
                    | _ \<Rightarrow> None) pairs)
           | _ \<Rightarrow>
               (case (set_element repr, v) of
                  (Some elem, VSet items) \<Rightarrow>
                    bracketed (scalars ''['') (scalars '']'') (show_all (part elem) items)
                | _ \<Rightarrow> plain_text sh as_element v)))"

definition describe_with_type :: "'f f64 \<Rightarrow> 'f heap \<Rightarrow> nat \<Rightarrow> 'f swift_value \<Rightarrow> ustr option \<Rightarrow> ustr option" where
  "describe_with_type F H n v ty =
     (case ty of
        Some t \<Rightarrow> describe_with_repr (display F H n) n v (Type_Repr.parse t) False
      | None \<Rightarrow> display F H n v)"

end
