(* ===== verification/Name_Store.thy ===== *)
theory Name_Store
  imports Prelude
begin

text \<open>
  The interface of a container of named slots: what a client may rely on when it reads and
  writes by name. The fields of a struct or an instance and the map of a scope provide it.
\<close>

locale name_store =
  fixes look :: "'s \<Rightarrow> ustr \<Rightarrow> 'a option"
    and put :: "'s \<Rightarrow> ustr \<Rightarrow> 'a \<Rightarrow> 's"
  assumes look_put: "look (put s n v) m = (if m = n then Some v else look s m)"
begin

lemma look_put_same [simp]: "look (put s n v) n = Some v"
  by (simp add: look_put)

lemma look_put_other [simp]: "m \<noteq> n \<Longrightarrow> look (put s n v) m = look s m"
  by (simp add: look_put)

lemma look_as_update: "look (put s n v) = (look s)(n \<mapsto> v)"
  by (rule ext) (simp add: look_put)

lemma last_put_wins: "look (put (put s n v) n w) = look (put s n w)"
  by (simp add: look_as_update)

lemma puts_commute: "n \<noteq> m \<Longrightarrow> look (put (put s n v) m w) = look (put (put s m w) n v)"
  by (simp add: look_as_update fun_upd_twist)

lemma puts_as_updates: "look (foldl (\<lambda>s (n, v). put s n v) s kvs) = look s ++ map_of (rev kvs)"
  by (induction kvs arbitrary: s) (auto simp: look_as_update map_add_def split: option.splits)

end

text \<open>A container that in addition lists its slots, without duplicate names.\<close>

locale listed_store = name_store look put
  for look :: "'s \<Rightarrow> ustr \<Rightarrow> 'a option" and put :: "'s \<Rightarrow> ustr \<Rightarrow> 'a \<Rightarrow> 's" +
  fixes slots :: "'s \<Rightarrow> (ustr \<times> 'a) list"
  assumes look_slots: "look s = map_of (slots s)"
    and distinct_put: "distinct (map fst (slots s)) \<Longrightarrow> distinct (map fst (slots (put s n v)))"
begin

lemma distinct_puts:
  "distinct (map fst (slots s)) \<Longrightarrow> distinct (map fst (slots (foldl (\<lambda>s (n, v). put s n v) s kvs)))"
  by (induction kvs arbitrary: s) (auto intro: distinct_put)

lemma slot_values:
  "distinct (map fst (slots s)) \<Longrightarrow> (n, v) \<in> set (slots s) \<longleftrightarrow> look s n = Some v"
  by (simp add: look_slots)

lemma put_keeps_values:
  assumes "distinct (map fst (slots s))"
  shows "snd ` set (slots (put s n v)) \<subseteq> insert v (snd ` set (slots s))"
proof
  fix w
  assume "w \<in> snd ` set (slots (put s n v))"
  then obtain m where "(m, w) \<in> set (slots (put s n v))"
    by auto
  then have "look (put s n v) m = Some w"
    using slot_values [OF distinct_put [OF assms]] by blast
  then show "w \<in> insert v (snd ` set (slots s))"
    using slot_values [OF assms] by (force simp: look_put split: if_splits)
qed

end

end
