(* ===== verification/Value_Correct.thy ===== *)
theory Value_Correct
  imports Value Decimal_Correct Name_Store
begin

text \<open>
  Correctness of the texts of values: the text of a collection of strings determines the
  strings; the plain notation of a double is read back as its digits; printing returns on
  values without references, and does not on an object that holds itself.
\<close>

section \<open>Fields as containers\<close>

lemma get_set_field: "get_field (set_field fs n v) m = (if m = n then Some v else get_field fs m)"
  by (induction fs n v rule: set_field.induct) auto

lemma fst_set_field: "fst ` set (set_field fs n v) = insert n (fst ` set fs)"
  by (induction fs n v rule: set_field.induct) auto

interpretation fields: listed_store get_field set_field "\<lambda>fs. fs"
proof
  show "get_field (set_field fs n v) m = (if m = n then Some v else get_field fs m)" for fs :: "(ustr \<times> 'v) list" and n v m
    by (rule get_set_field)
  show "get_field fs = map_of fs" for fs :: "(ustr \<times> 'v) list"
    by (induction fs) auto
  show "distinct (map fst fs) \<Longrightarrow> distinct (map fst (set_field fs n v))" for fs :: "(ustr \<times> 'v) list" and n v
    by (induction fs n v rule: set_field.induct) (simp_all add: fst_set_field, blast)
qed

interpretation struct_fields: name_store struct_get struct_set
  by unfold_locales (simp add: struct_get_def struct_set_def get_set_field)

section \<open>Escaped texts\<close>

text \<open>A reader of quoted texts, after the opening quote: the text and what follows it.\<close>

definition hex_digit :: "scalar \<Rightarrow> nat" where
  "hex_digit d = (if d < 58 then d - 48 else d - 55)"

definition short_escape :: "scalar \<Rightarrow> scalar option" where
  "short_escape d = map_of [(0x5C, 0x5C), (0x22, 0x22), (48, 0), (116, 9), (110, 10), (114, 13)] d"

fun read_escape :: "ustr \<Rightarrow> (scalar \<times> ustr) option" where
  "read_escape [] = None"
| "read_escape (d # cs) =
     (case short_escape d of
        Some c \<Rightarrow> Some (c, cs)
      | None \<Rightarrow>
          (case cs of
             _ # h # l # _ # rest \<Rightarrow> Some (16 * hex_digit h + hex_digit l, rest)
           | _ \<Rightarrow> None))"

definition read_scalar :: "ustr \<Rightarrow> (scalar \<times> ustr) option" where
  "read_scalar s = (case s of [] \<Rightarrow> None | c # cs \<Rightarrow> if c = 0x5C then read_escape cs else Some (c, cs))"

inductive reads_text :: "ustr \<Rightarrow> ustr \<Rightarrow> ustr \<Rightarrow> bool" where
  quote: "reads_text (0x22 # rest) [] rest"
| scalar: "s = c' # s' \<Longrightarrow> c' \<noteq> 0x22 \<Longrightarrow> read_scalar s = Some (c, r) \<Longrightarrow> reads_text r cs rest \<Longrightarrow> reads_text s (c # cs) rest"

inductive_cases reads_textE: "reads_text s t rest"

lemma reads_text_unique: "reads_text s t rest \<Longrightarrow> reads_text s t' rest' \<Longrightarrow> t = t' \<and> rest = rest'"
proof (induction s t rest arbitrary: t' rest' rule: reads_text.induct)
  case (quote rest)
  then show ?case by (auto elim: reads_textE)
next
  case (scalar s c' s' c r cs rest)
  from scalar.prems show ?case
  proof (cases rule: reads_text.cases)
    case (scalar c2 s2 c3 r3 cs3)
    then show ?thesis
      using scalar.hyps scalar.IH by simp
  qed (use scalar.hyps in simp)
qed

lemma read_scalar_escaped: "read_scalar (escape_collection_char c @ r) = Some (c, r)"
proof -
  have "read_scalar (92 # 117 # 123 # hex2 c @ 125 # r) = Some (c, r)" if "c < 128"
  proof -
    have "16 * (c div 16) + c mod 16 = c" "c div 16 < 8" "c mod 16 < 16"
      using that by auto
    then show ?thesis
      by (simp add: read_scalar_def short_escape_def hex2_def hex_digit_def Let_def)
  qed
  then show ?thesis
    by (auto simp: escape_collection_char_def read_scalar_def short_escape_def)
qed

lemma escape_char_start: "\<exists>c' s'. escape_collection_char c = c' # s' \<and> c' \<noteq> 0x22"
  by (simp add: escape_collection_char_def)

lemma reads_escaped: "reads_text (escape_collection s @ 0x22 # rest) s rest"
proof (induction s)
  case Nil
  show ?case
    by (simp add: escape_collection_def quote)
next
  case (Cons c s)
  obtain c' s' where start: "escape_collection_char c = c' # s'" "c' \<noteq> 0x22"
    using escape_char_start by blast
  have "escape_collection (c # s) @ 0x22 # rest = escape_collection_char c @ escape_collection s @ 0x22 # rest"
    by (simp add: escape_collection_def)
  then show ?case
    using Cons.IH start read_scalar_escaped [of c]
    by (intro scalar [of _ c' "s' @ escape_collection s @ 0x22 # rest" c "escape_collection s @ 0x22 # rest"]) simp_all
qed

lemma quoted_prefix:
  assumes "quoted s @ u = quoted t @ v"
  shows "s = t \<and> u = v"
proof -
  have "reads_text (escape_collection s @ 0x22 # u) t v"
    using assms reads_escaped [of t v] by (simp add: quoted_def)
  then show ?thesis
    using reads_text_unique [OF reads_escaped] by blast
qed

lemma joined_Cons: "joined (s # ss) = s @ (if ss = [] then [] else scalars '', '' @ joined ss)"
  by (cases ss) simp_all

lemma joined_quoted_inj: "joined (map quoted ss) @ [93] = joined (map quoted ts) @ [93] \<Longrightarrow> ss = ts"
proof (induction ss arbitrary: ts)
  case Nil
  then show ?case
    by (cases ts) (auto simp: quoted_def joined_Cons)
next
  case (Cons s ss)
  then obtain t ts' where ts: "ts = t # ts'"
    by (cases ts) (auto simp: quoted_def joined_Cons)
  let ?tail = "\<lambda>xs. (if xs = [] then [] else scalars '', '' @ joined (map quoted xs)) @ [93]"
  have "quoted s @ ?tail ss = quoted t @ ?tail ts'"
    using Cons.prems by (simp add: ts joined_Cons)
  then have "s = t" and tail: "?tail ss = ?tail ts'"
    using quoted_prefix by blast+
  from tail have "ss = ts'"
  proof (cases "ss = [] \<or> ts' = []")
    case False
    then have "joined (map quoted ss) @ [93] = joined (map quoted ts') @ [93]"
      using tail by simp
    then show ?thesis
      by (rule Cons.IH)
  qed (auto simp: byte_def split: if_splits)
  then show ?case
    using \<open>s = t\<close> ts by simp
qed

lemma show_all_map: "show_all f (map g xs) = show_all (\<lambda>x. f (g x)) xs"
  by (simp add: show_all_def comp_def)

lemma show_all_Some [simp]: "show_all (\<lambda>x. Some (g x)) xs = Some (map g xs)"
  by (induction xs) (simp_all add: show_all_def)

lemma show_all_None: "show_all f xs = None \<longleftrightarrow> (\<exists>x\<in>set xs. f x = None)"
  by (induction xs) (auto simp: show_all_def split: option.splits)

lemma display_texts:
  "display F H (Suc n) (VArray (map VStr ss)) = Some (scalars ''['' @ joined (map quoted ss) @ scalars '']'')"
  by (simp add: display.simps(2) show_all_map fmt_element_def bracketed_def Let_def)

text \<open>The text of an array of strings determines the strings.\<close>

theorem array_text_injective:
  "display F H (Suc n) (VArray (map VStr ss)) = display F H (Suc m) (VArray (map VStr ts)) \<longleftrightarrow> ss = ts"
proof
  assume "display F H (Suc n) (VArray (map VStr ss)) = display F H (Suc m) (VArray (map VStr ts))"
  then show "ss = ts"
    by (intro joined_quoted_inj) (simp add: display_texts byte_def)
qed (simp add: display_texts)

section \<open>Doubles in plain notation\<close>

lemma fmt_decimal_body:
  assumes "0 < n"
  shows "fmt_decimal neg (dec_digits n) ex =
    (if neg then [45] else []) @ dec_body (int n) (ex + 1 - int (length (dec_digits n)))"
proof -
  let ?len = "length (dec_digits n)"
  have len: "0 < ?len"
    by simp
  have sign: "(if neg then scalars ''-'' else []) = (if neg then [45] else [])" "scalars ''0.'' = [48, 46]" "scalars ''.'' = [46]"
    by (simp_all add: byte_def)
  consider (whole) "int ?len \<le> ex + 1" | (mixed) "0 \<le> ex" "ex + 1 < int ?len" | (small) "ex < 0"
    by linarith
  then show ?thesis
  proof cases
    case whole
    then have "nat (ex + 1) - ?len = nat (ex + 1 - int ?len)" "?len \<le> nat (ex + 1)" "0 \<le> ex"
      using len by linarith+
    then show ?thesis
      using whole by (simp add: fmt_decimal_def dec_body_def sign Let_def)
  next
    case mixed
    then have "nat (ex + 1) = ?len - nat (- (ex + 1 - int ?len))" "\<not> ?len \<le> nat (ex + 1)"
      "nat (- (ex + 1 - int ?len)) < ?len"
      by linarith+
    then show ?thesis
      using mixed by (simp add: fmt_decimal_def dec_body_def sign byte_def Let_def)
  next
    case small
    then have "nat (- (ex + 1 - int ?len)) - ?len = nat (- ex - 1)" "\<not> nat (- (ex + 1 - int ?len)) < ?len"
      "\<not> int ?len \<le> ex + 1"
      using len by linarith+
    then show ?thesis
      using small by (simp add: fmt_decimal_def dec_body_def sign byte_def Let_def)
  qed
qed

lemma fmt_decimal_to_string:
  assumes "0 < n" "e = ex + 1 - int (length (dec_digits n))" "- (2 ^ 31) < e" "e < 2 ^ 31"
  shows "dec_to_string \<lparr>nan = False, mantissa = (if neg then - int n else int n), exponent = e\<rparr> =
    Some (fmt_decimal neg (dec_digits n) ex)"
proof -
  have "dec_body (- int n) e = dec_body (int n) e" for e
    by (simp add: dec_body_def)
  then show ?thesis
    using assms by (simp add: fmt_decimal_body dec_to_string_body)
qed

lemma dec_digits_length: "n < 10 ^ k \<Longrightarrow> 0 < k \<Longrightarrow> length (dec_digits n) \<le> k"
proof (induction n arbitrary: k rule: dec_digits.induct)
  case (1 n)
  show ?case
  proof (cases "n < 10")
    case True
    then show ?thesis
      using 1(3) by (subst dec_digits.simps) simp
  next
    case False
    then obtain j where k: "k = Suc j" "0 < j"
      using 1(2) by (cases k; cases "k - 1") auto
    then have "n div 10 < 10 ^ j"
      using 1(2) by (simp add: less_mult_imp_div_less)
    then show ?thesis
      using 1(1) [OF False _ k(2)] False k by (subst dec_digits.simps) simp
  qed
qed

text \<open>The plain notation of a double, up to the 17 digits one has, is read back by the
  decimals as those digits and that exponent.
\<close>

theorem fmt_decimal_read_back:
  assumes "0 < n" "\<not> 10 dvd n" "n < 10 ^ 17" "- 4 \<le> ex" "ex \<le> 15"
  shows "dec_parse (fmt_decimal neg (dec_digits n) ex) =
    Some \<lparr>nan = False, mantissa = (if neg then - int n else int n),
      exponent = ex + 1 - int (length (dec_digits n))\<rparr>"
proof -
  let ?e = "ex + 1 - int (length (dec_digits n))"
  let ?d = "\<lparr>nan = False, mantissa = (if neg then - int n else int n), exponent = ?e\<rparr>"
  have len: "length (dec_digits n) \<le> 17" "1 \<le> length (dec_digits n)"
    using dec_digits_length [OF assms(3)] by (simp_all add: Suc_le_eq)
  then have "nat ?e \<le> 15"
    using assms(5) by linarith
  then have "int n * 10 ^ nat ?e < 10 ^ 17 * 10 ^ 15"
    using assms(3) power_increasing [of "nat ?e" 15 "10::int"] by (intro mult_less_le_imp_less) simp_all
  then have "\<bar>mantissa ?d\<bar> * 10 ^ nat (exponent ?d) < 2 ^ 127"
    by simp
  moreover have "dec_ok ?d" "- (2 ^ 31) < exponent ?d"
    using assms len by (simp_all add: dec_ok_def in_i128_def)
  moreover have "canonical_dec ?d"
    using assms(1,2) by (simp add: canonical_dec_def int_dvd_int_iff [of 10 n, simplified])
  ultimately obtain t where "dec_to_string ?d = Some t" "dec_parse t = Some ?d"
    using dec_parse_string_spec [of ?d] by blast
  with fmt_decimal_to_string [OF assms(1) refl, of ex neg] assms(4,5) len show ?thesis
    by simp
qed

theorem fmt_decimal_read_back_witness:
  "dec_parse (fmt_decimal True (scalars ''314'') (- 2)) = Some \<lparr>nan = False, mantissa = - 314, exponent = - 4\<rparr>"
proof -
  have "dec_digits 314 = scalars ''314''"
    by (simp add: dec_digits.simps [of 314] dec_digits.simps [of 31] dec_digits.simps [of 3] byte_def)
  then show ?thesis
    using fmt_decimal_read_back [of 314 "- 2" True] by simp
qed

section \<open>Printing returns, or not\<close>

text \<open>A value that holds no reference to an instance.\<close>

primrec holds_no_object :: "'f swift_value \<Rightarrow> bool" where
  "holds_no_object VVoid = True"
| "holds_no_object VNil = True"
| "holds_no_object (VBool a) = True"
| "holds_no_object (VInt a) = True"
| "holds_no_object (VDouble a) = True"
| "holds_no_object (VStr a) = True"
| "holds_no_object (VSubstring a i j) = True"
| "holds_no_object (VTuple xs ls) = list_all id (map holds_no_object xs)"
| "holds_no_object (VArray xs) = list_all id (map holds_no_object xs)"
| "holds_no_object (VArraySlice xs i j) = list_all id (map holds_no_object xs)"
| "holds_no_object (VDict ps) = list_all (\<lambda>(a, b). a \<and> b) (map (map_prod holds_no_object holds_no_object) ps)"
| "holds_no_object (VSet xs) = list_all id (map holds_no_object xs)"
| "holds_no_object (VRange lo hi inc) = True"
| "holds_no_object (VFunction a) = True"
| "holds_no_object (VRegex p) = True"
| "holds_no_object (VClosure a) = True"
| "holds_no_object (VStruct obj) = list_all (\<lambda>(n, a). a) (so_fields (map_struct_obj holds_no_object obj))"
| "holds_no_object (VEnum e) = list_all id (eo_payload (map_enum_obj holds_no_object e))"
| "holds_no_object (VObject a) = False"
| "holds_no_object (VWeak a) = False"
| "holds_no_object (VUnowned a) = False"
| "holds_no_object (VMetatype a) = True"
| "holds_no_object (VTask a) = True"
| "holds_no_object (VTaskGroup a) = True"
| "holds_no_object (VContinuation a) = True"
| "holds_no_object (VStreamContinuation a) = True"
| "holds_no_object (VAsyncStreamHandle a) = True"
| "holds_no_object (VAccessorVar a) = True"

lemma size_range: "x \<in> set (range_of xs i j) \<Longrightarrow> x \<in> set xs"
  by (auto simp: range_of_def dest: in_set_takeD in_set_dropD)

lemma display_returns_aux:
  "holds_no_object v \<Longrightarrow> size v < n \<Longrightarrow> display F H n v \<noteq> None"
proof (induction n arbitrary: v)
  case (Suc n)
  have part: "display F H n w \<noteq> None" "fmt_element (display F H n) w \<noteq> None"
    if "holds_no_object w" "size w < size v" for w
    using Suc.IH [OF that(1)] that(2) Suc.prems(2)
    by (auto simp: fmt_element_def split: swift_value.splits)
  have parts: "show_all (fmt_element (display F H n)) xs \<noteq> None" "show_all (display F H n) xs \<noteq> None"
    if "list_all holds_no_object xs" "\<And>x. x \<in> set xs \<Longrightarrow> size x < size v" for xs
    using that part by (auto simp: show_all_None list_all_iff)
  show ?case
  proof (cases v)
    case (VTuple xs ls)
    have "show_all (\<lambda>(i, item). map_option (\<lambda>t. label_prefix ls i @ t) (fmt_element (display F H n) item)) (enumerate 0 xs) \<noteq> None"
      using Suc.prems(1) VTuple part(2) size_part [of _ xs size]
      by (auto simp: show_all_None list_all_iff in_set_enumerate_eq less_Suc_eq_le dest: nth_mem)
    then show ?thesis
      by (simp add: VTuple display.simps(2) bracketed_def Let_def)
  next
    case (VArray xs)
    then show ?thesis
      using Suc.prems(1) parts(1) [of xs] size_part [of _ xs size]
      by (simp add: display.simps(2) bracketed_def list_all_iff less_Suc_eq_le Let_def)
  next
    case (VArraySlice xs i j)
    then show ?thesis
      using Suc.prems(1) parts(1) [of "range_of xs i j"] size_part [of _ xs size]
      by (simp add: display.simps(2) bracketed_def list_all_iff less_Suc_eq_le size_range Let_def)
  next
    case (VSet xs)
    then show ?thesis
      using Suc.prems(1) parts(1) [of xs] size_part [of _ xs size]
      by (simp add: display.simps(2) bracketed_def list_all_iff less_Suc_eq_le Let_def)
  next
    case (VDict ps)
    have "show_pair (fmt_element (display F H n)) kv \<noteq> None" if "kv \<in> set ps" for kv
    proof -
      have "size_prod size size kv \<le> size_list (size_prod size size) ps"
        using that by (rule size_part)
      then have "size (fst kv) < size v" "size (snd kv) < size v"
        by (cases kv; simp add: VDict)+
      moreover have "holds_no_object (fst kv)" "holds_no_object (snd kv)"
        using Suc.prems(1) that by (cases kv; fastforce simp: VDict list_all_iff)+
      ultimately show ?thesis
        using part(2) [of "fst kv"] part(2) [of "snd kv"] by (auto simp: show_pair_def)
    qed
    then have "show_all (show_pair (fmt_element (display F H n))) ps \<noteq> None"
      unfolding show_all_None by blast
    then show ?thesis
      by (auto simp: VDict display.simps(2) bracketed_def Let_def)
  next
    case (VStruct obj)
    obtain name fs where obj: "obj = StructObj name fs"
      by (cases obj)
    have "show_field (display F H n) nv \<noteq> None" if "nv \<in> set fs" for nv
    proof -
      have "size_prod (\<lambda>_. 0) size nv \<le> size_list (size_prod (\<lambda>_. 0) size) fs"
        using that by (rule size_part)
      then have "size (snd nv) < size v"
        by (cases nv) (simp add: VStruct obj)
      moreover have "holds_no_object (snd nv)"
        using Suc.prems(1) that by (cases nv) (fastforce simp: VStruct obj list_all_iff)
      ultimately show ?thesis
        using part(1) by (simp add: show_field_def)
    qed
    then have "show_all (show_field (display F H n)) fs \<noteq> None"
      unfolding show_all_None by blast
    then show ?thesis
      by (auto simp: VStruct obj display.simps(2) show_object_def bracketed_def Let_def)
  next
    case (VEnum e)
    obtain ty c xs where e: "e = EnumObj ty c xs"
      by (cases e)
    have "show_all (display F H n) xs \<noteq> None"
      using Suc.prems(1) size_part [of _ xs size]
      by (intro parts(2)) (auto simp: VEnum e list_all_iff less_Suc_eq_le le_SucI)
    then show ?thesis
      by (auto simp: VEnum e display.simps(2) bracketed_def Let_def)
  qed (use Suc.prems in \<open>simp_all add: display.simps(2) Let_def\<close>)
qed simp

text \<open>Printing a value that holds no instance returns, when the fuel is above its size.\<close>

theorem display_returns:
  assumes "holds_no_object v" "size v < n"
  shows "\<exists>t. display F H n v = Some t"
  using display_returns_aux [OF assms] by blast

theorem display_returns_witness:
  "\<forall>F H. \<exists>t. display F H 10 (VArray [VBool True, VNil]) = Some t"
  by (intro allI display_returns) simp_all

text \<open>C34. Printing returns for no fuel on an instance in a set of live instances each of which
  has a field that refers, strongly or not, to one of the set: a reference cycle, such as a
  child with a weak reference to its parent.
\<close>

theorem object_cycle_diverges:
  assumes "\<forall>a\<in>S. \<exists>obj name v. H a = Some obj \<and> struct_get obj name = Some v \<and>
      (\<exists>b\<in>S. v \<in> {VObject b, VWeak b, VUnowned b})"
    and "a \<in> S"
  shows "display F H n (VObject a) = None"
  using assms(2)
proof (induction n arbitrary: a rule: less_induct)
  case (less n)
  show ?case
  proof (cases n)
    case (Suc m)
    obtain obj name v b where obj: "H a = Some obj" "(name, v) \<in> set (so_fields obj)"
      and b: "b \<in> S" "v \<in> {VObject b, VWeak b, VUnowned b}"
      using assms(1) less.prems by (metis get_field_mem struct_get_def)
    obtain obj' where "H b = Some obj'"
      using assms(1) b(1) by blast
    then have "display F H m v = None"
      using b less.IH [of m b] less.IH [of "m - 1" b] Suc
      by (cases m) (auto simp: display.simps(2) Let_def)
    then have "show_field (display F H m) (name, v) = None"
      by (simp add: show_field_def)
    then have "show_all (show_field (display F H m)) (so_fields obj) = None"
      using obj(2) by (auto simp: show_all_None)
    then show ?thesis
      using obj(1) by (simp add: Suc display.simps(2) show_object_def bracketed_def Let_def)
  qed simp
qed

definition parent_and_child :: "'f heap" where
  "parent_and_child = [0 \<mapsto> StructObj (scalars ''Parent'') [(scalars ''child'', VObject 1)],
     1 \<mapsto> StructObj (scalars ''Child'') [(scalars ''parent'', VWeak 0)]]"

theorem object_cycle_diverges_witness:
  "\<forall>F n. display F parent_and_child n (VObject 0) = None"
  by (intro allI object_cycle_diverges [of "{0, 1}"])
    (auto simp: parent_and_child_def struct_get_def)

end
