(* ===== verification/Ops.thy ===== *)
theory Ops
  imports Value "HOL-Library.List_Lexorder"
begin

text \<open>
  Operators on values, \<open>tswift-core/src/ops.rs\<close>. An error message of the code is a value of
  \<open>op_error\<close>; the interpreter turns it into a trap. Integer arithmetic is on \<open>i128\<close> and wraps
  there, as the release build does; each operator then checks the range of its width, wraps
  into it, or keeps the result. Texts compare as lists of scalars, which is the order of
  their UTF-8 bytes. \<open>fcmp\<close> is the comparison in \<open>f64\<close> of decimals that cannot be aligned.
\<close>

section \<open>Errors\<close>

datatype op_error =
    OverflowDuring string
  | OverflowNegating int
  | DivisionByZero
  | RangeBounds int int
  | FloatRemainder
  | UnknownOperator string string
  | CannotApply string ustr ustr
  | CannotApplyTo string ustr
  | ArityMismatch string
  | MalformedDate
  | Unreachable

type_synonym 'f op_result = "op_error + 'f swift_value"

section \<open>Comparisons\<close>

definition compare_op :: "string \<Rightarrow> int \<Rightarrow> int \<Rightarrow> bool option" where
  "compare_op op a b =
     (if op = ''=='' then Some (a = b)
      else if op = ''!='' then Some (a \<noteq> b)
      else if op = ''<'' then Some (a < b)
      else if op = ''<='' then Some (a \<le> b)
      else if op = ''>'' then Some (a > b)
      else if op = ''>='' then Some (a \<ge> b)
      else None)"

definition compare_op_f :: "'f f64 \<Rightarrow> string \<Rightarrow> 'f \<Rightarrow> 'f \<Rightarrow> bool option" where
  "compare_op_f F op a b =
     (if op = ''=='' then Some (f_eq F a b)
      else if op = ''!='' then Some (\<not> f_eq F a b)
      else if op = ''<'' then Some (f_lt F a b)
      else if op = ''<='' then Some (f_le F a b)
      else if op = ''>'' then Some (f_lt F b a)
      else if op = ''>='' then Some (f_le F b a)
      else None)"

text \<open>The operators on an \<open>Ordering\<close>, as for \<open>IndexPath\<close> and \<open>UUID\<close>.\<close>

definition compare_ordering :: "string \<Rightarrow> ordering \<Rightarrow> bool option" where
  "compare_ordering op ord =
     (if op = ''=='' then Some (ord = Equal)
      else if op = ''!='' then Some (ord \<noteq> Equal)
      else if op = ''<'' then Some (ord = Less)
      else if op = ''<='' then Some (ord \<noteq> Greater)
      else if op = ''>'' then Some (ord = Greater)
      else if op = ''>='' then Some (ord \<noteq> Less)
      else None)"

definition cmp_list :: "'a::linorder list \<Rightarrow> 'a list \<Rightarrow> ordering" where
  "cmp_list xs ys = (if xs < ys then Less else if xs = ys then Equal else Greater)"

section \<open>Integers\<close>

definition shift_left :: "int \<Rightarrow> int \<Rightarrow> int" where
  "shift_left a b = (if 0 \<le> b \<and> b < 128 then wrap_i128 (a * 2 ^ nat b) else 0)"

definition shift_right :: "int \<Rightarrow> int \<Rightarrow> int" where
  "shift_right a b = a div 2 ^ nat (min 127 (max 0 b))"

definition trapping :: "int_width \<Rightarrow> int \<Rightarrow> string \<Rightarrow> 'f op_result" where
  "trapping w r what =
     (let v = int_new r w in if in_range v then Inr (VInt v) else Inl (OverflowDuring what))"

definition int_arith :: "string \<Rightarrow> int_value \<Rightarrow> int_value \<Rightarrow> 'f op_result" where
  "int_arith op a b =
     (let w = width a in
      if op = ''+'' then trapping w (wrap_i128 (raw a + raw b)) ''addition''
      else if op = ''-'' then trapping w (wrap_i128 (raw a - raw b)) ''subtraction''
      else if op = ''*'' then trapping w (wrap_i128 (raw a * raw b)) ''multiplication''
      else if op = ''/'' then
        (if raw b = 0 then Inl DivisionByZero else trapping w (rust_div (raw a) (raw b)) ''division'')
      else if op = ''%'' then
        (if raw b = 0 then Inl DivisionByZero else trapping w (rust_rem (raw a) (raw b)) ''remainder'')
      else if op = ''&+'' then Inr (VInt (wrapped w (wrap_i128 (raw a + raw b))))
      else if op = ''&-'' then Inr (VInt (wrapped w (wrap_i128 (raw a - raw b))))
      else if op = ''&*'' then Inr (VInt (wrapped w (wrap_i128 (raw a * raw b))))
      else if op = ''&'' then Inr (VInt (int_new (raw a AND raw b) w))
      else if op = ''|'' then Inr (VInt (int_new (raw a OR raw b) w))
      else if op = ''^'' then Inr (VInt (wrapped w (raw a XOR raw b)))
      else if op = ''<<'' then trapping w (shift_left (raw a) (raw b)) ''left shift''
      else if op = ''>>'' then Inr (VInt (int_new (shift_right (raw a) (raw b)) w))
      else if op = ''&<<'' then
        Inr (VInt (wrapped w (wrap_i128 (raw a * 2 ^ nat (raw b mod int (bits w))))))
      else if op = ''&>>'' then Inr (VInt (int_new (raw a div 2 ^ nat (raw b mod int (bits w))) w))
      else Inl (UnknownOperator ''integer'' op))"

definition int_binary :: "string \<Rightarrow> int_value \<Rightarrow> int_value \<Rightarrow> 'f op_result" where
  "int_binary op a b =
     (case compare_op op (raw a) (raw b) of
        Some res \<Rightarrow> Inr (VBool res)
      | None \<Rightarrow>
          if op = ''..<'' then Inr (VRange (raw a) (raw b) False)
          else if op = ''...'' then
            (if raw a > raw b then Inl (RangeBounds (raw a) (raw b)) else Inr (VRange (raw a) (raw b) True))
          else int_arith op a b)"

section \<open>Doubles, booleans, texts\<close>

definition double_binary :: "'f f64 \<Rightarrow> string \<Rightarrow> 'f \<Rightarrow> 'f \<Rightarrow> 'f op_result" where
  "double_binary F op a b =
     (case compare_op_f F op a b of
        Some res \<Rightarrow> Inr (VBool res)
      | None \<Rightarrow>
          if op = ''+'' then Inr (VDouble (f_add F a b))
          else if op = ''-'' then Inr (VDouble (f_sub F a b))
          else if op = ''*'' then Inr (VDouble (f_mul F a b))
          else if op = ''/'' then Inr (VDouble (f_div F a b))
          else if op = ''%'' then Inl FloatRemainder
          else Inl (UnknownOperator ''floating-point'' op))"

definition bool_binary :: "string \<Rightarrow> bool \<Rightarrow> bool \<Rightarrow> 'f op_result" where
  "bool_binary op a b =
     (if op = ''=='' then Inr (VBool (a = b))
      else if op = ''!='' then Inr (VBool (a \<noteq> b))
      else if op = ''&&'' then Inr (VBool (a \<and> b))
      else if op = ''||'' then Inr (VBool (a \<or> b))
      else Inl (UnknownOperator ''boolean'' op))"

definition str_binary :: "string \<Rightarrow> ustr \<Rightarrow> ustr \<Rightarrow> 'f op_result" where
  "str_binary op a b =
     (if op = ''+'' then Inr (VStr (a @ b))
      else if op = ''=='' then Inr (VBool (a = b))
      else if op = ''!='' then Inr (VBool (a \<noteq> b))
      else if op = ''<'' then Inr (VBool (a < b))
      else if op = ''<='' then Inr (VBool (a \<le> b))
      else if op = ''>'' then Inr (VBool (a > b))
      else if op = ''>='' then Inr (VBool (a \<ge> b))
      else Inl (UnknownOperator ''string'' op))"

section \<open>Structs of the library\<close>

definition string_index_offset :: "'f swift_value struct_obj \<Rightarrow> int" where
  "string_index_offset obj =
     (case struct_get obj (scalars ''_offset'') of Some (VInt i) \<Rightarrow> raw i | _ \<Rightarrow> 0)"

definition string_index_binary ::
  "string \<Rightarrow> 'f swift_value struct_obj \<Rightarrow> 'f swift_value struct_obj \<Rightarrow> 'f op_result" where
  "string_index_binary op a b =
     (let lo = string_index_offset a; hi = string_index_offset b in
      if op = ''..<'' then Inr (VRange lo hi False)
      else if op = ''...'' then Inr (VRange lo hi True)
      else case compare_op op lo hi of
        Some res \<Rightarrow> Inr (VBool res)
      | None \<Rightarrow> Inl (CannotApplyTo op (scalars ''String.Index'')))"

definition index_path_value :: "int list \<Rightarrow> 'f swift_value" where
  "index_path_value indexes =
     VStruct (StructObj (scalars ''IndexPath'') [(scalars ''_indexes'', VArray (map value_int indexes))])"

definition int_raws :: "'f swift_value list \<Rightarrow> int list" where
  "int_raws items = List.map_filter (\<lambda>v. case v of VInt i \<Rightarrow> Some (raw i) | _ \<Rightarrow> None) items"

definition index_path_indexes :: "'f swift_value struct_obj \<Rightarrow> int list" where
  "index_path_indexes obj =
     (case struct_get obj (scalars ''_indexes'') of Some (VArray items) \<Rightarrow> int_raws items | _ \<Rightarrow> [])"

definition index_path_binary ::
  "string \<Rightarrow> 'f swift_value struct_obj \<Rightarrow> 'f swift_value struct_obj \<Rightarrow> 'f op_result" where
  "index_path_binary op a b =
     (let la = index_path_indexes a; lb = index_path_indexes b in
      if op = ''+'' then Inr (index_path_value (la @ lb))
      else case compare_ordering op (cmp_list la lb) of
        Some res \<Rightarrow> Inr (VBool res)
      | None \<Rightarrow> Inl (CannotApplyTo op (scalars ''IndexPath'')))"

definition uuid_string :: "'f swift_value struct_obj \<Rightarrow> ustr" where
  "uuid_string obj = (case struct_get obj (scalars ''uuidString'') of Some (VStr s) \<Rightarrow> s | _ \<Rightarrow> [])"

definition uuid_binary ::
  "string \<Rightarrow> 'f swift_value struct_obj \<Rightarrow> 'f swift_value struct_obj \<Rightarrow> 'f op_result" where
  "uuid_binary op a b =
     (case compare_ordering op (cmp_list (uuid_string a) (uuid_string b)) of
        Some res \<Rightarrow> Inr (VBool res)
      | None \<Rightarrow> Inl (CannotApplyTo op (scalars ''UUID'')))"

definition date_seconds :: "'f f64 \<Rightarrow> 'f swift_value struct_obj \<Rightarrow> op_error + 'f" where
  "date_seconds F obj =
     (case struct_get obj (scalars ''_timeIntervalSinceReferenceDate'') of
        Some (VDouble s) \<Rightarrow> Inr s
      | Some (VInt s) \<Rightarrow> Inr (f_of_int F (raw s))
      | _ \<Rightarrow> Inl MalformedDate)"

definition date_value :: "'f \<Rightarrow> 'f swift_value" where
  "date_value s = VStruct (StructObj (scalars ''Date'') [(scalars ''_timeIntervalSinceReferenceDate'', VDouble s)])"

definition date_binary ::
  "'f f64 \<Rightarrow> string \<Rightarrow> 'f swift_value struct_obj \<Rightarrow> 'f swift_value struct_obj \<Rightarrow> 'f op_result" where
  "date_binary F op a b =
     (case (date_seconds F a, date_seconds F b) of
        (Inl e, _) \<Rightarrow> Inl e
      | (Inr _, Inl e) \<Rightarrow> Inl e
      | (Inr lhs, Inr rhs) \<Rightarrow>
          (case compare_op_f F op lhs rhs of
             Some res \<Rightarrow> Inr (VBool res)
           | None \<Rightarrow>
               if op = ''-'' then Inr (VDouble (f_sub F lhs rhs))
               else Inl (CannotApplyTo op (scalars ''Date''))))"

definition date_time_interval_binary ::
  "'f f64 \<Rightarrow> string \<Rightarrow> 'f swift_value struct_obj \<Rightarrow> 'f \<Rightarrow> 'f op_result" where
  "date_time_interval_binary F op date seconds =
     (case date_seconds F date of
        Inl e \<Rightarrow> Inl e
      | Inr base \<Rightarrow>
          if op = ''+'' then Inr (date_value (f_add F base seconds))
          else if op = ''-'' then Inr (date_value (f_sub F base seconds))
          else Inl (CannotApply op (scalars ''Date'') (scalars ''TimeInterval'')))"

definition DATE_COMPONENT_FIELDS :: "ustr list" where
  "DATE_COMPONENT_FIELDS = map scalars
     [''year'', ''month'', ''day'', ''hour'', ''minute'', ''second'', ''nanosecond'', ''weekday'',
      ''weekdayOrdinal'', ''quarter'', ''weekOfMonth'', ''weekOfYear'', ''yearForWeekOfYear'', ''era'',
      ''dayOfYear'']"

definition component_equal :: "'f swift_value \<Rightarrow> 'f swift_value \<Rightarrow> bool" where
  "component_equal l r \<longleftrightarrow>
     (case l of
        VNil \<Rightarrow> (case r of VNil \<Rightarrow> True | _ \<Rightarrow> False)
      | VInt a \<Rightarrow> (case r of VInt b \<Rightarrow> raw a = raw b | _ \<Rightarrow> False)
      | _ \<Rightarrow> False)"

definition field_or_nil :: "'f swift_value struct_obj \<Rightarrow> ustr \<Rightarrow> 'f swift_value" where
  "field_or_nil obj name = (case struct_get obj name of Some v \<Rightarrow> v | None \<Rightarrow> VNil)"

definition date_components_binary ::
  "string \<Rightarrow> 'f swift_value struct_obj \<Rightarrow> 'f swift_value struct_obj \<Rightarrow> 'f op_result" where
  "date_components_binary op a b =
     (let eq = list_all (\<lambda>f. component_equal (field_or_nil a f) (field_or_nil b f)) DATE_COMPONENT_FIELDS in
      if op = ''=='' then Inr (VBool eq)
      else if op = ''!='' then Inr (VBool (\<not> eq))
      else Inl (CannotApplyTo op (scalars ''DateComponents'')))"

section \<open>Measurements\<close>

definition is_measurement :: "'f swift_value \<Rightarrow> bool" where
  "is_measurement v = (case v of VStruct obj \<Rightarrow> so_name obj = scalars ''Measurement'' | _ \<Rightarrow> False)"

definition number_f64 :: "'f f64 \<Rightarrow> 'f swift_value \<Rightarrow> 'f option" where
  "number_f64 F v = (case v of VDouble d \<Rightarrow> Some d | VInt i \<Rightarrow> Some (f_of_int F (raw i)) | _ \<Rightarrow> None)"

definition field_f64 :: "'f f64 \<Rightarrow> 'f swift_value struct_obj \<Rightarrow> ustr \<Rightarrow> 'f option" where
  "field_f64 F obj name = Option.bind (struct_get obj name) (number_f64 F)"

text \<open>Value, coefficient, constant and unit type of a measurement.\<close>

definition measurement_parts :: "'f f64 \<Rightarrow> 'f swift_value \<Rightarrow> ('f \<times> 'f \<times> 'f \<times> ustr) option" where
  "measurement_parts F v =
     (case v of
        VStruct m \<Rightarrow>
          if so_name m \<noteq> scalars ''Measurement'' then None
          else (case (field_f64 F m (scalars ''value''), struct_get m (scalars ''unit'')) of
            (Some x, Some (VStruct u)) \<Rightarrow>
              (case (field_f64 F u (scalars ''_coefficient''), field_f64 F u (scalars ''_constant'')) of
                 (Some coeff, Some const) \<Rightarrow> Some (x, coeff, const, so_name u)
               | _ \<Rightarrow> None)
          | _ \<Rightarrow> None)
      | _ \<Rightarrow> None)"

definition measurement_with_value :: "'f swift_value \<Rightarrow> 'f \<Rightarrow> 'f swift_value" where
  "measurement_with_value template x =
     (case template of
        VStruct m \<Rightarrow>
          VStruct (StructObj (scalars ''Measurement'')
            [(scalars ''value'', VDouble x), (scalars ''unit'', field_or_nil m (scalars ''unit''))])
      | _ \<Rightarrow> template)"

definition scaled_measurement ::
  "'f f64 \<Rightarrow> 'f heap \<Rightarrow> string \<Rightarrow> 'f swift_value \<Rightarrow> 'f swift_value \<Rightarrow> 'f \<Rightarrow> 'f op_result" where
  "scaled_measurement F H op l r v =
     (case number_f64 F r of
        Some scalar \<Rightarrow>
          if op = ''*'' then Inr (measurement_with_value l (f_mul F v scalar))
          else if op = ''/'' then Inr (measurement_with_value l (f_div F v scalar))
          else Inl (CannotApply op (scalars ''Measurement'') (scalars ''scalar''))
      | None \<Rightarrow> Inl (CannotApply op (scalars ''Measurement'') (type_name_of H r)))"

definition scalar_measurement ::
  "'f f64 \<Rightarrow> 'f heap \<Rightarrow> string \<Rightarrow> 'f swift_value \<Rightarrow> 'f swift_value \<Rightarrow> 'f \<Rightarrow> 'f op_result" where
  "scalar_measurement F H op l r v =
     (case number_f64 F l of
        Some scalar \<Rightarrow>
          if op = ''*'' then Inr (measurement_with_value r (f_mul F scalar v))
          else Inl (CannotApply op (scalars ''scalar'') (scalars ''Measurement''))
      | None \<Rightarrow> Inl (CannotApply op (type_name_of H l) (scalars ''Measurement'')))"

text \<open>The error \<open>Unreachable\<close> is the panic of the code where neither operand has its parts.\<close>

definition measurement_binary ::
  "'f f64 \<Rightarrow> 'f heap \<Rightarrow> string \<Rightarrow> 'f swift_value \<Rightarrow> 'f swift_value \<Rightarrow> 'f op_result" where
  "measurement_binary F H op l r =
     (case (measurement_parts F l, measurement_parts F r) of
        (Some (v, _), None) \<Rightarrow> scaled_measurement F H op l r v
      | (None, Some (v, _)) \<Rightarrow> scalar_measurement F H op l r v
      | (Some (lv, lc, lk, lt), Some (rv, rc, rk, rt)) \<Rightarrow>
          (if lt \<noteq> rt then Inl (CannotApply op lt rt)
           else
             let l_base = f_add F (f_mul F lv lc) lk;
                 r_base = f_add F (f_mul F rv rc) rk;
                 r_in_l = f_div F (f_sub F r_base lk) lc
             in if op = ''+'' then Inr (measurement_with_value l (f_add F lv r_in_l))
                else if op = ''-'' then Inr (measurement_with_value l (f_sub F lv r_in_l))
                else case compare_op_f F op l_base r_base of
                  Some res \<Rightarrow> Inr (VBool res)
                | None \<Rightarrow> Inl (CannotApplyTo op (scalars ''measurements'')))
      | (None, None) \<Rightarrow> Inl Unreachable)"

section \<open>Decimals as values\<close>

definition dec_to_value :: "dec \<Rightarrow> 'f swift_value" where
  "dec_to_value d =
     VStruct (StructObj (scalars ''Decimal'')
       [(scalars ''_mantissa'', value_int (mantissa d)), (scalars ''_exponent'', value_int (exponent d)),
        (scalars ''_nan'', VBool (nan d))])"

definition dec_from_value :: "'f swift_value \<Rightarrow> dec option" where
  "dec_from_value v =
     (case v of
        VStruct obj \<Rightarrow>
          if so_name obj \<noteq> scalars ''Decimal'' then None
          else (case (struct_get obj (scalars ''_mantissa''), struct_get obj (scalars ''_exponent'')) of
            (Some (VInt m), Some (VInt e)) \<Rightarrow>
              Some \<lparr> nan = (case struct_get obj (scalars ''_nan'') of Some (VBool b) \<Rightarrow> b | _ \<Rightarrow> False),
                mantissa = raw m, exponent = wrap_i32 (raw e) \<rparr>
          | _ \<Rightarrow> None)
      | _ \<Rightarrow> None)"

definition dec_coerce :: "'f f64 \<Rightarrow> 'f swift_value \<Rightarrow> dec option" where
  "dec_coerce F v =
     (case v of
        VStruct _ \<Rightarrow> dec_from_value v
      | VInt i \<Rightarrow> Some (dec_new (raw i) 0)
      | VDouble d \<Rightarrow> dec_parse (f_display F d)
      | _ \<Rightarrow> None)"

definition is_decimal_operand :: "'f swift_value \<Rightarrow> bool" where
  "is_decimal_operand v \<longleftrightarrow> dec_from_value v \<noteq> None"

definition decimal_op :: "(dec \<Rightarrow> dec \<Rightarrow> ordering) \<Rightarrow> string \<Rightarrow> dec \<Rightarrow> dec \<Rightarrow> 'f op_result" where
  "decimal_op fcmp op a b =
     (let ord = dec_compare fcmp a b;
          either_nan = (nan a \<or> nan b) in
      if op = ''+'' then Inr (dec_to_value (dec_add a b))
      else if op = ''-'' then Inr (dec_to_value (dec_sub a b))
      else if op = ''*'' then Inr (dec_to_value (dec_mul a b))
      else if op = ''/'' then Inr (dec_to_value (dec_div a b))
      else if op = ''=='' then Inr (VBool (\<not> either_nan \<and> ord = Equal))
      else if op = ''!='' then Inr (VBool (either_nan \<or> ord \<noteq> Equal))
      else if op = ''<'' then Inr (VBool (\<not> either_nan \<and> ord = Less))
      else if op = ''<='' then Inr (VBool (\<not> either_nan \<and> ord \<noteq> Greater))
      else if op = ''>'' then Inr (VBool (\<not> either_nan \<and> ord = Greater))
      else if op = ''>='' then Inr (VBool (\<not> either_nan \<and> ord \<noteq> Less))
      else Inl (CannotApplyTo op (scalars ''Decimal'')))"

definition decimal_binary ::
  "'f f64 \<Rightarrow> (dec \<Rightarrow> dec \<Rightarrow> ordering) \<Rightarrow> 'f heap \<Rightarrow> string \<Rightarrow> 'f swift_value \<Rightarrow> 'f swift_value \<Rightarrow> 'f op_result" where
  "decimal_binary F fcmp H op l r =
     (case (dec_coerce F l, dec_coerce F r) of
        (None, _) \<Rightarrow> Inl (CannotApply op (scalars ''Decimal'') (type_name_of H r))
      | (Some _, None) \<Rightarrow> Inl (CannotApply op (scalars ''Decimal'') (type_name_of H l))
      | (Some a, Some b) \<Rightarrow> decimal_op fcmp op a b)"

section \<open>Collections\<close>

definition array_binary :: "'f f64 \<Rightarrow> string \<Rightarrow> 'f swift_value list \<Rightarrow> 'f swift_value list \<Rightarrow> 'f op_result" where
  "array_binary F op a b =
     (if op = ''+'' then Inr (VArray (a @ b))
      else if op = ''=='' then Inr (VBool (swift_eq F (VArray a) (VArray b)))
      else if op = ''!='' then Inr (VBool (\<not> swift_eq F (VArray a) (VArray b)))
      else Inl (UnknownOperator ''array'' op))"

definition set_binary :: "'f f64 \<Rightarrow> string \<Rightarrow> 'f swift_value list \<Rightarrow> 'f swift_value list \<Rightarrow> 'f op_result" where
  "set_binary F op a b =
     (let eq = set_eq (map (swift_eq F) a) b in
      if op = ''=='' then Inr (VBool eq)
      else if op = ''!='' then Inr (VBool (\<not> eq))
      else Inl (CannotApply op (scalars ''Set'') (scalars ''Set'')))"

definition dict_binary ::
  "'f f64 \<Rightarrow> string \<Rightarrow> ('f swift_value \<times> 'f swift_value) list \<Rightarrow> ('f swift_value \<times> 'f swift_value) list \<Rightarrow> 'f op_result" where
  "dict_binary F op a b =
     (let eq = dict_eq (map (map_prod (swift_eq F) (swift_eq F)) a) b in
      if op = ''=='' then Inr (VBool eq)
      else if op = ''!='' then Inr (VBool (\<not> eq))
      else Inl (CannotApplyTo op (scalars ''Dictionary'')))"

definition range_binary :: "string \<Rightarrow> int \<times> int \<times> bool \<Rightarrow> int \<times> int \<times> bool \<Rightarrow> 'f op_result" where
  "range_binary op a b =
     (if op = ''=='' then Inr (VBool (a = b))
      else if op = ''!='' then Inr (VBool (a \<noteq> b))
      else Inl (CannotApplyTo op (scalars ''ranges'')))"

text \<open>\<open>tuple_binary\<close>: the first pair of elements that are not equal, if there is one, decides.\<close>

definition strict_op :: "string \<Rightarrow> string" where
  "strict_op op = rev (dropWhile (\<lambda>c. c = CHR ''='') (rev op))"

fun first_difference :: "('v \<Rightarrow> 'v \<Rightarrow> bool) \<Rightarrow> 'v list \<Rightarrow> 'v list \<Rightarrow> ('v \<times> 'v) option" where
  "first_difference eq (x # xs) (y # ys) = (if eq x y then first_difference eq xs ys else Some (x, y))"
| "first_difference eq _ _ = None"

lemma first_difference_size:
  fixes xs :: "'f swift_value list"
  shows "first_difference eq xs ys = Some (x, y) \<Longrightarrow> size x < Suc (size_list size xs)"
  by (induction eq xs ys rule: first_difference.induct) (auto split: if_splits)

definition is_order_op :: "string \<Rightarrow> bool" where
  "is_order_op op \<longleftrightarrow> op \<in> set [''<'', ''<='', ''>'', ''>='']"

section \<open>Dispatch\<close>

definition metatype_binary :: "string \<Rightarrow> ustr \<Rightarrow> ustr \<Rightarrow> 'f op_result" where
  "metatype_binary op a b =
     (if op = ''=='' then Inr (VBool (a = b))
      else if op = ''!='' then Inr (VBool (a \<noteq> b))
      else Inl (CannotApplyTo op (scalars ''metatypes'')))"

text \<open>The arms of \<open>binary\<close> after those on the shape of both operands.\<close>

definition guarded_binary ::
  "'f f64 \<Rightarrow> (dec \<Rightarrow> dec \<Rightarrow> ordering) \<Rightarrow> 'f heap \<Rightarrow> string \<Rightarrow> 'f swift_value \<Rightarrow> 'f swift_value \<Rightarrow> 'f op_result" where
  "guarded_binary F fcmp H op l r =
     (if is_measurement l \<or> is_measurement r then measurement_binary F H op l r
      else if is_decimal_operand l \<or> is_decimal_operand r then decimal_binary F fcmp H op l r
      else let no = Inl (CannotApply op (type_name_of H l) (type_name_of H r)) in
        case l of VMetatype a \<Rightarrow> (case r of VMetatype b \<Rightarrow> metatype_binary op a b | _ \<Rightarrow> no) | _ \<Rightarrow> no)"

definition struct_binary ::
  "'f f64 \<Rightarrow> string \<Rightarrow> 'f swift_value struct_obj \<Rightarrow> 'f swift_value struct_obj \<Rightarrow> 'f op_result \<Rightarrow> 'f op_result" where
  "struct_binary F op a b other =
     (let both = (\<lambda>name. so_name a = scalars name \<and> so_name b = scalars name) in
      if both ''UUID'' then uuid_binary op a b
      else if both ''String.Index'' then string_index_binary op a b
      else if both ''IndexPath'' then index_path_binary op a b
      else if both ''Date'' then date_binary F op a b
      else if both ''DateComponents'' then date_components_binary op a b
      else other)"

text \<open>The arms of \<open>binary\<close> other than the one on two tuples.\<close>

definition flat_binary ::
  "'f f64 \<Rightarrow> (dec \<Rightarrow> dec \<Rightarrow> ordering) \<Rightarrow> 'f heap \<Rightarrow> string \<Rightarrow> 'f swift_value \<Rightarrow> 'f swift_value \<Rightarrow> 'f op_result" where
  "flat_binary F fcmp H op l r =
     (let other = guarded_binary F fcmp H op l r in
      case l of
        VInt a \<Rightarrow>
          (case r of
             VInt b \<Rightarrow> int_binary op a b
           | VDouble b \<Rightarrow> double_binary F op (f_of_int F (raw a)) b
           | _ \<Rightarrow> other)
      | VDouble a \<Rightarrow>
          (case r of
             VDouble b \<Rightarrow> double_binary F op a b
           | VInt b \<Rightarrow> double_binary F op a (f_of_int F (raw b))
           | _ \<Rightarrow> other)
      | VBool a \<Rightarrow> (case r of VBool b \<Rightarrow> bool_binary op a b | _ \<Rightarrow> other)
      | VStr a \<Rightarrow>
          (case r of
             VStr b \<Rightarrow> str_binary op a b
           | VSubstring b i j \<Rightarrow> str_binary op a (window_text b i j)
           | _ \<Rightarrow> other)
      | VSubstring a i j \<Rightarrow>
          (case r of
             VSubstring b k m \<Rightarrow> str_binary op (window_text a i j) (window_text b k m)
           | VStr b \<Rightarrow> str_binary op (window_text a i j) b
           | _ \<Rightarrow> other)
      | VArray a \<Rightarrow> (case r of VArray b \<Rightarrow> array_binary F op a b | _ \<Rightarrow> other)
      | VArraySlice a i j \<Rightarrow>
          (case r of
             VArraySlice b k m \<Rightarrow> array_binary F op (range_of a i j) (range_of b k m)
           | _ \<Rightarrow> other)
      | VSet a \<Rightarrow> (case r of VSet b \<Rightarrow> set_binary F op a b | _ \<Rightarrow> other)
      | VDict a \<Rightarrow> (case r of VDict b \<Rightarrow> dict_binary F op a b | _ \<Rightarrow> other)
      | VRange lo hi inc \<Rightarrow>
          (case r of VRange lo' hi' inc' \<Rightarrow> range_binary op (lo, hi, inc) (lo', hi', inc') | _ \<Rightarrow> other)
      | VStruct a \<Rightarrow>
          (case r of
             VStruct b \<Rightarrow> struct_binary F op a b other
           | VDouble b \<Rightarrow>
               if so_name a = scalars ''Date'' then date_time_interval_binary F op a b else other
           | VInt b \<Rightarrow>
               if so_name a = scalars ''Date'' then date_time_interval_binary F op a (f_of_int F (raw b))
               else other
           | _ \<Rightarrow> other)
      | _ \<Rightarrow> other)"

function binary ::
  "'f f64 \<Rightarrow> (dec \<Rightarrow> dec \<Rightarrow> ordering) \<Rightarrow> 'f heap \<Rightarrow> string \<Rightarrow> 'f swift_value \<Rightarrow> 'f swift_value \<Rightarrow> 'f op_result" where
  "binary F fcmp H op l r =
     (case (l, r) of
        (VTuple a _, VTuple b _) \<Rightarrow>
          if length a \<noteq> length b then Inl (ArityMismatch op)
          else if op = ''=='' then Inr (VBool (all_eq (map (swift_eq F) a) b))
          else if op = ''!='' then Inr (VBool (\<not> all_eq (map (swift_eq F) a) b))
          else if is_order_op op then
            (case first_difference (swift_eq F) a b of
               Some (x, y) \<Rightarrow> binary F fcmp H (strict_op op) x y
             | None \<Rightarrow> Inr (VBool (last op = CHR ''='')))
          else Inl (CannotApply op (scalars ''tuple'') (scalars ''tuple''))
      | _ \<Rightarrow> flat_binary F fcmp H op l r)"
  by pat_completeness auto
termination
  by (relation "measure (\<lambda>(F, fcmp, H, op, l, r). size l)") (auto dest: first_difference_size)

declare binary.simps [simp del]

definition unary :: "'f f64 \<Rightarrow> 'f heap \<Rightarrow> string \<Rightarrow> 'f swift_value \<Rightarrow> 'f op_result" where
  "unary F H op v =
     (let no = Inl (CannotApplyTo op (type_name_of H v)) in
      case v of
        VInt a \<Rightarrow>
          if op = ''-'' then
            (let res = int_new (- raw a) (width a) in
             if in_range res then Inr (VInt res) else Inl (OverflowNegating (raw a)))
          else if op = ''+'' then Inr v
          else if op = ''~'' then Inr (VInt (wrapped (width a) (NOT (raw a))))
          else no
      | VDouble a \<Rightarrow>
          if op = ''-'' then Inr (VDouble (f_neg F a)) else if op = ''+'' then Inr v else no
      | VBool b \<Rightarrow> if op = ''!'' then Inr (VBool (\<not> b)) else no
      | VStruct _ \<Rightarrow>
          (case dec_from_value v of
             Some d \<Rightarrow>
               if op = ''-'' then Inr (dec_to_value (negated d)) else if op = ''+'' then Inr v else no
           | None \<Rightarrow> no)
      | _ \<Rightarrow> no)"

end
