(* ===== verification/Ops_Correct.thy ===== *)
theory Ops_Correct
  imports Ops Decimal_Correct
begin

text \<open>
  Correctness of the operators: integer results stay in the range of their width; the
  trapping operators are exact or an error, in spite of the wrap-around of \<open>i128\<close>; the
  wrapping ones are reductions of the exact result; tuples of integers compare
  lexicographically; decimals in values compute as the decimals they hold.
\<close>

section \<open>Ranges\<close>

lemma signed_range: "is_signed w \<Longrightarrow> in_range (int_new x w) \<longleftrightarrow> signed_take_bit (bits w - 1) x = x"
  by (simp add: in_range_def width_min_def width_max_def signed_take_bit_int_eq_self_iff zle_diff1_eq)

lemma unsigned_range: "\<not> is_signed w \<Longrightarrow> in_range (int_new x w) \<longleftrightarrow> take_bit (bits w) x = x"
  by (simp add: in_range_def width_min_def width_max_def take_bit_int_eq_self_iff zle_diff1_eq)

lemma signed_take_bit_bitwise:
  "signed_take_bit n (x AND y :: int) = signed_take_bit n x AND signed_take_bit n y"
  "signed_take_bit n (x OR y :: int) = signed_take_bit n x OR signed_take_bit n y"
  by (auto intro!: bit_eqI simp: bit_simps)

lemma in_range_and: "in_range (int_new x w) \<Longrightarrow> in_range (int_new y w) \<Longrightarrow> in_range (int_new (x AND y) w)"
  by (cases "is_signed w") (simp_all add: signed_range unsigned_range signed_take_bit_bitwise)

lemma in_range_or: "in_range (int_new x w) \<Longrightarrow> in_range (int_new y w) \<Longrightarrow> in_range (int_new (x OR y) w)"
  by (cases "is_signed w") (simp_all add: signed_range unsigned_range signed_take_bit_bitwise)

lemma div_power_between:
  fixes x :: int
  shows "0 \<le> x \<Longrightarrow> 0 \<le> x div 2 ^ k \<and> x div 2 ^ k \<le> x"
    and "x < 0 \<Longrightarrow> x \<le> x div 2 ^ k \<and> x div 2 ^ k < 0"
proof -
  show "0 \<le> x \<Longrightarrow> 0 \<le> x div 2 ^ k \<and> x div 2 ^ k \<le> x"
    using zdiv_mono2 [of x 1 "2 ^ k"] by (simp add: pos_imp_zdiv_nonneg_iff)
  assume x: "x < 0"
  have "x * 2 ^ k \<le> x * 1"
    using x by (intro mult_left_mono_neg) simp_all
  then have "x \<le> x div 2 ^ k"
    by (simp add: zdiv_mono1 [of "x * 2 ^ k" x "2 ^ k", simplified])
  then show "x \<le> x div 2 ^ k \<and> x div 2 ^ k < 0"
    using x by (simp add: neg_imp_zdiv_neg_iff div_neg_pos_less0)
qed

lemma in_range_between:
  assumes "in_range (int_new x w)" "(0 \<le> y \<and> y \<le> x) \<or> (x \<le> y \<and> y < 0)"
  shows "in_range (int_new y w)"
proof -
  have "width_min w \<le> 0" "-1 \<le> width_max w"
    by (cases w; simp add: width_min_def width_max_def is_signed_def)+
  then show ?thesis
    using assms by (auto simp: in_range_def)
qed

lemma in_range_div_power: "in_range (int_new x w) \<Longrightarrow> in_range (int_new (x div 2 ^ k) w)"
  using in_range_between [of x w "x div 2 ^ k"] div_power_between [of x k] by (cases "0 \<le> x") simp_all

lemma in_range_wrapped: "in_range (wrapped w x)"
  using wrapped_spec [of w x "wrapped w x"] by simp

lemma int_new_eta [simp]: "int_new (raw v) (width v) = v"
  by (simp add: int_new_def)

lemma trapping_cases:
  "trapping w r what = (if in_range (int_new r w) then Inr (VInt (int_new r w)) else Inl (OverflowDuring what))"
  by (simp add: trapping_def)

lemma int_arith_in_range:
  assumes "in_range a" "in_range b" "width b = width a" "int_arith op a b = Inr (VInt v)"
  shows "in_range v \<and> width v = width a"
proof -
  have a: "in_range (int_new (raw a) (width a))" and b: "in_range (int_new (raw b) (width a))"
    using assms(1,2) int_new_eta [of a] int_new_eta [of b] assms(3) by metis+
  note closed = in_range_and [OF a b] in_range_or [OF a b] in_range_div_power [OF a] in_range_wrapped
  show ?thesis
    using assms(4) unfolding int_arith_def
    by (auto simp: trapping_cases Let_def shift_right_def closed split: if_splits)
qed

text \<open>C21. Every integer that an operator yields on two integers of a width is in its range.\<close>

theorem int_binary_in_range:
  assumes "in_range a" "in_range b" "width b = width a" "int_binary op a b = Inr (VInt v)"
  shows "in_range v \<and> width v = width a"
  using assms int_arith_in_range [OF assms(1-3)]
  by (auto simp: int_binary_def split: option.splits if_splits)

section \<open>Trapping and wrapping arithmetic\<close>

lemma raw_bound: "in_range v \<Longrightarrow> \<bar>raw v\<bar> < 2 ^ 64"
  by (cases "width v") (auto simp: in_range_def width_min_def width_max_def is_signed_def)

lemma in_range_i128: "in_range (int_new x w) \<Longrightarrow> in_i128 x"
  using raw_bound [of "int_new x w"] by (auto simp: in_i128_def abs_less_iff)

text \<open>A result that \<open>i128\<close> wraps is outside of the width, before and after.\<close>

lemma in_range_wrap_i128:
  assumes "in_i128 x \<or> \<not> is_signed w \<and> 2 ^ 127 \<le> x \<and> x < 2 ^ 128"
  shows "in_range (int_new (wrap_i128 x) w) \<longleftrightarrow> in_range (int_new x w)"
  using assms
proof
  assume x: "\<not> is_signed w \<and> 2 ^ 127 \<le> x \<and> x < 2 ^ 128"
  then have "(x + 2 ^ 127) mod 2 ^ 128 = x - 2 ^ 127"
    using mod_pos_pos_trivial [of "x - 2 ^ 127" "2 ^ 128"] mod_add_self2 [of "x - 2 ^ 127" "2 ^ 128"]
    by (simp add: add.commute)
  then have "\<not> in_range (int_new (wrap_i128 x) w)"
    using x by (simp add: wrap_i128_def in_range_def width_min_def)
  moreover have "\<not> in_range (int_new x w)"
    using x in_range_i128 [of x w] by (auto simp: in_i128_def)
  ultimately show ?thesis
    by simp
qed (simp add: wrap_i128_id)

lemma trapping_wrap:
  assumes "in_i128 x \<or> \<not> is_signed w \<and> 2 ^ 127 \<le> x \<and> x < 2 ^ 128"
  shows "trapping w (wrap_i128 x) what = trapping w x what"
  using in_range_wrap_i128 [OF assms] wrap_i128_id in_range_i128
  by (auto simp: trapping_cases)

lemma product_bound:
  assumes "in_range a" "in_range b" "width b = width a"
  shows "in_i128 (raw a * raw b) \<or>
    \<not> is_signed (width a) \<and> 2 ^ 127 \<le> raw a * raw b \<and> raw a * raw b < 2 ^ 128"
proof (cases "is_signed (width a)")
  case True
  then have "\<bar>raw a\<bar> \<le> 2 ^ 63" "\<bar>raw b\<bar> \<le> 2 ^ 63"
    using assms by (cases "width a"; auto simp: in_range_def width_min_def width_max_def is_signed_def)+
  then have "\<bar>raw a\<bar> * \<bar>raw b\<bar> \<le> 2 ^ 63 * 2 ^ 63"
    by (intro mult_mono) simp_all
  then show ?thesis
    by (auto simp: in_i128_def abs_mult [symmetric] abs_le_iff)
next
  case False
  then have "0 \<le> raw a" "0 \<le> raw b" "raw a \<le> 2 ^ 64 - 1" "raw b \<le> 2 ^ 64 - 1"
    using assms by (cases "width a"; auto simp: in_range_def width_min_def width_max_def is_signed_def)+
  then have "raw a * raw b \<le> (2 ^ 64 - 1) * (2 ^ 64 - 1)" "0 \<le> raw a * raw b"
    by (intro mult_mono mult_nonneg_nonneg; simp)+
  then show ?thesis
    using False by (auto simp: in_i128_def)
qed

lemma sum_bound:
  assumes "in_range a" "in_range b"
  shows "in_i128 (raw a + raw b)" "in_i128 (raw a - raw b)"
  using raw_bound [OF assms(1)] raw_bound [OF assms(2)] by (auto simp: in_i128_def)

lemma quotient_magnitude: "2 \<le> \<bar>b\<bar> \<Longrightarrow> 2 * \<bar>rust_div a b\<bar> \<le> \<bar>a\<bar>"
proof -
  assume b: "2 \<le> \<bar>b\<bar>"
  have "\<bar>rust_div a b\<bar> \<le> \<bar>a\<bar> div \<bar>b\<bar>"
    by (simp add: rust_div_def abs_mult abs_sgn_eq pos_imp_zdiv_nonneg_iff)
  also have "\<dots> \<le> \<bar>a\<bar> div 2"
    using b by (intro zdiv_mono2) simp_all
  finally show ?thesis
    by linarith
qed

lemma quotient_in_range:
  assumes "in_range a" "in_range b" "width b = width a" "raw b \<noteq> 0"
  shows "in_range (int_new (rust_div (raw a) (raw b)) (width a)) \<longleftrightarrow>
    \<not> (is_signed (width a) \<and> raw a = width_min (width a) \<and> raw b = -1)"
proof -
  consider "raw b = 1" | "raw b = -1" | "2 \<le> \<bar>raw b\<bar>"
    using assms(4) by linarith
  then show ?thesis
  proof cases
    case 1
    then have "rust_div (raw a) (raw b) = raw a"
      by (simp add: rust_div_def sgn_mult_abs)
    then show ?thesis
      using assms(1) 1 by simp
  next
    case 2
    have q: "rust_div x (- 1) = - x" for x
      by (simp add: rust_div_def sgn_mult_abs)
    have "is_signed (width a)"
      using assms(2,3) 2 by (cases "is_signed (width a)") (auto simp: in_range_def width_min_def)
    then show ?thesis
      using assms(1) 2 by (auto simp: q in_range_def width_min_def width_max_def)
  next
    case 3
    have q: "2 * \<bar>rust_div (raw a) (raw b)\<bar> \<le> \<bar>raw a\<bar>"
      by (rule quotient_magnitude [OF 3])
    have "in_range (int_new (rust_div (raw a) (raw b)) (width a))"
    proof (cases "is_signed (width a)")
      case True
      define h :: int where "h = 2 ^ (bits (width a) - 1)"
      have "0 < h" "\<bar>raw a\<bar> \<le> h"
        using assms(1) True by (auto simp: h_def in_range_def width_min_def width_max_def)
      then have "- h \<le> rust_div (raw a) (raw b)" "rust_div (raw a) (raw b) \<le> h - 1"
        using q by linarith+
      then show ?thesis
        using True by (simp add: h_def in_range_def width_min_def width_max_def)
    next
      case False
      then have ab: "0 \<le> raw a" "0 \<le> raw b" and a: "in_range (int_new (raw a) (width a))"
        using assms(1-3) by (simp_all add: in_range_def width_min_def)
      then have "0 \<le> rust_div (raw a) (raw b)"
        by (simp add: rust_div_nonneg div_int_pos_iff)
      then show ?thesis
        using q ab by (intro in_range_between [OF a]) linarith
    qed
    then show ?thesis
      using 3 by auto
  qed
qed

lemma remainder_in_range:
  assumes "in_range a" shows "in_range (int_new (rust_rem (raw a) b) (width a))"
proof (cases "rust_rem (raw a) b = 0")
  case True
  have "width_min (width a) \<le> 0" "0 \<le> width_max (width a)"
    by (cases "width a"; simp add: width_min_def width_max_def is_signed_def)+
  with True show ?thesis by (simp add: in_range_def)
next
  case False
  have "\<bar>raw a\<bar> mod \<bar>b\<bar> \<le> \<bar>raw a\<bar>" "0 \<le> \<bar>raw a\<bar> mod \<bar>b\<bar>"
    by (cases "b = 0"; simp add: zmod_le_nonneg_dividend)+
  with False have between: "(0 \<le> rust_rem (raw a) b \<and> rust_rem (raw a) b \<le> raw a) \<or> (raw a \<le> rust_rem (raw a) b \<and> rust_rem (raw a) b < 0)"
    by (auto simp: rust_rem_def sgn_if split: if_splits)
  have "in_range (int_new (raw a) (width a))"
    using assms by simp
  from in_range_between [OF this between] show ?thesis .
qed

text \<open>C22. Addition, subtraction, multiplication, division and remainder of two integers of one type:
  the exact result, in the type of the operands, or an error when the type does not hold it, also where
  the product does not fit \<open>i128\<close>; a division or remainder by zero is an error, the remainder of the
  least number by minus one is zero. (The left shift, which is checked in the same way, is not exact for
  amounts of 64 and more; see \<open>left_shift_outcome\<close>.)
\<close>

theorem trapping_arithmetic:
  assumes "in_range a" "in_range b" "width b = width a"
  shows "(int_binary ''+'' a b :: 'f op_result) = trapping (width a) (raw a + raw b) ''addition'' \<and>
    (int_binary ''-'' a b :: 'f op_result) = trapping (width a) (raw a - raw b) ''subtraction'' \<and>
    (int_binary ''*'' a b :: 'f op_result) = trapping (width a) (raw a * raw b) ''multiplication'' \<and>
    (int_binary ''/'' a b :: 'f op_result) =
      (if raw b = 0 then Inl DivisionByZero
       else if is_signed (width a) \<and> raw a = width_min (width a) \<and> raw b = -1 then Inl (OverflowDuring ''division'')
       else Inr (VInt (int_new (rust_div (raw a) (raw b)) (width a)))) \<and>
    (int_binary ''%'' a b :: 'f op_result) =
      (if raw b = 0 then Inl DivisionByZero else Inr (VInt (int_new (rust_rem (raw a) (raw b)) (width a))))"
proof -
  have "trapping (width a) (rust_div (raw a) (raw b)) ''division'' =
      (if is_signed (width a) \<and> raw a = width_min (width a) \<and> raw b = -1
       then Inl (OverflowDuring ''division'') else (Inr (VInt (int_new (rust_div (raw a) (raw b)) (width a))) :: 'f op_result))"
    if "raw b \<noteq> 0"
    using quotient_in_range [OF assms that] by (auto simp: trapping_cases)
  moreover have "trapping (width a) (rust_rem (raw a) (raw b)) ''remainder'' =
      (Inr (VInt (int_new (rust_rem (raw a) (raw b)) (width a))) :: 'f op_result)"
    using remainder_in_range [OF assms(1), of "raw b"] by (simp add: trapping_cases)
  ultimately show ?thesis
    using sum_bound [OF assms(1,2)] product_bound [OF assms]
    by (simp add: int_binary_def int_arith_def compare_op_def Let_def trapping_wrap)
qed

lemma wrapped_wrap_i128 [simp]: "wrapped w (wrap_i128 x) = wrapped w x"
proof -
  have "(2::int) ^ bits w dvd 2 ^ 128"
    by (cases w) (simp_all add: le_imp_power_dvd)
  then have "wrap_i128 x mod 2 ^ bits w = x mod 2 ^ bits w"
    unfolding wrap_i128_def by (metis mod_diff_left_eq mod_mod_cancel add_diff_cancel_right')
  then show ?thesis
    by (intro int_value.equality) (simp_all add: wrapped_raw)
qed

text \<open>The wrapping operators never fail and return the one value of the type that is
  congruent to the exact result.
\<close>

theorem wrapping_arithmetic:
  "(int_binary ''&+'' a b :: 'f op_result) = Inr (VInt (wrapped (width a) (raw a + raw b))) \<and>
   (int_binary ''&-'' a b :: 'f op_result) = Inr (VInt (wrapped (width a) (raw a - raw b))) \<and>
   (int_binary ''&*'' a b :: 'f op_result) = Inr (VInt (wrapped (width a) (raw a * raw b))) \<and>
   (int_binary ''&<<'' a b :: 'f op_result) =
     Inr (VInt (wrapped (width a) (raw a * 2 ^ nat (raw b mod int (bits (width a))))))"
  by (simp add: int_binary_def int_arith_def compare_op_def Let_def)

section \<open>Shifts\<close>

lemma magnitude_bound: "in_range (int_new x w) \<Longrightarrow> - (2 ^ 63) \<le> x \<and> x < 2 ^ 64"
  by (cases w) (auto simp: in_range_def width_min_def width_max_def is_signed_def)

lemma shift_left_exact:
  assumes "in_range (int_new x w)" "0 \<le> k" "k < 64"
  shows "trapping w (shift_left x k) what = trapping w (x * 2 ^ nat k) what"
proof -
  have k: "(2::int) ^ nat k \<le> 2 ^ 63" "(0::int) < 2 ^ nat k"
    using assms(2,3) power_increasing [of "nat k" 63 "2::int"] by simp_all
  have "- (2 ^ 63 * 2 ^ 63) \<le> x * 2 ^ nat k \<and> x * 2 ^ nat k \<le> (2 ^ 64 - 1) * 2 ^ 63"
  proof (cases "0 \<le> x")
    case True
    then have "x * 2 ^ nat k \<le> (2 ^ 64 - 1) * 2 ^ 63" "0 \<le> x * 2 ^ nat k"
      using magnitude_bound [OF assms(1)] k by (intro mult_mono mult_nonneg_nonneg; simp)+
    then show ?thesis
      by (intro conjI) (rule order_trans [of _ 0], simp)
  next
    case False
    then have "- x * 2 ^ nat k \<le> 2 ^ 63 * 2 ^ 63"
      using magnitude_bound [OF assms(1)] k by (intro mult_mono; simp)
    moreover have "x * 2 ^ nat k \<le> 0"
      using False by (simp add: mult_le_0_iff)
    ultimately show ?thesis
      by simp
  qed
  then have "in_i128 (x * 2 ^ nat k)"
    by (simp add: in_i128_def)
  then show ?thesis
    using assms(2,3) by (simp add: shift_left_def trapping_wrap)
qed

lemma shift_left_far:
  assumes "64 \<le> k \<or> k < 0" "in_range (int_new (shift_left x k) w)"
  shows "shift_left x k = 0"
proof (cases "0 \<le> k \<and> k < 128")
  case True
  have "(2::int) ^ 64 dvd 2 ^ nat k"
    using assms(1) True by (intro le_imp_power_dvd) simp
  then have "(2::int) ^ 64 dvd x * 2 ^ nat k"
    by (rule dvd_mult)
  then have "(2::int) ^ 64 dvd wrap_i128 (x * 2 ^ nat k)"
    unfolding wrap_i128_def by (intro dvd_diff dvd_mod dvd_add) simp_all
  moreover have "\<bar>wrap_i128 (x * 2 ^ nat k)\<bar> < 2 ^ 64"
    using raw_bound [OF assms(2)] True by (simp add: shift_left_def)
  ultimately show ?thesis
    using True by (auto simp: shift_left_def dest: zdvd_not_zless dvd_imp_le_int)
next
  case False
  then show ?thesis
    unfolding shift_left_def by (rule if_not_P)
qed

text \<open>A left shift by less than 64 is exact or an overflow error; by 64 or more, or by a
  negative amount, it is an error or zero.
\<close>

theorem left_shift_outcome:
  assumes "in_range a"
  shows "(0 \<le> raw b \<and> raw b < 64 \<longrightarrow>
      (int_binary ''<<'' a b :: 'f op_result) = trapping (width a) (raw a * 2 ^ nat (raw b)) ''left shift'') \<and>
    (64 \<le> raw b \<or> raw b < 0 \<longrightarrow>
      (int_binary ''<<'' a b :: 'f op_result) \<in>
        {Inl (OverflowDuring ''left shift''), Inr (VInt (int_new 0 (width a)))})"
proof -
  have "in_range (int_new (raw a) (width a))"
    using assms by (simp add: int_new_eta)
  then show ?thesis
    using shift_left_exact [of "raw a" "width a" "raw b" "''left shift''"] shift_left_far [of "raw b" "raw a" "width a"]
    by (auto simp: int_binary_def int_arith_def compare_op_def Let_def trapping_cases)
qed

theorem int_binary_in_range_witness:
  "in_range (int_new (-7) I8) \<and> in_range (int_new 5 I8) \<and>
   int_binary ''>>'' (int_new (-7) I8) (int_new 1 I8) = (Inr (VInt (int_new (-4) I8)) :: 'f op_result) \<and>
   in_range (int_new (-4) I8)"
proof -
  have r: "in_range (int_new (-7) I8)" "in_range (int_new 1 I8)"
    "int_binary ''>>'' (int_new (-7) I8) (int_new 1 I8) = (Inr (VInt (int_new (-4) I8)) :: 'f op_result)"
    by (simp_all add: in_range_def width_min_def width_max_def is_signed_def int_binary_def int_arith_def
        compare_op_def shift_right_def Let_def)
  from int_binary_in_range [OF r(1,2) _ r(3)] show ?thesis
    using r by (simp add: in_range_def width_min_def width_max_def is_signed_def)
qed

theorem trapping_arithmetic_witness:
  "in_range (int_new (2 ^ 64 - 1) U64) \<and>
   (int_binary ''*'' (int_new (2 ^ 64 - 1) U64) (int_new (2 ^ 64 - 1) U64) :: 'f op_result) =
     Inl (OverflowDuring ''multiplication'')"
proof -
  have r: "in_range (int_new (2 ^ 64 - 1) U64)"
    by (simp add: in_range_def width_min_def width_max_def is_signed_def)
  from trapping_arithmetic [OF r r, where 'f = 'f] show ?thesis
    using r by (simp add: trapping_cases in_range_def width_max_def is_signed_def)
qed

theorem left_shift_outcome_witness:
  "in_range (int_new 3 U8) \<and>
   (int_binary ''<<'' (int_new 3 U8) (int_new 6 U8) :: 'f op_result) = Inr (VInt (int_new 192 U8))"
proof -
  have r: "in_range (int_new 3 U8)"
    by (simp add: in_range_def width_min_def width_max_def is_signed_def)
  from left_shift_outcome [OF r, where b = "int_new 6 U8" and 'f = 'f] show ?thesis
    using r by (simp add: trapping_cases in_range_def width_min_def width_max_def is_signed_def)
qed

section \<open>Tuples\<close>

lemma swift_eq_value_int [simp]: "swift_eq F (value_int a) (value_int b) \<longleftrightarrow> a = b"
  by (auto simp: value_int_def platform_int_def int_new_def)

lemma binary_value_int: "binary F fcmp H op (value_int a) (value_int b) = int_binary op (platform_int a) (platform_int b)"
  by (simp add: binary.simps flat_binary_def value_int_def Let_def)

text \<open>The first difference of two lists of one length decides their order.\<close>

lemma first_difference_order:
  fixes xs ys :: "int list"
  assumes "length xs = length ys"
  shows "case first_difference (swift_eq F) (map value_int xs) (map value_int ys) of
      None \<Rightarrow> xs = ys
    | Some (v, w) \<Rightarrow> \<exists>x y. v = value_int x \<and> w = value_int y \<and> x \<noteq> y \<and> (xs < ys \<longleftrightarrow> x < y) \<and> xs \<noteq> ys"
  using assms by (induction xs ys rule: list_induct2) (auto split: option.splits)

lemma tuple_order_aux:
  fixes F :: "'f f64" and fcmp and H
  assumes "length xs = length ys"
  defines "cmp \<equiv> \<lambda>op. binary F fcmp H op (value_tuple (map value_int xs)) (value_tuple (map value_int ys))"
  shows "cmp ''<'' = Inr (VBool (xs < ys)) \<and> cmp ''<='' = Inr (VBool (xs \<le> ys)) \<and>
    cmp ''>'' = Inr (VBool (xs > ys)) \<and> cmp ''>='' = Inr (VBool (xs \<ge> ys))"
proof (cases "first_difference (swift_eq F) (map value_int xs) (map value_int ys)")
  case None
  then have "xs = ys"
    using first_difference_order [OF assms(1), of F] by simp
  then show ?thesis
    using None by (simp add: cmp_def value_tuple_def binary.simps is_order_op_def)
next
  case (Some d)
  then obtain x y where d: "d = (value_int x, value_int y)" "x \<noteq> y" "xs < ys \<longleftrightarrow> x < y" "xs \<noteq> ys"
    using first_difference_order [OF assms(1), of F] by (cases d) auto
  have step: "cmp op = int_binary (strict_op op) (platform_int x) (platform_int y)"
    if "is_order_op op" for op
    using that assms(1) Some d(1)
    by (subst cmp_def, subst binary.simps)
      (auto simp: value_tuple_def is_order_op_def binary_value_int)
  have ops: "is_order_op ''<''" "is_order_op ''<=''" "is_order_op ''>''" "is_order_op ''>=''"
    by (simp_all add: is_order_op_def)
  have strict: "strict_op ''<'' = ''<''" "strict_op ''<='' = ''<''" "strict_op ''>'' = ''>''" "strict_op ''>='' = ''>''"
    by (simp_all add: strict_op_def)
  have below: "int_binary ''<'' (platform_int x) (platform_int y) = (Inr (VBool (x < y)) :: 'f op_result)"
    "int_binary ''>'' (platform_int x) (platform_int y) = (Inr (VBool (y < x)) :: 'f op_result)"
    by (simp_all add: int_binary_def compare_op_def platform_int_def)
  have "xs \<le> ys \<longleftrightarrow> x < y" "ys < xs \<longleftrightarrow> y < x" "ys \<le> xs \<longleftrightarrow> y < x"
    using d(2-4) by (metis linorder_cases less_imp_not_less le_less)+
  then show ?thesis
    using d(3) by (simp add: step [OF ops(1)] step [OF ops(2)] step [OF ops(3)] step [OF ops(4)] strict below)
qed

text \<open>Tuples of integers of one arity compare lexicographically.\<close>

theorem tuple_order:
  assumes "length xs = length ys"
  shows "let cmp = (\<lambda>op. binary F fcmp H op (value_tuple (map value_int xs)) (value_tuple (map value_int ys))) in
    cmp ''<'' = Inr (VBool (xs < ys)) \<and> cmp ''<='' = Inr (VBool (xs \<le> ys)) \<and>
    cmp ''>'' = Inr (VBool (xs > ys)) \<and> cmp ''>='' = Inr (VBool (xs \<ge> ys))"
  unfolding Let_def by (rule tuple_order_aux [OF assms])

theorem tuple_order_witness:
  "\<forall>F fcmp H. binary F fcmp H ''<'' (value_tuple [value_int 1, value_int 9])
     (value_tuple [value_int 2, value_int 0]) = Inr (VBool True)"
proof (intro allI)
  show "binary F fcmp H ''<'' (value_tuple [value_int 1, value_int 9])
     (value_tuple [value_int 2, value_int 0]) = Inr (VBool True)" for F :: "'f f64" and fcmp H
    using tuple_order [of "[1, 9]" "[2, 0]" F fcmp H] by simp
qed

section \<open>Decimals\<close>

lemma dec_from_to_value: "in_i32 (exponent d) \<Longrightarrow> dec_from_value (dec_to_value d) = Some d"
  by (simp add: dec_from_value_def dec_to_value_def struct_get_def value_int_def platform_int_def wrap_i32_id)

lemma decimal_not_measurement: "\<not> is_measurement (dec_to_value d)"
  by (simp add: is_measurement_def dec_to_value_def)

lemma binary_dec_to_value:
  fixes F :: "'f f64"
  assumes "in_i32 (exponent a)" "in_i32 (exponent b)"
  shows "binary F fcmp H op (dec_to_value a) (dec_to_value b) = decimal_op fcmp op a b"
proof -
  have "binary F fcmp H op (dec_to_value a) (dec_to_value b) = guarded_binary F fcmp H op (dec_to_value a) (dec_to_value b)"
    by (simp add: binary.simps flat_binary_def dec_to_value_def struct_binary_def Let_def)
  also have "\<dots> = decimal_binary F fcmp H op (dec_to_value a) (dec_to_value b)"
    by (simp add: guarded_binary_def decimal_not_measurement is_decimal_operand_def dec_from_to_value assms)
  also have "\<dots> = decimal_op fcmp op a b"
  proof -
    have "dec_coerce F (dec_to_value d) = dec_from_value (dec_to_value d :: 'f swift_value)" for d
      by (simp add: dec_coerce_def dec_to_value_def)
    then show ?thesis
      using assms by (simp add: decimal_binary_def dec_from_to_value)
  qed
  finally show ?thesis .
qed

text \<open>Decimals held in values: where they can be aligned they compare by value, and a sum
  that is not NaN is the exact sum.
\<close>

theorem decimal_operators:
  fixes F :: "'f f64"
  assumes "dec_ok a" "dec_ok b" "align a b \<noteq> None"
  shows "binary F fcmp H ''<'' (dec_to_value a) (dec_to_value b) = Inr (VBool (dec_value a < dec_value b)) \<and>
    binary F fcmp H ''=='' (dec_to_value a) (dec_to_value b) = Inr (VBool (dec_value a = dec_value b)) \<and>
    (\<exists>c. binary F fcmp H ''+'' (dec_to_value a) (dec_to_value b) = Inr (dec_to_value c) \<and>
      (nan c \<or> dec_value c = dec_value a + dec_value b))"
proof -
  have nans: "\<not> nan a" "\<not> nan b"
    using assms(1,2) by (simp_all add: dec_ok_def)
  have "in_i32 (exponent a)" "in_i32 (exponent b)"
    using assms(1,2) by (simp_all add: dec_ok_def in_i32_def)
  note binary = binary_dec_to_value [OF this(1,2)] decimal_op_def Let_def
  have "dec_compare fcmp a b = Less \<longleftrightarrow> dec_value a < dec_value b"
    "dec_compare fcmp a b = Equal \<longleftrightarrow> dec_value a = dec_value b"
    using dec_compare_spec [OF assms, of fcmp] by simp_all
  with nans have "binary F fcmp H ''<'' (dec_to_value a) (dec_to_value b) = Inr (VBool (dec_value a < dec_value b))"
    "binary F fcmp H ''=='' (dec_to_value a) (dec_to_value b) = Inr (VBool (dec_value a = dec_value b))"
    by (simp_all add: binary)
  moreover have "binary F fcmp H ''+'' (dec_to_value a) (dec_to_value b) = Inr (dec_to_value (dec_add a b))"
    by (simp add: binary)
  ultimately show ?thesis
    using dec_add_spec [OF assms(1,2)] by blast
qed

theorem decimal_operators_witness:
  "\<forall>F fcmp H. binary F fcmp H ''<'' (dec_to_value \<lparr>nan = False, mantissa = 15, exponent = - 1\<rparr>)
     (dec_to_value \<lparr>nan = False, mantissa = 2, exponent = 0\<rparr>) =
   Inr (VBool (dec_value \<lparr>nan = False, mantissa = 15, exponent = - 1\<rparr> <
     dec_value \<lparr>nan = False, mantissa = 2, exponent = 0\<rparr>))"
  by (intro allI decimal_operators [THEN conjunct1])
    (simp_all add: dec_ok_def in_i128_def align_def scale_up_def exponent_gap_def checked_pow10_def
      checked_def)

end
