(* ===== verification/Env.thy ===== *)
theory Env
  imports Prelude
begin

text \<open>
  The lexical environment, \<open>tswift-core/src/env.rs\<close>: a chain of scopes, the innermost last in
  the code and here. A scope and a binding cell are shared by reference in the code
  (\<open>Rc<RefCell<..>>\<close>), so they are addresses in a store: the chain is a list of scope
  addresses, a scope maps names to cell addresses, a cell is a binding. Capturing copies the
  list of addresses. A \<open>HashMap\<close> is an association list without duplicate names; the order
  in which its values are drained is not specified by the code, here it is that of the list.

  Whether an \<open>Rc\<close> can be unwrapped is whether any other holder is left: \<open>held\<close> and \<open>held_cell\<close>
  say so of a scope and of a cell, and are arguments of the operations that ask.
\<close>

section \<open>State\<close>

record 'v binding =
  b_value :: 'v
  b_mutable :: bool
  b_declared :: "ustr option"

type_synonym scope = "(ustr \<times> nat) list"

record 'v store =
  scope_at :: "nat \<Rightarrow> scope"
  cell_at :: "nat \<Rightarrow> 'v binding"
  next_scope :: nat
  next_cell :: nat

type_synonym env = "nat list"

datatype bind_error = Unbound ustr | Immutable ustr

text \<open>\<open>Scope::default()\<close>: a new address with an empty map.\<close>

definition alloc_scope :: "'v store \<Rightarrow> 'v store \<times> nat" where
  "alloc_scope st =
     (st\<lparr>scope_at := (scope_at st)(next_scope st := []), next_scope := next_scope st + 1\<rparr>, next_scope st)"

definition alloc_cell :: "'v store \<Rightarrow> 'v binding \<Rightarrow> 'v store \<times> nat" where
  "alloc_cell st b =
     (st\<lparr>cell_at := (cell_at st)(next_cell st := b), next_cell := next_cell st + 1\<rparr>, next_cell st)"

fun insert_name :: "scope \<Rightarrow> ustr \<Rightarrow> nat \<Rightarrow> scope" where
  "insert_name [] name c = [(name, c)]"
| "insert_name ((n, d) # s) name c = (if n = name then (n, c) # s else (n, d) # insert_name s name c)"

section \<open>Chains\<close>

definition env_new :: "'v store \<Rightarrow> 'v store \<times> env" where
  "env_new st = (let (st, g) = alloc_scope st in (st, [g]))"

definition with_captured :: "'v store \<Rightarrow> env \<Rightarrow> 'v store \<times> env" where
  "with_captured st scopes = (let (st, s) = alloc_scope st in (st, scopes @ [s]))"

definition capture :: "env \<Rightarrow> env" where
  "capture env = env"

definition push :: "'v store \<Rightarrow> env \<Rightarrow> 'v store \<times> env" where
  "push st env = (let (st, s) = alloc_scope st in (st, env @ [s]))"

text \<open>The new chain and the previous one.\<close>

definition enter_isolated :: "'v store \<Rightarrow> env \<Rightarrow> 'v store \<times> env \<times> env" where
  "enter_isolated st env =
     (let (st, g) = (case env of [] \<Rightarrow> alloc_scope st | g # _ \<Rightarrow> (st, g));
          (st, s) = alloc_scope st
      in (st, [g, s], env))"

definition restore :: "env \<Rightarrow> env \<Rightarrow> env" where
  "restore env saved = saved"

definition pop :: "env \<Rightarrow> env" where
  "pop env = butlast env"

definition owned_values :: "'v store \<Rightarrow> (nat \<Rightarrow> bool) \<Rightarrow> scope \<Rightarrow> 'v list" where
  "owned_values st held_cell s =
     map (\<lambda>(n, c). b_value (cell_at st c)) (filter (\<lambda>(n, c). \<not> held_cell c) s)"

definition pop_owned :: "'v store \<Rightarrow> (nat \<Rightarrow> bool) \<Rightarrow> (nat \<Rightarrow> bool) \<Rightarrow> env \<Rightarrow> env \<times> 'v list" where
  "pop_owned st held held_cell env =
     (if env = [] then ([], [])
      else (butlast env,
            if held (last env) then [] else owned_values st held_cell (scope_at st (last env))))"

definition drain_global :: "'v store \<Rightarrow> (nat \<Rightarrow> bool) \<Rightarrow> env \<Rightarrow> 'v store \<times> 'v list" where
  "drain_global st held_cell env =
     (case env of
        [] \<Rightarrow> (st, [])
      | g # _ \<Rightarrow> (st\<lparr>scope_at := (scope_at st)(g := [])\<rparr>, owned_values st held_cell (scope_at st g)))"

section \<open>Bindings\<close>

text \<open>\<open>None\<close> is the panic of \<open>expect\<close> on an empty chain.\<close>

definition env_declare :: "'v store \<Rightarrow> env \<Rightarrow> ustr \<Rightarrow> 'v \<Rightarrow> bool \<Rightarrow> 'v store option" where
  "env_declare st env name v mutable =
     (if env = [] then None
      else
        let (st, c) = alloc_cell st \<lparr>b_value = v, b_mutable = mutable, b_declared = None\<rparr>;
            s = last env
        in Some (st\<lparr>scope_at := (scope_at st)(s := insert_name (scope_at st s) name c)\<rparr>))"

text \<open>The loop over the scopes, innermost outward, as far as a cell.\<close>

fun find_cell :: "'v store \<Rightarrow> nat list \<Rightarrow> ustr \<Rightarrow> nat option" where
  "find_cell st [] name = None"
| "find_cell st (s # ss) name =
     (case map_of (scope_at st s) name of Some c \<Rightarrow> Some c | None \<Rightarrow> find_cell st ss name)"

definition lookup_cell :: "'v store \<Rightarrow> env \<Rightarrow> ustr \<Rightarrow> nat option" where
  "lookup_cell st env name = find_cell st (rev env) name"

definition set_declared_type :: "'v store \<Rightarrow> env \<Rightarrow> ustr \<Rightarrow> ustr \<Rightarrow> 'v store" where
  "set_declared_type st env name ty =
     (case lookup_cell st env name of
        None \<Rightarrow> st
      | Some c \<Rightarrow> st\<lparr>cell_at := (cell_at st)(c := (cell_at st c)\<lparr>b_declared := Some ty\<rparr>)\<rparr>)"

definition declared_type :: "'v store \<Rightarrow> env \<Rightarrow> ustr \<Rightarrow> ustr option" where
  "declared_type st env name =
     (case lookup_cell st env name of None \<Rightarrow> None | Some c \<Rightarrow> b_declared (cell_at st c))"

definition env_get :: "'v store \<Rightarrow> env \<Rightarrow> ustr \<Rightarrow> 'v option" where
  "env_get st env name = map_option (\<lambda>c. b_value (cell_at st c)) (lookup_cell st env name)"

definition get_local :: "'v store \<Rightarrow> env \<Rightarrow> ustr \<Rightarrow> 'v option" where
  "get_local st env name = map_option (\<lambda>c. b_value (cell_at st c)) (lookup_cell st (drop 1 env) name)"

definition get_global :: "'v store \<Rightarrow> env \<Rightarrow> ustr \<Rightarrow> 'v option" where
  "get_global st env name =
     (case env of
        [] \<Rightarrow> None
      | g # _ \<Rightarrow> map_option (\<lambda>c. b_value (cell_at st c)) (map_of (scope_at st g) name))"

definition env_assign :: "'v store \<Rightarrow> env \<Rightarrow> ustr \<Rightarrow> 'v \<Rightarrow> bind_error + 'v store" where
  "env_assign st env name v =
     (case lookup_cell st env name of
        None \<Rightarrow> Inl (Unbound name)
      | Some c \<Rightarrow>
          if \<not> b_mutable (cell_at st c) then Inl (Immutable name)
          else Inr (st\<lparr>cell_at := (cell_at st)(c := (cell_at st c)\<lparr>b_value := v\<rparr>)\<rparr>))"

end
