(* ===== verification/Env_Correct.thy ===== *)
theory Env_Correct
  imports Env Name_Store
begin

text \<open>
  Correctness of the environment: its states are well formed whatever is done with it,
  constants keep their values, an assignment is seen through exactly the chains that resolve
  the name to the assigned cell, a declaration shadows, an isolated chain sees nothing but
  the global scope, and a chain without aliases refines a stack of maps.
\<close>

section \<open>Scopes as containers\<close>

lemma map_of_insert_name: "map_of (insert_name s n c) m = (if m = n then Some c else map_of s m)"
  by (induction s n c rule: insert_name.induct) auto

lemma fst_insert_name: "fst ` set (insert_name s n c) = insert n (fst ` set s)"
  by (induction s n c rule: insert_name.induct) auto

interpretation scope: listed_store map_of insert_name "\<lambda>s. s"
proof
  show "map_of (insert_name s n c) m = (if m = n then Some c else map_of s m)" for s n c m
    by (rule map_of_insert_name)
  show "distinct (map fst s) \<Longrightarrow> distinct (map fst (insert_name s n c))" for s n c
    by (induction s n c rule: insert_name.induct) (simp_all add: fst_insert_name, blast)
qed simp

section \<open>Looking up\<close>

lemma find_cell_append:
  "find_cell st (ss @ ts) name = (case find_cell st ss name of Some c \<Rightarrow> Some c | None \<Rightarrow> find_cell st ts name)"
  by (induction ss) (auto split: option.splits)

lemma find_cell_cong:
  "(\<And>s. s \<in> set ss \<Longrightarrow> scope_at st s = scope_at st' s) \<Longrightarrow> find_cell st ss name = find_cell st' ss name"
  by (induction ss) (auto split: option.splits)

lemma find_cell_name_cong:
  "(\<And>s. map_of (scope_at st s) name = map_of (scope_at st' s) name) \<Longrightarrow> find_cell st ss name = find_cell st' ss name"
  by (induction ss) (auto split: option.splits)

lemma find_cell_Some: "find_cell st ss name = Some c \<Longrightarrow> \<exists>s\<in>set ss. map_of (scope_at st s) name = Some c"
  by (induction ss) (auto split: option.splits)

lemma lookup_cells [simp]: "lookup_cell (st\<lparr>cell_at := f\<rparr>) env name = lookup_cell st env name"
  unfolding lookup_cell_def by (rule find_cell_cong) simp

lemma lookup_cell_append:
  "lookup_cell st (env @ inner) name =
     (case lookup_cell st inner name of Some c \<Rightarrow> Some c | None \<Rightarrow> lookup_cell st env name)"
  by (simp add: lookup_cell_def find_cell_append split: option.split)

lemma lookup_cell_Nil [simp]: "lookup_cell st [] name = None"
  by (simp add: lookup_cell_def)

lemma lookup_cell_one [simp]: "lookup_cell st [s] name = map_of (scope_at st s) name"
  by (simp add: lookup_cell_def split: option.split)

lemma lookup_cell_Cons:
  "lookup_cell st (s # env) name =
     (case lookup_cell st env name of Some c \<Rightarrow> Some c | None \<Rightarrow> map_of (scope_at st s) name)"
  using lookup_cell_append [of st "[s]" env name] by (simp split: option.split)

section \<open>Assignment\<close>

text \<open>C11. After an assignment through a chain the names that resolve, through any chain, to the
  assigned cell have the new value, and all others the value they had.
\<close>

theorem assign_seen_through_cells:
  assumes "env_assign st env name v = Inr st'"
  shows "\<exists>c. lookup_cell st env name = Some c \<and>
    (\<forall>env' name'. env_get st' env' name' =
      (if lookup_cell st env' name' = Some c then Some v else env_get st env' name'))"
proof -
  obtain c where c: "lookup_cell st env name = Some c"
    and st': "st' = st\<lparr>cell_at := (cell_at st)(c := (cell_at st c)\<lparr>b_value := v\<rparr>)\<rparr>"
    using assms by (auto simp: env_assign_def split: option.splits if_splits)
  have "env_get st' env' name' = (if lookup_cell st env' name' = Some c then Some v else env_get st env' name')"
    for env' name'
    by (cases "lookup_cell st env' name'") (auto simp: env_get_def st')
  then show ?thesis
    using c by blast
qed

section \<open>Well-formed states\<close>

definition store_ok :: "'v store \<Rightarrow> bool" where
  "store_ok st \<longleftrightarrow>
     (\<forall>s. next_scope st \<le> s \<longrightarrow> scope_at st s = []) \<and>
     (\<forall>s. distinct (map fst (scope_at st s)) \<and> snd ` set (scope_at st s) \<subseteq> {..<next_cell st})"

definition chain_ok :: "'v store \<Rightarrow> env \<Rightarrow> bool" where
  "chain_ok st env \<longleftrightarrow> (\<forall>s\<in>set env. s < next_scope st)"

lemma store_ok_cell: "store_ok st \<Longrightarrow> map_of (scope_at st s) n = Some c \<Longrightarrow> c < next_cell st"
  by (fastforce simp: store_ok_def dest: map_of_SomeD)

lemma alloc_scope_ok:
  assumes "store_ok st" "alloc_scope st = (st', s)"
  shows "store_ok st'" "s = next_scope st" "next_scope st' = next_scope st + 1" "next_cell st' = next_cell st"
    "cell_at st' = cell_at st" "scope_at st' = scope_at st" "scope_at st s = []"
proof -
  show new: "s = next_scope st" "next_scope st' = next_scope st + 1" "next_cell st' = next_cell st"
    "cell_at st' = cell_at st"
    using assms(2) by (auto simp: alloc_scope_def)
  show same: "scope_at st' = scope_at st" "scope_at st s = []"
    using assms by (auto simp: alloc_scope_def store_ok_def)
  show "store_ok st'"
    using assms(1) unfolding store_ok_def same new by simp
qed

lemma declare_ok:
  assumes "store_ok st" "chain_ok st env" "env_declare st env name v mutable = Some st'"
  shows "store_ok st' \<and> next_scope st' = next_scope st \<and> next_cell st' = next_cell st + 1"
proof -
  have env: "env \<noteq> []" "last env < next_scope st"
    using assms(2,3) by (auto simp: env_declare_def chain_ok_def split: if_splits)
  let ?s = "scope_at st (last env)"
  have st': "scope_at st' = (scope_at st)(last env := insert_name ?s name (next_cell st))"
    "next_scope st' = next_scope st" "next_cell st' = next_cell st + 1"
    using assms(3) env by (auto simp: env_declare_def alloc_cell_def Let_def)
  have old: "distinct (map fst ?s)" "snd ` set ?s \<subseteq> {..<next_cell st}"
    using assms(1) by (auto simp: store_ok_def)
  have "snd ` set (insert_name ?s name (next_cell st)) \<subseteq> {..<Suc (next_cell st)}"
    using scope.put_keeps_values [OF old(1)] old(2) by fastforce
  moreover have "distinct (map fst (insert_name ?s name (next_cell st)))"
    by (rule scope.distinct_put [OF old(1)])
  ultimately show ?thesis
    using assms(1) env(2) by (fastforce simp: store_ok_def st')
qed

section \<open>Declaration\<close>

lemma declared_scope:
  assumes "env_declare st env name v mutable = Some st'"
  shows "env \<noteq> []" "scope_at st' = (scope_at st)(last env := insert_name (scope_at st (last env)) name (next_cell st))"
    "cell_at st' = (cell_at st)(next_cell st := \<lparr>b_value = v, b_mutable = mutable, b_declared = None\<rparr>)"
  using assms by (auto simp: env_declare_def alloc_cell_def Let_def split: if_splits)

lemma declare_lookup:
  assumes "env_declare st env name v mutable = Some st'"
  shows "lookup_cell st' env name' = (if name' = name then Some (next_cell st) else lookup_cell st env name')"
    and "last env \<notin> set env' \<Longrightarrow> lookup_cell st' env' name' = lookup_cell st env' name'"
proof -
  note st' = declared_scope [OF assms]
  show other: "lookup_cell st' env' name' = lookup_cell st env' name'" if "last env \<notin> set env'" for env' name'
    unfolding lookup_cell_def using that by (intro find_cell_cong) (auto simp: st')
  have "lookup_cell st' env n = (if n = name then Some (next_cell st) else lookup_cell st env n)" if "env = es @ [e]" for es e n
  proof -
    have "map_of (scope_at st' e) n = (if n = name then Some (next_cell st) else map_of (scope_at st e) n)"
      using that by (simp add: st' map_of_insert_name)
    moreover have "find_cell st' (rev es) n = find_cell st (rev es) n" if "n \<noteq> name"
      using that by (intro find_cell_name_cong) (simp add: st' map_of_insert_name)
    ultimately show ?thesis
      by (auto simp: that lookup_cell_append lookup_cell_def split: option.split)
  qed
  then show "lookup_cell st' env name' = (if name' = name then Some (next_cell st) else lookup_cell st env name')"
    using st'(1) by (metis append_butlast_last_id)
qed

text \<open>C35. A declaration shadows: through the chain the name has the new value and every other
  name the value it had; so through an extension of the chain that does not bind the name
  itself, as a function has that captured the chain before the declaration; and through a
  chain without the innermost scope nothing changes.
\<close>

theorem declare_shadows:
  assumes "store_ok st" "env_declare st env name v mutable = Some st'"
  shows "env_get st' env name' = (if name' = name then Some v else env_get st env name') \<and>
    (last env \<notin> set inner \<and> lookup_cell st inner name = None \<longrightarrow> env_get st' (env @ inner) name = Some v) \<and>
    (last env \<notin> set other \<longrightarrow> env_get st' other name' = env_get st other name')"
proof -
  have fresh: "cell_at st' c = cell_at st c" if "lookup_cell st chain n = Some c" for chain n c
  proof -
    have "c < next_cell st"
      using that find_cell_Some store_ok_cell [OF assms(1)] by (metis lookup_cell_def)
    then show ?thesis
      by (simp add: declared_scope(3) [OF assms(2)])
  qed
  have new: "b_value (cell_at st' (next_cell st)) = v"
    by (simp add: declared_scope(3) [OF assms(2)])
  have same: "env_get st' chain n = env_get st chain n" if "lookup_cell st' chain n = lookup_cell st chain n" for chain n
    using that fresh [of chain n] by (cases "lookup_cell st chain n") (simp_all add: env_get_def)
  note look = declare_lookup [OF assms(2)]
  have "env_get st' env name' = (if name' = name then Some v else env_get st env name')"
    using look(1) [of name'] same [of env name'] new by (auto simp: env_get_def)
  moreover have "env_get st' (env @ inner) name = Some v"
    if "last env \<notin> set inner" "lookup_cell st inner name = None"
    using look(1) [of name] look(2) [OF that(1), of name] that(2) new
    by (simp add: env_get_def lookup_cell_append)
  moreover have "env_get st' other name' = env_get st other name'" if "last env \<notin> set other"
    by (rule same [OF look(2) [OF that]])
  ultimately show ?thesis
    by blast
qed

section \<open>Isolation\<close>

text \<open>C27. Through an isolated chain only the global names are seen, an assignment to any other
  name is unbound, and restoring gives the chain back.
\<close>

theorem isolated_sees_globals:
  assumes "store_ok st" "enter_isolated st env = (st', isolated, saved)"
  shows "get_local st' isolated name = None \<and> env_get st' isolated name = get_global st env name \<and>
    (get_global st env name = None \<longrightarrow> env_assign st' isolated name v = Inl (Unbound name)) \<and>
    (\<forall>n. env_get st' (restore isolated saved) n = env_get st env n)"
proof (cases env)
  case Nil
  obtain st1 g st2 s where alloc: "alloc_scope st = (st1, g)" "alloc_scope st1 = (st2, s)"
    by (metis surj_pair)
  note ok1 = alloc_scope_ok [OF assms(1) alloc(1)] and ok2 = alloc_scope_ok [OF alloc_scope_ok(1) [OF assms(1) alloc(1)] alloc(2)]
  have "st' = st2" "isolated = [g, s]" "saved = []"
    using assms(2) alloc by (auto simp: enter_isolated_def Nil)
  then show ?thesis
    using ok1 ok2 by (simp add: get_local_def get_global_def env_get_def env_assign_def restore_def lookup_cell_Cons Nil)
next
  case (Cons g rest)
  obtain st2 s where alloc: "alloc_scope st = (st2, s)"
    by (metis surj_pair)
  note ok = alloc_scope_ok [OF assms(1) alloc]
  have st': "st' = st2" "isolated = [g, s]" "saved = env"
    using assms(2) alloc by (auto simp: enter_isolated_def Cons)
  have "lookup_cell st2 chain n = lookup_cell st chain n" for chain n
    unfolding lookup_cell_def by (rule find_cell_name_cong) (simp add: ok)
  then show ?thesis
    using ok st' by (simp add: get_local_def get_global_def env_get_def env_assign_def restore_def lookup_cell_Cons Cons split: option.splits)
qed

section \<open>States of a run\<close>

text \<open>
  A state of the interpreter as far as environments go: the store, the current chain, and all
  chains held elsewhere, by closures and by the callers that are to be returned to.
\<close>

inductive env_step :: "'v store \<times> env \<times> env list \<Rightarrow> 'v store \<times> env \<times> env list \<Rightarrow> bool" where
  push: "push st env = (st', env') \<Longrightarrow> env_step (st, env, held) (st', env', held)"
| pop: "env_step (st, env, held) (st, pop env, held)"
| capture: "env_step (st, env, held) (st, env, capture env # held)"
| call: "scopes \<in> set held \<Longrightarrow> with_captured st scopes = (st', env') \<Longrightarrow>
    env_step (st, env, held) (st', env', env # held)"
| isolate: "enter_isolated st env = (st', env', saved) \<Longrightarrow> env_step (st, env, held) (st', env', saved # held)"
| restore: "saved \<in> set held \<Longrightarrow> env_step (st, env, held) (st, restore env saved, held)"
| bind: "env_declare st env name v mutable = Some st' \<Longrightarrow> env_step (st, env, held) (st', env, held)"
| assign: "env_assign st env name v = Inr st' \<Longrightarrow> env_step (st, env, held) (st', env, held)"
| set_type: "env_step (st, env, held) (set_declared_type st env name ty, env, held)"
| drain: "drain_global st held_cell env = (st', vs) \<Longrightarrow> env_step (st, env, held) (st', env, held)"

definition run_ok :: "'v store \<times> env \<times> env list \<Rightarrow> bool" where
  "run_ok = (\<lambda>(st, env, held). store_ok st \<and> chain_ok st env \<and> list_all (chain_ok st) held)"

lemma chain_ok_mono: "chain_ok st env \<Longrightarrow> next_scope st \<le> next_scope st' \<Longrightarrow> chain_ok st' env"
  by (auto simp: chain_ok_def)

lemma chains_ok_mono: "list_all (chain_ok st) held \<Longrightarrow> next_scope st \<le> next_scope st' \<Longrightarrow> list_all (chain_ok st') held"
  by (auto simp: list_all_iff intro: chain_ok_mono)

lemma store_ok_cells [simp]: "store_ok (st\<lparr>cell_at := f\<rparr>) \<longleftrightarrow> store_ok st"
  by (simp add: store_ok_def)

lemma store_ok_cleared: "store_ok st \<Longrightarrow> store_ok (st\<lparr>scope_at := (scope_at st)(g := [])\<rparr>)"
  by (simp add: store_ok_def)

lemma enter_isolated_ok:
  assumes "store_ok st" "chain_ok st env" "enter_isolated st env = (st', env', saved)"
  shows "store_ok st'" "chain_ok st' env'" "saved = env" "next_scope st \<le> next_scope st'" "next_cell st' = next_cell st"
    "cell_at st' = cell_at st"
proof -
  define st1 where "st1 = (case env of [] \<Rightarrow> fst (alloc_scope st) | g # _ \<Rightarrow> st)"
  define g where "g = (case env of [] \<Rightarrow> snd (alloc_scope st) | g # _ \<Rightarrow> g)"
  have 1: "store_ok st1" "g < next_scope st1" "next_scope st \<le> next_scope st1" "next_cell st1 = next_cell st" "cell_at st1 = cell_at st"
    using alloc_scope_ok [OF assms(1) surjective_pairing] assms(1,2)
    by (auto simp: st1_def g_def chain_ok_def split: list.split)
  have e: "st' = fst (alloc_scope st1)" "env' = [g, snd (alloc_scope st1)]" "saved = env"
    using assms(3) by (auto simp: enter_isolated_def st1_def g_def split: list.splits prod.splits)
  note 2 = alloc_scope_ok [OF 1(1) surjective_pairing]
  show "store_ok st'" "chain_ok st' env'" "saved = env" "next_scope st \<le> next_scope st'" "next_cell st' = next_cell st"
    "cell_at st' = cell_at st"
    using 1 2 e by (auto simp: chain_ok_def)
qed

lemma appended_scope_ok:
  assumes "store_ok st" "chain_ok st env" "alloc_scope st = (st', s)"
  shows "chain_ok st' (env @ [s])"
  using alloc_scope_ok [OF assms(1,3)] chain_ok_mono [OF assms(2), of st'] by (simp add: chain_ok_def)

lemma chain_ok_simps [simp]: "chain_ok (st\<lparr>cell_at := f\<rparr>) = chain_ok st" "chain_ok (st\<lparr>scope_at := g\<rparr>) = chain_ok st"
  by (simp_all add: chain_ok_def fun_eq_iff)

lemma run_ok_simps [simp]: "run_ok (st, env, held) \<longleftrightarrow> store_ok st \<and> chain_ok st env \<and> list_all (chain_ok st) held"
  by (simp add: run_ok_def)

lemma env_step_ok:
  assumes "env_step (st, env, held) (st', env', held')" "run_ok (st, env, held)"
  shows "run_ok (st', env', held') \<and> next_scope st \<le> next_scope st' \<and> next_cell st \<le> next_cell st'"
proof -
  have ok: "store_ok st" "chain_ok st env" "list_all (chain_ok st) held"
    using assms(2) by simp_all
  from assms(1) show ?thesis
  proof cases
    case push
    obtain s where a: "alloc_scope st = (st', s)" "env' = env @ [s]"
      using push by (auto simp: Env.push_def split: prod.splits)
    note new = alloc_scope_ok [OF ok(1) a(1)]
    then show ?thesis
      using appended_scope_ok [OF ok(1,2) a(1)] chains_ok_mono [OF ok(3), of st'] push a(2) by simp
  next
    case pop
    then show ?thesis
      using ok by (auto simp: Env.pop_def chain_ok_def dest: in_set_butlastD)
  next
    case capture
    then show ?thesis
      using ok by (simp add: Env.capture_def)
  next
    case (call scopes)
    obtain s where a: "alloc_scope st = (st', s)" "env' = scopes @ [s]"
      using call by (auto simp: with_captured_def split: prod.splits)
    note new = alloc_scope_ok [OF ok(1) a(1)]
    have "chain_ok st scopes"
      using call ok(3) by (auto simp: list_all_iff)
    then show ?thesis
      using new appended_scope_ok [OF ok(1) _ a(1)] chains_ok_mono [OF ok(3), of st'] chain_ok_mono [OF ok(2), of st'] call a(2)
      by simp
  next
    case (isolate saved)
    then show ?thesis
      using enter_isolated_ok [OF ok(1,2), of st' env' saved] isolate chains_ok_mono [OF ok(3), of st'] chain_ok_mono [OF ok(2), of st'] by simp
  next
    case (restore saved)
    then show ?thesis
      using ok by (auto simp: Env.restore_def list_all_iff)
  next
    case (bind name v mutable)
    then show ?thesis
      using declare_ok [OF ok(1,2), of name v mutable st'] bind chains_ok_mono [OF ok(3), of st'] chain_ok_mono [OF ok(2), of st'] by simp
  next
    case (assign name v)
    then show ?thesis
      using ok by (auto simp: env_assign_def split: option.splits if_splits)
  next
    case (set_type name ty)
    then show ?thesis
      using ok by (auto simp: set_declared_type_def split: option.splits)
  next
    case (drain held_cell vs)
    then show ?thesis
      using ok store_ok_cleared [OF ok(1)] by (auto simp: drain_global_def split: list.splits)
  qed
qed

text \<open>What a step does to the cells that exist.\<close>

lemma env_step_cells:
  assumes "env_step (st, env, held) (st', env', held')" "store_ok st" "c < next_cell st" "\<not> b_mutable (cell_at st c)"
  shows "b_value (cell_at st' c) = b_value (cell_at st c) \<and> \<not> b_mutable (cell_at st' c)"
proof -
  have alloc: "cell_at (fst (alloc_scope s)) = cell_at s" for s :: "'v store"
    by (simp add: alloc_scope_def)
  from assms(1) show ?thesis
  proof cases
    case push
    then show ?thesis
      using assms(4) alloc [of st] by (auto simp: Env.push_def split: prod.splits)
  next
    case (call scopes)
    then show ?thesis
      using assms(4) alloc [of st] by (auto simp: with_captured_def split: prod.splits)
  next
    case (isolate saved)
    then have "cell_at st' = cell_at st"
      by (auto simp: enter_isolated_def alloc_scope_def Let_def split: list.splits)
    then show ?thesis
      using assms(4) by simp
  next
    case (bind name v mutable)
    then show ?thesis
      using assms(3,4) declared_scope(3) by fastforce
  next
    case (assign name v)
    then show ?thesis
      using assms(4) by (auto simp: env_assign_def split: option.splits if_splits)
  next
    case (set_type name ty)
    then show ?thesis
      using assms(4) by (auto simp: set_declared_type_def split: option.splits)
  next
    case (drain held_cell vs)
    then show ?thesis
      using assms(4) by (auto simp: drain_global_def split: list.splits)
  qed (use assms(4) in simp_all)
qed

lemma env_steps_constant:
  assumes "env_step\<^sup>*\<^sup>* q q'" "run_ok q" "c < next_cell (fst q)" "\<not> b_mutable (cell_at (fst q) c)"
  shows "run_ok q' \<and> c < next_cell (fst q') \<and> \<not> b_mutable (cell_at (fst q') c) \<and>
    b_value (cell_at (fst q') c) = b_value (cell_at (fst q) c)"
  using assms
proof (induction rule: rtranclp_induct)
  case (step y z)
  obtain st env held st' env' held' where yz: "y = (st, env, held)" "z = (st', env', held')"
    by (metis prod_cases3)
  then show ?case
    using step env_step_ok [of st env held st' env' held'] env_step_cells [of st env held st' env' held' c] by auto
qed simp

text \<open>C9. A constant keeps its value: whatever steps follow, through whatever chains, a cell that
  was declared immutable has the value it was declared with, and the state stays well formed.
\<close>

theorem constants_keep_their_values:
  assumes "run_ok (st, env, held)" "env_declare st env name v False = Some st1"
    and "env_step\<^sup>*\<^sup>* (st1, env, held) (st', env', held')" "lookup_cell st' chain n = lookup_cell st1 env name"
  shows "env_get st' chain n = Some v \<and> env_assign st' chain n w = Inl (Immutable n) \<and> run_ok (st', env', held')"
proof -
  let ?c = "next_cell st"
  have look: "lookup_cell st1 env name = Some ?c"
    using declare_lookup(1) [OF assms(2)] by simp
  have cell: "cell_at st1 ?c = \<lparr>b_value = v, b_mutable = False, b_declared = None\<rparr>"
    by (simp add: declared_scope(3) [OF assms(2)])
  have "env_step (st, env, held) (st1, env, held)"
    using assms(2) by (rule env_step.bind)
  then have ok: "run_ok (st1, env, held)" and fresh: "next_cell st1 = ?c + 1"
    using env_step_ok [OF _ assms(1)] declare_ok [OF _ _ assms(2)] assms(1) by auto
  have "run_ok (st', env', held') \<and> \<not> b_mutable (cell_at st' ?c) \<and> b_value (cell_at st' ?c) = v"
    using env_steps_constant [OF assms(3) ok, of ?c] fresh cell by simp
  then show ?thesis
    using look assms(4) by (simp add: env_get_def env_assign_def)
qed

section \<open>Refinement\<close>

text \<open>The abstract environment: a stack of maps from names to bindings, the innermost first.\<close>

fun spec_find :: "(ustr \<Rightarrow> 'b option) list \<Rightarrow> ustr \<Rightarrow> 'b option" where
  "spec_find [] n = None"
| "spec_find (m # ms) n = (case m n of Some b \<Rightarrow> Some b | None \<Rightarrow> spec_find ms n)"

fun spec_update :: "(ustr \<Rightarrow> 'b option) list \<Rightarrow> ustr \<Rightarrow> ('b \<Rightarrow> 'b) \<Rightarrow> (ustr \<Rightarrow> 'b option) list" where
  "spec_update [] n f = []"
| "spec_update (m # ms) n f = (case m n of Some b \<Rightarrow> m(n \<mapsto> f b) # ms | None \<Rightarrow> m # spec_update ms n f)"

fun spec_declare :: "(ustr \<Rightarrow> 'b option) list \<Rightarrow> ustr \<Rightarrow> 'b \<Rightarrow> (ustr \<Rightarrow> 'b option) list" where
  "spec_declare [] n b = []"
| "spec_declare (m # ms) n b = m(n \<mapsto> b) # ms"

definition abs_scope :: "'v store \<Rightarrow> nat \<Rightarrow> ustr \<Rightarrow> 'v binding option" where
  "abs_scope st s = (\<lambda>n. map_option (cell_at st) (map_of (scope_at st s) n))"

definition abs_env :: "'v store \<Rightarrow> env \<Rightarrow> (ustr \<Rightarrow> 'v binding option) list" where
  "abs_env st env = map (abs_scope st) (rev env)"

text \<open>No two names of the chain share a cell.\<close>

definition alias_free :: "'v store \<Rightarrow> env \<Rightarrow> bool" where
  "alias_free st env \<longleftrightarrow> distinct env \<and>
     (\<forall>s\<in>set env. \<forall>s'\<in>set env. \<forall>n n' c. map_of (scope_at st s) n = Some c \<and> map_of (scope_at st s') n' = Some c \<longrightarrow>
        s = s' \<and> n = n')"

lemma spec_find_abs: "spec_find (map (abs_scope st) ss) n = map_option (cell_at st) (find_cell st ss n)"
  by (induction ss) (auto simp: abs_scope_def split: option.splits)

lemma abs_get: "env_get st env n = map_option b_value (spec_find (abs_env st env) n)"
  by (simp add: env_get_def abs_env_def spec_find_abs lookup_cell_def option.map_comp comp_def)

lemma abs_push:
  assumes "store_ok st" "push st env = (st', env')"
  shows "abs_env st' env' = Map.empty # abs_env st env"
proof -
  obtain s where a: "alloc_scope st = (st', s)" "env' = env @ [s]"
    using assms(2) by (auto simp: push_def split: prod.splits)
  note new = alloc_scope_ok [OF assms(1) a(1)]
  then have "abs_scope st' = abs_scope st" "abs_scope st s = Map.empty"
    by (auto simp: abs_scope_def)
  then show ?thesis
    by (simp add: abs_env_def a(2))
qed

lemma abs_pop: "abs_env st (pop env) = tl (abs_env st env)"
  by (cases env rule: rev_cases) (simp_all add: abs_env_def pop_def)

lemma abs_declare:
  assumes "store_ok st" "distinct env" "env_declare st env name v mutable = Some st'"
  shows "abs_env st' env = spec_declare (abs_env st env) name \<lparr>b_value = v, b_mutable = mutable, b_declared = None\<rparr>"
proof -
  note st' = declared_scope [OF assms(3)]
  obtain es e where env: "env = es @ [e]"
    using st'(1) by (metis append_butlast_last_id)
  have old: "map_option (cell_at st') (map_of (scope_at st s) n) = map_option (cell_at st) (map_of (scope_at st s) n)" for s n
    using store_ok_cell [OF assms(1), of s n] by (cases "map_of (scope_at st s) n") (auto simp: st')
  have "abs_scope st' s = abs_scope st s" if "s \<noteq> e" for s
    using that old by (simp add: abs_scope_def st' env)
  moreover have "abs_scope st' e = (abs_scope st e)(name \<mapsto> \<lparr>b_value = v, b_mutable = mutable, b_declared = None\<rparr>)"
    using old by (auto simp: abs_scope_def st'(2) env map_of_insert_name fun_eq_iff st'(3))
  moreover have "e \<notin> set es"
    using assms(2) env by simp
  ultimately have "map (abs_scope st') (rev es) = map (abs_scope st) (rev es)"
    by (intro map_cong refl) (metis set_rev)
  then show ?thesis
    using \<open>abs_scope st' e = _\<close> by (simp add: abs_env_def env)
qed

lemma abs_scope_other_cell:
  "(\<And>n. map_of (scope_at st s) n \<noteq> Some c) \<Longrightarrow> abs_scope (st\<lparr>cell_at := (cell_at st)(c := b)\<rparr>) s = abs_scope st s"
  unfolding abs_scope_def
proof (rule ext)
  fix n
  assume "\<And>n. map_of (scope_at st s) n \<noteq> Some c"
  then have "map_of (scope_at st s) n \<noteq> Some c" .
  then show "map_option (cell_at (st\<lparr>cell_at := (cell_at st)(c := b)\<rparr>)) (map_of (scope_at (st\<lparr>cell_at := (cell_at st)(c := b)\<rparr>) s) n)
      = map_option (cell_at st) (map_of (scope_at st s) n)"
    by (cases "map_of (scope_at st s) n") auto
qed

lemma spec_update_cells:
  assumes "alias_free st ss" "find_cell st ss name = Some c"
  shows "map (abs_scope (st\<lparr>cell_at := (cell_at st)(c := f (cell_at st c))\<rparr>)) ss = spec_update (map (abs_scope st) ss) name f"
  using assms
proof (induction ss)
  case (Cons s ss)
  define st2 where "st2 = st\<lparr>cell_at := (cell_at st)(c := f (cell_at st c))\<rparr>"
  note other = abs_scope_other_cell [of st _ c "f (cell_at st c)", folded st2_def]
  have unique: "s1 = s2 \<and> n1 = n2"
    if "s1 \<in> set (s # ss)" "s2 \<in> set (s # ss)" "map_of (scope_at st s1) n1 = Some c" "map_of (scope_at st s2) n2 = Some c"
    for s1 s2 n1 n2
    using Cons.prems(1) that unfolding alias_free_def by blast
  have tail: "alias_free st ss" "s \<notin> set ss"
    using Cons.prems(1) by (auto simp: alias_free_def)
  have "map (abs_scope st2) (s # ss) = spec_update (map (abs_scope st) (s # ss)) name f"
  proof (cases "map_of (scope_at st s) name")
    case None
    then have found: "find_cell st ss name = Some c"
      using Cons.prems(2) by simp
    then obtain s' where "s' \<in> set ss" "map_of (scope_at st s') name = Some c"
      using find_cell_Some by metis
    then have "abs_scope st2 s = abs_scope st s"
      using unique [of s s'] tail(2) by (intro other) auto
    moreover have "abs_scope st s name = None"
      using None by (simp add: abs_scope_def)
    ultimately show ?thesis
      using Cons.IH [OF tail(1) found, folded st2_def] by simp
  next
    case (Some c')
    then have c: "map_of (scope_at st s) name = Some c"
      using Cons.prems(2) by simp
    have "abs_scope st2 s' = abs_scope st s'" if "s' \<in> set ss" for s'
      using unique [of s s' name] c that tail(2) by (intro other) auto
    then have "map (abs_scope st2) ss = map (abs_scope st) ss"
      by simp
    moreover have "abs_scope st2 s n = ((abs_scope st s)(name \<mapsto> f (cell_at st c))) n" for n
      using unique [of s s name n] c by (cases "map_of (scope_at st s) n") (auto simp: abs_scope_def st2_def)
    moreover have "abs_scope st s name = Some (cell_at st c)"
      using c by (simp add: abs_scope_def)
    ultimately show ?thesis
      by (simp add: fun_eq_iff)
  qed
  then show ?case
    by (simp only: st2_def)
qed simp

lemma alias_free_rev: "alias_free st (rev env) \<longleftrightarrow> alias_free st env"
  by (simp add: alias_free_def)

lemma abs_assign:
  assumes "alias_free st env" "env_assign st env name v = Inr st'"
  shows "abs_env st' env = spec_update (abs_env st env) name (\<lambda>b. b\<lparr>b_value := v\<rparr>)"
proof -
  obtain c where c: "find_cell st (rev env) name = Some c"
    and st': "st' = st\<lparr>cell_at := (cell_at st)(c := (cell_at st c)\<lparr>b_value := v\<rparr>)\<rparr>"
    using assms(2) by (auto simp: env_assign_def lookup_cell_def split: option.splits if_splits)
  show ?thesis
    using spec_update_cells [OF _ c, of "\<lambda>b. b\<lparr>b_value := v\<rparr>"] assms(1)
    by (simp add: abs_env_def st' alias_free_rev)
qed

lemma alias_free_declare:
  assumes "store_ok st" "alias_free st env" "env_declare st env name v mutable = Some st'"
  shows "alias_free st' env"
proof -
  note st' = declared_scope [OF assms(3)]
  have "map_of (scope_at st' s) n = (if s = last env \<and> n = name then Some (next_cell st) else map_of (scope_at st s) n)" for s n
    by (simp add: st' map_of_insert_name)
  moreover have "map_of (scope_at st s) n \<noteq> Some (next_cell st)" for s n
    using store_ok_cell [OF assms(1), of s n] by blast
  ultimately show ?thesis
    using assms(2) unfolding alias_free_def by (smt (verit) option.inject)
qed

text \<open>C10. A chain whose names share no cells refines a stack of maps: pushing, declaring and
  assigning are the operations on the stack, reading is reading from it, and declaring
  introduces no sharing.
\<close>

theorem environment_refines_maps:
  assumes "store_ok st" "alias_free st env"
  shows "(push st env = (st1, env1) \<longrightarrow> abs_env st1 env1 = Map.empty # abs_env st env) \<and>
    abs_env st (pop env) = tl (abs_env st env) \<and>
    env_get st env name = map_option b_value (spec_find (abs_env st env) name) \<and>
    (env_declare st env name v mutable = Some st2 \<longrightarrow> alias_free st2 env \<and>
       abs_env st2 env = spec_declare (abs_env st env) name \<lparr>b_value = v, b_mutable = mutable, b_declared = None\<rparr>) \<and>
    (env_assign st env name v = Inr st3 \<longrightarrow>
       abs_env st3 env = spec_update (abs_env st env) name (\<lambda>b. b\<lparr>b_value := v\<rparr>))"
  using abs_push [OF assms(1)] abs_pop [of st env] abs_get [of st env name] alias_free_declare [OF assms]
    abs_declare [OF assms(1)] abs_assign [OF assms(2)] assms(2)
  by (auto simp: alias_free_def [of st env])

section \<open>Examples\<close>

text \<open>A global scope with a variable of the name \<open>x\<close> that holds 1.\<close>

definition demo_store :: "nat store" where
  "demo_store = \<lparr>scope_at = (\<lambda>s. if s = 0 then [(scalars ''x'', 0)] else []),
     cell_at = (\<lambda>_. \<lparr>b_value = 1, b_mutable = True, b_declared = None\<rparr>), next_scope = 1, next_cell = 1\<rparr>"

lemma demo_ok: "run_ok (demo_store, [0], [])" "alias_free demo_store [0]"
  by (simp_all add: demo_store_def store_ok_def chain_ok_def alias_free_def)

lemma demo_looks:
  "lookup_cell demo_store [0] (scalars ''x'') = Some 0" "lookup_cell demo_store [0] (scalars ''y'') = None"
  "lookup_cell demo_store [] n = None"
  by (simp_all add: demo_store_def)

lemma demo_declared: "\<exists>st'. env_declare demo_store [0] n v m = Some st'"
  by (simp add: env_declare_def Let_def split: prod.split)

theorem assign_seen_through_cells_witness:
  "\<exists>st'. env_assign demo_store [0] (scalars ''x'') 5 = Inr st' \<and> env_get st' [0] (scalars ''x'') = Some 5"
proof -
  obtain st' where st': "env_assign demo_store [0] (scalars ''x'') 5 = Inr st'"
    by (simp add: env_assign_def demo_looks) (simp add: demo_store_def)
  then show ?thesis
    using assign_seen_through_cells [OF st'] by (auto simp: demo_looks)
qed

theorem declare_shadows_witness:
  "\<exists>st'. env_declare demo_store [0] (scalars ''y'') 7 True = Some st' \<and>
     env_get st' [0] (scalars ''y'') = Some 7 \<and> env_get st' ([0] @ [1]) (scalars ''y'') = Some 7"
proof -
  obtain st' where st': "env_declare demo_store [0] (scalars ''y'') 7 True = Some st'"
    using demo_declared by blast
  have "lookup_cell demo_store [1] (scalars ''y'') = None"
    by (simp add: demo_store_def)
  then show ?thesis
    using declare_shadows [OF _ st', of "scalars ''y''" "[1]" "[]"] st' demo_ok by auto
qed

theorem isolated_sees_globals_witness:
  "\<exists>st' isolated saved. enter_isolated demo_store [0] = (st', isolated, saved) \<and>
     env_get st' isolated (scalars ''x'') = Some 1"
proof -
  obtain st' isolated saved where e: "enter_isolated demo_store [0] = (st', isolated, saved)"
    by (metis prod_cases3)
  then show ?thesis
    using isolated_sees_globals [OF _ e, of "scalars ''x''"] demo_ok
    by (auto simp: get_global_def demo_store_def)
qed

theorem constants_keep_their_values_witness:
  "\<exists>st1 st'. env_declare demo_store [0] (scalars ''y'') 7 False = Some st1 \<and>
     env_step\<^sup>*\<^sup>* (st1, [0], []) (st', [0], [[0]]) \<and> env_get st' [0] (scalars ''y'') = Some 7"
proof -
  obtain st1 where st1: "env_declare demo_store [0] (scalars ''y'') 7 False = Some st1"
    using demo_declared by blast
  have "env_step (st1, [0], []) (st1, [0], [capture [0]])"
    by (rule env_step.capture)
  then have steps: "env_step\<^sup>*\<^sup>* (st1, [0], []) (st1, [0], [[0]])"
    by (simp add: capture_def)
  show ?thesis
    using constants_keep_their_values [OF demo_ok(1) st1 steps, of "[0]"] st1 steps by blast
qed

theorem environment_refines_maps_witness:
  "env_get demo_store [0] (scalars ''x'') = map_option b_value (spec_find (abs_env demo_store [0]) (scalars ''x'')) \<and>
   abs_env demo_store (pop [0]) = tl (abs_env demo_store [0])"
  using environment_refines_maps [of demo_store "[0]" undefined undefined "scalars ''x''" undefined undefined undefined undefined]
    demo_ok by simp

end
