(* ===== verification/Ui_Diff.thy ===== *)
theory Ui_Diff
  imports Value
begin

text \<open>
  The view trees of \<open>tswift-swiftui\<close> and their reconciliation: node ids (\<open>values.rs\<close>), walks
  over a tree by id (\<open>tree.rs\<close>), row keys (\<open>views.rs\<close>), and the diff of two trees into a patch
  stream (\<open>diff.rs\<close>). A view is a struct value with internal fields, whose names begin with an
  underscore. \<open>None\<close> is a panic of the diff.

  The host that applies the patches is that of \<open>ios/UiirRenderer\<close>: a tree of nodes with their
  ids as text. The JSON between the two is not modelled: a patch carries view values, and a
  node that the host receives is \<open>render\<close>, with the ids that the serializer gives
  (\<open>uiir.rs\<close>, \<open>write_node\<close>).
\<close>

section \<open>Views\<close>

abbreviation "sc_dot \<equiv> 46::scalar"
abbreviation "sc_underscore \<equiv> 95::scalar"

definition MODIFIERS_FIELD :: ustr where "MODIFIERS_FIELD = scalars ''_modifiers''"
definition CHILDREN_FIELD :: ustr where "CHILDREN_FIELD = scalars ''_children''"
definition KEY_FIELD :: ustr where "KEY_FIELD = scalars ''_key''"

definition view_kind :: "'f swift_value \<Rightarrow> ustr" where
  "view_kind node = (case node of VStruct obj \<Rightarrow> so_name obj | _ \<Rightarrow> [])"

definition array_field :: "'f swift_value \<Rightarrow> ustr \<Rightarrow> 'f swift_value list" where
  "array_field node name =
     (case node of
        VStruct obj \<Rightarrow> (case struct_get obj name of Some (VArray items) \<Rightarrow> items | _ \<Rightarrow> [])
      | _ \<Rightarrow> [])"

definition modifiers :: "'f swift_value \<Rightarrow> 'f swift_value list" where
  "modifiers node = array_field node MODIFIERS_FIELD"

definition children :: "'f swift_value \<Rightarrow> 'f swift_value list" where
  "children node = array_field node CHILDREN_FIELD"

definition verbatim :: ustr where
  "verbatim = scalars ''verbatim''"

definition text_of :: "'f swift_value \<Rightarrow> ustr option" where
  "text_of node =
     (case node of
        VStruct obj \<Rightarrow>
          if so_name obj = scalars ''Text''
          then (case struct_get obj verbatim of Some (VStr s) \<Rightarrow> Some s | _ \<Rightarrow> None)
          else None
      | _ \<Rightarrow> None)"

definition visible :: "'f swift_value \<Rightarrow> (ustr \<times> 'f swift_value) list" where
  "visible node =
     (case node of
        VStruct obj \<Rightarrow> filter (\<lambda>(k, v). \<not> starts_with k [sc_underscore]) (so_fields obj)
      | _ \<Rightarrow> [])"

definition args_equal :: "'f f64 \<Rightarrow> 'f swift_value \<Rightarrow> 'f swift_value \<Rightarrow> bool" where
  "args_equal F a b \<longleftrightarrow> list_all2 (\<lambda>(k, v) (l, w). k = l \<and> swift_eq F v w) (visible a) (visible b)"

definition key_of :: "'f swift_value \<Rightarrow> ustr option" where
  "key_of value =
     (case value of
        VStruct obj \<Rightarrow> (case struct_get obj KEY_FIELD of Some (VStr s) \<Rightarrow> Some s | _ \<Rightarrow> None)
      | _ \<Rightarrow> None)"

definition path_step :: "ustr \<Rightarrow> ustr \<Rightarrow> ustr" where
  "path_step parent seg = parent @ sc_dot # seg"

definition child_key :: "'f swift_value \<Rightarrow> nat \<Rightarrow> ustr" where
  "child_key child index = (case key_of child of Some k \<Rightarrow> k | None \<Rightarrow> dec_digits index)"

definition child_id :: "ustr \<Rightarrow> nat \<Rightarrow> 'f swift_value \<Rightarrow> ustr" where
  "child_id parent index child =
     (case key_of child of Some k \<Rightarrow> path_step parent k | None \<Rightarrow> path_step parent (dec_digits index))"

definition root_id :: ustr where
  "root_id = [48]"

section \<open>Row keys\<close>

text \<open>\<open>key_string\<close> on the bytes of the text: alphanumeric ones and \<open>-\<close> stay, others are two hex digits.\<close>

definition lower_hex :: "nat \<Rightarrow> scalar" where
  "lower_hex d = (if d < 10 then 48 + d else 87 + d)"

definition key_byte :: "nat \<Rightarrow> ustr" where
  "key_byte b =
     (if is_ascii_digit b \<or> is_ascii_alpha b \<or> b = 45 then [b]
      else [sc_underscore, lower_hex (b div 16), lower_hex (b mod 16)])"

definition key_string :: "nat list \<Rightarrow> ustr" where
  "key_string bytes = concat (map key_byte bytes)"

text \<open>
  The keys of the rows of one item: the item's key, with \<open>_j\<close> after it when there is more than
  one row; then a prime after it as long as it was seen before. The loop ends because the keys
  seen are finitely many: it takes at most one step per seen key.
\<close>

fun unseen_key :: "nat \<Rightarrow> ustr list \<Rightarrow> ustr \<Rightarrow> ustr" where
  "unseen_key 0 seen key = key"
| "unseen_key (Suc n) seen key = (if key \<in> set seen then unseen_key n seen (key @ [39]) else key)"

definition row_keys :: "ustr \<Rightarrow> nat \<Rightarrow> ustr list" where
  "row_keys key rows =
     (if 1 < rows then map (\<lambda>j. key @ sc_underscore # dec_digits j) [0..<rows] else replicate rows key)"

fun assign_keys :: "ustr list \<Rightarrow> ustr list \<Rightarrow> ustr list" where
  "assign_keys seen [] = []"
| "assign_keys seen (key # keys) =
     (let k = unseen_key (length seen + 1) seen key in k # assign_keys (k # seen) keys)"

text \<open>The keys of all rows: each item with its key and the number of its rows.\<close>

definition keyed_rows :: "(ustr \<times> nat) list \<Rightarrow> ustr list" where
  "keyed_rows items = assign_keys [] (concat (map (\<lambda>(key, rows). row_keys key rows) items))"

definition with_key :: "'f swift_value \<Rightarrow> ustr \<Rightarrow> 'f swift_value" where
  "with_key view key =
     (case view of
        VStruct obj \<Rightarrow>
          VStruct (StructObj (so_name obj)
            (filter (\<lambda>(k, v). k \<noteq> KEY_FIELD) (so_fields obj) @ [(KEY_FIELD, VStr key)]))
      | _ \<Rightarrow> view)"

section \<open>Walking a tree\<close>

lemma array_field_size: "c \<in> set (array_field v name) \<Longrightarrow> size c < size v"
proof -
  assume "c \<in> set (array_field v name)"
  then obtain n fs items where v: "v = VStruct (StructObj n fs)" "get_field fs name = Some (VArray items)" "c \<in> set items"
    by (cases v) (auto simp: array_field_def struct_get_def split: option.splits swift_value.splits,
        metis struct_obj.collapse)
  have "size c \<le> size_list size items"
    using v(3) by (rule size_part)
  moreover have "size_prod (\<lambda>_. 0) size (name, VArray items) \<le> size_list (size_prod (\<lambda>_. 0) size) fs"
    using get_field_mem [OF v(2)] by (rule size_part)
  ultimately show ?thesis
    by (simp add: v(1))
qed

lemma children_size: "c \<in> set (children v) \<Longrightarrow> size c < size v"
  by (simp add: children_def array_field_size)

lemma child_nth_size:
  "i < length (children (VStruct obj)) \<Longrightarrow> size (children (VStruct obj) ! i) < Suc (size_struct_obj size obj)"
  using children_size [OF nth_mem, of i "VStruct obj"] by simp

text \<open>\<open>find_with_ancestor\<close>: the node, and the nearest id on the way to it where \<open>pred\<close> holds.\<close>

fun first_some :: "'a option list \<Rightarrow> 'a option" where
  "first_some [] = None"
| "first_some (Some x # xs) = Some x"
| "first_some (None # xs) = first_some xs"

function find_from ::
  "('f swift_value struct_obj \<Rightarrow> bool) \<Rightarrow> ustr \<Rightarrow> 'f swift_value \<Rightarrow> ustr \<Rightarrow> ustr option \<Rightarrow> ('f swift_value \<times> ustr option) option" where
  "find_from pred target node path nearest =
     (let nearest = (case node of VStruct obj \<Rightarrow> if pred obj then Some path else nearest | _ \<Rightarrow> nearest) in
      if path = target then Some (node, nearest)
      else case node of
        VStruct obj \<Rightarrow>
          if starts_with target (path @ [sc_dot])
          then first_some (map (\<lambda>(i, c). find_from pred target c (child_id path i c) nearest)
                 (enumerate 0 (children node)))
          else None
      | _ \<Rightarrow> None)"
  by pat_completeness auto
termination
  by (relation "measure (\<lambda>(pred, target, node, path, nearest). size node)")
    (auto simp: in_set_enumerate_eq child_nth_size)

declare find_from.simps [simp del]

definition find_with_ancestor ::
  "('f swift_value struct_obj \<Rightarrow> bool) \<Rightarrow> 'f swift_value \<Rightarrow> ustr \<Rightarrow> ('f swift_value \<times> ustr option) option" where
  "find_with_ancestor pred tree target = find_from pred target tree root_id None"

definition find_node :: "'f swift_value \<Rightarrow> ustr \<Rightarrow> 'f swift_value option" where
  "find_node tree target = map_option fst (find_with_ancestor (\<lambda>_. False) tree target)"

text \<open>\<open>walk\<close>: the nodes it visits, in order, with their ids and depths.\<close>

function walk_from :: "'f swift_value \<Rightarrow> ustr \<Rightarrow> nat \<Rightarrow> (ustr \<times> nat \<times> 'f swift_value struct_obj) list" where
  "walk_from node path depth =
     (case node of
        VStruct obj \<Rightarrow>
          (path, depth, obj) #
          concat (map (\<lambda>(i, c). walk_from c (child_id path i c) (depth + 1)) (enumerate 0 (children node)))
      | _ \<Rightarrow> [])"
  by pat_completeness auto
termination
  by (relation "measure (\<lambda>(node, path, depth). size node)")
    (auto simp: in_set_enumerate_eq child_nth_size)

declare walk_from.simps [simp del]

definition walk :: "'f swift_value \<Rightarrow> (ustr \<times> nat \<times> 'f swift_value struct_obj) list" where
  "walk tree = walk_from tree root_id 0"

text \<open>\<open>rewrite\<close>, with a change of a node that may fail.\<close>

fun collect :: "('e + 'a) list \<Rightarrow> 'e + 'a list" where
  "collect [] = Inr []"
| "collect (Inl e # rs) = Inl e"
| "collect (Inr x # rs) = (case collect rs of Inl e \<Rightarrow> Inl e | Inr xs \<Rightarrow> Inr (x # xs))"

function rewrite_from ::
  "('f swift_value struct_obj \<Rightarrow> ustr \<Rightarrow> 'e + 'f swift_value struct_obj) \<Rightarrow> 'f swift_value \<Rightarrow> ustr \<Rightarrow> 'e + 'f swift_value" where
  "rewrite_from f node path =
     (case node of
        VStruct obj \<Rightarrow>
          (let rewritten =
             (case struct_get obj CHILDREN_FIELD of
                Some (VArray kids) \<Rightarrow>
                  (case collect (map (\<lambda>(i, c). rewrite_from f c (child_id path i c)) (enumerate 0 (children node))) of
                     Inl e \<Rightarrow> Inl e
                   | Inr mapped \<Rightarrow> Inr (struct_set obj CHILDREN_FIELD (VArray mapped)))
              | _ \<Rightarrow> Inr obj)
           in case rewritten of
             Inl e \<Rightarrow> Inl e
           | Inr obj' \<Rightarrow> (case f obj' path of Inl e \<Rightarrow> Inl e | Inr obj'' \<Rightarrow> Inr (VStruct obj'')))
      | _ \<Rightarrow> Inr node)"
  by pat_completeness auto
termination
  by (relation "measure (\<lambda>(f, node, path). size node)")
    (auto simp: in_set_enumerate_eq child_nth_size)

declare rewrite_from.simps [simp del]

section \<open>Diff\<close>

datatype 'f patch =
    Mount "'f swift_value"
  | Insert ustr nat "'f swift_value"
  | Remove ustr
  | Replace ustr "'f swift_value"
  | SetText ustr ustr
  | SetModifiers ustr "'f swift_value list"
  | SetArgs ustr "'f swift_value"
  | Move ustr ustr nat

definition mount :: "'f swift_value \<Rightarrow> 'f patch list" where
  "mount tree = [Mount tree]"

definition all_keyed :: "'f swift_value list \<Rightarrow> bool" where
  "all_keyed cs \<longleftrightarrow> list_all (\<lambda>c. key_of c \<noteq> None) cs"

definition diff_args :: "'f f64 \<Rightarrow> 'f swift_value \<Rightarrow> 'f swift_value \<Rightarrow> ustr \<Rightarrow> 'f patch list" where
  "diff_args F old new path =
     (let other = (if args_equal F old new then [] else [SetArgs path new]) in
      case (text_of old, text_of new) of
        (Some a, Some b) \<Rightarrow> if a \<noteq> b then [SetText path b] else other
      | _ \<Rightarrow> other)"

definition diff_modifiers :: "'f f64 \<Rightarrow> 'f swift_value \<Rightarrow> 'f swift_value \<Rightarrow> ustr \<Rightarrow> 'f patch list" where
  "diff_modifiers F old new path =
     (if list_all2 (swift_eq F) (modifiers old) (modifiers new) then []
      else [SetModifiers path (modifiers new)])"

text \<open>What follows the patches of the common children when they are matched by position.\<close>

definition positional_tail :: "'f swift_value list \<Rightarrow> 'f swift_value list \<Rightarrow> ustr \<Rightarrow> 'f patch list" where
  "positional_tail olds news path =
     (let common = min (length olds) (length news) in
      map (\<lambda>i. Insert path i (news ! i)) [common..<length news] @
      map (\<lambda>i. Remove (path_step path (dec_digits i))) (rev [common..<length olds]))"

definition insert_at :: "nat \<Rightarrow> 'a \<Rightarrow> 'a list \<Rightarrow> 'a list" where
  "insert_at i x xs = take i xs @ x # drop i xs"

definition remove_at :: "nat \<Rightarrow> 'a list \<Rightarrow> 'a list" where
  "remove_at i xs = take i xs @ drop (Suc i) xs"

definition child_keys :: "'f swift_value list \<Rightarrow> ustr list" where
  "child_keys cs = map (\<lambda>(i, c). child_key c i) (enumerate 0 cs)"

text \<open>\<open>old_by_key\<close>: collected into a hash map, where the last of two equal keys stays.\<close>

definition old_by_key :: "'f swift_value list \<Rightarrow> ustr \<Rightarrow> 'f swift_value option" where
  "old_by_key olds = map_of (rev (zip (child_keys olds) olds))"

definition keyed_removals :: "'f swift_value list \<Rightarrow> ustr list \<Rightarrow> ustr \<Rightarrow> 'f patch list" where
  "keyed_removals olds new_keys path =
     map (\<lambda>k. Remove (path_step path k)) (filter (\<lambda>k. k \<notin> set new_keys) (child_keys olds))"

text \<open>
  The loop over the new children: each with its key and, when there is an old child of that
  key, the patches between the two. \<open>order\<close> is the order of the host's children.
\<close>

fun keyed_loop ::
  "ustr \<Rightarrow> ustr list \<Rightarrow> nat \<Rightarrow> (ustr \<times> 'f swift_value \<times> 'f patch list option) list \<Rightarrow> 'f patch list option" where
  "keyed_loop path order target [] = Some []"
| "keyed_loop path order target ((key, child, Some patches) # rest) =
     (case position (\<lambda>k. k = key) order of
        None \<Rightarrow> None
      | Some cur \<Rightarrow>
          if cur = target then map_option (\<lambda>ps. patches @ ps) (keyed_loop path order (target + 1) rest)
          else
            let order = remove_at cur order in
            if length order < target then None
            else map_option (\<lambda>ps. patches @ Move path (path_step path key) target # ps)
                   (keyed_loop path (insert_at target key order) (target + 1) rest))"
| "keyed_loop path order target ((key, child, None) # rest) =
     (if length order < target then None
      else map_option (\<lambda>ps. Insert path target child # ps)
             (keyed_loop path (insert_at target key order) (target + 1) rest))"

definition keyed_patches ::
  "'f swift_value list \<Rightarrow> 'f swift_value list \<Rightarrow> ustr \<Rightarrow> 'f patch list option list option \<Rightarrow> 'f patch list option" where
  "keyed_patches olds news path parts =
     (case parts of
        None \<Rightarrow> None
      | Some found \<Rightarrow>
          map_option (\<lambda>ps. keyed_removals olds (child_keys news) path @ ps)
            (keyed_loop path (filter (\<lambda>k. k \<in> set (child_keys news)) (child_keys olds)) 0
              (zip (child_keys news) (zip news found))))"

function diff_node :: "'f f64 \<Rightarrow> 'f swift_value \<Rightarrow> 'f swift_value \<Rightarrow> ustr \<Rightarrow> 'f patch list option" where
  "diff_node F old new path =
     (if view_kind old \<noteq> view_kind new then Some [Replace path new]
      else
        let olds = children old; news = children new in
        map_option (\<lambda>ps. diff_args F old new path @ diff_modifiers F old new path @ ps)
          (if all_keyed olds \<and> all_keyed news then
             keyed_patches olds news path
               (those (map (\<lambda>(key, c).
                  case old_by_key olds key of
                    Some o' \<Rightarrow> map_option Some (diff_node F o' c (path_step path key))
                  | None \<Rightarrow> Some None) (zip (child_keys news) news)))
           else
             map_option (\<lambda>parts. concat parts @ positional_tail olds news path)
               (those (map (\<lambda>(i, o', c). diff_node F o' c (path_step path (dec_digits i)))
                  (enumerate 0 (zip olds news))))))"
  by pat_completeness auto
termination
  by (relation "measure (\<lambda>(F, old, new, path). size new)")
    (auto simp: in_set_enumerate_eq children_size dest!: set_zip_rightD intro!: child_nth_size)

declare diff_node.simps [simp del]

definition diff :: "'f f64 \<Rightarrow> 'f swift_value \<Rightarrow> 'f swift_value \<Rightarrow> 'f patch list option" where
  "diff F old new = diff_node F old new root_id"

section \<open>The host\<close>

datatype 'f host =
  Host (h_id: ustr) (h_kind: ustr) (h_args: "(ustr \<times> 'f swift_value) list") (h_mods: "'f swift_value list")
    (h_kids: "'f host list")

text \<open>The node that the host receives for a view at an id.\<close>

function render :: "ustr \<Rightarrow> 'f swift_value \<Rightarrow> 'f host" where
  "render path v =
     Host path (view_kind v) (visible v) (modifiers v)
       (map (\<lambda>(i, c). render (child_id path i c) c) (enumerate 0 (children v)))"
  by pat_completeness auto
termination
  by (relation "measure (\<lambda>(path, v). size v)")
    (auto simp: in_set_enumerate_eq children_size)

declare render.simps [simp del]

text \<open>\<open>rewrite\<close> of the host: the first node with the id, in preorder; \<open>None\<close> when there is none.\<close>

fun first_rewritten :: "'a list \<Rightarrow> 'a option list \<Rightarrow> 'a list option" where
  "first_rewritten (k # ks) (Some k' # rs) = Some (k' # ks)"
| "first_rewritten (k # ks) (None # rs) = map_option (\<lambda>ks'. k # ks') (first_rewritten ks rs)"
| "first_rewritten _ _ = None"

primrec host_rewrite :: "ustr \<Rightarrow> ('f host \<Rightarrow> 'f host) \<Rightarrow> 'f host \<Rightarrow> 'f host option" where
  "host_rewrite target f (Host i k a m kids) =
     (if i = target then Some (f (Host i k a m kids))
      else map_option (Host i k a m) (first_rewritten kids (map (host_rewrite target f) kids)))"

definition mutate :: "ustr \<Rightarrow> ('f host \<Rightarrow> 'f host) \<Rightarrow> 'f host \<Rightarrow> 'f host" where
  "mutate target f host = (case host_rewrite target f host of Some r \<Rightarrow> r | None \<Rightarrow> host)"

definition set_args :: "(ustr \<times> 'f swift_value) list \<Rightarrow> 'f host \<Rightarrow> 'f host" where
  "set_args a h = Host (h_id h) (h_kind h) a (h_mods h) (h_kids h)"

definition set_mods :: "'f swift_value list \<Rightarrow> 'f host \<Rightarrow> 'f host" where
  "set_mods m h = Host (h_id h) (h_kind h) (h_args h) m (h_kids h)"

definition set_kids :: "('f host list \<Rightarrow> 'f host list) \<Rightarrow> 'f host \<Rightarrow> 'f host" where
  "set_kids g h = Host (h_id h) (h_kind h) (h_args h) (h_mods h) (g (h_kids h))"

text \<open>The id up to its last dot.\<close>

definition parent_of :: "ustr \<Rightarrow> ustr option" where
  "parent_of path =
     (if sc_dot \<in> set path then Some (rev (tl (dropWhile (\<lambda>c. c \<noteq> sc_dot) (rev path)))) else None)"

definition move_kid :: "ustr \<Rightarrow> nat \<Rightarrow> 'f host list \<Rightarrow> 'f host list" where
  "move_kid path index kids =
     (case position (\<lambda>k. h_id k = path) kids of
        None \<Rightarrow> kids
      | Some cur \<Rightarrow>
          let node = kids ! cur; kids = remove_at cur kids
          in insert_at (min index (length kids)) node kids)"

definition apply_patch :: "'f host \<Rightarrow> 'f patch \<Rightarrow> 'f host" where
  "apply_patch host p =
     (case p of
        Mount v \<Rightarrow> render root_id v
      | SetText path t \<Rightarrow> mutate path (\<lambda>h. set_args (set_field (h_args h) verbatim (VStr t)) h) host
      | SetModifiers path ms \<Rightarrow> mutate path (set_mods ms) host
      | SetArgs path v \<Rightarrow> mutate path (set_args (visible v)) host
      | Replace path v \<Rightarrow> mutate path (\<lambda>_. render path v) host
      | Insert parent i v \<Rightarrow>
          mutate parent (set_kids (\<lambda>kids. insert_at (min i (length kids)) (render (child_id parent i v) v) kids)) host
      | Remove path \<Rightarrow>
          (case parent_of path of
             None \<Rightarrow> host
           | Some parent \<Rightarrow> mutate parent (set_kids (filter (\<lambda>k. h_id k \<noteq> path))) host)
      | Move parent path i \<Rightarrow> mutate parent (set_kids (move_kid path i)) host)"

definition apply_patches :: "'f host \<Rightarrow> 'f patch list \<Rightarrow> 'f host" where
  "apply_patches host ps = foldl apply_patch host ps"

end
