(* ===== verification/Ui_Correct.thy ===== *)
theory Ui_Correct
  imports Ui_Diff Name_Store
begin

text \<open>
  Correctness of the reconciliation: the ids of a rendered tree are unique and route to their
  nodes; the keys given to rows are distinct and can be undone; and the patches of a diff turn
  a host that shows the old view into one that shows the new view, without a panic, as long as
  the kind of a node tells whether its children have keys.
\<close>

section \<open>Paths\<close>

definition dotfree :: "ustr \<Rightarrow> bool" where
  "dotfree s \<longleftrightarrow> sc_dot \<notin> set s"

definition under :: "ustr \<Rightarrow> ustr \<Rightarrow> bool" where
  "under q p \<longleftrightarrow> p = q \<or> (\<exists>r. p = path_step q r)"

definition below :: "ustr \<Rightarrow> ustr \<Rightarrow> bool" where
  "below q p \<longleftrightarrow> (\<exists>r. p = path_step q r)"

lemma takeWhile_dotfree: "dotfree s \<Longrightarrow> takeWhile (\<lambda>c. c \<noteq> sc_dot) (s @ sc_dot # r) = s"
  by (auto simp: dotfree_def takeWhile_append)

lemma takeWhile_dotfree_all: "dotfree s \<Longrightarrow> takeWhile (\<lambda>c. c \<noteq> sc_dot) s = s"
  by (auto simp: dotfree_def takeWhile_eq_all_conv)

lemma under_step_segment:
  assumes "dotfree s" "under (path_step q s) p"
  shows "takeWhile (\<lambda>c. c \<noteq> sc_dot) (drop (Suc (length q)) p) = s"
  using assms takeWhile_dotfree [OF assms(1)] takeWhile_dotfree_all [OF assms(1)]
  by (auto simp: under_def path_step_def)

lemma under_steps_disjoint:
  "dotfree s \<Longrightarrow> dotfree t \<Longrightarrow> under (path_step q s) p \<Longrightarrow> under (path_step q t) p \<Longrightarrow> s = t"
  using under_step_segment by metis

lemma path_step_inj [simp]: "path_step q s = path_step q t \<longleftrightarrow> s = t"
  by (simp add: path_step_def)

lemma path_step_assoc: "path_step (path_step q s) r = path_step q (s @ sc_dot # r)"
  by (simp add: path_step_def)

lemma under_refl [simp]: "under q q"
  by (simp add: under_def)

lemma under_trans: "under q p \<Longrightarrow> under p r \<Longrightarrow> under q r"
  by (auto simp: under_def path_step_assoc)

lemma under_step [simp]: "under q (path_step q s)"
  by (auto simp: under_def)

lemma not_above: "under (path_step q s) p \<Longrightarrow> p \<noteq> q"
  by (auto simp: under_def path_step_def)

lemma below_under: "below q p \<Longrightarrow> under q p"
  by (auto simp: below_def under_def)

lemma below_trans: "under q p \<Longrightarrow> below p r \<Longrightarrow> below q r"
  by (auto simp: below_def under_def path_step_assoc)

lemma dec_digits_inj [simp]: "dec_digits m = dec_digits n \<longleftrightarrow> m = n"
  by (metis dec_digits_value)

lemma dotfree_dec_digits [simp]: "dotfree (dec_digits n)"
  using dec_digits_digit [of sc_dot n] by (auto simp: dotfree_def is_ascii_digit_def)

lemma parent_of_step: "parent_of (path_step q r) = Some (case parent_of r of None \<Rightarrow> q | Some p \<Rightarrow> path_step q p)"
proof (cases "sc_dot \<in> set r")
  case True
  then have "dropWhile (\<lambda>c. c \<noteq> sc_dot) (rev r @ sc_dot # rev q) = dropWhile (\<lambda>c. c \<noteq> sc_dot) (rev r) @ sc_dot # rev q"
    by (intro dropWhile_append1) auto
  moreover have "dropWhile (\<lambda>c. c \<noteq> sc_dot) (rev r) \<noteq> []"
    using True by (auto simp: dropWhile_eq_Nil_conv)
  ultimately show ?thesis
    using True by (simp add: parent_of_def path_step_def)
next
  case False
  then have "dropWhile (\<lambda>c. c \<noteq> sc_dot) (rev r @ sc_dot # rev q) = sc_dot # rev q"
    by (subst dropWhile_append2) auto
  then show ?thesis
    using False by (simp add: parent_of_def path_step_def)
qed

lemma parent_of_below: "below q p \<Longrightarrow> \<exists>p'. parent_of p = Some p' \<and> under q p'"
  by (auto simp: below_def parent_of_step split: option.splits)

lemma parent_of_child: "dotfree s \<Longrightarrow> parent_of (path_step q s) = Some q"
proof -
  assume "dotfree s"
  then have "parent_of s = None"
    by (simp add: parent_of_def dotfree_def)
  then show ?thesis
    by (simp add: parent_of_step)
qed

section \<open>Hosts with ids by path\<close>

inductive ids_ok :: "ustr \<Rightarrow> 'f host \<Rightarrow> bool" where
  "distinct segs \<Longrightarrow> list_all dotfree segs \<Longrightarrow> list_all2 (\<lambda>s k. ids_ok (path_step q s) k) segs kids
   \<Longrightarrow> ids_ok q (Host q kd a m kids)"
monos list.rel_mono_strong

lemma ids_ok_id: "ids_ok q h \<Longrightarrow> h_id h = q"
  by (erule ids_ok.cases) (metis host.sel(1))

lemma first_rewritten_none: "(\<And>r. r \<in> set rs \<Longrightarrow> r = None) \<Longrightarrow> first_rewritten ks rs = None"
  by (induction ks rs rule: first_rewritten.induct) auto

lemma first_rewritten_at:
  assumes "length rs = length ks" "i < length ks" "\<And>j. j < length ks \<Longrightarrow> j \<noteq> i \<Longrightarrow> rs ! j = None"
  shows "first_rewritten ks rs = map_option (\<lambda>k. ks[i := k]) (rs ! i)"
  using assms
proof (induction ks rs arbitrary: i rule: list_induct2')
  case (4 k ks r rs)
  show ?case
  proof (cases i)
    case 0
    have "rs ! j = None" if "j < length rs" for j
    proof -
      have "(r # rs) ! Suc j = None"
        using 4(2) that 0 by (intro 4(4)) auto
      then show ?thesis
        by simp
    qed
    then have "\<forall>x\<in>set rs. x = None"
      unfolding all_set_conv_all_nth by blast
    then show ?thesis
      using 0 first_rewritten_none [of rs ks] by (cases r) simp_all
  next
    case (Suc i')
    have "r = None"
      using 4(4) [of 0] Suc by simp
    moreover have "first_rewritten ks rs = map_option (\<lambda>k. ks[i' := k]) (rs ! i')"
    proof (rule 4(1))
      show "length rs = length ks" "i' < length ks"
        using 4(2,3) Suc by simp_all
      show "rs ! j = None" if "j < length ks" "j \<noteq> i'" for j
        using 4(4) [of "Suc j"] that Suc by simp
    qed
    ultimately show ?thesis
      using Suc by (simp add: option.map_comp comp_def)
  qed
qed simp_all

lemma rewrite_outside: "ids_ok q h \<Longrightarrow> \<not> under q p \<Longrightarrow> host_rewrite p f h = None"
proof (induction rule: ids_ok.induct)
  case (1 segs q kids kd a m)
  have "r = None" if r: "r \<in> set (map (host_rewrite p f) kids)" for r
  proof -
    obtain i where i: "i < length kids" "r = host_rewrite p f (kids ! i)"
      using r by (auto simp: in_set_conv_nth)
    then have "\<not> under (path_step q (segs ! i)) p \<longrightarrow> host_rewrite p f (kids ! i) = None"
      using 1(3) by (simp add: list_all2_conv_all_nth)
    moreover have "\<not> under (path_step q (segs ! i)) p"
      using 1(4) under_trans [OF under_step] by blast
    ultimately show ?thesis
      using i(2) by simp
  qed
  then have "first_rewritten kids (map (host_rewrite p f) kids) = None"
    by (rule first_rewritten_none)
  moreover have "q \<noteq> p"
    using 1(4) by auto
  ultimately show ?case
    by simp
qed

text \<open>A change below one child leaves everything else.\<close>

definition siblings_ok :: "ustr \<Rightarrow> ustr list \<Rightarrow> nat \<Rightarrow> 'f host list \<Rightarrow> bool" where
  "siblings_ok q segs i kids \<longleftrightarrow> distinct segs \<and> list_all dotfree segs \<and> length segs = length kids \<and> i < length kids \<and>
     (\<forall>j<length kids. j \<noteq> i \<longrightarrow> ids_ok (path_step q (segs ! j)) (kids ! j))"

lemma mutate_child:
  assumes "siblings_ok q segs i kids" "under (path_step q (segs ! i)) p"
  shows "mutate p f (Host q kd a m kids) = Host q kd a m (kids[i := mutate p f (kids ! i)])"
proof -
  have segs: "distinct segs" "list_all dotfree segs" "length segs = length kids" "i < length kids"
    using assms(1) by (simp_all add: siblings_ok_def)
  have "host_rewrite p f (kids ! j) = None" if j: "j < length kids" "j \<noteq> i" for j
  proof (rule rewrite_outside)
    show "ids_ok (path_step q (segs ! j)) (kids ! j)"
      using assms(1) j by (simp add: siblings_ok_def)
    have "segs ! j \<noteq> segs ! i"
      using segs j by (simp add: nth_eq_iff_index_eq)
    then show "\<not> under (path_step q (segs ! j)) p"
      using under_steps_disjoint [of "segs ! j" "segs ! i" q p] assms(2) segs j by (auto simp: list_all_length)
  qed
  then have "first_rewritten kids (map (host_rewrite p f) kids) = map_option (\<lambda>k. kids[i := k]) (host_rewrite p f (kids ! i))"
    using first_rewritten_at [of "map (host_rewrite p f) kids" kids i] segs(4) by simp
  moreover have "q \<noteq> p"
    using not_above [OF assms(2)] by blast
  ultimately show ?thesis
    by (cases "host_rewrite p f (kids ! i)") (simp_all add: mutate_def)
qed

definition inside :: "ustr \<Rightarrow> 'f patch \<Rightarrow> bool" where
  "inside q p \<longleftrightarrow>
     (case p of
        Mount _ \<Rightarrow> False
      | Remove r \<Rightarrow> below q r
      | Insert r _ _ \<Rightarrow> under q r
      | Replace r _ \<Rightarrow> under q r
      | SetText r _ \<Rightarrow> under q r
      | SetModifiers r _ \<Rightarrow> under q r
      | SetArgs r _ \<Rightarrow> under q r
      | Move r _ _ \<Rightarrow> under q r)"

lemma inside_trans: "under q r \<Longrightarrow> inside r p \<Longrightarrow> inside q p"
  by (auto simp: inside_def split: patch.splits intro: under_trans below_trans)

lemma apply_patch_child:
  assumes "siblings_ok q segs i kids" "inside (path_step q (segs ! i)) p"
  shows "apply_patch (Host q kd a m kids) p = Host q kd a m (kids[i := apply_patch (kids ! i) p])"
proof (cases p)
  case (Remove r)
  then obtain r' where "parent_of r = Some r'" "under (path_step q (segs ! i)) r'"
    using parent_of_below assms(2) by (fastforce simp: inside_def)
  then show ?thesis
    using mutate_child [OF assms(1)] by (simp add: Remove apply_patch_def)
qed (use assms mutate_child [OF assms(1)] in \<open>simp_all add: apply_patch_def inside_def\<close>)

lemma siblings_ok_update [simp]: "siblings_ok q segs i (kids[i := k]) \<longleftrightarrow> siblings_ok q segs i kids"
  by (auto simp: siblings_ok_def)

lemma apply_patches_append: "apply_patches h (ps @ rs) = apply_patches (apply_patches h ps) rs"
  by (simp add: apply_patches_def)

lemma apply_patches_simps [simp]:
  "apply_patches h [] = h" "apply_patches h (p # ps) = apply_patches (apply_patch h p) ps"
  by (simp_all add: apply_patches_def)

lemma apply_patches_child:
  assumes "siblings_ok q segs i kids" "list_all (inside (path_step q (segs ! i))) ps"
  shows "apply_patches (Host q kd a m kids) ps = Host q kd a m (kids[i := apply_patches (kids ! i) ps])"
  using assms
proof (induction ps arbitrary: kids)
  case (Cons p ps)
  have "i < length kids"
    using Cons.prems(1) by (simp add: siblings_ok_def)
  then show ?case
    using Cons.prems Cons.IH [of "kids[i := apply_patch (kids ! i) p]"] apply_patch_child [OF Cons.prems(1)] by simp
qed simp

section \<open>A host that shows a view\<close>

text \<open>Values that the host may hold for a value of the view: those linked to it by equality.\<close>

definition shown :: "'f f64 \<Rightarrow> 'f swift_value \<Rightarrow> 'f swift_value \<Rightarrow> bool" where
  "shown F = (swift_eq F)\<^sup>*\<^sup>*"

definition args_shown :: "'f f64 \<Rightarrow> (ustr \<times> 'f swift_value) list \<Rightarrow> (ustr \<times> 'f swift_value) list \<Rightarrow> bool" where
  "args_shown F = list_all2 (\<lambda>(k, v) (l, w). k = l \<and> shown F v w)"

primrec agrees :: "'f f64 \<Rightarrow> 'f host \<Rightarrow> ustr \<Rightarrow> 'f swift_value \<Rightarrow> bool" where
  "agrees F (Host i k a m kids) = (\<lambda>path v. i = path \<and> k = view_kind v \<and> args_shown F a (visible v) \<and>
     list_all2 (shown F) m (modifiers v) \<and>
     list_all2 (\<lambda>p (i, c). p (child_id path i c) c) (map (agrees F) kids) (enumerate 0 (children v)))"

definition kids_agree :: "'f f64 \<Rightarrow> 'f host list \<Rightarrow> ustr \<Rightarrow> 'f swift_value list \<Rightarrow> bool" where
  "kids_agree F kids path cs \<longleftrightarrow> length kids = length cs \<and>
     (\<forall>i<length cs. agrees F (kids ! i) (child_id path i (cs ! i)) (cs ! i))"

lemma agrees_Host:
  "agrees F (Host i k a m kids) path v \<longleftrightarrow> i = path \<and> k = view_kind v \<and> args_shown F a (visible v) \<and>
     list_all2 (shown F) m (modifiers v) \<and> kids_agree F kids path (children v)"
  by (auto simp: kids_agree_def list_all2_conv_all_nth nth_enumerate_eq)

declare agrees.simps [simp del]

lemma shown_refl [simp]: "shown F v v"
  by (simp add: shown_def)

lemma shown_step: "shown F u v \<Longrightarrow> swift_eq F v w \<Longrightarrow> shown F u w"
  unfolding shown_def by (rule rtranclp.rtrancl_into_rtrancl)

lemma args_shown_refl [simp]: "args_shown F a a"
  by (auto simp: args_shown_def list_all2_same)

lemma shown_mods_refl [simp]: "list_all2 (shown F) m m"
  by (simp add: list_all2_same)

lemma agrees_render: "agrees F (render path v) path v"
proof (induction "size v" arbitrary: path v rule: less_induct)
  case less
  have "agrees F (render (child_id path i (children v ! i)) (children v ! i)) (child_id path i (children v ! i)) (children v ! i)"
    if "i < length (children v)" for i
    using that by (intro less children_size nth_mem)
  then show ?case
    by (subst render.simps) (simp add: agrees_Host kids_agree_def nth_enumerate_eq)
qed

section \<open>Views the diff handles\<close>

text \<open>
  The kinds in \<open>K\<close> have only children with keys, distinct and without dots; the others have no
  child with a key. A text has its string and no other argument.
\<close>

inductive view_ok :: "(ustr \<Rightarrow> bool) \<Rightarrow> 'f swift_value \<Rightarrow> bool" for K where
  "(if K (view_kind v) then list_all (\<lambda>c. key_of c \<noteq> None) (children v) else list_all (\<lambda>c. key_of c = None) (children v))
   \<Longrightarrow> distinct (child_keys (children v)) \<Longrightarrow> list_all dotfree (child_keys (children v))
   \<Longrightarrow> (text_of v \<noteq> None \<longrightarrow> (\<exists>s. visible v = [(verbatim, VStr s)]))
   \<Longrightarrow> list_all (view_ok K) (children v) \<Longrightarrow> view_ok K v"
monos list.pred_mono_strong

lemma view_okD:
  assumes "view_ok K v"
  shows "K (view_kind v) \<Longrightarrow> list_all (\<lambda>c. key_of c \<noteq> None) (children v)"
    "\<not> K (view_kind v) \<Longrightarrow> list_all (\<lambda>c. key_of c = None) (children v)"
    "distinct (child_keys (children v))" "list_all dotfree (child_keys (children v))"
    "text_of v \<noteq> None \<Longrightarrow> \<exists>s. visible v = [(verbatim, VStr s)]"
    "c \<in> set (children v) \<Longrightarrow> view_ok K c"
  using assms by (auto elim!: view_ok.cases simp: list_all_iff split: if_splits)

lemma child_id_key: "child_id path i c = path_step path (child_key c i)"
  by (simp add: child_id_def child_key_def split: option.split)

lemma child_keys_nth: "i < length cs \<Longrightarrow> child_keys cs ! i = child_key (cs ! i) i"
  by (simp add: child_keys_def nth_enumerate_eq)

lemma length_child_keys [simp]: "length (child_keys cs) = length cs"
  by (simp add: child_keys_def)

lemma agrees_ids_ok:
  assumes "view_ok K v" "agrees F h path v"
  shows "ids_ok path h"
  using assms
proof (induction "size v" arbitrary: h path v rule: less_induct)
  case less
  obtain i k a m kids where h: "h = Host i k a m kids"
    by (cases h)
  have kids: "kids_agree F kids path (children v)" and i: "i = path"
    using less.prems(2) by (simp_all add: h agrees_Host)
  have "list_all2 (\<lambda>s k. ids_ok (path_step path s) k) (child_keys (children v)) kids"
    using kids view_okD(6) [OF less.prems(1)]
    by (auto simp: list_all2_conv_all_nth kids_agree_def child_keys_nth child_id_key
        intro!: less.hyps children_size)
  then show ?case
    unfolding h i using view_okD(3,4) [OF less.prems(1)] by (intro ids_ok.intros)
qed

section \<open>Patches of one node\<close>

lemma args_equal_shown: "args_shown F a (visible v) \<Longrightarrow> args_equal F v w \<Longrightarrow> args_shown F a (visible w)"
  unfolding args_shown_def args_equal_def by (erule list_all2_trans [rotated], assumption) (auto intro: shown_step)

lemma mods_equal_shown: "list_all2 (shown F) m (modifiers v) \<Longrightarrow> list_all2 (swift_eq F) (modifiers v) (modifiers w)
    \<Longrightarrow> list_all2 (shown F) m (modifiers w)"
  by (erule list_all2_trans [rotated], assumption) (auto intro: shown_step)


lemma mutate_here [simp]: "mutate q f (Host q kd a m kids) = f (Host q kd a m kids)"
  by (simp add: mutate_def)

lemma inside_node [simp]:
  "inside q (SetArgs q v)" "inside q (SetText q t)" "inside q (SetModifiers q ms)" "inside q (Replace q v)"
  "inside q (Insert q i v)" "inside q (Move q p i)" "inside q (Remove (path_step q s))"
  by (simp_all add: inside_def below_def)

lemma text_of_visible:
  assumes "text_of v = Some t" "view_ok K v"
  shows "visible v = [(verbatim, VStr t)]"
proof -
  obtain n fs where v: "v = VStruct (StructObj n fs)" "get_field fs verbatim = Some (VStr t)"
    using assms(1)
    by (cases v) (auto simp: text_of_def struct_get_def split: if_splits option.splits swift_value.splits,
        metis struct_obj.collapse)
  have "\<not> starts_with verbatim [sc_underscore]"
    by (simp add: verbatim_def byte_def)
  then have "(verbatim, VStr t) \<in> set (visible v)"
    using get_field_mem [OF v(2)] by (simp add: visible_def v(1))
  then show ?thesis
    using view_okD(5) [OF assms(2)] assms(1) by auto
qed

lemma set_text_shown:
  assumes "text_of v = Some s" "text_of w = Some t" "view_ok K v" "view_ok K w" "args_shown F a (visible v)"
  shows "set_field a verbatim (VStr t) = visible w"
  using assms(5) text_of_visible [OF assms(1,3)] text_of_visible [OF assms(2,4)]
  by (auto simp: args_shown_def list_all2_Cons2)

lemma diff_args_shown:
  assumes "view_ok K v" "view_ok K w" "args_shown F a (visible v)"
  shows "list_all (inside q) (diff_args F v w q)"
    "\<exists>a'. args_shown F a' (visible w) \<and> apply_patches (Host q kd a m kids) (diff_args F v w q) = Host q kd a' m kids"
proof -
  show "list_all (inside q) (diff_args F v w q)"
    by (auto simp: diff_args_def split: option.split)
  show "\<exists>a'. args_shown F a' (visible w) \<and> apply_patches (Host q kd a m kids) (diff_args F v w q) = Host q kd a' m kids"
  proof (cases "\<exists>s t. text_of v = Some s \<and> text_of w = Some t \<and> s \<noteq> t")
    case True
    then obtain s t where t: "text_of v = Some s" "text_of w = Some t" "s \<noteq> t"
      by blast
    then show ?thesis
      using set_text_shown [OF t(1,2) assms] by (simp add: diff_args_def apply_patch_def set_args_def)
  next
    case False
    then have "diff_args F v w q = (if args_equal F v w then [] else [SetArgs q w])"
      by (auto simp: diff_args_def split: option.split)
    then show ?thesis
      using assms(3) args_equal_shown [of F a v w] by (auto simp: apply_patch_def set_args_def)
  qed
qed

lemma diff_modifiers_shown:
  assumes "list_all2 (shown F) m (modifiers v)"
  shows "list_all (inside q) (diff_modifiers F v w q)"
    "\<exists>m'. list_all2 (shown F) m' (modifiers w) \<and>
       apply_patches (Host q kd a m kids) (diff_modifiers F v w q) = Host q kd a m' kids"
  using assms mods_equal_shown [of F m v w] by (auto simp: diff_modifiers_def apply_patch_def set_mods_def)

section \<open>Children by position\<close>

text \<open>Patches inside each of the first children, then removals by key.\<close>

definition ids_by :: "ustr \<Rightarrow> ustr list \<Rightarrow> 'f host list \<Rightarrow> bool" where
  "ids_by q segs kids \<longleftrightarrow> distinct segs \<and> list_all dotfree segs \<and> list_all2 (\<lambda>s k. ids_ok (path_step q s) k) segs kids"

lemma ids_by_siblings: "ids_by q segs kids \<Longrightarrow> i < length kids \<Longrightarrow> siblings_ok q segs i kids"
  by (auto simp: ids_by_def siblings_ok_def list_all2_conv_all_nth)

lemma ids_by_update:
  "ids_by q segs kids \<Longrightarrow> i < length kids \<Longrightarrow> ids_ok (path_step q (segs ! i)) k \<Longrightarrow> ids_by q segs (kids[i := k])"
  by (auto simp: ids_by_def list_all2_conv_all_nth nth_list_update)

lemma apply_parts:
  assumes "ids_by q segs kids" "length parts \<le> length kids"
    "\<And>i. i < length parts \<Longrightarrow> list_all (inside (path_step q (segs ! i))) (parts ! i) \<and>
       ids_ok (path_step q (segs ! i)) (apply_patches (kids ! i) (parts ! i))"
  shows "apply_patches (Host q kd a m kids) (concat parts) =
      Host q kd a m (map2 apply_patches (take (length parts) kids) parts @ drop (length parts) kids) \<and>
    ids_by q segs (map2 apply_patches (take (length parts) kids) parts @ drop (length parts) kids)"
  using assms(2,3)
proof (induction parts rule: rev_induct)
  case Nil
  then show ?case
    using assms(1) by simp
next
  case (snoc p parts)
  let ?n = "length parts"
  let ?done = "map2 apply_patches (take ?n kids) parts @ drop ?n kids"
  have n: "?n < length kids"
    using snoc.prems(1) by simp
  have p: "list_all (inside (path_step q (segs ! ?n))) p" "ids_ok (path_step q (segs ! ?n)) (apply_patches (kids ! ?n) p)"
    using snoc.prems(2) [of ?n] by simp_all
  have IH: "apply_patches (Host q kd a m kids) (concat parts) = Host q kd a m ?done" "ids_by q segs ?done"
  proof -
    have parts: "list_all (inside (path_step q (segs ! i))) (parts ! i) \<and>
        ids_ok (path_step q (segs ! i)) (apply_patches (kids ! i) (parts ! i))" if "i < ?n" for i
      using snoc.prems(2) [of i] that by (simp add: nth_append)
    show "apply_patches (Host q kd a m kids) (concat parts) = Host q kd a m ?done" "ids_by q segs ?done"
      using snoc.IH [OF less_imp_le [OF n] parts] by blast+
  qed
  have nth: "?done ! ?n = kids ! ?n" "?n < length ?done"
    using n by (simp_all add: nth_append)
  have step: "map2 apply_patches (take (length (parts @ [p])) kids) (parts @ [p]) @ drop (length (parts @ [p])) kids
      = ?done[?n := apply_patches (kids ! ?n) p]"
    using n by (simp add: take_Suc_conv_app_nth list_update_append Cons_nth_drop_Suc [symmetric])
  show ?case
    unfolding step
    using apply_patches_child [OF ids_by_siblings [OF IH(2) nth(2)] p(1)] IH(1) nth ids_by_update [OF IH(2) nth(2) p(2)]
    by (simp add: apply_patches_append)
qed

lemma apply_removals:
  assumes "list_all dotfree ks"
  shows "apply_patches (Host q kd a m kids) (map (\<lambda>k. Remove (path_step q k)) ks) =
    Host q kd a m (filter (\<lambda>h. h_id h \<notin> path_step q ` set ks) kids)"
  using assms
proof (induction ks arbitrary: kids)
  case (Cons k ks)
  then show ?case
    by (simp add: apply_patch_def parent_of_child set_kids_def conj_commute)
qed simp

lemma apply_appends:
  assumes "length kids = n" "n \<le> length news"
  shows "apply_patches (Host q kd a m kids) (map (\<lambda>i. Insert q i (news ! i)) [n..<length news]) =
    Host q kd a m (kids @ map (\<lambda>i. render (child_id q i (news ! i)) (news ! i)) [n..<length news])"
  using assms
proof (induction "length news - n" arbitrary: n kids)
  case (Suc d)
  then have n: "n < length news"
    by simp
  then show ?case
    using Suc(1) [of "Suc n" "kids @ [render (child_id q n (news ! n)) (news ! n)]"] Suc.hyps(2) Suc.prems(1)
    by (simp add: upt_conv_Cons apply_patch_def set_kids_def insert_at_def)
qed simp


section \<open>Children by key\<close>

lemma position_append: "(\<And>x. x \<in> set xs \<Longrightarrow> \<not> p x) \<Longrightarrow> p y \<Longrightarrow> position p (xs @ y # ys) = Some (length xs)"
  by (induction xs) auto

lemma remove_at_append: "length xs = n \<Longrightarrow> remove_at n (xs @ y # ys) = xs @ ys"
  by (auto simp: remove_at_def)

lemma insert_at_append: "length xs = n \<Longrightarrow> insert_at n y (xs @ ys) = xs @ y # ys"
  by (auto simp: insert_at_def)

text \<open>The host's children show these views, each at its key.\<close>

definition shows_keyed :: "'f f64 \<Rightarrow> ustr \<Rightarrow> (ustr \<times> 'f swift_value) list \<Rightarrow> 'f host list \<Rightarrow> bool" where
  "shows_keyed F q views kids \<longleftrightarrow> list_all2 (\<lambda>(k, c) h. agrees F h (path_step q k) c) views kids"

lemma agrees_id: "agrees F h path v \<Longrightarrow> h_id h = path"
  by (cases h) (simp add: agrees_Host)

lemma shows_keyed_ids: "shows_keyed F q views kids \<Longrightarrow> map h_id kids = map (path_step q \<circ> fst) views"
  unfolding shows_keyed_def by (induction rule: list_all2_induct) (auto dest: agrees_id)

lemma shows_keyed_ids_by:
  assumes "shows_keyed F q views kids" "distinct (map fst views)" "list_all dotfree (map fst views)"
    "\<And>c. c \<in> set (map snd views) \<Longrightarrow> view_ok K c"
  shows "ids_by q (map fst views) kids"
proof -
  have "list_all2 (\<lambda>(k, c) h. ids_ok (path_step q k) h) views kids"
    using assms(1) unfolding shows_keyed_def
    by (rule list.rel_mono_strong) (use assms(4) agrees_ids_ok in force)
  then show ?thesis
    using assms(2,3) by (simp add: ids_by_def list_all2_map1 case_prod_unfold)
qed

lemma shows_keyed_append_Cons:
  "shows_keyed F q (xs @ (k, c) # ys) kids \<Longrightarrow>
     \<exists>k1 h k2. kids = k1 @ h # k2 \<and> shows_keyed F q xs k1 \<and> agrees F h (path_step q k) c \<and> shows_keyed F q ys k2"
  unfolding shows_keyed_def list_all2_append1 list_all2_Cons1 by fastforce

lemma shows_keyed_append: "shows_keyed F q xs k1 \<Longrightarrow> shows_keyed F q ys k2 \<Longrightarrow> shows_keyed F q (xs @ ys) (k1 @ k2)"
  by (simp add: shows_keyed_def list_all2_appendI)

lemma shows_keyed_Cons [simp]: "shows_keyed F q ((k, c) # ys) (h # k2) \<longleftrightarrow> agrees F h (path_step q k) c \<and> shows_keyed F q ys k2"
  by (simp add: shows_keyed_def)

text \<open>One child of the loop: its own patches, then the move of the child to its place.\<close>

lemma child_then_move:
  assumes "shows_keyed F q (front @ mid @ (key, old) # back) kids"
    "distinct (map fst (front @ mid @ (key, old) # back))" "list_all dotfree (map fst (front @ mid @ (key, old) # back))"
    "\<And>c. c \<in> set (map snd (front @ mid @ (key, old) # back)) \<Longrightarrow> view_ok K c"
    "list_all (inside (path_step q key)) ps"
    "\<And>h. agrees F h (path_step q key) old \<Longrightarrow> agrees F (apply_patches h ps) (path_step q key) new"
  obtains k1 k2 h k3 where
    "apply_patches (Host q kd a m kids) ps = Host q kd a m (k1 @ k2 @ h # k3)"
    "apply_patch (Host q kd a m (k1 @ k2 @ h # k3)) (Move q (path_step q key) (length front)) = Host q kd a m (k1 @ h # k2 @ k3)"
    "shows_keyed F q (front @ mid @ (key, new) # back) (k1 @ k2 @ h # k3)"
    "shows_keyed F q (front @ (key, new) # mid @ back) (k1 @ h # k2 @ k3)"
proof -
  obtain k12 h k3 where kids: "kids = k12 @ h # k3" "shows_keyed F q (front @ mid) k12"
      "agrees F h (path_step q key) old" "shows_keyed F q back k3"
    using shows_keyed_append_Cons [of F q "front @ mid" key old "back" kids] assms(1) unfolding append_assoc by blast
  obtain k1 k2 where k12: "k12 = k1 @ k2" "shows_keyed F q front k1" "shows_keyed F q mid k2"
    using kids(2) by (auto simp: shows_keyed_def list_all2_append1)
  let ?h = "apply_patches h ps"
  have h: "agrees F ?h (path_step q key) new"
    using assms(6) kids(3) by blast
  have len: "length k1 = length front" "length k12 = length (front @ mid)"
    using k12 kids(2) by (simp_all add: shows_keyed_def list_all2_lengthD)
  have "siblings_ok q (map fst (front @ mid @ (key, old) # back)) (length k12) kids"
    by (rule ids_by_siblings [OF shows_keyed_ids_by [OF assms(1-4)]]) (auto simp: kids(1))
  then have patched: "apply_patches (Host q kd a m kids) ps = Host q kd a m (k1 @ k2 @ ?h # k3)"
    using apply_patches_child [of q _ "length k12" kids ps kd a m] assms(5) len
    by (simp add: kids(1) k12(1) nth_append list_update_append)
  have "h_id k \<noteq> path_step q key" if "k \<in> set k12" for k
  proof -
    have "h_id k \<in> set (map (path_step q \<circ> fst) (front @ mid))"
      using shows_keyed_ids [OF kids(2)] that by (metis list.set_map imageI)
    then show ?thesis
      using assms(2) by (auto simp: image_iff)
  qed
  then have pos: "position (\<lambda>k. h_id k = path_step q key) (k12 @ ?h # k3) = Some (length k12)"
    using agrees_id [OF h] by (intro position_append) auto
  have "min (length front) (length (k12 @ k3)) = length k1"
    using len by simp
  then have "move_kid (path_step q key) (length front) (k12 @ ?h # k3) = insert_at (length k1) ?h (k12 @ k3)"
    by (simp only: move_kid_def pos option.case Let_def nth_append_length remove_at_append [OF refl])
  also have "\<dots> = k1 @ ?h # k2 @ k3"
    by (simp add: k12(1) insert_at_append)
  finally have move: "apply_patch (Host q kd a m (k1 @ k2 @ ?h # k3)) (Move q (path_step q key) (length front)) =
      Host q kd a m (k1 @ ?h # k2 @ k3)"
    by (simp add: apply_patch_def set_kids_def k12(1))
  show ?thesis
    using that [OF patched move] k12 kids(4) h by (simp add: shows_keyed_append)
qed


text \<open>
  The loop: \<open>front\<close> is done, \<open>back\<close> are the old children that are still to come. Each item of
  an old child carries the patches between the two.
\<close>

definition loop_ready ::
  "(ustr \<Rightarrow> bool) \<Rightarrow> 'f f64 \<Rightarrow> ustr \<Rightarrow> (ustr \<times> 'f swift_value) list \<Rightarrow> (ustr \<times> 'f swift_value) list \<Rightarrow>
   (ustr \<times> 'f swift_value \<times> 'f patch list option) list \<Rightarrow> bool" where
  "loop_ready K F q front back items \<longleftrightarrow>
     distinct (map fst front @ map fst items) \<and> distinct (map fst back) \<and>
     set (map fst back) = {key. \<exists>c ps. (key, c, Some ps) \<in> set items} \<and>
     list_all dotfree (map fst (front @ back)) \<and> list_all dotfree (map fst items) \<and>
     (\<forall>c \<in> set (map snd (front @ back)) \<union> fst ` snd ` set items. view_ok K c) \<and>
     (\<forall>(key, c, found) \<in> set items. key_of c = Some key) \<and>
     (\<forall>key c ps old. (key, c, Some ps) \<in> set items \<longrightarrow> (key, old) \<in> set back \<longrightarrow>
        list_all (inside (path_step q key)) ps \<and>
        (\<forall>h. agrees F h (path_step q key) old \<longrightarrow> agrees F (apply_patches h ps) (path_step q key) c))"

lemma loop_readyD:
  assumes "loop_ready K F q front back items"
  shows "distinct (map fst front)" "distinct (map fst items)" "distinct (map fst back)"
    "set (map fst front) \<inter> set (map fst items) = {}"
    "set (map fst back) = {key. \<exists>c ps. (key, c, Some ps) \<in> set items}"
    "list_all dotfree (map fst front)" "list_all dotfree (map fst back)" "list_all dotfree (map fst items)"
    "c \<in> set (map snd front) \<Longrightarrow> view_ok K c" "c \<in> set (map snd back) \<Longrightarrow> view_ok K c"
    "(key, c, found) \<in> set items \<Longrightarrow> view_ok K c" "(key, c, found) \<in> set items \<Longrightarrow> key_of c = Some key"
    "(key, c, Some ps) \<in> set items \<Longrightarrow> (key, old) \<in> set back \<Longrightarrow> list_all (inside (path_step q key)) ps"
    "(key, c, Some ps) \<in> set items \<Longrightarrow> (key, old) \<in> set back \<Longrightarrow> agrees F h (path_step q key) old \<Longrightarrow>
       agrees F (apply_patches h ps) (path_step q key) c"
proof -
  note facts = assms [unfolded loop_ready_def]
  show "distinct (map fst front)" "distinct (map fst items)" "distinct (map fst back)"
    "set (map fst front) \<inter> set (map fst items) = {}"
    "set (map fst back) = {key. \<exists>c ps. (key, c, Some ps) \<in> set items}"
    "list_all dotfree (map fst front)" "list_all dotfree (map fst back)" "list_all dotfree (map fst items)"
    using facts by (simp_all only: distinct_append map_append list_all_append)
  show "c \<in> set (map snd front) \<Longrightarrow> view_ok K c" "c \<in> set (map snd back) \<Longrightarrow> view_ok K c"
    using facts by auto
  show "(key, c, found) \<in> set items \<Longrightarrow> view_ok K c"
    using facts by (metis UnCI fst_conv image_eqI snd_conv)
  show "(key, c, found) \<in> set items \<Longrightarrow> key_of c = Some key"
    using facts by blast
  show "(key, c, Some ps) \<in> set items \<Longrightarrow> (key, old) \<in> set back \<Longrightarrow> list_all (inside (path_step q key)) ps"
    "(key, c, Some ps) \<in> set items \<Longrightarrow> (key, old) \<in> set back \<Longrightarrow> agrees F h (path_step q key) old \<Longrightarrow>
       agrees F (apply_patches h ps) (path_step q key) c"
    using facts by blast+
qed

lemma loop_ready_next:
  assumes ready: "loop_ready K F q front back ((key, c, found) # items)"
    and sub: "set back' \<subseteq> set back" "distinct (map fst back')"
    and keys: "set (map fst back') = {key. \<exists>c ps. (key, c, Some ps) \<in> set items}"
  shows "loop_ready K F q (front @ [(key, c)]) back' items"
proof -
  note facts = loop_readyD [OF ready]
  have c: "view_ok K c" "dotfree key" "key \<notin> set (map fst items)" "key \<notin> set (map fst front)"
    using facts(2,4,8,11) by auto
  have items: "set items \<subseteq> set ((key, c, found) # items)"
    by auto
  show ?thesis
    unfolding loop_ready_def
  proof (intro conjI allI impI ballI)
    show "distinct (map fst (front @ [(key, c)]) @ map fst items)"
      using facts(1,2,4) by auto
    show "list_all dotfree (map fst ((front @ [(key, c)]) @ back'))"
      using facts(6,7) c(2) sub(1) by (auto simp: list_all_iff)
    show "list_all dotfree (map fst items)"
      using facts(8) by simp
    show "view_ok K d" if "d \<in> set (map snd ((front @ [(key, c)]) @ back')) \<union> fst ` snd ` set items" for d
    proof -
      have "snd ` set back' \<subseteq> snd ` set back"
        using sub(1) by (rule image_mono)
      moreover have "d \<in> snd ` set front \<or> d = c \<or> d \<in> snd ` set back' \<or> d \<in> fst ` snd ` set items"
        using that by simp blast
      ultimately consider "d \<in> set (map snd front)" | "d = c" | "d \<in> set (map snd back)" | "d \<in> fst ` snd ` set items"
        unfolding set_map by blast
      then show ?thesis
      proof cases
        case 4
        then obtain k f where "(k, d, f) \<in> set items"
          by force
        then show ?thesis
          using facts(11) [of k d f] by simp
      qed (use facts(9,10) c(1) in blast)+
    qed
    show "case x of (key, c, found) \<Rightarrow> key_of c = Some key" if "x \<in> set items" for x
      using that facts(12) by (cases x) auto
  next
    fix k d ps old assume k: "(k, d, Some ps) \<in> set items" "(k, old) \<in> set back'"
    then have k': "(k, d, Some ps) \<in> set ((key, c, found) # items)" "(k, old) \<in> set back"
      using sub(1) by auto
    show "list_all (inside (path_step q k)) ps"
      using facts(13) [OF k'] .
    show "agrees F (apply_patches h ps) (path_step q k) d" if "agrees F h (path_step q k) old" for h
      using facts(14) [OF k' that] .
  qed (fact sub keys)+
qed

lemma loop_ready_insert:
  assumes ready: "loop_ready K F q front back ((key, c, None) # items)"
  shows "loop_ready K F q (front @ [(key, c)]) back items" "key_of c = Some key"
proof -
  have "set (map fst back) = {key. \<exists>c ps. (key, c, Some ps) \<in> set items}"
    using loop_readyD(5) [OF ready] by simp
  then show "loop_ready K F q (front @ [(key, c)]) back items"
    using loop_readyD(3) [OF ready] by (intro loop_ready_next [OF ready]) simp_all
  show "key_of c = Some key"
    by (rule loop_readyD(12) [OF ready, of _ _ None]) simp
qed

lemma loop_ready_match:
  assumes ready: "loop_ready K F q front back ((key, c, Some ps) # items)"
  obtains mid old rest where "back = mid @ (key, old) # rest"
    "loop_ready K F q (front @ [(key, c)]) (mid @ rest) items"
    "distinct (map fst (front @ mid @ (key, old) # rest))" "list_all dotfree (map fst (front @ mid @ (key, old) # rest))"
    "\<And>c. c \<in> set (map snd (front @ mid @ (key, old) # rest)) \<Longrightarrow> view_ok K c"
    "list_all (inside (path_step q key)) ps"
    "\<And>h. agrees F h (path_step q key) old \<Longrightarrow> agrees F (apply_patches h ps) (path_step q key) c"
proof -
  note facts = loop_readyD [OF ready]
  have "key \<in> set (map fst back)"
    unfolding facts(5) by auto
  then obtain mid old rest where bk: "back = mid @ (key, old) # rest"
    by (auto simp: in_set_conv_decomp)
  have "set (map fst back) \<subseteq> set (map fst ((key, c, Some ps) # items))"
    unfolding facts(5) by force
  then have "set (map fst front) \<inter> set (map fst back) = {}"
    using facts(4) by blast
  then have distinct: "distinct (map fst (front @ mid @ (key, old) # rest))"
    using facts(1,3) by (auto simp: bk)
  have "key \<notin> set (map fst items)"
    using facts(2) by simp
  then have "{key. \<exists>c ps. (key, c, Some ps) \<in> set items} = set (map fst back) - {key}"
    unfolding facts(5) by force
  also have "\<dots> = set (map fst (mid @ rest))"
    using distinct by (auto simp: bk)
  finally have ready': "loop_ready K F q (front @ [(key, c)]) (mid @ rest) items"
    using facts(3) by (intro loop_ready_next [OF ready]) (auto simp: bk)
  show ?thesis
  proof (rule that [OF bk ready' distinct])
    show "list_all dotfree (map fst (front @ mid @ (key, old) # rest))"
      using facts(6,7) by (simp add: bk)
    show "view_ok K d" if "d \<in> set (map snd (front @ mid @ (key, old) # rest))" for d
      using that facts(9,10) [of d] by (auto simp: bk)
    show "list_all (inside (path_step q key)) ps"
      by (rule facts(13)) (auto simp: bk)
    show "agrees F (apply_patches h ps) (path_step q key) c" if "agrees F h (path_step q key) old" for h
      using that by (rule facts(14) [rotated 2]) (auto simp: bk)
  qed
qed


text \<open>A step of the loop: its patches, and what it leaves to the rest of the loop.\<close>

definition loop_step ::
  "(ustr \<Rightarrow> bool) \<Rightarrow> 'f f64 \<Rightarrow> 'f host \<Rightarrow> (ustr \<times> 'f swift_value) list \<Rightarrow> (ustr \<times> 'f swift_value) list \<Rightarrow>
   (ustr \<times> 'f swift_value \<times> 'f patch list option) \<Rightarrow> (ustr \<times> 'f swift_value \<times> 'f patch list option) list \<Rightarrow>
   'f patch list \<Rightarrow> (ustr \<times> 'f swift_value) list \<Rightarrow> 'f host list \<Rightarrow> bool" where
  "loop_step K F h front back item items qs back' kids' \<longleftrightarrow>
     (let q = h_id h; front' = front @ [(fst item, fst (snd item))] in
      keyed_loop q (map fst (front @ back)) (length front) (item # items) =
        map_option ((@) qs) (keyed_loop q (map fst (front' @ back')) (length front') items) \<and>
      list_all (inside q) qs \<and> apply_patches h qs = set_kids (\<lambda>_. kids') h \<and>
      shows_keyed F q (front' @ back') kids' \<and> loop_ready K F q front' back' items)"

lemma insert_step:
  assumes shown: "shows_keyed F q (front @ back) kids" and ready: "loop_ready K F q front back ((key, c, None) # items)"
  shows "\<exists>qs back' kids'. loop_step K F (Host q kd a m kids) front back (key, c, None) items qs back' kids'"
proof -
  obtain k1 k2 where kids: "kids = k1 @ k2" "shows_keyed F q front k1" "shows_keyed F q back k2"
    using shown by (auto simp: shows_keyed_def list_all2_append1)
  have len: "length k1 = length front"
    using kids(2) by (simp add: shows_keyed_def list_all2_lengthD)
  have "child_id q (length front) c = path_step q key"
    using loop_ready_insert(2) [OF ready] by (simp add: child_id_def)
  then have "loop_step K F (Host q kd a m kids) front back (key, c, None) items [Insert q (length front) c] back
      (k1 @ render (path_step q key) c # k2)"
    using insert_at_append [OF len] len loop_ready_insert(1) [OF ready] shows_keyed_append [OF kids(2)] kids(3)
    by (simp add: loop_step_def Let_def apply_patch_def set_kids_def kids(1) agrees_render insert_at_append
        fun_eq_iff cong: option.map_cong)
  then show ?thesis
    by blast
qed

lemma match_step:
  assumes shown: "shows_keyed F q (front @ back) kids" and ready: "loop_ready K F q front back ((key, c, Some ps) # items)"
  shows "\<exists>qs back' kids'. loop_step K F (Host q kd a m kids) front back (key, c, Some ps) items qs back' kids'"
proof -
  from loop_ready_match [OF ready] obtain mid old rest where
    match: "back = mid @ (key, old) # rest" "loop_ready K F q (front @ [(key, c)]) (mid @ rest) items"
      "distinct (map fst (front @ mid @ (key, old) # rest))" "list_all dotfree (map fst (front @ mid @ (key, old) # rest))"
      "\<And>c. c \<in> set (map snd (front @ mid @ (key, old) # rest)) \<Longrightarrow> view_ok K c"
      "list_all (inside (path_step q key)) ps"
      "\<And>h. agrees F h (path_step q key) old \<Longrightarrow> agrees F (apply_patches h ps) (path_step q key) c"
    by metis
  from child_then_move [OF shown [unfolded match(1)] match(3-7), of kd a m] obtain k1 k2 h k3 where
    moved: "apply_patches (Host q kd a m kids) ps = Host q kd a m (k1 @ k2 @ h # k3)"
      "apply_patch (Host q kd a m (k1 @ k2 @ h # k3)) (Move q (path_step q key) (length front)) = Host q kd a m (k1 @ h # k2 @ k3)"
      "shows_keyed F q (front @ mid @ (key, c) # rest) (k1 @ k2 @ h # k3)"
      "shows_keyed F q (front @ (key, c) # mid @ rest) (k1 @ h # k2 @ k3)"
    by metis
  define qs where "qs = ps @ (if mid = [] then [] else [Move q (path_step q key) (length front)])"
  define kids' where "kids' = k1 @ (if mid = [] then k2 @ h # k3 else h # k2 @ k3)"
  have "position (\<lambda>k. k = key) (map fst (front @ mid) @ key # map fst rest) = Some (length (map fst (front @ mid)))"
    using match(3) by (intro position_append) auto
  then have "keyed_loop q (map fst (front @ back)) (length front) ((key, c, Some ps) # items) =
      map_option ((@) qs) (keyed_loop q (map fst ((front @ [(key, c)]) @ mid @ rest)) (Suc (length front)) items)"
    using remove_at_append [OF refl, of "map fst (front @ mid)" key "map fst rest"]
      insert_at_append [of "map fst front" "length front" key "map fst mid @ map fst rest"]
    by (auto simp: match(1) Let_def qs_def cong: option.map_cong)
  moreover have "shows_keyed F q ((front @ [(key, c)]) @ mid @ rest) kids'"
    using moved(3,4) by (cases "mid = []") (simp_all add: kids'_def)
  moreover have "apply_patches (Host q kd a m kids) qs = Host q kd a m kids'"
    using moved(1,2) by (simp add: apply_patches_append qs_def kids'_def)
  moreover have "list_all (inside q) qs"
    using match(6) by (auto simp: qs_def list_all_iff intro: inside_trans [OF under_step])
  ultimately have "loop_step K F (Host q kd a m kids) front back (key, c, Some ps) items qs (mid @ rest) kids'"
    using match(2) by (simp add: loop_step_def Let_def set_kids_def)
  then show ?thesis
    by blast
qed

lemma keyed_loop_shown:
  assumes "shows_keyed F q (front @ back) kids" "loop_ready K F q front back items"
  shows "\<exists>ps kids'. keyed_loop q (map fst (front @ back)) (length front) items = Some ps \<and> list_all (inside q) ps \<and>
    apply_patches (Host q kd a m kids) ps = Host q kd a m kids' \<and>
    shows_keyed F q (front @ map (\<lambda>(key, c, _). (key, c)) items) kids'"
  using assms
proof (induction items arbitrary: front "back" kids)
  case Nil
  then have "back = []"
    by (simp add: loop_ready_def)
  then show ?case
    using Nil.prems(1) by simp
next
  case (Cons item items)
  obtain key c found where item: "item = (key, c, found)"
    by (cases item)
  have "\<exists>qs back' kids'. loop_step K F (Host q kd a m kids) front back item items qs back' kids'"
    using insert_step [OF Cons.prems(1)] match_step [OF Cons.prems(1)] Cons.prems(2)
    by (cases found) (simp_all add: item)
  then obtain qs back' kids' where "loop_step K F (Host q kd a m kids) front back item items qs back' kids'"
    by blast
  note step = this [unfolded loop_step_def Let_def host.sel]
  show ?case
    using step Cons.IH [of "front @ [(fst item, fst (snd item))]" back' kids']
    by (auto simp: item apply_patches_append set_kids_def simp del: keyed_loop.simps)
qed


section \<open>The patches of a node\<close>

lemma those_map: "(\<And>x. x \<in> set xs \<Longrightarrow> f x \<noteq> None) \<Longrightarrow> those (map f xs) = Some (map (the \<circ> f) xs)"
  by (induction xs) (auto split: option.split)

text \<open>What a diff of two views owes: patches inside the node that lead the host from one to the other.\<close>

definition diff_ok :: "'f f64 \<Rightarrow> 'f swift_value \<Rightarrow> 'f swift_value \<Rightarrow> ustr \<Rightarrow> bool" where
  "diff_ok F old new q \<longleftrightarrow> (\<exists>ps. diff_node F old new q = Some ps \<and> list_all (inside q) ps \<and>
     (\<forall>h. agrees F h q old \<longrightarrow> agrees F (apply_patches h ps) q new))"

lemma diff_okI:
  assumes "\<And>h. agrees F h q old \<Longrightarrow> \<exists>ps. diff_node F old new q = Some ps \<and> list_all (inside q) ps \<and>
      agrees F (apply_patches h ps) q new"
  shows "diff_ok F old new q"
  using assms [OF agrees_render] assms by (force simp: diff_ok_def)

lemma diff_okD:
  assumes "diff_ok F old new q"
  shows "diff_node F old new q = Some (the (diff_node F old new q))" "list_all (inside q) (the (diff_node F old new q))"
    "agrees F h q old \<Longrightarrow> agrees F (apply_patches h (the (diff_node F old new q))) q new"
  using assms by (auto simp: diff_ok_def)

abbreviation keyed_views :: "'f swift_value list \<Rightarrow> (ustr \<times> 'f swift_value) list" where
  "keyed_views cs \<equiv> zip (child_keys cs) cs"

lemma kids_agree_shows: "kids_agree F kids q cs \<longleftrightarrow> shows_keyed F q (keyed_views cs) kids"
  by (auto simp: kids_agree_def shows_keyed_def list_all2_conv_all_nth child_keys_nth child_id_key)

lemma kids_agree_ids_by: "kids_agree F kids q (children v) \<Longrightarrow> view_ok K v \<Longrightarrow> ids_by q (child_keys (children v)) kids"
  using shows_keyed_ids_by [of F q "keyed_views (children v)" kids K] view_okD(3,4,6) [of K v]
  by (simp add: kids_agree_shows)

lemma shows_keyed_filter:
  assumes "shows_keyed F q views kids" "\<And>k c. (k, c) \<in> set views \<Longrightarrow> P (k, c) \<longleftrightarrow> Q (path_step q k)"
  shows "shows_keyed F q (filter P views) (filter (\<lambda>h. Q (h_id h)) kids)"
  using assms unfolding shows_keyed_def by (induction rule: list_all2_induct) (auto dest!: agrees_id)

lemma map_fst_filter_zip: "length xs = length ys \<Longrightarrow> map fst (filter (\<lambda>(k, c). P k) (zip xs ys)) = filter P xs"
  by (induction xs ys rule: list_induct2) auto

lemma old_by_key_Some:
  "distinct (child_keys olds) \<Longrightarrow> old_by_key olds k = Some c \<longleftrightarrow> (k, c) \<in> set (keyed_views olds)"
  unfolding old_by_key_def by (subst map_of_eq_Some_iff) (simp_all flip: rev_map)

lemma old_by_key_None: "old_by_key olds k = None \<longleftrightarrow> k \<notin> set (child_keys olds)"
  by (simp add: old_by_key_def map_of_eq_None_iff flip: set_map)

text \<open>The items of the keyed loop.\<close>

definition keyed_items ::
  "'f f64 \<Rightarrow> 'f swift_value list \<Rightarrow> 'f swift_value list \<Rightarrow> ustr \<Rightarrow> (ustr \<times> 'f swift_value \<times> 'f patch list option) list" where
  "keyed_items F olds news q =
     map (\<lambda>(k, c). (k, c, map_option (\<lambda>v. the (diff_node F v c (path_step q k))) (old_by_key olds k))) (keyed_views news)"

lemma keyed_items_simps [simp]:
  "map fst (keyed_items F olds news q) = child_keys news"
  "map (\<lambda>(k, c, _). (k, c)) (keyed_items F olds news q) = keyed_views news"
  by (simp_all add: keyed_items_def case_prod_unfold comp_def)

lemma keyed_items_mem:
  "(k, c, found) \<in> set (keyed_items F olds news q) \<longleftrightarrow>
     (k, c) \<in> set (keyed_views news) \<and> map_option (\<lambda>v. the (diff_node F v c (path_step q k))) (old_by_key olds k) = found"
  by (auto simp: keyed_items_def)

lemma old_by_key_mem: "old_by_key olds k = Some v \<Longrightarrow> v \<in> set olds"
  unfolding old_by_key_def by (drule map_of_SomeD) (auto dest: set_zip_rightD)

lemma keyed_views_mem: "(k, c) \<in> set (keyed_views cs) \<Longrightarrow> k \<in> set (child_keys cs) \<and> c \<in> set cs"
  by (auto dest: set_zip_leftD set_zip_rightD)

lemma keyed_patches_items:
  assumes "\<And>v c p. v \<in> set olds \<Longrightarrow> c \<in> set news \<Longrightarrow> diff_ok F v c p"
  shows "keyed_patches olds news q (those (map (\<lambda>(key, c). case old_by_key olds key of
        Some v \<Rightarrow> map_option Some (diff_node F v c (path_step q key)) | None \<Rightarrow> Some None) (keyed_views news))) =
    map_option (\<lambda>ps. keyed_removals olds (child_keys news) q @ ps)
      (keyed_loop q (filter (\<lambda>k. k \<in> set (child_keys news)) (child_keys olds)) 0 (keyed_items F olds news q))"
proof -
  let ?f = "\<lambda>(key, c). case old_by_key olds key of
      Some v \<Rightarrow> map_option Some (diff_node F v c (path_step q key)) | None \<Rightarrow> Some None"
  let ?g = "\<lambda>(k, c). map_option (\<lambda>v. the (diff_node F v c (path_step q k))) (old_by_key olds k)"
  have f: "?f x = Some (?g x)" if x: "x \<in> set (keyed_views news)" for x
  proof -
    obtain k c where kc: "x = (k, c)" "c \<in> set news"
      using x keyed_views_mem [of "fst x" "snd x" news] by (metis prod.collapse)
    show ?thesis
    proof (cases "old_by_key olds k")
      case (Some v)
      then obtain ps where "diff_node F v c (path_step q k) = Some ps"
        using assms [OF old_by_key_mem kc(2)] unfolding diff_ok_def by blast
      then show ?thesis
        by (simp add: kc(1) Some)
    qed (simp add: kc(1))
  qed
  have "map (the \<circ> ?f) (keyed_views news) = map ?g (keyed_views news)"
    by (rule map_cong [OF refl]) (simp add: f)
  then have "those (map ?f (keyed_views news)) = Some (map ?g (keyed_views news))"
    using those_map [of "keyed_views news" ?f] f by simp
  moreover have "zip (child_keys news) (zip news (map ?g (keyed_views news))) = keyed_items F olds news q"
    by (auto simp: keyed_items_def list_eq_iff_nth_eq)
  ultimately show ?thesis
    by (simp add: keyed_patches_def)
qed


lemma keyed_loop_ready:
  assumes "view_ok K old" "view_ok K new" "list_all (\<lambda>c. key_of c \<noteq> None) (children new)"
    "\<And>v c p. v \<in> set (children old) \<Longrightarrow> c \<in> set (children new) \<Longrightarrow> diff_ok F v c p"
  shows "loop_ready K F q [] (filter (\<lambda>(k, c). k \<in> set (child_keys (children new))) (keyed_views (children old)))
    (keyed_items F (children old) (children new) q)"
proof -
  let ?olds = "children old" and ?news = "children new"
  let ?stay = "filter (\<lambda>(k, c). k \<in> set (child_keys ?news)) (keyed_views ?olds)"
  note okD = view_okD [OF assms(1)] view_okD [OF assms(2)]
  have keys: "map fst ?stay = filter (\<lambda>k. k \<in> set (child_keys ?news)) (child_keys ?olds)"
    by (rule map_fst_filter_zip) simp
  have key: "key_of c = Some k" if kc: "(k, c) \<in> set (keyed_views ?news)" for k c
  proof -
    obtain i where "i < length ?news" "k = child_key c i" "c = ?news ! i"
      using kc by (auto simp: set_zip child_keys_nth)
    then show ?thesis
      using assms(3) by (auto simp: child_key_def list_all_length split: option.split)
  qed
  have "set (map fst ?stay) = {key. \<exists>c ps. (key, c, Some ps) \<in> set (keyed_items F ?olds ?news q)}"
  proof -
    have "k \<in> set (child_keys ?news) \<longleftrightarrow> (\<exists>c. (k, c) \<in> set (keyed_views ?news))" for k
      by (metis in_set_impl_in_set_zip1 keyed_views_mem length_child_keys)
    moreover have "k \<in> set (child_keys ?olds) \<longleftrightarrow> (\<exists>v. old_by_key ?olds k = Some v)" for k
      using old_by_key_None [of ?olds k] by auto
    ultimately show ?thesis
      unfolding keys by (auto simp: keyed_items_mem)
  qed
  moreover have "list_all (inside (path_step q k)) ps \<and>
      (\<forall>h. agrees F h (path_step q k) v \<longrightarrow> agrees F (apply_patches h ps) (path_step q k) c)"
    if "(k, c, Some ps) \<in> set (keyed_items F ?olds ?news q)" "(k, v) \<in> set ?stay" for k c ps v
  proof -
    have "old_by_key ?olds k = Some v"
      using that(2) old_by_key_Some [OF okD(3)] by simp
    then have "the (diff_node F v c (path_step q k)) = ps" "(k, c) \<in> set (keyed_views ?news)"
      using that(1) by (simp_all add: keyed_items_mem)
    then show ?thesis
      using that(2) diff_okD(2,3) [OF assms(4)] keyed_views_mem by fastforce
  qed
  moreover have "view_ok K d" if "d \<in> set (map snd ([] @ ?stay)) \<union> fst ` snd ` set (keyed_items F ?olds ?news q)" for d
  proof -
    have "d \<in> set ?olds \<union> set ?news"
      using that by (auto simp: keyed_items_mem dest: keyed_views_mem)
    then show ?thesis
      using okD(6,12) by blast
  qed
  moreover have "list_all dotfree (map fst ([] @ ?stay))"
    unfolding append_Nil keys using okD(4) by (auto simp: list_all_iff)
  moreover have "distinct (map fst ?stay)"
    unfolding keys using okD(3) by simp
  moreover have "distinct (map fst [] @ map fst (keyed_items F ?olds ?news q))"
    "list_all dotfree (map fst (keyed_items F ?olds ?news q))"
    using okD(9,10) by simp_all
  moreover have "\<forall>(k, c, found) \<in> set (keyed_items F ?olds ?news q). key_of c = Some k"
    using key by (auto simp: keyed_items_mem)
  ultimately show ?thesis
    unfolding loop_ready_def by (intro conjI allI ballI impI; (assumption | blast))
qed


lemma filter_removed:
  assumes "shows_keyed F q (keyed_views olds) kids"
  shows "shows_keyed F q (filter (\<lambda>(k, c). k \<in> set ks) (keyed_views olds))
    (filter (\<lambda>h. h_id h \<notin> path_step q ` set (filter (\<lambda>k. k \<notin> set ks) (child_keys olds))) kids)"
  using assms by (rule shows_keyed_filter) (auto dest: keyed_views_mem)

lemma keyed_shown:
  assumes ok: "view_ok K old" "view_ok K new" "list_all (\<lambda>c. key_of c \<noteq> None) (children new)"
    "\<And>v c p. v \<in> set (children old) \<Longrightarrow> c \<in> set (children new) \<Longrightarrow> diff_ok F v c p"
    and kids: "kids_agree F kids q (children old)"
  shows "\<exists>ps kids'. keyed_patches (children old) (children new) q (those (map (\<lambda>(key, c). case old_by_key (children old) key of
        Some v \<Rightarrow> map_option Some (diff_node F v c (path_step q key)) | None \<Rightarrow> Some None) (keyed_views (children new)))) = Some ps \<and>
    list_all (inside q) ps \<and> apply_patches (Host q kd a m kids) ps = Host q kd a m kids' \<and>
    kids_agree F kids' q (children new)"
proof -
  let ?olds = "children old" and ?news = "children new"
  let ?stay = "filter (\<lambda>(k, c). k \<in> set (child_keys ?news)) (keyed_views ?olds)"
  let ?gone = "filter (\<lambda>k. k \<notin> set (child_keys ?news)) (child_keys ?olds)"
  let ?left = "filter (\<lambda>h. h_id h \<notin> path_step q ` set ?gone) kids"
  have left: "shows_keyed F q ([] @ ?stay) ?left"
    using filter_removed kids by (simp add: kids_agree_shows)
  have keys: "map fst ?stay = filter (\<lambda>k. k \<in> set (child_keys ?news)) (child_keys ?olds)"
    by (rule map_fst_filter_zip) simp
  have "list_all dotfree ?gone"
    using view_okD(4) [OF ok(1)] by (auto simp: list_all_iff)
  then have removed: "apply_patches (Host q kd a m kids) (keyed_removals ?olds (child_keys ?news) q) = Host q kd a m ?left"
    unfolding keyed_removals_def by (rule apply_removals)
  obtain ps kids' where
    "keyed_loop q (map fst ?stay) 0 (keyed_items F ?olds ?news q) = Some ps" "list_all (inside q) ps"
    "apply_patches (Host q kd a m ?left) ps = Host q kd a m kids'" "shows_keyed F q (keyed_views ?news) kids'"
    using keyed_loop_shown [OF left keyed_loop_ready [OF ok], of kd a m] by auto
  then show ?thesis
    using removed keyed_patches_items [of ?olds ?news F q, OF ok(4)] unfolding keys
    by (simp add: apply_patches_append kids_agree_shows)
      (auto simp: keyed_removals_def list_all_iff)
qed

text \<open>Children by position.\<close>

lemma unkeyed_keys: "list_all (\<lambda>c. key_of c = None) cs \<Longrightarrow> i < length cs \<Longrightarrow> child_keys cs ! i = dec_digits i"
  by (simp add: child_keys_nth child_key_def list_all_length)

definition positional_parts ::
  "'f f64 \<Rightarrow> 'f swift_value list \<Rightarrow> 'f swift_value list \<Rightarrow> ustr \<Rightarrow> 'f patch list list" where
  "positional_parts F olds news q =
     map (\<lambda>i. the (diff_node F (olds ! i) (news ! i) (path_step q (dec_digits i)))) [0..<min (length olds) (length news)]"

lemma positional_those:
  assumes "\<And>v c p. v \<in> set olds \<Longrightarrow> c \<in> set news \<Longrightarrow> diff_ok F v c p"
  shows "those (map (\<lambda>(i, v, c). diff_node F v c (path_step q (dec_digits i))) (enumerate 0 (zip olds news))) =
    Some (positional_parts F olds news q)"
proof -
  let ?f = "\<lambda>(i, v, c). diff_node F v c (path_step q (dec_digits i))"
  have "?f x \<noteq> None" if "x \<in> set (enumerate 0 (zip olds news))" for x
  proof -
    obtain i v c where x: "x = (i, v, c)"
      by (cases x)
    then have "v \<in> set olds" "c \<in> set news"
      using that by (auto simp: in_set_enumerate_eq)
    then show ?thesis
      using assms by (simp add: x diff_ok_def) blast
  qed
  then have "those (map ?f (enumerate 0 (zip olds news))) = Some (map (the \<circ> ?f) (enumerate 0 (zip olds news)))"
    by (rule those_map)
  moreover have "map (the \<circ> ?f) (enumerate 0 (zip olds news)) = positional_parts F olds news q"
    by (simp add: positional_parts_def list_eq_iff_nth_eq nth_enumerate_eq)
  ultimately show ?thesis
    by simp
qed

lemma filter_prefix: "(\<And>x. x \<in> set xs \<Longrightarrow> P x) \<Longrightarrow> (\<And>y. y \<in> set ys \<Longrightarrow> \<not> P y) \<Longrightarrow> filter P (xs @ ys) = xs"
  by simp

lemma positional_tail_shown:
  assumes "list_all (\<lambda>c. key_of c = None) news" "length kids = length olds"
    "\<And>i. i < min (length olds) (length news) \<Longrightarrow> agrees F (kids ! i) (path_step q (dec_digits i)) (news ! i)"
    "\<And>i. i < length olds \<Longrightarrow> h_id (kids ! i) = path_step q (dec_digits i)"
  shows "\<exists>kids'. apply_patches (Host q kd a m kids) (positional_tail olds news q) = Host q kd a m kids' \<and>
    kids_agree F kids' q news"
proof (cases "length olds \<le> length news")
  case True
  have "child_id q i (news ! i) = path_step q (dec_digits i)" if "i < length news" for i
    using assms(1) that by (simp add: child_id_def list_all_length)
  then have "kids_agree F (kids @ map (\<lambda>i. render (child_id q i (news ! i)) (news ! i)) [length olds..<length news]) q news"
    using assms(2,3) True by (auto simp: kids_agree_def nth_append agrees_render)
  moreover have "positional_tail olds news q = map (\<lambda>i. Insert q i (news ! i)) [length olds..<length news]"
    using True by (simp add: positional_tail_def)
  ultimately show ?thesis
    using apply_appends [OF assms(2) True] by metis
next
  case False
  let ?n = "length news"
  let ?gone = "map dec_digits (rev [?n..<length olds])"
  have tail: "positional_tail olds news q = map (\<lambda>k. Remove (path_step q k)) ?gone"
    using False by (simp add: positional_tail_def comp_def)
  have "filter (\<lambda>h. h_id h \<notin> path_step q ` set ?gone) (take ?n kids @ drop ?n kids) = take ?n kids"
  proof (rule filter_prefix)
    fix h assume "h \<in> set (take ?n kids)"
    then obtain i where "i < ?n" "h = kids ! i"
      using False assms(2) by (auto simp: in_set_conv_nth)
    then show "h_id h \<notin> path_step q ` set ?gone"
      using assms(4) False by auto
  next
    fix h assume "h \<in> set (drop ?n kids)"
    then obtain i where "?n \<le> i" "i < length olds" "h = kids ! i"
      using assms(2) by (auto simp: in_set_conv_nth) (metis le_add1 less_diff_conv2 add.commute not_less_iff_gr_or_eq less_diff_conv)
    then show "\<not> h_id h \<notin> path_step q ` set ?gone"
      using assms(4) by auto
  qed
  then have "apply_patches (Host q kd a m kids) (positional_tail olds news q) = Host q kd a m (take ?n kids)"
    unfolding tail by (subst apply_removals) (simp_all add: list_all_iff)
  moreover have "kids_agree F (take ?n kids) q news"
    using assms False by (simp add: kids_agree_def child_id_def list_all_length)
  ultimately show ?thesis
    by blast
qed


lemma positional_shown:
  assumes ok: "view_ok K old" "view_ok K new" "list_all (\<lambda>c. key_of c = None) (children old)"
    "list_all (\<lambda>c. key_of c = None) (children new)"
    "\<And>v c p. v \<in> set (children old) \<Longrightarrow> c \<in> set (children new) \<Longrightarrow> diff_ok F v c p"
    and kids: "kids_agree F kids q (children old)"
  shows "\<exists>kids'. apply_patches (Host q kd a m kids)
      (concat (positional_parts F (children old) (children new) q) @ positional_tail (children old) (children new) q) =
        Host q kd a m kids' \<and> kids_agree F kids' q (children new)"
proof -
  let ?olds = "children old" and ?news = "children new"
  let ?parts = "positional_parts F ?olds ?news q"
  let ?kids = "map2 apply_patches (take (length ?parts) kids) ?parts @ drop (length ?parts) kids"
  have len: "length kids = length ?olds" "length ?parts = min (length ?olds) (length ?news)"
    using kids by (simp_all add: kids_agree_def positional_parts_def)
  have key: "child_keys ?olds ! i = dec_digits i" if "i < length ?olds" for i
    using ok(3) that by (rule unkeyed_keys)
  have part: "list_all (inside (path_step q (dec_digits i))) (?parts ! i) \<and>
      agrees F (apply_patches (kids ! i) (?parts ! i)) (path_step q (dec_digits i)) (?news ! i)" if i: "i < length ?parts" for i
  proof -
    have "agrees F (kids ! i) (path_step q (dec_digits i)) (?olds ! i)"
      using kids i ok(3) len(2) by (simp add: kids_agree_def child_id_def list_all_length)
    then show ?thesis
      using diff_okD(2,3) [OF ok(5)] i len(2) by (simp add: positional_parts_def)
  qed
  have "ids_ok (path_step q (child_keys ?olds ! i)) (apply_patches (kids ! i) (?parts ! i))" if i: "i < length ?parts" for i
  proof -
    have "view_ok K (?news ! i)"
      using i len(2) by (intro view_okD(6) [OF ok(2)]) simp
    then show ?thesis
      using agrees_ids_ok part [OF i] key [of i] i len(2) by fastforce
  qed
  then have inner: "apply_patches (Host q kd a m kids) (concat ?parts) = Host q kd a m ?kids"
      "ids_by q (child_keys ?olds) ?kids"
    using apply_parts [OF kids_agree_ids_by [OF kids ok(1)], of ?parts kd a m] part key len by auto
  have "h_id (?kids ! i) = path_step q (dec_digits i)" if i: "i < length ?olds" for i
  proof -
    have "ids_ok (path_step q (child_keys ?olds ! i)) (?kids ! i)"
      using inner(2) i by (simp add: ids_by_def list_all2_conv_all_nth)
    then show ?thesis
      using ids_ok_id key [OF i] by metis
  qed
  moreover have "agrees F (?kids ! i) (path_step q (dec_digits i)) (?news ! i)" if "i < min (length ?olds) (length ?news)" for i
    using part [of i] that len by (simp add: nth_append)
  ultimately show ?thesis
    using positional_tail_shown [OF ok(4), of ?kids ?olds F q kd a m] inner(1) len by (simp add: apply_patches_append)
qed

lemma positional_inside:
  assumes "\<And>v c p. v \<in> set olds \<Longrightarrow> c \<in> set news \<Longrightarrow> diff_ok F v c p"
  shows "list_all (inside q) (concat (positional_parts F olds news q) @ positional_tail olds news q)"
proof -
  have "list_all (inside q) (the (diff_node F (olds ! i) (news ! i) (path_step q (dec_digits i))))"
    if "i < min (length olds) (length news)" for i
    using diff_okD(2) [OF assms, of "olds ! i" "news ! i" "path_step q (dec_digits i)"] that
    by (auto simp: list_all_iff intro: inside_trans [OF under_step])
  then show ?thesis
    by (auto simp: list_all_iff positional_parts_def positional_tail_def Let_def)
qed

text \<open>The part of \<open>diff_node\<close> that treats the children.\<close>

definition children_patches :: "'f f64 \<Rightarrow> 'f swift_value \<Rightarrow> 'f swift_value \<Rightarrow> ustr \<Rightarrow> 'f patch list option" where
  "children_patches F old new path =
     (let olds = children old; news = children new in
      if all_keyed olds \<and> all_keyed news then
        keyed_patches olds news path
          (those (map (\<lambda>(key, c).
             case old_by_key olds key of
               Some v \<Rightarrow> map_option Some (diff_node F v c (path_step path key))
             | None \<Rightarrow> Some None) (zip (child_keys news) news)))
      else
        map_option (\<lambda>parts. concat parts @ positional_tail olds news path)
          (those (map (\<lambda>(i, v, c). diff_node F v c (path_step path (dec_digits i)))
             (enumerate 0 (zip olds news)))))"

lemma diff_node_same_kind:
  "view_kind old = view_kind new \<Longrightarrow> diff_node F old new path =
     map_option (\<lambda>ps. diff_args F old new path @ diff_modifiers F old new path @ ps) (children_patches F old new path)"
  by (subst diff_node.simps) (simp add: children_patches_def Let_def)

lemma children_patches_shown:
  assumes ok: "view_ok K old" "view_ok K new" "view_kind old = view_kind new"
    "\<And>v c p. v \<in> set (children old) \<Longrightarrow> c \<in> set (children new) \<Longrightarrow> diff_ok F v c p"
    and kids: "kids_agree F kids q (children old)"
  shows "\<exists>ps kids'. children_patches F old new q = Some ps \<and> list_all (inside q) ps \<and>
    apply_patches (Host q kd a m kids) ps = Host q kd a m kids' \<and> kids_agree F kids' q (children new)"
proof (cases "all_keyed (children old) \<and> all_keyed (children new)")
  case True
  then show ?thesis
    using keyed_shown [OF ok(1,2) _ ok(4) kids, of kd a m] by (simp add: children_patches_def Let_def all_keyed_def)
next
  case False
  then have "\<not> K (view_kind old)"
    using view_okD(1) [OF ok(1)] view_okD(1) [OF ok(2)] ok(3) by (auto simp: all_keyed_def)
  then have unkeyed: "list_all (\<lambda>c. key_of c = None) (children old)" "list_all (\<lambda>c. key_of c = None) (children new)"
    using view_okD(2) [OF ok(1)] view_okD(2) [OF ok(2)] ok(3) by simp_all
  have "children_patches F old new q =
      Some (concat (positional_parts F (children old) (children new) q) @ positional_tail (children old) (children new) q)"
    using positional_those [of "children old" "children new" F q, OF ok(4)]
    unfolding children_patches_def Let_def if_not_P [OF False] by simp
  then show ?thesis
    using positional_shown [OF ok(1,2) unkeyed ok(4) kids] positional_inside [OF ok(4)] by simp
qed

lemma diff_ok_all: "view_ok K old \<Longrightarrow> view_ok K new \<Longrightarrow> diff_ok F old new q"
proof (induction "size new" arbitrary: q old new rule: less_induct)
  case (less new q old)
  show ?case
  proof (rule diff_okI)
    fix h assume h: "agrees F h q old"
    obtain kd a m kids where host: "h = Host q kd a m kids" "kd = view_kind old" "args_shown F a (visible old)"
        "list_all2 (shown F) m (modifiers old)" "kids_agree F kids q (children old)"
      using h by (cases h) (simp add: agrees_Host)
    show "\<exists>ps. diff_node F old new q = Some ps \<and> list_all (inside q) ps \<and> agrees F (apply_patches h ps) q new"
    proof (cases "view_kind old = view_kind new")
      case False
      then show ?thesis
        by (subst diff_node.simps) (simp add: host(1) apply_patch_def agrees_render)
    next
      case True
      obtain a' where a': "args_shown F a' (visible new)"
          "apply_patches (Host q kd a m kids) (diff_args F old new q) = Host q kd a' m kids"
        using diff_args_shown(2) [OF less.prems host(3)] by blast
      obtain m' where m': "list_all2 (shown F) m' (modifiers new)"
          "apply_patches (Host q kd a' m kids) (diff_modifiers F old new q) = Host q kd a' m' kids"
        using diff_modifiers_shown(2) [OF host(4)] by blast
      have "diff_ok F v c p" if "v \<in> set (children old)" "c \<in> set (children new)" for v c p
        using that less.hyps children_size view_okD(6) [OF less.prems(1)] view_okD(6) [OF less.prems(2)] by blast
      from children_patches_shown [OF less.prems True this host(5)] obtain ps kids' where
        "children_patches F old new q = Some ps" "list_all (inside q) ps"
        "apply_patches (Host q kd a' m' kids) ps = Host q kd a' m' kids'" "kids_agree F kids' q (children new)"
        by blast
      then show ?thesis
        using a' m' diff_args_shown(1) [OF less.prems host(3)] diff_modifiers_shown(1) [OF host(4)] host(2)
        by (simp add: diff_node_same_kind [OF True] apply_patches_append host(1) agrees_Host True)
    qed
  qed
qed


text \<open>The patches of a whole session: a mount, then the diff of each view with the next one.\<close>

fun updates :: "'f f64 \<Rightarrow> 'f swift_value \<Rightarrow> 'f swift_value list \<Rightarrow> 'f patch list option" where
  "updates F v [] = Some []"
| "updates F v (w # ws) =
     (case diff F v w of
        None \<Rightarrow> None
      | Some ps \<Rightarrow> map_option (\<lambda>rs. ps @ rs) (updates F w ws))"

lemma updates_shown:
  "list_all (view_ok K) (v # ws) \<Longrightarrow> \<exists>ps. updates F v ws = Some ps \<and>
     (\<forall>h. agrees F h root_id v \<longrightarrow> agrees F (apply_patches h ps) root_id (last (v # ws)))"
proof (induction ws arbitrary: v)
  case (Cons w ws)
  have "diff_ok F v w root_id"
    using Cons.prems by (intro diff_ok_all) auto
  then show ?case
    using Cons.IH [of w] Cons.prems by (auto simp: diff_ok_def diff_def apply_patches_append)
qed simp

section \<open>Row keys\<close>

lemma unseen_key_seen: "unseen_key n seen key \<in> set seen \<Longrightarrow> i \<le> n \<Longrightarrow> key @ replicate i 39 \<in> set seen"
proof (induction n seen key arbitrary: i rule: unseen_key.induct)
  case (2 n seen key)
  then show ?case
    by (cases i) (auto split: if_splits)
qed simp

lemma unseen_key_fresh: "unseen_key (length seen + 1) seen key \<notin> set seen"
proof
  assume seen: "unseen_key (length seen + 1) seen key \<in> set seen"
  have "key @ replicate i 39 \<in> set seen" if "i \<le> length seen" for i
    using that by (intro unseen_key_seen [OF seen]) simp
  then have "(\<lambda>i. key @ replicate i 39) ` {..length seen} \<subseteq> set seen"
    by auto
  moreover have "inj (\<lambda>i. key @ replicate i (39::nat))"
    by (rule injI) (drule arg_cong [where f = length], simp)
  then have "card ((\<lambda>i. key @ replicate i 39) ` {..length seen}) = Suc (length seen)"
    by (subst card_image) (auto elim: inj_on_subset)
  ultimately have "Suc (length seen) \<le> card (set seen)"
    using card_mono [OF finite_set] by metis
  then show False
    using card_length [of seen] by simp
qed

lemma unseen_key_dotfree: "dotfree key \<Longrightarrow> dotfree (unseen_key n seen key)"
  by (induction n seen key rule: unseen_key.induct) (auto simp: dotfree_def)

lemma assign_keys_distinct:
  "distinct (assign_keys seen keys) \<and> set (assign_keys seen keys) \<inter> set seen = {} \<and>
   length (assign_keys seen keys) = length keys"
proof (induction keys arbitrary: seen)
  case (Cons key keys)
  then show ?case
    using unseen_key_fresh [of seen key] by (fastforce simp: Let_def simp del: unseen_key.simps)
qed simp

lemma assign_keys_dotfree: "list_all dotfree keys \<Longrightarrow> list_all dotfree (assign_keys seen keys)"
  by (induction seen keys rule: assign_keys.induct) (auto simp: Let_def unseen_key_dotfree simp del: unseen_key.simps)

lemma row_keys_dotfree: "dotfree key \<Longrightarrow> list_all dotfree (row_keys key n)"
  using dotfree_dec_digits by (auto simp: row_keys_def list_all_iff dotfree_def)

lemma length_row_keys [simp]: "length (row_keys key n) = n"
  by (simp add: row_keys_def)

lemma lower_hex_dotfree: "lower_hex d \<noteq> sc_dot"
  by (simp add: lower_hex_def)

lemma key_string_dotfree: "dotfree (key_string bytes)"
  using lower_hex_dotfree by (auto simp: key_string_def key_byte_def dotfree_def is_ascii_digit_def is_ascii_alpha_def)

text \<open>An encoded key can be read back, byte by byte.\<close>

lemma lower_hex_inj: "lower_hex c = lower_hex d \<longleftrightarrow> c = d" if "c < 16" "d < 16"
  using that by (auto simp: lower_hex_def split: if_splits)

lemma key_byte_prefix:
  assumes "key_byte b @ xs = key_byte c @ ys" "b < 256" "c < 256"
  shows "b = c \<and> xs = ys"
proof -
  let ?plain = "\<lambda>b. is_ascii_digit b \<or> is_ascii_alpha b \<or> b = 45"
  have plain: "b \<noteq> sc_underscore" if "?plain b" for b
    using that by (auto simp: is_ascii_digit_def is_ascii_alpha_def)
  have hex: "b = c" if "b div 16 = c div 16" "b mod 16 = c mod 16"
    using that by (metis div_mult_mod_eq)
  have "b div 16 < 16" "c div 16 < 16"
    using assms by auto
  then show ?thesis
    using assms(1) hex plain [of b] plain [of c] lower_hex_inj [of "b div 16" "c div 16"] lower_hex_inj [of "b mod 16" "c mod 16"]
    by (auto simp: key_byte_def split: if_splits)
qed

lemma key_byte_nonempty: "key_byte b \<noteq> []"
  by (simp add: key_byte_def)

lemma key_string_inj:
  "key_string xs = key_string ys \<Longrightarrow> list_all (\<lambda>b. b < 256) xs \<Longrightarrow> list_all (\<lambda>b. b < 256) ys \<Longrightarrow> xs = ys"
proof (induction xs ys rule: list_induct2')
  case (4 x xs y ys)
  then show ?case
    using key_byte_prefix [of x "key_string xs" y "key_string ys"] by (auto simp: key_string_def)
qed (auto simp: key_string_def key_byte_nonempty)

lemma get_field_pushed: "get_field (filter (\<lambda>(n, v). n \<noteq> name) fs @ [(name, w)]) name = Some w"
  by (induction fs) auto

lemma with_key_key: "key_of (with_key (VStruct obj) k) = Some k"
  by (simp add: key_of_def with_key_def struct_get_def get_field_pushed)

section \<open>Finding nodes\<close>

lemma starts_with_below: "starts_with p (q @ [sc_dot]) \<longleftrightarrow> below q p"
proof
  assume "starts_with p (q @ [sc_dot])"
  then have "take (length (q @ [sc_dot])) p = q @ [sc_dot]"
    by (simp only: starts_with_iff)
  then have "p = (q @ [sc_dot]) @ drop (length (q @ [sc_dot])) p"
    by (metis append_take_drop_id)
  then show "below q p"
    by (auto simp: below_def path_step_def)
qed (auto simp: below_def path_step_def starts_with_iff)

lemma under_cases: "under q p \<longleftrightarrow> p = q \<or> below q p"
  by (simp add: under_def below_def)

lemma find_from_outside: "\<not> under q p \<Longrightarrow> find_from pred p v q n = None"
  by (subst find_from.simps) (auto simp: under_cases starts_with_below Let_def split: swift_value.split)

lemma walk_from_cases:
  assumes "(p, d, obj) \<in> set (walk_from v q n)"
  obtains "v = VStruct obj" "p = q"
  | i where "i < length (children v)" "(p, d, obj) \<in> set (walk_from (children v ! i) (child_id q i (children v ! i)) (n + 1))"
proof -
  have "(v = VStruct obj \<and> p = q) \<or>
      (\<exists>i<length (children v). (p, d, obj) \<in> set (walk_from (children v ! i) (child_id q i (children v ! i)) (n + 1)))"
    using assms by (subst (asm) walk_from.simps) (auto simp: in_set_enumerate_eq split: swift_value.splits)
  then show ?thesis
    using that by blast
qed

lemma walk_from_struct: "x \<in> set (walk_from v q n) \<Longrightarrow> \<exists>r. v = VStruct r"
  by (subst (asm) walk_from.simps) (auto split: swift_value.splits)

lemma walk_from_under: "(p, d, obj) \<in> set (walk_from v q n) \<Longrightarrow> under q p"
proof (induction "size v" arbitrary: v q n rule: less_induct)
  case (less v q n)
  from less.prems show ?case
  proof (cases rule: walk_from_cases)
    case (2 i)
    then have "under (child_id q i (children v ! i)) p"
      using less.hyps children_size nth_mem by blast
    then show ?thesis
      using under_trans [OF under_step] by (simp add: child_id_key)
  qed simp
qed

lemma first_some_at: "i < length rs \<Longrightarrow> (\<And>j. j < i \<Longrightarrow> rs ! j = None) \<Longrightarrow> rs ! i = Some x \<Longrightarrow> first_some rs = Some x"
proof (induction rs arbitrary: i)
  case (Cons r rs)
  show ?case
  proof (cases i)
    case 0
    then show ?thesis
      using Cons.prems by simp
  next
    case (Suc i')
    have "r = None"
      using Cons.prems(2) [of 0] Suc by simp
    moreover have "rs ! j = None" if "j < i'" for j
      using Cons.prems(2) [of "Suc j"] that Suc by simp
    ultimately show ?thesis
      using Cons.IH [of i'] Cons.prems(1,3) Suc by simp
  qed
qed simp

lemma find_from_child:
  "p \<noteq> q \<Longrightarrow> starts_with p (q @ [sc_dot]) \<Longrightarrow> v = VStruct r \<Longrightarrow> find_from (\<lambda>_. False) p v q None =
     first_some (map (\<lambda>(i, c). find_from (\<lambda>_. False) p c (child_id q i c) None) (enumerate 0 (children v)))"
  by (subst find_from.simps) simp

lemma find_from_walk:
  "view_ok K v \<Longrightarrow> (p, d, obj) \<in> set (walk_from v q n) \<Longrightarrow>
     find_from (\<lambda>_. False) p v q None = Some (VStruct obj, None)"
proof (induction "size v" arbitrary: v q n rule: less_induct)
  case (less v q n)
  let ?cs = "children v"
  from less.prems(2) show ?case
  proof (cases rule: walk_from_cases)
    case 1
    then show ?thesis
      by (subst find_from.simps) simp
  next
    case (2 i)
    have i: "under (path_step q (child_keys ?cs ! i)) p"
      using walk_from_under [OF 2(2)] 2(1) by (simp add: child_id_key child_keys_nth)
    have "find_from (\<lambda>_. False) p (?cs ! j) (child_id q j (?cs ! j)) None = None" if j: "j < i" for j
    proof (rule find_from_outside)
      have "child_keys ?cs ! j \<noteq> child_keys ?cs ! i" "dotfree (child_keys ?cs ! j)" "dotfree (child_keys ?cs ! i)"
        using view_okD(3,4) [OF less.prems(1)] j 2(1) by (simp_all add: nth_eq_iff_index_eq list_all_length)
      then show "\<not> under (child_id q j (?cs ! j)) p"
        using under_steps_disjoint i j 2(1) by (auto simp: child_id_key child_keys_nth)
    qed
    moreover have "find_from (\<lambda>_. False) p (?cs ! i) (child_id q i (?cs ! i)) None = Some (VStruct obj, None)"
      using 2 by (intro less.hyps view_okD(6) [OF less.prems(1)]) (auto intro: children_size)
    ultimately have found: "first_some (map (\<lambda>(i, c). find_from (\<lambda>_. False) p c (child_id q i c) None) (enumerate 0 ?cs)) =
        Some (VStruct obj, None)"
      using 2(1) by (intro first_some_at [of i]) (auto simp: nth_enumerate_eq)
    have route: "p \<noteq> q" "starts_with p (q @ [sc_dot])"
      using i not_above under_trans [OF under_step i] by (auto simp: starts_with_below under_cases)
    obtain r where r: "v = VStruct r"
      using walk_from_struct [OF less.prems(2)] by blast
    show ?thesis
      unfolding find_from_child [OF route r] by (rule found)
  qed
qed


section \<open>Properties\<close>

text \<open>A text of one character, and a stack of texts with the keys of a row.\<close>

definition text_view :: "scalar \<Rightarrow> (ustr \<times> 'f swift_value) list \<Rightarrow> 'f swift_value" where
  "text_view c fs = VStruct (StructObj (scalars ''Text'') ((verbatim, VStr [c]) # fs))"

definition stack_view :: "'f swift_value list \<Rightarrow> 'f swift_value" where
  "stack_view cs = VStruct (StructObj (scalars ''VStack'') [(CHILDREN_FIELD, VArray cs)])"

definition keyed_stack :: "ustr \<Rightarrow> 'f swift_value" where
  "keyed_stack cs = stack_view (map (\<lambda>c. with_key (text_view c []) [c]) cs)"

lemmas view_fields = verbatim_def KEY_FIELD_def CHILDREN_FIELD_def MODIFIERS_FIELD_def

lemma text_view_simps:
  "view_kind (text_view c fs) = scalars ''Text''"
  "children (text_view c []) = []" "children (with_key (text_view c []) k) = []"
  "modifiers (text_view c []) = []" "modifiers (with_key (text_view c []) k) = []"
  "visible (text_view c []) = [(verbatim, VStr [c])]" "visible (with_key (text_view c []) k) = [(verbatim, VStr [c])]"
  "text_of (text_view c fs) = Some [c]" "text_of (with_key (text_view c []) k) = Some [c]"
  "view_kind (with_key (text_view c []) k) = scalars ''Text''"
  "key_of (text_view c []) = None" "key_of (with_key (text_view c []) k) = Some k"
  by (simp_all add: text_view_def with_key_def view_kind_def children_def modifiers_def array_field_def struct_get_def
      visible_def text_of_def key_of_def view_fields byte_def)

lemma stack_view_simps:
  "view_kind (stack_view cs) = scalars ''VStack''" "children (stack_view cs) = cs" "modifiers (stack_view cs) = []"
  "visible (stack_view cs) = []" "text_of (stack_view cs) = None"
  by (simp_all add: stack_view_def view_kind_def children_def modifiers_def array_field_def struct_get_def
      visible_def text_of_def view_fields byte_def)

lemma keyed_text_ok: "\<not> K (scalars ''Text'') \<Longrightarrow> view_ok K (with_key (text_view c []) [c])"
  by (rule view_ok.intros) (simp_all add: text_view_simps child_keys_def)

lemma keyed_stack_ok:
  assumes "distinct cs" "sc_dot \<notin> set cs"
  shows "view_ok (\<lambda>k. k = scalars ''VStack'') (keyed_stack cs)"
proof -
  have keys: "child_keys (map (\<lambda>c. with_key (text_view c []) [c]) cs) = map (\<lambda>c. [c]) cs"
    by (rule nth_equalityI) (simp_all add: child_keys_nth child_key_def text_view_simps)
  show ?thesis
    unfolding keyed_stack_def
    by (rule view_ok.intros)
      (use assms in \<open>auto simp: stack_view_simps text_view_simps keys distinct_map inj_on_def dotfree_def list_all_iff
        byte_def intro: keyed_text_ok\<close>)
qed

text \<open>C6. A host that mounts the first view of a session and applies the patches of every later
  diff, in order, shows the last view, and no diff panics. A host node shows a view when its id,
  its kind and its children match and each argument and modifier it holds was linked to that of
  the view by the equality that the diff used. The views of the session are those where the kind of a
  view tells whether its children have keys (all of them or none), keys of siblings are distinct and
  without dots, and a text has its string and no other argument (\<open>view_ok\<close>).\<close>

theorem session_shows_last_view:
  assumes "list_all (view_ok K) (v # ws)"
  shows "\<exists>ps. updates F v ws = Some ps \<and> agrees F (apply_patches host (mount v @ ps)) root_id (last (v # ws))"
  using updates_shown [OF assms, of F] agrees_render [of F root_id v] by (auto simp: mount_def apply_patch_def)

theorem session_shows_last_view_witness:
  "\<forall>F host. \<exists>ps. updates F (keyed_stack [97, 98, 99]) [keyed_stack [99, 100, 97], keyed_stack []] = Some ps \<and>
     agrees F (apply_patches host (mount (keyed_stack [97, 98, 99]) @ ps)) root_id (keyed_stack [])"
proof (intro allI)
  fix F :: "'f f64" and host
  show "\<exists>ps. updates F (keyed_stack [97, 98, 99]) [keyed_stack [99, 100, 97], keyed_stack []] = Some ps \<and>
     agrees F (apply_patches host (mount (keyed_stack [97, 98, 99]) @ ps)) root_id (keyed_stack [])"
    using session_shows_last_view [of "\<lambda>k. k = scalars ''VStack''" "keyed_stack [97, 98, 99]"
        "[keyed_stack [99, 100, 97], keyed_stack []]" F host]
    by (simp add: keyed_stack_ok del: scalars_simps updates.simps)
qed

text \<open>When a kind does not tell whether the children have keys patches get lost: when the only child of a stack has a key before and
  none after, the change of its text is sent to an id by position, and the host, which knows
  the child by its key, drops it and goes on to show the old text.\<close>

theorem mixed_keys_lose_patches:
  "diff F (keyed_stack [97]) (stack_view [text_view 98 []]) = Some [SetText (scalars ''0.0'') [98]] \<and>
   apply_patches (render root_id (keyed_stack [97] :: 'f swift_value)) [SetText (scalars ''0.0'') [98]] =
     render root_id (keyed_stack [97]) \<and>
   h_args (hd (h_kids (render root_id (keyed_stack [97] :: 'f swift_value)))) = [(verbatim, VStr [97])]"
  for F :: "'f f64"
proof -
  have leaf: "diff_node F (with_key (text_view 97 []) [97]) (text_view 98 []) q = Some [SetText q [98]]" for q
    by (subst diff_node_same_kind)
      (simp_all add: text_view_simps diff_args_def diff_modifiers_def children_patches_def all_keyed_def keyed_patches_def
        child_keys_def keyed_removals_def)
  have "diff F (keyed_stack [97]) (stack_view [text_view 98 []]) = Some [SetText (path_step root_id (dec_digits 0)) [98]]"
    unfolding diff_def
    by (subst diff_node_same_kind)
      (simp_all add: keyed_stack_def stack_view_simps text_view_simps leaf diff_args_def diff_modifiers_def args_equal_def
        children_patches_def all_keyed_def positional_tail_def)
  moreover have host: "render root_id (keyed_stack [97] :: 'f swift_value) =
      Host root_id (scalars ''VStack'') [] [] [Host (scalars ''0.a'') (scalars ''Text'') [(verbatim, VStr [97])] [] []]"
    by (subst render.simps, simp add: keyed_stack_def stack_view_simps, subst render.simps)
      (simp add: text_view_simps child_id_def root_id_def path_step_def byte_def)
  moreover have "path_step root_id (dec_digits 0) = scalars ''0.0''"
    by (simp add: root_id_def path_step_def byte_def dec_digits.simps)
  ultimately show ?thesis
    by (simp add: apply_patch_def mutate_def root_id_def byte_def)
qed

text \<open>C26. The keys that \<open>ForEach\<close> gives to its rows are as many as the rows, pairwise distinct and
  without dots, whatever the items' own keys are, also when items share a key or give several rows
  each; and a child that was given a key shows it to the diff.\<close>

theorem keyed_rows_unique:
  "let keys = keyed_rows (map (\<lambda>(bytes, rows). (key_string bytes, rows)) items) in
     distinct keys \<and> list_all dotfree keys \<and> length keys = sum_list (map snd items) \<and>
     child_keys (map2 with_key (map VStruct rows) keys) = take (length rows) keys"
proof -
  let ?items = "map (\<lambda>(bytes, rows). (key_string bytes, rows)) items"
  let ?keys = "concat (map (\<lambda>(key, rows). row_keys key rows) ?items)"
  have "list_all dotfree ?keys"
    using row_keys_dotfree [OF key_string_dotfree] by (auto simp: list_all_iff)
  then have "list_all dotfree (keyed_rows ?items)"
    unfolding keyed_rows_def by (rule assign_keys_dotfree)
  moreover have "length ?keys = sum_list (map snd items)"
    by (induction items) auto
  moreover have "child_keys (map2 with_key (map VStruct rows) keys) = take (length rows) keys" for keys
  proof (rule nth_equalityI)
    show "child_keys (map2 with_key (map VStruct rows) keys) ! i = take (length rows) keys ! i"
      if "i < length (child_keys (map2 with_key (map VStruct rows) keys))" for i
      using that by (simp add: child_keys_nth child_key_def with_key_key)
  qed simp
  ultimately show ?thesis
    using assign_keys_distinct [of "[]" ?keys] by (simp add: keyed_rows_def Let_def)
qed

text \<open>Every node that a walk of a tree visits is found by its id: \<open>find_node\<close> prunes the subtrees
  whose id is no prefix of the one it looks for, and returns this very node.\<close>

theorem find_node_walked:
  assumes "view_ok K tree" "(path, depth, obj) \<in> set (walk tree)"
  shows "find_node tree path = Some (VStruct obj)"
  using find_from_walk assms by (fastforce simp: walk_def find_node_def find_with_ancestor_def)

theorem find_node_walked_witness:
  "find_node (keyed_stack [97, 98] :: nat swift_value) (scalars ''0.b'') = Some (with_key (text_view 98 []) [98])"
proof -
  have kids: "walk_from (with_key (text_view c []) [c] :: nat swift_value) q n =
      [(q, n, StructObj (scalars ''Text'') [(verbatim, VStr [c]), (KEY_FIELD, VStr [c])])]" for c q n
    by (subst walk_from.simps)
      (simp add: with_key_def text_view_def view_fields byte_def children_def array_field_def struct_get_def)
  have "children (VStruct (StructObj (scalars ''VStack'') [(CHILDREN_FIELD, VArray cs)])) = cs" for cs :: "nat swift_value list"
    using stack_view_simps(2) [of cs] by (simp only: stack_view_def)
  then have "(scalars ''0.b'', 1, StructObj (scalars ''Text'') [(verbatim, VStr [98]), (KEY_FIELD, VStr [98])])
      \<in> set (walk (keyed_stack [97, 98] :: nat swift_value))"
    unfolding walk_def
    by (subst walk_from.simps)
      (simp add: keyed_stack_def stack_view_def kids child_id_def text_view_simps root_id_def path_step_def byte_def
        del: scalars_simps, simp add: byte_def)
  from find_node_walked [OF keyed_stack_ok this] show ?thesis
    by (simp add: with_key_def text_view_def view_fields byte_def)
qed

end
