(* ===== verification/Ast.thy ===== *)
theory Ast
  imports Prelude
begin

text \<open>
  The syntax tree: \<open>tswift-ast/src/lib.rs\<close> with its arena of nodes, and the cursor over it that the
  interpreter reads, \<open>tswift-frontend/src/lib.rs\<close> (\<open>Node\<close>). The interpreter never changes a
  tree, so its cursor is the tree of nodes below a node, \<open>tree\<close>; \<open>tree_of\<close> reads it off the arena.
\<close>

section \<open>Kinds\<close>

datatype (plugins only: size) node_kind =
    SourceFile | ExprStmt | CallExpr | IdentExpr | BinaryExpr | PrefixExpr | AssignExpr | TernaryExpr
    | TupleExpr | ArrayLiteral | DictLiteral | SubscriptExpr | MemberExpr | KeyPathExpr | LetDecl | VarDecl
    | FuncDecl | StructDecl | EnumDecl | ClassDecl | ActorDecl | ProtocolDecl | ExtensionDecl
    | AssociatedTypeDecl | TypeAliasDecl | ImportDecl | MacroDecl | GenericParam | DeinitDecl | DoStmt
    | CatchClause | ThrowStmt | DeferStmt | TryExpr | AwaitExpr | InoutExpr | OperatorDecl
    | PrecedenceGroupDecl | CompilerDirective | Attribute | ClosureExpr | ClosureCapture | CastExpr
    | EnumCaseDecl | InitDecl | SubscriptDecl | Accessor | PostfixExpr | Param | Block | ReturnStmt | IfStmt
    | GuardStmt | WhileStmt | RepeatStmt | ForStmt | SwitchStmt | CaseClause | BreakStmt | ContinueStmt
    | FallthroughStmt | TypeRef | TypeArray | TypeDict | NamePattern | WildcardPattern | TuplePattern
    | EnumCasePattern | RangePattern | WhereClause | IntegerLiteral | FloatLiteral | BoolLiteral
    | NilLiteral | StringLiteral | RegexLiteral

primrec kind_name :: "node_kind \<Rightarrow> ustr" where
  "kind_name SourceFile = scalars ''source_file''"
| "kind_name ExprStmt = scalars ''expr_stmt''"
| "kind_name CallExpr = scalars ''call_expr''"
| "kind_name IdentExpr = scalars ''ident_expr''"
| "kind_name BinaryExpr = scalars ''binary_expr''"
| "kind_name PrefixExpr = scalars ''prefix_expr''"
| "kind_name AssignExpr = scalars ''assign_expr''"
| "kind_name TernaryExpr = scalars ''ternary_expr''"
| "kind_name TupleExpr = scalars ''tuple_expr''"
| "kind_name ArrayLiteral = scalars ''array_literal''"
| "kind_name DictLiteral = scalars ''dict_literal''"
| "kind_name SubscriptExpr = scalars ''subscript_expr''"
| "kind_name MemberExpr = scalars ''member_expr''"
| "kind_name KeyPathExpr = scalars ''key_path_expr''"
| "kind_name LetDecl = scalars ''let_decl''"
| "kind_name VarDecl = scalars ''var_decl''"
| "kind_name FuncDecl = scalars ''func_decl''"
| "kind_name StructDecl = scalars ''struct_decl''"
| "kind_name EnumDecl = scalars ''enum_decl''"
| "kind_name ClassDecl = scalars ''class_decl''"
| "kind_name ActorDecl = scalars ''actor_decl''"
| "kind_name ProtocolDecl = scalars ''protocol_decl''"
| "kind_name ExtensionDecl = scalars ''extension_decl''"
| "kind_name AssociatedTypeDecl = scalars ''associatedtype_decl''"
| "kind_name TypeAliasDecl = scalars ''typealias_decl''"
| "kind_name ImportDecl = scalars ''import_decl''"
| "kind_name MacroDecl = scalars ''macro_decl''"
| "kind_name GenericParam = scalars ''generic_param''"
| "kind_name DeinitDecl = scalars ''deinit_decl''"
| "kind_name DoStmt = scalars ''do_stmt''"
| "kind_name CatchClause = scalars ''catch_clause''"
| "kind_name ThrowStmt = scalars ''throw_stmt''"
| "kind_name DeferStmt = scalars ''defer_stmt''"
| "kind_name TryExpr = scalars ''try_expr''"
| "kind_name AwaitExpr = scalars ''await_expr''"
| "kind_name InoutExpr = scalars ''inout_expr''"
| "kind_name OperatorDecl = scalars ''operator_decl''"
| "kind_name PrecedenceGroupDecl = scalars ''precedence_group_decl''"
| "kind_name CompilerDirective = scalars ''compiler_directive''"
| "kind_name Attribute = scalars ''attribute''"
| "kind_name ClosureExpr = scalars ''closure_expr''"
| "kind_name ClosureCapture = scalars ''closure_capture''"
| "kind_name CastExpr = scalars ''cast_expr''"
| "kind_name EnumCaseDecl = scalars ''enum_case_decl''"
| "kind_name InitDecl = scalars ''init_decl''"
| "kind_name SubscriptDecl = scalars ''subscript_decl''"
| "kind_name Accessor = scalars ''accessor''"
| "kind_name PostfixExpr = scalars ''postfix_expr''"
| "kind_name Param = scalars ''param''"
| "kind_name Block = scalars ''block''"
| "kind_name ReturnStmt = scalars ''return_stmt''"
| "kind_name IfStmt = scalars ''if_stmt''"
| "kind_name GuardStmt = scalars ''guard_stmt''"
| "kind_name WhileStmt = scalars ''while_stmt''"
| "kind_name RepeatStmt = scalars ''repeat_stmt''"
| "kind_name ForStmt = scalars ''for_stmt''"
| "kind_name SwitchStmt = scalars ''switch_stmt''"
| "kind_name CaseClause = scalars ''case_clause''"
| "kind_name BreakStmt = scalars ''break_stmt''"
| "kind_name ContinueStmt = scalars ''continue_stmt''"
| "kind_name FallthroughStmt = scalars ''fallthrough_stmt''"
| "kind_name TypeRef = scalars ''type_ref''"
| "kind_name TypeArray = scalars ''type_array''"
| "kind_name TypeDict = scalars ''type_dict''"
| "kind_name NamePattern = scalars ''name_pattern''"
| "kind_name WildcardPattern = scalars ''wildcard_pattern''"
| "kind_name TuplePattern = scalars ''tuple_pattern''"
| "kind_name EnumCasePattern = scalars ''enum_case_pattern''"
| "kind_name RangePattern = scalars ''range_pattern''"
| "kind_name WhereClause = scalars ''where_clause''"
| "kind_name IntegerLiteral = scalars ''integer_literal''"
| "kind_name FloatLiteral = scalars ''float_literal''"
| "kind_name BoolLiteral = scalars ''bool_literal''"
| "kind_name NilLiteral = scalars ''nil_literal''"
| "kind_name StringLiteral = scalars ''string_literal''"
| "kind_name RegexLiteral = scalars ''regex_literal''"

definition node_kinds :: "node_kind list" where
  "node_kinds =
    [SourceFile, ExprStmt, CallExpr, IdentExpr, BinaryExpr, PrefixExpr, AssignExpr, TernaryExpr, TupleExpr
     , ArrayLiteral, DictLiteral, SubscriptExpr, MemberExpr, KeyPathExpr, LetDecl, VarDecl, FuncDecl
     , StructDecl, EnumDecl, ClassDecl, ActorDecl, ProtocolDecl, ExtensionDecl, AssociatedTypeDecl
     , TypeAliasDecl, ImportDecl, MacroDecl, GenericParam, DeinitDecl, DoStmt, CatchClause, ThrowStmt
     , DeferStmt, TryExpr, AwaitExpr, InoutExpr, OperatorDecl, PrecedenceGroupDecl, CompilerDirective
     , Attribute, ClosureExpr, ClosureCapture, CastExpr, EnumCaseDecl, InitDecl, SubscriptDecl, Accessor
     , PostfixExpr, Param, Block, ReturnStmt, IfStmt, GuardStmt, WhileStmt, RepeatStmt, ForStmt, SwitchStmt
     , CaseClause, BreakStmt, ContinueStmt, FallthroughStmt, TypeRef, TypeArray, TypeDict, NamePattern
     , WildcardPattern, TuplePattern, EnumCasePattern, RangePattern, WhereClause, IntegerLiteral
     , FloatLiteral, BoolLiteral, NilLiteral, StringLiteral, RegexLiteral]"

datatype ty = TyInt | TyDouble | TyString | TyBool | TyVoid | TyRegex

primrec ty_name :: "ty \<Rightarrow> ustr" where
  "ty_name TyInt = scalars ''Int''"
| "ty_name TyDouble = scalars ''Double''"
| "ty_name TyString = scalars ''String''"
| "ty_name TyBool = scalars ''Bool''"
| "ty_name TyVoid = scalars ''Void''"
| "ty_name TyRegex = scalars ''Regex''"

section \<open>The arena\<close>

record node_data =
  d_kind :: node_kind
  d_text :: "ustr option"
  d_line :: nat
  d_col :: nat
  d_ty :: "ty option"
  d_modifiers :: "ustr list"
  d_arg_label :: "ustr option"
  d_children :: "nat list"

record ast =
  nodes :: "node_data list"
  ast_root :: nat

definition new_node :: "node_kind \<Rightarrow> ustr option \<Rightarrow> nat \<Rightarrow> nat \<Rightarrow> node_data" where
  "new_node k t line col =
     \<lparr>d_kind = k, d_text = t, d_line = line, d_col = col, d_ty = None, d_modifiers = [], d_arg_label = None,
      d_children = []\<rparr>"

definition ast_new :: ast where
  "ast_new = \<lparr>nodes = [new_node SourceFile None 1 1], ast_root = 0\<rparr>"

text \<open>\<open>None\<close> is a panic: an index past the end of the arena, or more nodes than a \<open>u32\<close> counts.\<close>

definition ast_add :: "ast \<Rightarrow> node_kind \<Rightarrow> ustr option \<Rightarrow> nat \<Rightarrow> nat \<Rightarrow> (ast \<times> nat) option" where
  "ast_add a k t line col =
     (if 2 ^ 32 \<le> length (nodes a) then None
      else Some (a\<lparr>nodes := nodes a @ [new_node k t line col]\<rparr>, length (nodes a)))"

definition update_node :: "ast \<Rightarrow> nat \<Rightarrow> (node_data \<Rightarrow> node_data) \<Rightarrow> ast option" where
  "update_node a i f =
     (if i < length (nodes a) then Some (a\<lparr>nodes := (nodes a)[i := f (nodes a ! i)]\<rparr>) else None)"

definition append_child :: "ast \<Rightarrow> nat \<Rightarrow> nat \<Rightarrow> ast option" where
  "append_child a parent child = update_node a parent (\<lambda>d. d\<lparr>d_children := d_children d @ [child]\<rparr>)"

definition set_children :: "ast \<Rightarrow> nat \<Rightarrow> nat list \<Rightarrow> ast option" where
  "set_children a parent children = update_node a parent (\<lambda>d. d\<lparr>d_children := children\<rparr>)"

definition add_with_children ::
  "ast \<Rightarrow> node_kind \<Rightarrow> ustr option \<Rightarrow> nat \<Rightarrow> nat \<Rightarrow> nat list \<Rightarrow> (ast \<times> nat) option" where
  "add_with_children a k t line col children =
     (case ast_add a k t line col of
        None \<Rightarrow> None
      | Some (a, i) \<Rightarrow> map_option (\<lambda>a. (a, i)) (set_children a i children))"

definition add_modifier :: "ast \<Rightarrow> nat \<Rightarrow> ustr \<Rightarrow> ast option" where
  "add_modifier a i m = update_node a i (\<lambda>d. d\<lparr>d_modifiers := d_modifiers d @ [m]\<rparr>)"

definition set_arg_label :: "ast \<Rightarrow> nat \<Rightarrow> ustr \<Rightarrow> ast option" where
  "set_arg_label a i l = update_node a i (\<lambda>d. d\<lparr>d_arg_label := Some l\<rparr>)"

definition set_type :: "ast \<Rightarrow> nat \<Rightarrow> ty \<Rightarrow> ast option" where
  "set_type a i t = update_node a i (\<lambda>d. d\<lparr>d_ty := Some t\<rparr>)"

definition set_kind :: "ast \<Rightarrow> nat \<Rightarrow> node_kind \<Rightarrow> ast option" where
  "set_kind a i k = update_node a i (\<lambda>d. d\<lparr>d_kind := k\<rparr>)"

text \<open>\<open>clone_subtree\<close>: the depth of the subtree bounds the recursion, \<open>Suc n\<close> allows depth \<open>n\<close>.\<close>

fun clone_subtree :: "nat \<Rightarrow> ast \<Rightarrow> nat \<Rightarrow> (ast \<times> nat) option"
  and clone_children :: "nat \<Rightarrow> ast \<Rightarrow> nat \<Rightarrow> nat list \<Rightarrow> ast option" where
  "clone_subtree 0 a i = None"
| "clone_subtree (Suc n) a i =
     (if i < length (nodes a) \<and> length (nodes a) < 2 ^ 32 then
        let d = nodes a ! i; new = length (nodes a) in
        map_option (\<lambda>a. (a, new))
          (clone_children n (a\<lparr>nodes := nodes a @ [d\<lparr>d_children := []\<rparr>]\<rparr>) new (d_children d))
      else None)"
| "clone_children n a new [] = Some a"
| "clone_children n a new (c # cs) =
     (case clone_subtree n a c of
        None \<Rightarrow> None
      | Some (a, c') \<Rightarrow> (case append_child a new c' of None \<Rightarrow> None | Some a \<Rightarrow> clone_children n a new cs))"

section \<open>The tree below a node\<close>

datatype tree =
  Tree (t_kind: node_kind) (t_raw: "ustr option") (t_line: nat) (t_col: nat) (t_ty: "ty option")
    (t_modifiers: "ustr list") (t_arg_label: "ustr option") (t_children: "tree list")

fun tree_of :: "nat \<Rightarrow> ast \<Rightarrow> nat \<Rightarrow> tree option" where
  "tree_of 0 a i = None"
| "tree_of (Suc n) a i =
     (if i < length (nodes a) then
        let d = nodes a ! i in
        map_option (Tree (d_kind d) (d_text d) (d_line d) (d_col d) (d_ty d) (d_modifiers d) (d_arg_label d))
          (those (map (tree_of n a) (d_children d)))
      else None)"

lemma child_size: "c \<in> set (t_children t) \<Longrightarrow> size c < size t"
  by (cases t) (use size_part [of c _ size] in fastforce)

section \<open>The cursor of the interpreter\<close>

definition first_child :: "tree \<Rightarrow> tree option" where
  "first_child t = (case t_children t of [] \<Rightarrow> None | c # _ \<Rightarrow> Some c)"

definition last_child :: "tree \<Rightarrow> tree option" where
  "last_child t = (if t_children t = [] then None else Some (last (t_children t)))"

definition find_child :: "tree \<Rightarrow> node_kind \<Rightarrow> tree option" where
  "find_child t k = find (\<lambda>c. t_kind c = k) (t_children t)"

definition t_text :: "tree \<Rightarrow> ustr option" where
  "t_text t =
     (case t_kind t of
        ForStmt \<Rightarrow> None
      | CompilerDirective \<Rightarrow> map_option (dropWhile (\<lambda>c. c = 35)) (t_raw t)
      | _ \<Rightarrow> t_raw t)"

fun decl_name_in :: "tree list \<Rightarrow> ustr option \<Rightarrow> ustr option" where
  "decl_name_in [] own = own"
| "decl_name_in (c # cs) own =
     (if t_kind c = NamePattern then t_text c
      else if t_kind c = WildcardPattern then Some (scalars ''_'')
      else decl_name_in cs own)"

definition decl_name :: "tree \<Rightarrow> ustr option" where
  "decl_name t = decl_name_in (t_children t) (t_text t)"

definition loop_label :: "tree \<Rightarrow> ustr option" where
  "loop_label t = (if t_kind t \<in> {ForStmt, WhileStmt, RepeatStmt} then t_raw t else None)"

definition jump_label :: "tree \<Rightarrow> ustr option" where
  "jump_label t = t_text t"

definition is_default :: "tree \<Rightarrow> bool" where
  "is_default t \<longleftrightarrow> t_text t = Some (scalars ''default'')"

definition where_expr :: "tree \<Rightarrow> tree option" where
  "where_expr t = (case find_child t WhereClause of None \<Rightarrow> None | Some w \<Rightarrow> first_child w)"

text \<open>
  The predicates of the cursor on modifiers test bits of a mask built from the keywords; a mask
  has the bit of a keyword exactly when the keyword is there (\<open>Literals\<close>).
\<close>

definition is_async :: "tree \<Rightarrow> bool" where
  "is_async t \<longleftrightarrow> scalars ''async'' \<in> set (t_modifiers t)"

section \<open>Classes of nodes\<close>

definition is_pattern_node :: "node_kind \<Rightarrow> bool" where
  "is_pattern_node k \<longleftrightarrow> k \<in> {EnumCasePattern, TuplePattern, RangePattern, WildcardPattern, NamePattern}"

definition is_value_node :: "tree \<Rightarrow> bool" where
  "is_value_node t \<longleftrightarrow> \<not> is_pattern_node (t_kind t) \<and> t_kind t \<notin> {TypeRef, Accessor, Attribute}"

definition is_statement_kind :: "node_kind \<Rightarrow> bool" where
  "is_statement_kind k \<longleftrightarrow>
     k \<in> {ExprStmt, Block, ReturnStmt, IfStmt, GuardStmt, ForStmt, WhileStmt, RepeatStmt, SwitchStmt, BreakStmt,
          ContinueStmt, FallthroughStmt, VarDecl, LetDecl, FuncDecl}"

text \<open>\<open>expand_directives\<close>: the statements of an active \<open>#if\<close> branch belong to the scope around it.\<close>

fun push_active_branch :: "tree \<Rightarrow> tree list" where
  "push_active_branch (Tree k r line col t ms l cs) =
     (if k = CompilerDirective \<and> map_option (dropWhile (\<lambda>c. c = 35)) r = Some (scalars ''if'')
      then concat (map push_active_branch cs)
      else [Tree k r line col t ms l cs])"

definition expand_directives :: "tree \<Rightarrow> tree list" where
  "expand_directives t = concat (map push_active_branch (t_children t))"

fun case_parts_in :: "bool \<Rightarrow> tree list \<Rightarrow> tree list \<times> tree list" where
  "case_parts_in in_body [] = ([], [])"
| "case_parts_in in_body (c # cs) =
     (if t_kind c = WhereClause then case_parts_in in_body cs
      else
        let in_body = (in_body \<or> is_statement_kind (t_kind c)); (patterns, body) = case_parts_in in_body cs in
        if in_body then (patterns, c # body) else (c # patterns, body))"

text \<open>\<open>case_parts\<close>: the patterns of a clause and its statements.\<close>

definition case_parts :: "tree \<Rightarrow> tree list \<times> tree list" where
  "case_parts t = case_parts_in False (t_children t)"

end
