(* ===== verification/Ast_Correct.thy ===== *)
theory Ast_Correct
  imports Ast
begin

text \<open>
  The arena of the syntax tree: copying a subtree yields the same tree in nodes of its own and
  leaves every node there was; the names of the kinds are distinct.
\<close>

section \<open>Copies\<close>

fun node_count :: "tree \<Rightarrow> nat" where
  "node_count (Tree k r line col t ms l cs) = Suc (sum_list (map node_count cs))"

text \<open>Two arenas that agree on a range of addresses.\<close>

definition agree :: "nat \<Rightarrow> nat \<Rightarrow> ast \<Rightarrow> ast \<Rightarrow> bool" where
  "agree lo hi a b \<longleftrightarrow> hi \<le> length (nodes a) \<and> hi \<le> length (nodes b) \<and> (\<forall>k. lo \<le> k \<longrightarrow> k < hi \<longrightarrow> nodes b ! k = nodes a ! k)"

lemma agree_refl: "agree lo (length (nodes a)) a a"
  by (simp add: agree_def)

lemma agree_trans: "agree lo hi a b \<Longrightarrow> agree lo hi b c \<Longrightarrow> agree lo hi a c"
  by (simp add: agree_def)

lemma agree_sub: "agree lo hi a b \<Longrightarrow> lo \<le> lo' \<Longrightarrow> hi' \<le> hi \<Longrightarrow> agree lo' hi' a b"
  by (auto simp: agree_def)

lemma those_Some_iff: "those xs = Some ys \<longleftrightarrow> xs = map Some ys"
proof (induction xs arbitrary: ys)
  case (Cons x xs)
  then show ?case
    by (cases x; cases ys) (auto split: option.splits)
qed auto

lemma tree_of_agree: "tree_of n a i = Some t \<Longrightarrow> agree 0 (length (nodes a)) a b \<Longrightarrow> tree_of n b i = Some t"
proof (induction n arbitrary: i t)
  case (Suc n)
  let ?d = "nodes a ! i"
  obtain ts where i: "i < length (nodes a)" "those (map (tree_of n a) (d_children ?d)) = Some ts"
      "t = Tree (d_kind ?d) (d_text ?d) (d_line ?d) (d_col ?d) (d_ty ?d) (d_modifiers ?d) (d_arg_label ?d) ts"
    using Suc.prems(1) by (auto simp: Let_def split: if_splits)
  then have "list_all2 (\<lambda>c t. tree_of n a c = Some t) (d_children ?d) ts"
    by (auto simp: those_Some_iff list_all2_conv_all_nth list_eq_iff_nth_eq)
  then have "list_all2 (\<lambda>c t. tree_of n b c = Some t) (d_children ?d) ts"
    by (rule list_all2_mono) (use Suc in blast)
  then have "those (map (tree_of n b) (d_children ?d)) = Some ts"
    by (auto simp: those_Some_iff list_all2_conv_all_nth list_eq_iff_nth_eq)
  moreover have "nodes b ! i = ?d" "i < length (nodes b)"
    using Suc.prems(2) i(1) by (simp_all add: agree_def)
  ultimately show ?case
    using i(3) by (simp add: Let_def)
qed simp

text \<open>A tree that occupies the addresses from \<open>lo\<close> to \<open>hi\<close>, whatever the others hold.\<close>

definition holds :: "nat \<Rightarrow> ast \<Rightarrow> nat \<Rightarrow> nat \<Rightarrow> nat \<Rightarrow> tree \<Rightarrow> bool" where
  "holds n a lo hi i t \<longleftrightarrow> (\<forall>b. agree lo hi a b \<longrightarrow> tree_of n b i = Some t)"

lemma holds_sub: "holds n a lo hi i t \<Longrightarrow> lo' \<le> lo \<Longrightarrow> holds n a lo' hi i t"
  by (auto simp: holds_def intro: agree_sub)

lemma holdsD: "holds n a lo hi i t \<Longrightarrow> agree lo hi a b \<Longrightarrow> tree_of n b i = Some t"
  by (simp add: holds_def)

definition copies :: "nat \<Rightarrow> ast \<Rightarrow> nat \<Rightarrow> tree \<Rightarrow> bool" where
  "copies n a i t \<longleftrightarrow>
     (\<exists>b. clone_subtree n a i = Some (b, length (nodes a)) \<and> length (nodes b) = length (nodes a) + node_count t \<and>
        agree 0 (length (nodes a)) a b \<and> ast_root b = ast_root a \<and>
        holds n b (length (nodes a)) (length (nodes b)) (length (nodes a)) t)"

text \<open>The children of a new node \<open>new\<close> are copied one after the other.\<close>

lemma clone_children_copies:
  assumes IH: "\<And>a i t. tree_of n a i = Some t \<Longrightarrow> length (nodes a) + node_count t \<le> 2 ^ 32 \<Longrightarrow> copies n a i t"
    and src: "list_all2 (\<lambda>c t. tree_of n a0 c = Some t) cs ts"
    and agr: "agree 0 new a0 a" "length (nodes a0) = new" "new < length (nodes a)"
    and room: "length (nodes a) + sum_list (map node_count ts) \<le> 2 ^ 32"
  shows "\<exists>b cs'. clone_children n a new cs = Some b \<and> length (nodes b) = length (nodes a) + sum_list (map node_count ts) \<and>
    agree 0 new a b \<and> agree (Suc new) (length (nodes a)) a b \<and> ast_root b = ast_root a \<and>
    nodes b ! new = (nodes a ! new)\<lparr>d_children := d_children (nodes a ! new) @ cs'\<rparr> \<and>
    list_all2 (holds n b (length (nodes a)) (length (nodes b))) cs' ts"
  using src agr room
proof (induction cs ts arbitrary: a rule: list_all2_induct)
  case Nil
  then show ?case
    by (auto simp: agree_def intro!: exI [of _ "[]"])
next
  case (Cons c cs t ts)
  have "agree 0 (length (nodes a0)) a0 a"
    using Cons.prems by (simp add: agree_def)
  then have "tree_of n a c = Some t"
    using Cons.hyps(1) tree_of_agree by blast
  then have "copies n a c t"
    using Cons.prems(4) by (intro IH) simp_all
  then obtain b where b: "clone_subtree n a c = Some (b, length (nodes a))" "length (nodes b) = length (nodes a) + node_count t"
      "agree 0 (length (nodes a)) a b" "ast_root b = ast_root a"
      "holds n b (length (nodes a)) (length (nodes b)) (length (nodes a)) t"
    by (auto simp: copies_def)
  define b' where "b' = b\<lparr>nodes := (nodes b)[new := (nodes b ! new)\<lparr>d_children := d_children (nodes b ! new) @ [length (nodes a)]\<rparr>]\<rparr>"
  have app: "append_child b new (length (nodes a)) = Some b'"
    using b(2) Cons.prems(3) by (simp add: append_child_def update_node_def b'_def)
  have b': "length (nodes b') = length (nodes b)" "agree 0 new a0 b'" "agree (Suc new) (length (nodes b)) b b'"
      "agree 0 new a b'"
    using Cons.prems b(2,3) by (auto simp: b'_def agree_def)
  obtain e cs' where e: "clone_children n b' new cs = Some e" "length (nodes e) = length (nodes b') + sum_list (map node_count ts)"
      "agree 0 new b' e" "agree (Suc new) (length (nodes b')) b' e" "ast_root e = ast_root b'"
      "nodes e ! new = (nodes b' ! new)\<lparr>d_children := d_children (nodes b' ! new) @ cs'\<rparr>"
      "list_all2 (holds n e (length (nodes b')) (length (nodes e))) cs' ts"
    using Cons.IH [of b'] b' Cons.prems b(2) by (auto simp: add.assoc)
  have be: "agree (Suc new) (length (nodes b)) b e"
    using agree_trans [OF b'(3)] e(4) b'(1) by simp
  have "holds n e (length (nodes a)) (length (nodes e)) (length (nodes a)) t"
    unfolding holds_def
  proof (intro allI impI)
    fix d assume "agree (length (nodes a)) (length (nodes e)) e d"
    then have "agree (length (nodes a)) (length (nodes b)) b d"
      using be Cons.prems(3) e(2) b'(1) by (auto simp: agree_def)
    then show "tree_of n d (length (nodes a)) = Some t"
      using b(5) by (simp add: holds_def)
  qed
  moreover have "list_all2 (holds n e (length (nodes a)) (length (nodes e))) cs' ts"
    using e(7) by (rule list_all2_mono) (rule holds_sub, assumption, use b'(1) b(2) in simp)
  moreover have "nodes b' ! new = (nodes a ! new)\<lparr>d_children := d_children (nodes a ! new) @ [length (nodes a)]\<rparr>"
    using b(2,3) Cons.prems(3) by (simp add: b'_def agree_def)
  moreover have "agree 0 new a e" "agree (Suc new) (length (nodes a)) a e"
    using b'(4) e(3) b(2,3) be by (auto simp: agree_def)
  ultimately show ?case
    using e b(1,2,4) app b'(1) by (intro exI [of _ e] exI [of _ "length (nodes a) # cs'"]) (simp add: b'_def)
qed

lemma clone_subtree_copies: "tree_of n a i = Some t \<Longrightarrow> length (nodes a) + node_count t \<le> 2 ^ 32 \<Longrightarrow> copies n a i t"
proof (induction n arbitrary: a i t)
  case (Suc n)
  let ?d = "nodes a ! i" and ?new = "length (nodes a)"
  let ?a = "a\<lparr>nodes := nodes a @ [?d\<lparr>d_children := []\<rparr>]\<rparr>"
  obtain ts where i: "i < length (nodes a)" "those (map (tree_of n a) (d_children ?d)) = Some ts"
      "t = Tree (d_kind ?d) (d_text ?d) (d_line ?d) (d_col ?d) (d_ty ?d) (d_modifiers ?d) (d_arg_label ?d) ts"
    using Suc.prems(1) by (auto simp: Let_def split: if_splits)
  then have src: "list_all2 (\<lambda>c t. tree_of n a c = Some t) (d_children ?d) ts"
    by (auto simp: those_Some_iff list_all2_conv_all_nth list_eq_iff_nth_eq)
  obtain b cs' where b: "clone_children n ?a ?new (d_children ?d) = Some b"
      "length (nodes b) = length (nodes ?a) + sum_list (map node_count ts)" "agree 0 ?new ?a b"
      "ast_root b = ast_root ?a" "nodes b ! ?new = (nodes ?a ! ?new)\<lparr>d_children := d_children (nodes ?a ! ?new) @ cs'\<rparr>"
      "list_all2 (holds n b (length (nodes ?a)) (length (nodes b))) cs' ts"
    using clone_children_copies [OF Suc.IH src, of ?new ?a] Suc.prems(2) by (auto simp: agree_def nth_append i(3))
  have "tree_of (Suc n) e ?new = Some t" if e: "agree ?new (length (nodes b)) b e" for e
  proof -
    have "list_all2 (\<lambda>c t. tree_of n e c = Some t) cs' ts"
      using b(6) by (rule list_all2_mono) (rule holdsD, assumption, rule agree_sub [OF e], simp_all)
    then have "those (map (tree_of n e) cs') = Some ts"
      by (auto simp: those_Some_iff list_all2_conv_all_nth list_eq_iff_nth_eq)
    moreover have "nodes e ! ?new = ?d\<lparr>d_children := cs'\<rparr>" "?new < length (nodes e)"
      using e b(2,5) by (auto simp: agree_def nth_append)
    ultimately show ?thesis
      by (simp add: Let_def i(3))
  qed
  moreover have "agree 0 ?new a b"
    using b(3) by (simp add: agree_def nth_append)
  ultimately show ?case
    using b(1,2,4) i Suc.prems(2) by (auto simp: copies_def holds_def Let_def)
qed simp

text \<open>C28. Copying a subtree returns a new node below which is the same tree, and changes no node
  that the arena had: the original is still there and every other subtree reads as before. The
  recursion gets as deep as the subtree is.\<close>

theorem clone_subtree_is_a_copy:
  assumes "tree_of n a i = Some t" "length (nodes a) + node_count t \<le> 2 ^ 32"
  shows "\<exists>b. clone_subtree n a i = Some (b, length (nodes a)) \<and> tree_of n b (length (nodes a)) = Some t \<and>
    length (nodes b) = length (nodes a) + node_count t \<and>
    (\<forall>m j u. tree_of m a j = Some u \<longrightarrow> tree_of m b j = Some u)"
proof -
  obtain b where b: "clone_subtree n a i = Some (b, length (nodes a))" "length (nodes b) = length (nodes a) + node_count t"
      "agree 0 (length (nodes a)) a b" "holds n b (length (nodes a)) (length (nodes b)) (length (nodes a)) t"
    using clone_subtree_copies [OF assms] by (auto simp: copies_def)
  then have "tree_of n b (length (nodes a)) = Some t"
    using agree_refl [of _ b] by (simp add: holds_def)
  then show ?thesis
    using b(1,2) tree_of_agree [OF _ b(3)] by blast
qed

definition statement_arena :: ast where
  "statement_arena =
     \<lparr>nodes =
        [\<lparr>d_kind = ExprStmt, d_text = None, d_line = 1, d_col = 1, d_ty = None, d_modifiers = [], d_arg_label = None,
           d_children = [1]\<rparr>,
         \<lparr>d_kind = NilLiteral, d_text = None, d_line = 1, d_col = 1, d_ty = None, d_modifiers = [], d_arg_label = None,
           d_children = []\<rparr>],
      ast_root = 0\<rparr>"

theorem clone_subtree_is_a_copy_witness:
  "\<exists>b. clone_subtree 2 statement_arena 0 = Some (b, 2) \<and>
     tree_of 2 b 2 = Some (Tree ExprStmt None 1 1 None [] None [Tree NilLiteral None 1 1 None [] None []]) \<and> length (nodes b) = 4"
proof -
  have "tree_of 2 statement_arena 0 = Some (Tree ExprStmt None 1 1 None [] None [Tree NilLiteral None 1 1 None [] None []])"
    by (simp add: statement_arena_def numeral_2_eq_2)
  moreover have size: "length (nodes statement_arena) = 2"
    by (simp add: statement_arena_def)
  ultimately show ?thesis
    using clone_subtree_is_a_copy [of 2 statement_arena 0] by (fastforce simp del: tree_of.simps clone_subtree.simps)
qed

end
