(* ===== verification/Literals.thy ===== *)
theory Literals
  imports Ast Value "HOL-Library.Word"
begin

text \<open>
  \<open>tswift-frontend/src/decode.rs\<close>: the mask of a node's modifiers and the values of its literals;
  and the value that the interpreter gives to an integer literal (\<open>interp.rs\<close>,
  \<open>eval_int_literal\<close>). The keyword of a flag and its bit are what the theorems relate. Arithmetic
  of doubles is a parameter, as in \<open>Value\<close>.
\<close>

unbundle bit_operations_syntax

section \<open>Modifiers\<close>

definition flag :: "nat \<Rightarrow> 32 word" where
  "flag i = push_bit i 1"

definition KEYWORD_BITS :: "(ustr \<times> nat) list" where
  "KEYWORD_BITS =
     [(scalars ''public'', 0), (scalars ''private'', 1), (scalars ''internal'', 2), (scalars ''fileprivate'', 3),
      (scalars ''open'', 4), (scalars ''static'', 5), (scalars ''class'', 5), (scalars ''final'', 6),
      (scalars ''override'', 7), (scalars ''mutating'', 8), (scalars ''nonmutating'', 9), (scalars ''lazy'', 10),
      (scalars ''weak'', 11), (scalars ''unowned'', 12), (scalars ''async'', 13), (scalars ''throws'', 14),
      (scalars ''rethrows'', 15), (scalars ''indirect'', 16), (scalars ''required'', 17),
      (scalars ''convenience'', 18), (scalars ''dynamic'', 19), (scalars ''optional'', 20), (scalars ''?.'', 21),
      (scalars ''escaping'', 26), (scalars ''autoclosure'', 27), (scalars ''variadic'', 28), (scalars ''inout'', 30)]"

definition FLAG_NAMES :: "(nat \<times> ustr) list" where
  "FLAG_NAMES =
     [(0, scalars ''public''), (1, scalars ''private''), (2, scalars ''internal''), (3, scalars ''fileprivate''),
      (4, scalars ''open''), (5, scalars ''static''), (6, scalars ''final''), (7, scalars ''override''),
      (8, scalars ''mutating''), (9, scalars ''nonmutating''), (10, scalars ''lazy''), (11, scalars ''weak''),
      (12, scalars ''unowned''), (13, scalars ''async''), (14, scalars ''throws''), (15, scalars ''rethrows''),
      (16, scalars ''indirect''), (17, scalars ''required''), (18, scalars ''convenience''),
      (19, scalars ''dynamic''), (20, scalars ''optional''), (26, scalars ''escaping''),
      (27, scalars ''autoclosure''), (28, scalars ''variadic''), (29, scalars ''failable'')]"

definition keyword_mask :: "ustr \<Rightarrow> 32 word" where
  "keyword_mask m = (case map_of KEYWORD_BITS m of Some i \<Rightarrow> flag i | None \<Rightarrow> 0)"

definition modifier_bits :: "ustr list \<Rightarrow> 32 word" where
  "modifier_bits ms = foldl (\<lambda>bs m. bs OR keyword_mask m) 0 ms"

definition flag_names :: "32 word \<Rightarrow> ustr list" where
  "flag_names bs = map snd (filter (\<lambda>(i, name). bs AND flag i \<noteq> 0) FLAG_NAMES)"

section \<open>Integer literals\<close>

text \<open>\<open>char::to_digit\<close> and \<open>i64::from_str_radix\<close> of the standard library.\<close>

definition to_digit :: "nat \<Rightarrow> scalar \<Rightarrow> nat option" where
  "to_digit radix c =
     (let d = (if 48 \<le> c \<and> c \<le> 57 then Some (c - 48)
               else if 97 \<le> c \<and> c \<le> 122 then Some (c - 87)
               else if 65 \<le> c \<and> c \<le> 90 then Some (c - 55)
               else None)
      in case d of Some v \<Rightarrow> if v < radix then Some v else None | None \<Rightarrow> None)"

fun horner :: "nat \<Rightarrow> nat \<Rightarrow> ustr \<Rightarrow> nat option" where
  "horner radix acc [] = Some acc"
| "horner radix acc (c # cs) =
     (case to_digit radix c of None \<Rightarrow> None | Some d \<Rightarrow> horner radix (radix * acc + d) cs)"

definition from_str_radix :: "ustr \<Rightarrow> nat \<Rightarrow> int option" where
  "from_str_radix s radix =
     (let (neg, ds) = (case s of c # cs \<Rightarrow> if c = 45 then (True, cs) else if c = 43 then (False, cs) else (False, s)
                       | [] \<Rightarrow> (False, s))
      in if ds = [] then None
      else case horner radix 0 ds of
        None \<Rightarrow> None
      | Some v \<Rightarrow>
          let r = (if neg then - int v else int v) in
          if - (2 ^ 63) \<le> r \<and> r < 2 ^ 63 then Some r else None)"

definition literal_digits :: "ustr \<Rightarrow> ustr \<times> nat" where
  "literal_digits s =
     (if starts_with s (scalars ''0x'') then (drop 2 s, 16)
      else if starts_with s (scalars ''0b'') then (drop 2 s, 2)
      else if starts_with s (scalars ''0o'') then (drop 2 s, 8)
      else (s, 10))"

text \<open>The inner \<open>None\<close> is the overflow of the negation of the least \<open>i64\<close>.\<close>

definition parse_int_literal :: "ustr \<Rightarrow> int option option" where
  "parse_int_literal text =
     (let s = filter (\<lambda>c. c \<noteq> 95) text;
          negative = starts_with s [45];
          (digits, radix) = literal_digits (if negative then tl s else s)
      in case from_str_radix digits radix of
        None \<Rightarrow> Some None
      | Some v \<Rightarrow>
          if negative then (if v = - (2 ^ 63) then None else Some (Some (- v))) else Some (Some v))"

definition node_int :: "tree \<Rightarrow> int option option" where
  "node_int t =
     (if t_kind t \<noteq> IntegerLiteral then Some None
      else case t_raw t of None \<Rightarrow> Some None | Some s \<Rightarrow> parse_int_literal s)"

definition node_bool :: "tree \<Rightarrow> bool option" where
  "node_bool t =
     (if t_kind t \<noteq> BoolLiteral then None
      else if t_raw t = Some (scalars ''true'') then Some True
      else if t_raw t = Some (scalars ''false'') then Some False
      else None)"

definition eval_int_literal :: "tree \<Rightarrow> 'f swift_value option" where
  "eval_int_literal t =
     (case node_int t of
        None \<Rightarrow> None
      | Some r \<Rightarrow>
          let raw = (case r of Some v \<Rightarrow> v | None \<Rightarrow> 0);
              width = (case Option.bind (map_option ty_name (t_ty t)) width_from_name of Some w \<Rightarrow> w | None \<Rightarrow> I64)
          in Some (VInt (int_new raw width)))"

section \<open>Hexadecimal doubles\<close>

text \<open>
  What \<open>parse_hex_float\<close> uses of \<open>f64\<close> and of \<open>i32\<close>: conversion of a digit, multiplication and
  addition, the sixteenth of a scale, the power of two, and the parser of the exponent.
\<close>

record 'f hex_ops =
  hx_digit :: "nat \<Rightarrow> 'f"
  hx_mul :: "'f \<Rightarrow> 'f \<Rightarrow> 'f"
  hx_add :: "'f \<Rightarrow> 'f \<Rightarrow> 'f"
  hx_div :: "'f \<Rightarrow> 'f \<Rightarrow> 'f"
  hx_neg :: "'f \<Rightarrow> 'f"
  hx_powi :: "int \<Rightarrow> 'f"
  hx_parse :: "ustr \<Rightarrow> 'f option"

fun hex_int_part :: "'f hex_ops \<Rightarrow> 'f \<Rightarrow> ustr \<Rightarrow> 'f option" where
  "hex_int_part X value [] = Some value"
| "hex_int_part X value (c # cs) =
     (case to_digit 16 c of
        None \<Rightarrow> None
      | Some d \<Rightarrow> hex_int_part X (hx_add X (hx_mul X value (hx_digit X 16)) (hx_digit X d)) cs)"

fun hex_frac_part :: "'f hex_ops \<Rightarrow> 'f \<Rightarrow> 'f \<Rightarrow> ustr \<Rightarrow> 'f option" where
  "hex_frac_part X value scale [] = Some value"
| "hex_frac_part X value scale (c # cs) =
     (case to_digit 16 c of
        None \<Rightarrow> None
      | Some d \<Rightarrow>
          hex_frac_part X (hx_add X value (hx_mul X (hx_digit X d) scale)) (hx_div X scale (hx_digit X 16)) cs)"

text \<open>\<open>str::parse::<i32>\<close>: an optional sign and decimal digits, in range.\<close>

definition parse_i32 :: "ustr \<Rightarrow> int option" where
  "parse_i32 s = (case from_str_radix s 10 of Some v \<Rightarrow> if - (2 ^ 31) \<le> v \<and> v < 2 ^ 31 then Some v else None | None \<Rightarrow> None)"

definition split_at_dot :: "ustr \<Rightarrow> ustr \<times> ustr" where
  "split_at_dot s =
     (let n = length (takeWhile (\<lambda>c. c \<noteq> 46) s) in if n < length s then (take n s, drop (Suc n) s) else (s, []))"

definition parse_hex_float :: "'f hex_ops \<Rightarrow> ustr \<Rightarrow> 'f option" where
  "parse_hex_float X rest =
     (case position (\<lambda>c. c = 112 \<or> c = 80) rest of
        None \<Rightarrow> None
      | Some p \<Rightarrow>
          (case parse_i32 (drop (p + 1) rest) of
             None \<Rightarrow> None
           | Some ex \<Rightarrow>
               let (int_part, frac_part) = split_at_dot (take p rest) in
               (case hex_int_part X (hx_digit X 0) int_part of
                  None \<Rightarrow> None
                | Some v \<Rightarrow>
                    (case hex_frac_part X v (hx_div X (hx_digit X 1) (hx_digit X 16)) frac_part of
                       None \<Rightarrow> None
                     | Some v \<Rightarrow> Some (hx_mul X v (hx_powi X ex))))))"

definition parse_float_literal :: "'f hex_ops \<Rightarrow> ustr \<Rightarrow> 'f option" where
  "parse_float_literal X text =
     (let s = filter (\<lambda>c. c \<noteq> 95) text;
          body = (if starts_with s [45] then tl s else s);
          value = (if starts_with body (scalars ''0x'') \<or> starts_with body (scalars ''0X'') then parse_hex_float X (drop 2 body)
                   else hx_parse X body)
      in map_option (\<lambda>v. if starts_with s [45] then hx_neg X v else v) value)"

section \<open>Properties\<close>

lemma bit_flag: "i < 32 \<Longrightarrow> bit (flag i) j \<longleftrightarrow> j = i" for j :: nat
  by (auto simp: flag_def bit_simps)

lemma bit_foldl_or:
  "bit (foldl (\<lambda>b m. b OR f m) (w :: 32 word) ms) i \<longleftrightarrow> bit w i \<or> (\<exists>m\<in>set ms. bit (f m) i)"
  by (induction ms arbitrary: w) (auto simp: bit_or_iff)

lemma and_flag: "i < 32 \<Longrightarrow> w AND flag i \<noteq> 0 \<longleftrightarrow> bit w i"
  unfolding bit_eq_iff [of "w AND flag i" 0] by (auto simp: bit_and_iff bit_flag)

lemma keyword_bits_bound: "map_of KEYWORD_BITS m = Some i \<Longrightarrow> i < 32"
  by (drule map_of_SomeD) (auto simp: KEYWORD_BITS_def)

lemma bit_keyword_mask: "bit (keyword_mask m) i \<longleftrightarrow> map_of KEYWORD_BITS m = Some i"
  using keyword_bits_bound [of m] by (auto simp: keyword_mask_def bit_flag split: option.split)

lemma bit_modifier_bits: "bit (modifier_bits ms) i \<longleftrightarrow> (\<exists>m\<in>set ms. map_of KEYWORD_BITS m = Some i)"
  by (simp add: modifier_bits_def bit_foldl_or bit_keyword_mask)

text \<open>The names read off a mask of modifiers are, in the order of the table, those whose bit some
  written keyword has: encoding loses order and repetition only.\<close>

theorem modifier_names_of_keywords:
  "flag_names (modifier_bits ms) =
     map snd (filter (\<lambda>(i, name). \<exists>m\<in>set ms. map_of KEYWORD_BITS m = Some i) FLAG_NAMES)"
proof -
  have "modifier_bits ms AND flag i \<noteq> 0 \<longleftrightarrow> (\<exists>m\<in>set ms. map_of KEYWORD_BITS m = Some i)"
    if "(i, name) \<in> set FLAG_NAMES" for i name
  proof -
    have "i < 32"
      using that by (auto simp: FLAG_NAMES_def)
    then show ?thesis
      by (simp add: and_flag bit_modifier_bits)
  qed
  then have "filter (\<lambda>(i, name). modifier_bits ms AND flag i \<noteq> 0) FLAG_NAMES =
      filter (\<lambda>(i, name). \<exists>m\<in>set ms. map_of KEYWORD_BITS m = Some i) FLAG_NAMES"
    by (intro filter_cong) auto
  then show ?thesis
    by (simp add: flag_names_def)
qed

lemma horner_digit: "horner radix acc ds = Some n \<Longrightarrow> c \<in> set ds \<Longrightarrow> to_digit radix c \<noteq> None"
  by (induction radix acc ds rule: horner.induct) (auto split: option.splits)

lemma to_digit_other: "radix \<le> 16 \<Longrightarrow> c \<in> {43, 45, 120, 111} \<Longrightarrow> to_digit radix c = None"
  "radix \<le> 10 \<Longrightarrow> c = 98 \<Longrightarrow> to_digit radix c = None"
  by (auto simp: to_digit_def Let_def)

lemma from_str_radix_digits:
  assumes "ds \<noteq> []" "horner radix 0 ds = Some n" "radix \<le> 16"
  shows "from_str_radix ds radix = (if n < 2 ^ 63 then Some (int n) else None)"
proof -
  obtain c cs where ds: "ds = c # cs"
    using assms(1) by (cases ds) auto
  have "to_digit radix c \<noteq> None"
    using horner_digit [OF assms(2)] by (simp add: ds)
  then have "c \<noteq> 45" "c \<noteq> 43"
    using to_digit_other(1) [OF assms(3), of 45] to_digit_other(1) [OF assms(3), of 43] by auto
  moreover have "int n < 2 ^ 63 \<longleftrightarrow> n < 2 ^ 63"
    by simp
  ultimately show ?thesis
    using assms(2) by (simp add: from_str_radix_def ds del: horner.simps)
qed

text \<open>C30. An integer literal has the value of its digits in its radix, whatever the separators, when
  that fits 64 signed bits; a literal beyond is not an error, it is zero.\<close>

theorem int_literal_value:
  assumes "filter (\<lambda>c. c \<noteq> 95) text = prefix @ ds" "ds \<noteq> []" "horner radix 0 ds = Some n"
    "(prefix, radix) \<in> {([], 10), (scalars ''0x'', 16), (scalars ''0b'', 2), (scalars ''0o'', 8)}"
  shows "eval_int_literal (Tree IntegerLiteral (Some text) line col (Some TyInt) ms l cs) =
    Some (VInt (int_new (if n < 2 ^ 63 then int n else 0) I64))"
proof -
  have bound: "radix \<le> 16"
    using assms(4) by auto
  obtain c rest where ds: "ds = c # rest"
    using assms(2) by (cases ds) auto
  have digit: "to_digit radix d \<noteq> None" if "d \<in> set ds" for d
    using horner_digit [OF assms(3) that] .
  have "c \<noteq> 45"
    using digit [of c] to_digit_other(1) [OF bound, of 45] by (auto simp: ds)
  moreover have "literal_digits (prefix @ ds) = (ds, radix)"
  proof (cases "prefix = []")
    case True
    then have "120 \<notin> set ds" "111 \<notin> set ds" "98 \<notin> set ds"
      using digit [of 120] digit [of 111] digit [of 98] to_digit_other [of radix 120] to_digit_other(1) [of radix 111]
        to_digit_other(2) [of radix 98] assms(4) by (auto simp: byte_def)
    then show ?thesis
      using True assms(4) by (cases rest) (auto simp: literal_digits_def ds byte_def)
  qed (use assms(4) in \<open>auto simp: literal_digits_def byte_def\<close>)
  moreover have "\<not> starts_with (prefix @ ds) [45]"
    using assms(4) \<open>c \<noteq> 45\<close> by (auto simp: ds byte_def)
  ultimately have "parse_int_literal text = Some (if n < 2 ^ 63 then Some (int n) else None)"
    using from_str_radix_digits [OF assms(2,3) bound] by (simp add: parse_int_literal_def assms(1) Let_def)
  then show ?thesis
    by (simp add: eval_int_literal_def node_int_def width_from_name_def byte_def)
qed

theorem int_literal_value_witness:
  "eval_int_literal (Tree IntegerLiteral (Some (scalars ''0xFFFF_FFFF_FFFF_FFFF'')) 1 1 (Some TyInt) [] None []) =
    Some (VInt (int_new 0 I64) :: nat swift_value)"
proof -
  have "horner 16 0 (scalars ''FFFFFFFFFFFFFFFF'') = Some (2 ^ 64 - 1)"
    by (simp add: byte_def to_digit_def)
  then show ?thesis
    using int_literal_value [of "scalars ''0xFFFF_FFFF_FFFF_FFFF''" "scalars ''0x''" "scalars ''FFFFFFFFFFFFFFFF''" 16 "2 ^ 64 - 1"]
    by (simp add: byte_def)
qed

end
