(* ===== verification/Control.thy ===== *)
theory Control
  imports Ast Literals Value Env
begin

text \<open>
  The control flow of the tree-walking evaluator, \<open>tswift-core/src/interp.rs\<close> with
  \<open>interp/pattern.rs\<close> and \<open>interp/sequence.rs\<close>: statements, scopes, deferred blocks, patterns,
  loops, errors and jumps, with the environment of \<open>Env\<close>.

  An evaluation takes a state to a state and either a value or a signal, the jump or error that
  travels up. It may also panic (\<open>Panics\<close>), or not end within the fuel (\<open>Diverges\<close>). Each
  construct is a definition over the evaluator of its parts, as each method of the code calls
  \<open>self.eval\<close>; \<open>eval\<close> ties the knot, with fuel for its depth and for the turns of a loop.

  Expressions, calls, types and tasks are the other methods of the same evaluator. What the
  control flow uses of them is a record of operations, \<open>P\<close>: each is given the evaluator too.
\<close>

section \<open>Signals and states\<close>

datatype eval_error =
    Unsupported ustr
  | UnknownFunction ustr
  | UnknownVariable ustr
  | ImmutableVar ustr
  | Trap ustr
  | TypeErr ustr
  | Analysis ustr
  | Io ustr

datatype 'f signal =
    Return "'f swift_value"
  | Break "ustr option"
  | Continue "ustr option"
  | Fallthrough
  | Throw "'f swift_value"
  | Error eval_error

record ('f, 'x) interp =
  i_store :: "'f swift_value store"
  i_env :: env
  i_defers :: "tree list list"
  i_heap :: "'f heap"
  i_rest :: 'x

datatype ('f, 'x, 'a) run = Diverges | Panics | Ends "('f, 'x) interp" "'f signal + 'a"

type_synonym ('f, 'x, 'a) act = "('f, 'x) interp \<Rightarrow> ('f, 'x, 'a) run"
type_synonym ('f, 'x) evaluator = "tree \<Rightarrow> ('f, 'x, 'f swift_value) act"

definition ret :: "'a \<Rightarrow> ('f, 'x, 'a) act" where
  "ret x s = Ends s (Inr x)"

definition raise_signal :: "'f signal \<Rightarrow> ('f, 'x, 'a) act" where
  "raise_signal e s = Ends s (Inl e)"

text \<open>\<open>?\<close>: a signal leaves the method.\<close>

definition bind :: "('f, 'x, 'a) act \<Rightarrow> ('a \<Rightarrow> ('f, 'x, 'b) act) \<Rightarrow> ('f, 'x, 'b) act" where
  "bind m k s =
     (case m s of
        Diverges \<Rightarrow> Diverges
      | Panics \<Rightarrow> Panics
      | Ends s' (Inl e) \<Rightarrow> Ends s' (Inl e)
      | Ends s' (Inr x) \<Rightarrow> k x s')"

text \<open>The result as a value, to match on.\<close>

definition attempt :: "('f, 'x, 'a) act \<Rightarrow> ('f, 'x, 'f signal + 'a) act" where
  "attempt m s = (case m s of Diverges \<Rightarrow> Diverges | Panics \<Rightarrow> Panics | Ends s' r \<Rightarrow> Ends s' (Inr r))"

definition result :: "'f signal + 'a \<Rightarrow> ('f, 'x, 'a) act" where
  "result r = (case r of Inl e \<Rightarrow> raise_signal e | Inr x \<Rightarrow> ret x)"

definition ignoring :: "('f, 'x, 'a) act \<Rightarrow> ('f, 'x, unit) act" where
  "ignoring m = bind (attempt m) (\<lambda>_. ret ())"

definition reading :: "(('f, 'x) interp \<Rightarrow> ('f, 'x, 'a) act) \<Rightarrow> ('f, 'x, 'a) act" where
  "reading f s = f s s"

definition unsupported :: "string \<Rightarrow> ('f, 'x, 'a) act" where
  "unsupported msg = raise_signal (Error (Unsupported (scalars msg)))"

definition trap :: "ustr \<Rightarrow> ('f, 'x, 'a) act" where
  "trap msg = raise_signal (Error (Trap msg))"

text \<open>A present optional, or the error of \<open>ok_or_else\<close>.\<close>

definition require :: "'a option \<Rightarrow> string \<Rightarrow> ('f, 'x, 'a) act" where
  "require x msg = (case x of Some v \<Rightarrow> ret v | None \<Rightarrow> unsupported msg)"

fun each :: "('a \<Rightarrow> ('f, 'x, unit) act) \<Rightarrow> 'a list \<Rightarrow> ('f, 'x, unit) act" where
  "each f [] = ret ()"
| "each f (x # xs) = bind (f x) (\<lambda>_. each f xs)"

section \<open>Scopes\<close>

definition push_scope :: "('f, 'x, unit) act" where
  "push_scope s = (let (st, e) = push (i_store s) (i_env s) in Ends (s\<lparr>i_store := st, i_env := e\<rparr>) (Inr ()))"

definition pop_scope :: "('f, 'x, unit) act" where
  "pop_scope s = Ends (s\<lparr>i_env := pop (i_env s)\<rparr>) (Inr ())"

definition declare_var :: "ustr \<Rightarrow> 'f swift_value \<Rightarrow> bool \<Rightarrow> ('f, 'x, unit) act" where
  "declare_var name v mutable s =
     (case env_declare (i_store s) (i_env s) name v mutable of
        None \<Rightarrow> Panics
      | Some st \<Rightarrow> Ends (s\<lparr>i_store := st\<rparr>) (Inr ()))"

definition declare_all :: "(ustr \<times> 'f swift_value) list \<Rightarrow> ('f, 'x, unit) act" where
  "declare_all binds = each (\<lambda>(name, v). declare_var name v False) binds"

text \<open>The result of a step in a scope of its own.\<close>

definition in_scope :: "('f, 'x, 'a) act \<Rightarrow> ('f, 'x, 'a) act" where
  "in_scope m = bind push_scope (\<lambda>_. bind (attempt m) (\<lambda>r. bind pop_scope (\<lambda>_. result r)))"

section \<open>The other methods of the evaluator\<close>

record ('f, 'x) ops =
  x_eval :: "('f, 'x) evaluator \<Rightarrow> ('f, 'x) evaluator"
  x_hoist :: "('f, 'x) evaluator \<Rightarrow> tree \<Rightarrow> ('f, 'x, unit) act"
  x_deinit :: "('f, 'x) evaluator \<Rightarrow> 'f swift_value \<Rightarrow> ('f, 'x, unit) act"
  x_held :: "('f, 'x) interp \<Rightarrow> nat \<Rightarrow> bool"
  x_held_cell :: "('f, 'x) interp \<Rightarrow> nat \<Rightarrow> bool"
  x_read_accessor :: "('f, 'x) evaluator \<Rightarrow> nat \<Rightarrow> ('f, 'x, 'f swift_value) act"
  x_accessor_var :: "('f, 'x) evaluator \<Rightarrow> ustr \<Rightarrow> tree option \<Rightarrow> tree \<Rightarrow> ('f, 'x, 'f swift_value) act"
  x_spawn :: "tree \<Rightarrow> ('f, 'x, nat) act"
  x_coerce_literal :: "('f, 'x) evaluator \<Rightarrow> tree \<Rightarrow> 'f swift_value \<Rightarrow> ('f, 'x, 'f swift_value) act"
  x_static_type :: "('f, 'x) interp \<Rightarrow> tree \<Rightarrow> ustr option"
  x_value_is_type :: "('f, 'x) interp \<Rightarrow> 'f swift_value \<Rightarrow> ustr \<Rightarrow> bool"
  x_protocols :: "'x \<Rightarrow> ustr \<Rightarrow> ustr list"
  x_type_has_method :: "'x \<Rightarrow> ustr \<Rightarrow> ustr \<Rightarrow> bool"
  x_is_class :: "'x \<Rightarrow> ustr \<Rightarrow> bool"
  x_class_has_method :: "'x \<Rightarrow> ustr \<Rightarrow> ustr \<Rightarrow> bool"
  x_struct_method :: "('f, 'x) evaluator \<Rightarrow> 'f swift_value \<Rightarrow> ustr \<Rightarrow> ustr \<Rightarrow> ustr option \<Rightarrow> ('f, 'x, 'f swift_value) act"
  x_class_method :: "('f, 'x) evaluator \<Rightarrow> 'f swift_value \<Rightarrow> ustr \<Rightarrow> ustr \<Rightarrow> ('f, 'x, 'f swift_value) act"
  x_group :: "('f, 'x) evaluator \<Rightarrow> nat \<Rightarrow> ('f, 'x, 'f swift_value list) act"
  x_stream :: "('f, 'x) evaluator \<Rightarrow> nat \<Rightarrow> ('f, 'x, 'f swift_value list) act"

section \<open>Sequences of statements\<close>

fun eval_all :: "('f, 'x) evaluator \<Rightarrow> 'f swift_value \<Rightarrow> tree list \<Rightarrow> ('f, 'x, 'f swift_value) act" where
  "eval_all ev prev [] = ret prev"
| "eval_all ev prev (c # cs) = bind (ev c) (\<lambda>v. eval_all ev v cs)"

definition eval_seq :: "('f, 'x) evaluator \<Rightarrow> ('f, 'x) evaluator" where
  "eval_seq ev t = eval_all ev VVoid (expand_directives t)"

definition eval_block :: "('f, 'x) ops \<Rightarrow> ('f, 'x) evaluator \<Rightarrow> ('f, 'x) evaluator" where
  "eval_block P ev t = bind (ignoring (x_hoist P ev t)) (\<lambda>_. eval_seq ev t)"

definition push_frame :: "('f, 'x, unit) act" where
  "push_frame s = Ends (s\<lparr>i_defers := i_defers s @ [[]]\<rparr>) (Inr ())"

definition pop_frame :: "('f, 'x, tree list) act" where
  "pop_frame s =
     (if i_defers s = [] then Ends s (Inr [])
      else Ends (s\<lparr>i_defers := butlast (i_defers s)\<rparr>) (Inr (last (i_defers s))))"

definition release_scope :: "('f, 'x) ops \<Rightarrow> ('f, 'x, 'f swift_value list) act" where
  "release_scope P s =
     (let (e, released) = pop_owned (i_store s) (x_held P s) (x_held_cell P s) (i_env s)
      in Ends (s\<lparr>i_env := e\<rparr>) (Inr released))"

text \<open>What a block does when it is left: its deferred blocks, the last first, then the scope.\<close>

definition leave_block :: "('f, 'x) ops \<Rightarrow> ('f, 'x) evaluator \<Rightarrow> ('f, 'x, unit) act" where
  "leave_block P ev =
     bind pop_frame (\<lambda>defers.
     bind (each (\<lambda>d. ignoring (ev d)) (rev defers)) (\<lambda>_.
     bind (release_scope P) (\<lambda>released.
       each (\<lambda>v. ignoring (x_deinit P ev v)) (rev released))))"

definition in_block :: "('f, 'x) ops \<Rightarrow> ('f, 'x) evaluator \<Rightarrow> tree \<Rightarrow> ('f, 'x, 'a) act \<Rightarrow> ('f, 'x, 'a) act" where
  "in_block P ev t m =
     bind push_scope (\<lambda>_. bind push_frame (\<lambda>_. bind (ignoring (x_hoist P ev t)) (\<lambda>_.
     bind (attempt m) (\<lambda>r. bind (leave_block P ev) (\<lambda>_. result r)))))"

definition eval_scoped_block :: "('f, 'x) ops \<Rightarrow> ('f, 'x) evaluator \<Rightarrow> ('f, 'x) evaluator" where
  "eval_scoped_block P ev t = in_block P ev t (eval_seq ev t)"

definition defer_block :: "tree \<Rightarrow> ('f, 'x, 'f swift_value) act" where
  "defer_block t s =
     (case first_child t of
        None \<Rightarrow> Ends s (Inr VVoid)
      | Some b \<Rightarrow>
          if i_defers s = [] then Ends s (Inr VVoid)
          else Ends (s\<lparr>i_defers := butlast (i_defers s) @ [last (i_defers s) @ [b]]\<rparr>) (Inr VVoid))"


section \<open>Names and values\<close>

definition get_var :: "ustr \<Rightarrow> ('f, 'x) interp \<Rightarrow> 'f swift_value option" where
  "get_var name s = env_get (i_store s) (i_env s) name"

definition upgrade_reference :: "'f swift_value \<Rightarrow> ustr \<Rightarrow> ('f, 'x, 'f swift_value) act" where
  "upgrade_reference v name =
     reading (\<lambda>s.
       case v of
         VWeak a \<Rightarrow> ret (if i_heap s a = None then VNil else VObject a)
       | VUnowned a \<Rightarrow>
           if i_heap s a = None
           then trap (scalars ''attempted to read an unowned reference `'' @ name @
                  scalars ''` but the object was already deallocated'')
           else ret (VObject a)
       | _ \<Rightarrow> ret v)"

definition read_binding :: "('f, 'x) ops \<Rightarrow> ('f, 'x) evaluator \<Rightarrow> ustr \<Rightarrow> ('f, 'x, 'f swift_value) act" where
  "read_binding P ev name =
     reading (\<lambda>s.
       case get_var name s of
         None \<Rightarrow> raise_signal (Error (UnknownVariable name))
       | Some (VAccessorVar idx) \<Rightarrow> x_read_accessor P ev idx
       | Some v \<Rightarrow> upgrade_reference v name)"

definition value_type_name :: "'f heap \<Rightarrow> 'f swift_value \<Rightarrow> ustr option" where
  "value_type_name H v =
     (case v of
        VStruct obj \<Rightarrow> Some (so_name obj)
      | VEnum e \<Rightarrow> Some (eo_type e)
      | VObject a \<Rightarrow> map_option so_name (H a)
      | _ \<Rightarrow> None)"

definition eval_condition :: "('f, 'x) evaluator \<Rightarrow> tree \<Rightarrow> ('f, 'x, bool) act" where
  "eval_condition ev t =
     bind (ev t) (\<lambda>v. reading (\<lambda>s.
       case as_bool v of
         Some b \<Rightarrow> ret b
       | None \<Rightarrow> raise_signal (Error (TypeErr (scalars ''condition is not Bool: '' @ type_name_of (i_heap s) v)))))"

definition eval_ternary :: "('f, 'x) evaluator \<Rightarrow> ('f, 'x) evaluator" where
  "eval_ternary ev t =
     (case t_children t of
        [] \<Rightarrow> unsupported ''ternary without condition''
      | [c] \<Rightarrow> unsupported ''ternary without then-branch''
      | [c, a] \<Rightarrow> unsupported ''ternary without else-branch''
      | c # a # b # _ \<Rightarrow>
          bind (ev c) (\<lambda>v. reading (\<lambda>s.
            case as_bool v of
              Some taken \<Rightarrow> if taken then ev a else ev b
            | None \<Rightarrow> raise_signal (Error (TypeErr (scalars ''ternary needs Bool, got '' @ type_name_of (i_heap s) v))))))"

fun eval_items :: "('f, 'x) evaluator \<Rightarrow> tree list \<Rightarrow> ('f, 'x, 'f swift_value list) act" where
  "eval_items ev [] = ret []"
| "eval_items ev (c # cs) = bind (ev c) (\<lambda>v. bind (eval_items ev cs) (\<lambda>vs. ret (v # vs)))"

definition eval_tuple :: "('f, 'x) evaluator \<Rightarrow> ('f, 'x) evaluator" where
  "eval_tuple ev t =
     bind (eval_items ev (t_children t)) (\<lambda>vs. ret (VTuple vs (map t_arg_label (t_children t))))"

text \<open>Equality of patterns with values: other kinds of values match nothing.\<close>

primrec values_equal :: "'f f64 \<Rightarrow> 'f swift_value \<Rightarrow> 'f swift_value \<Rightarrow> bool" where
  "values_equal F (VInt x) = (\<lambda>v. case v of VInt y \<Rightarrow> raw x = raw y | _ \<Rightarrow> False)"
| "values_equal F (VDouble x) = (\<lambda>v. case v of VDouble y \<Rightarrow> f_eq F x y | _ \<Rightarrow> False)"
| "values_equal F (VBool x) = (\<lambda>v. v = VBool x)"
| "values_equal F (VStr x) = (\<lambda>v. v = VStr x)"
| "values_equal F VNil = (\<lambda>v. v = VNil)"
| "values_equal F (VTuple xs _) =
     (\<lambda>v. case v of VTuple ys _ \<Rightarrow> list_all2 (\<lambda>p y. p y) (map (values_equal F) xs) ys | _ \<Rightarrow> False)"
| "values_equal F (VEnum e) =
     (\<lambda>v. case v of
        VEnum e' \<Rightarrow>
          eo_type e = eo_type e' \<and> eo_case e = eo_case e' \<and>
          list_all2 (\<lambda>p y. p y) (eo_payload (map_enum_obj (values_equal F) e)) (eo_payload e')
      | _ \<Rightarrow> False)"
| "values_equal F VVoid = (\<lambda>v. False)"
| "values_equal F (VSubstring a i j) = (\<lambda>v. False)"
| "values_equal F (VArray xs) = (\<lambda>v. False)"
| "values_equal F (VArraySlice xs i j) = (\<lambda>v. False)"
| "values_equal F (VDict ps) = (\<lambda>v. False)"
| "values_equal F (VSet xs) = (\<lambda>v. False)"
| "values_equal F (VRange lo hi inc) = (\<lambda>v. False)"
| "values_equal F (VFunction a) = (\<lambda>v. False)"
| "values_equal F (VStruct obj) = (\<lambda>v. False)"
| "values_equal F (VObject a) = (\<lambda>v. False)"
| "values_equal F (VWeak a) = (\<lambda>v. False)"
| "values_equal F (VUnowned a) = (\<lambda>v. False)"
| "values_equal F (VRegex a) = (\<lambda>v. False)"
| "values_equal F (VClosure a) = (\<lambda>v. False)"
| "values_equal F (VTask a) = (\<lambda>v. False)"
| "values_equal F (VTaskGroup a) = (\<lambda>v. False)"
| "values_equal F (VContinuation a) = (\<lambda>v. False)"
| "values_equal F (VStreamContinuation a) = (\<lambda>v. False)"
| "values_equal F (VAsyncStreamHandle a) = (\<lambda>v. False)"
| "values_equal F (VMetatype a) = (\<lambda>v. False)"
| "values_equal F (VAccessorVar a) = (\<lambda>v. False)"

section \<open>Patterns\<close>

type_synonym 'f binds = "(ustr \<times> 'f swift_value) list"

definition one_sided :: "ustr option \<Rightarrow> 'f swift_value \<Rightarrow> 'f swift_value \<Rightarrow> bool option" where
  "one_sided marker subject bound =
     (case (subject, bound) of
        (VInt s, VInt b) \<Rightarrow>
          if marker = Some (scalars ''from'') then Some (raw b \<le> raw s)
          else if marker = Some (scalars ''through'') then Some (raw s \<le> raw b)
          else if marker = Some (scalars ''upTo'') then Some (raw s < raw b)
          else None
      | _ \<Rightarrow> None)"

definition range_pattern :: "('f, 'x) evaluator \<Rightarrow> tree \<Rightarrow> 'f swift_value \<Rightarrow> ('f, 'x, 'f binds option) act" where
  "range_pattern ev t subject =
     (case t_children t of
        [b] \<Rightarrow> bind (ev b) (\<lambda>v. ret (if one_sided (t_text t) subject v = Some True then Some [] else None))
      | [a, b] \<Rightarrow>
          bind (ev a) (\<lambda>lo. bind (ev b) (\<lambda>hi.
            case (subject, lo, hi) of
              (VInt s, VInt x, VInt y) \<Rightarrow>
                ret (if raw x \<le> raw s \<and> (if t_text t = Some (scalars ''...'') then raw s \<le> raw y else raw s < raw y)
                     then Some [] else None)
            | _ \<Rightarrow> ret None))
      | _ \<Rightarrow> ret None)"

text \<open>The sub-patterns of an enum case: its children but a leading type name.\<close>

definition enum_subs :: "tree \<Rightarrow> tree list" where
  "enum_subs t = filter (\<lambda>c. t_kind c \<noteq> TypeRef) (t_children t)"

lemma enum_subs_size: "size_list size (enum_subs t) < size t"
proof -
  have "size_list size (filter p xs) \<le> size_list size xs" for p and xs :: "tree list"
    by (induction xs) auto
  then show ?thesis
    by (cases t) (simp add: enum_subs_def less_Suc_eq_le)
qed

lemma children_list_size: "size_list size (t_children t) < size t"
  by (cases t) simp

lemma head_size: "xs \<noteq> [] \<Longrightarrow> size (hd xs) \<le> size_list size xs" for xs :: "tree list"
  by (rule size_part) simp

lemma head_sizes:
  "enum_subs t \<noteq> [] \<Longrightarrow> size (hd (enum_subs t)) < size t"
  "t_children t \<noteq> [] \<Longrightarrow> size (hd (t_children t)) < size t"
  by (rule le_less_trans [OF head_size], simp, rule enum_subs_size)
    (rule le_less_trans [OF head_size], simp, rule children_list_size)

function match_pattern ::
    "'f f64 \<Rightarrow> ('f, 'x) ops \<Rightarrow> ('f, 'x) evaluator \<Rightarrow> tree \<Rightarrow> 'f swift_value \<Rightarrow> ('f, 'x, 'f binds option) act"
  and match_all ::
    "'f f64 \<Rightarrow> ('f, 'x) ops \<Rightarrow> ('f, 'x) evaluator \<Rightarrow> tree list \<Rightarrow> 'f swift_value list \<Rightarrow> ('f, 'x, 'f binds option) act" where
  "match_pattern F P ev t subject =
     (if t_kind t = WildcardPattern then ret (Some [])
      else if t_kind t = NamePattern then
        ret (Some [(case t_text t of Some n \<Rightarrow> n | None \<Rightarrow> [], subject)])
      else if t_kind t = RangePattern then range_pattern ev t subject
      else if t_kind t = EnumCasePattern then
        (let case_name = (case t_text t of Some n \<Rightarrow> n | None \<Rightarrow> []); subs = enum_subs t in
         if case_name = scalars ''some'' then
           (if subject = VNil then ret None
            else if subs = [] then ret (Some [])
            else match_pattern F P ev (hd (enum_subs t)) subject)
         else if case_name = scalars ''none'' then ret (if subject = VNil then Some [] else None)
         else case subject of
           VEnum e \<Rightarrow>
             if eo_case e \<noteq> case_name then ret None
             else if subs \<noteq> [] \<and> length subs \<noteq> length (eo_payload e) then ret None
             else match_all F P ev (enum_subs t) (eo_payload e)
         | _ \<Rightarrow> ret None)
      else if t_kind t = CastExpr then
        (if t_children t = [] then ret None
         else reading (\<lambda>s.
           if x_value_is_type P s subject
                (if length (t_children t) \<le> 1 then []
                 else case t_text (t_children t ! 1) of Some ty \<Rightarrow> ty | None \<Rightarrow> [])
           then match_pattern F P ev (hd (t_children t)) subject
           else ret None))
      else if t_kind t = TuplePattern then
        (case subject of
           VTuple items _ \<Rightarrow>
             if length (t_children t) \<noteq> length items then ret None else match_all F P ev (t_children t) items
         | _ \<Rightarrow> ret None)
      else bind (ev t) (\<lambda>v. ret (if values_equal F v subject then Some [] else None)))"
| "match_all F P ev [] items = ret (Some [])"
| "match_all F P ev (sub # subs) [] = ret (Some [])"
| "match_all F P ev (sub # subs) (item # items) =
     bind (match_pattern F P ev sub item) (\<lambda>m.
       case m of
         None \<Rightarrow> ret None
       | Some b \<Rightarrow> bind (match_all F P ev subs items) (\<lambda>m.
           case m of None \<Rightarrow> ret None | Some bs \<Rightarrow> ret (Some (b @ bs))))"
  by pat_completeness auto
termination
proof (relation "measure (case_sum (\<lambda>(F, P, ev, t, v). size t) (\<lambda>(F, P, ev, ts, vs). size_list size ts))", goal_cases)
qed (simp_all add: enum_subs_size children_list_size head_sizes)

declare match_pattern.simps [simp del]

definition match_catch ::
  "'f f64 \<Rightarrow> ('f, 'x) ops \<Rightarrow> ('f, 'x) evaluator \<Rightarrow> tree \<Rightarrow> 'f swift_value \<Rightarrow> ('f, 'x, 'f binds option) act" where
  "match_catch F P ev clause err =
     (case find (\<lambda>c. t_kind c \<noteq> Block) (t_children clause) of
        None \<Rightarrow> ret (Some [(scalars ''error'', err)])
      | Some p \<Rightarrow> match_pattern F P ev p err)"


section \<open>Conditions\<close>

definition binding_value :: "('f, 'x) ops \<Rightarrow> ('f, 'x) evaluator \<Rightarrow> tree \<Rightarrow> tree option \<Rightarrow> ('f, 'x, 'f swift_value) act" where
  "binding_value P ev pattern init =
     (case init of
        Some e \<Rightarrow> ev e
      | None \<Rightarrow> bind (require (t_text pattern) ''binding without a name'') (\<lambda>name. read_binding P ev name))"

definition cond_binding :: "'f f64 \<Rightarrow> ('f, 'x) ops \<Rightarrow> ('f, 'x) evaluator \<Rightarrow> tree \<Rightarrow> ('f, 'x, bool) act" where
  "cond_binding F P ev cond =
     bind (require (first_child cond) ''condition binding without a pattern'') (\<lambda>pattern.
       let init = find is_value_node (drop 1 (t_children cond)) in
       if t_kind pattern \<in> {NamePattern, WildcardPattern} then
         bind (binding_value P ev pattern init) (\<lambda>v.
           if v = VNil then ret False
           else case (t_kind pattern, t_text pattern) of
             (NamePattern, Some name) \<Rightarrow> bind (declare_var name v False) (\<lambda>_. ret True)
           | _ \<Rightarrow> ret True)
       else
         bind (case init of Some e \<Rightarrow> ev e | None \<Rightarrow> unsupported ''case condition without a subject'') (\<lambda>subject.
         bind (match_pattern F P ev pattern subject) (\<lambda>m.
           case m of
             None \<Rightarrow> ret False
           | Some binds \<Rightarrow> bind (declare_all binds) (\<lambda>_. ret True))))"

definition eval_cond :: "'f f64 \<Rightarrow> ('f, 'x) ops \<Rightarrow> ('f, 'x) evaluator \<Rightarrow> tree \<Rightarrow> ('f, 'x, bool) act" where
  "eval_cond F P ev cond =
     (if t_kind cond \<in> {LetDecl, VarDecl} then cond_binding F P ev cond else eval_condition ev cond)"

fun eval_cond_list :: "'f f64 \<Rightarrow> ('f, 'x) ops \<Rightarrow> ('f, 'x) evaluator \<Rightarrow> tree list \<Rightarrow> ('f, 'x, bool) act" where
  "eval_cond_list F P ev [] = ret True"
| "eval_cond_list F P ev (c # cs) =
     bind (eval_cond F P ev c) (\<lambda>b. if b then eval_cond_list F P ev cs else ret False)"

definition is_block :: "tree \<Rightarrow> bool" where
  "is_block c \<longleftrightarrow> t_kind c = Block"

definition eval_if :: "'f f64 \<Rightarrow> ('f, 'x) ops \<Rightarrow> ('f, 'x) evaluator \<Rightarrow> ('f, 'x) evaluator" where
  "eval_if F P ev t =
     (let kids = t_children t in
      bind (require (position is_block kids) ''if without a body'') (\<lambda>i.
      bind push_scope (\<lambda>_.
      bind (attempt (eval_cond_list F P ev (take i kids))) (\<lambda>passed.
        case passed of
          Inr True \<Rightarrow> bind (attempt (ev (kids ! i))) (\<lambda>r. bind pop_scope (\<lambda>_. result r))
        | Inr False \<Rightarrow>
            bind pop_scope (\<lambda>_. if i + 1 < length kids then ev (kids ! (i + 1)) else ret VVoid)
        | Inl e \<Rightarrow> bind pop_scope (\<lambda>_. raise_signal e)))))"

text \<open>\<open>rposition\<close>: the last block is the else branch.\<close>

definition eval_guard :: "'f f64 \<Rightarrow> ('f, 'x) ops \<Rightarrow> ('f, 'x) evaluator \<Rightarrow> ('f, 'x) evaluator" where
  "eval_guard F P ev t =
     (let kids = t_children t in
      bind (require (map_option (\<lambda>j. length kids - 1 - j) (position is_block (rev kids))) ''guard without else'') (\<lambda>i.
      bind (eval_cond_list F P ev (take i kids)) (\<lambda>passed.
        if passed then ret VVoid else ev (kids ! i))))"

section \<open>Loops\<close>

datatype loop_flow = LoopContinue | LoopBreak

definition run_loop_body :: "('f, 'x) evaluator \<Rightarrow> tree \<Rightarrow> ustr option \<Rightarrow> ('f, 'x, loop_flow) act" where
  "run_loop_body ev body label =
     bind (attempt (ev body)) (\<lambda>r.
       case r of
         Inr _ \<Rightarrow> ret LoopContinue
       | Inl (Break None) \<Rightarrow> ret LoopBreak
       | Inl (Break (Some l)) \<Rightarrow> if label = Some l then ret LoopBreak else raise_signal (Break (Some l))
       | Inl (Continue None) \<Rightarrow> ret LoopContinue
       | Inl (Continue (Some l)) \<Rightarrow> if label = Some l then ret LoopContinue else raise_signal (Continue (Some l))
       | Inl e \<Rightarrow> raise_signal e)"

fun while_loop ::
  "'f f64 \<Rightarrow> ('f, 'x) ops \<Rightarrow> ('f, 'x) evaluator \<Rightarrow> nat \<Rightarrow> tree list \<Rightarrow> tree \<Rightarrow> ustr option \<Rightarrow> ('f, 'x, 'f swift_value) act" where
  "while_loop F P ev 0 conds body label s = Diverges"
| "while_loop F P ev (Suc n) conds body label s =
     bind push_scope (\<lambda>_.
     bind (attempt (eval_cond_list F P ev conds)) (\<lambda>passed.
       case passed of
         Inl e \<Rightarrow> bind pop_scope (\<lambda>_. raise_signal e)
       | Inr False \<Rightarrow> bind pop_scope (\<lambda>_. ret VVoid)
       | Inr True \<Rightarrow>
           bind (attempt (run_loop_body ev body label)) (\<lambda>flow.
           bind pop_scope (\<lambda>_.
             case flow of
               Inl e \<Rightarrow> raise_signal e
             | Inr LoopContinue \<Rightarrow> while_loop F P ev n conds body label
             | Inr LoopBreak \<Rightarrow> ret VVoid)))) s"

definition eval_while :: "'f f64 \<Rightarrow> ('f, 'x) ops \<Rightarrow> ('f, 'x) evaluator \<Rightarrow> nat \<Rightarrow> ('f, 'x) evaluator" where
  "eval_while F P ev n t =
     (let kids = t_children t in
      bind (require (position is_block kids) ''while without body'') (\<lambda>i.
        while_loop F P ev n (take i kids) (kids ! i) (loop_label t)))"

fun repeat_loop :: "('f, 'x) evaluator \<Rightarrow> nat \<Rightarrow> tree \<Rightarrow> tree \<Rightarrow> ustr option \<Rightarrow> ('f, 'x, 'f swift_value) act" where
  "repeat_loop ev 0 body cond label s = Diverges"
| "repeat_loop ev (Suc n) body cond label s =
     bind (run_loop_body ev body label) (\<lambda>flow.
       if flow = LoopBreak then ret VVoid
       else bind (eval_condition ev cond) (\<lambda>b. if b then repeat_loop ev n body cond label else ret VVoid)) s"

definition eval_repeat :: "('f, 'x) evaluator \<Rightarrow> nat \<Rightarrow> ('f, 'x) evaluator" where
  "eval_repeat ev n t =
     bind (require (first_child t) ''repeat without body'') (\<lambda>body.
     bind (require (last_child t) ''repeat without condition'') (\<lambda>cond.
       repeat_loop ev n body cond (loop_label t)))"

subsection \<open>For loops\<close>

record for_parts =
  fp_name :: "ustr option"
  fp_pattern :: "tree option"
  fp_iterable :: "tree option"
  fp_where :: "tree option"
  fp_body :: "tree option"

definition for_part :: "for_parts \<Rightarrow> tree \<Rightarrow> for_parts" where
  "for_part p c =
     (let fresh = (fp_name p = None \<and> fp_pattern p = None \<and> fp_iterable p = None) in
      if t_kind c = Param then p
      else if t_kind c = Block then p\<lparr>fp_body := Some c\<rparr>
      else if t_kind c = NamePattern \<and> fresh then
        p\<lparr>fp_name := Some (case t_text c of Some n \<Rightarrow> n | None \<Rightarrow> scalars ''_'')\<rparr>
      else if t_kind c = WildcardPattern \<and> fresh then p\<lparr>fp_name := Some (scalars ''_'')\<rparr>
      else if is_pattern_node (t_kind c) \<and> fresh then p\<lparr>fp_pattern := Some c\<rparr>
      else if fp_iterable p = None then p\<lparr>fp_iterable := Some c\<rparr>
      else p\<lparr>fp_where := Some c\<rparr>)"

definition for_parts :: "tree \<Rightarrow> for_parts" where
  "for_parts t =
     foldl for_part \<lparr>fp_name = None, fp_pattern = None, fp_iterable = None, fp_where = None, fp_body = None\<rparr> (t_children t)"

definition is_builtin_iterable :: "'f swift_value \<Rightarrow> bool" where
  "is_builtin_iterable v \<longleftrightarrow>
     (case v of
        VRange _ _ _ \<Rightarrow> True | VArray _ \<Rightarrow> True | VArraySlice _ _ _ \<Rightarrow> True | VStr _ \<Rightarrow> True
      | VSubstring _ _ _ \<Rightarrow> True | VDict _ \<Rightarrow> True | VSet _ \<Rightarrow> True
      | VStruct obj \<Rightarrow>
          so_name obj \<in> {scalars ''Data'', scalars ''ReversedCollection'', scalars ''CollectionOfOne'',
            scalars ''EmptyCollection''}
      | _ \<Rightarrow> False)"

text \<open>The items of an array in a field.\<close>

definition array_of :: "'f swift_value struct_obj \<Rightarrow> string \<Rightarrow> 'f swift_value list option" where
  "array_of obj name = (case struct_get obj (scalars name) of Some (VArray items) \<Rightarrow> Some items | _ \<Rightarrow> None)"

text \<open>The outer \<open>None\<close> is the panic of a slice out of its base.\<close>

definition window :: "'a list \<Rightarrow> nat \<Rightarrow> nat \<Rightarrow> 'a list option" where
  "window xs i j = (if i \<le> j \<and> j \<le> length xs then Some (take (j - i) (drop i xs)) else None)"

text \<open>The end of a range, exclusive. The bounds are \<open>i128\<close>, where the release build wraps around.\<close>

definition range_end :: "int \<Rightarrow> bool \<Rightarrow> int" where
  "range_end hi inclusive = (if inclusive then wrap_i128 (hi + 1) else hi)"

definition materialize :: "'f swift_value \<Rightarrow> 'f swift_value list option option" where
  "materialize v =
     (case v of
        VArray items \<Rightarrow> Some (Some items)
      | VArraySlice base i j \<Rightarrow> map_option Some (window base i j)
      | VRange lo hi inclusive \<Rightarrow> Some (Some (map value_int [lo..range_end hi inclusive - 1]))
      | VStr s \<Rightarrow> Some (Some (map VStr (graphemes s)))
      | VSubstring base i j \<Rightarrow> map_option (\<lambda>gs. Some (map VStr gs)) (window (graphemes base) i j)
      | VDict pairs \<Rightarrow>
          Some (Some (map (\<lambda>(k, v). VTuple [k, v] [Some (scalars ''key''), Some (scalars ''value'')]) pairs))
      | VSet items \<Rightarrow> Some (Some items)
      | VStruct obj \<Rightarrow>
          Some (
            if so_name obj = scalars ''IndexPath'' then array_of obj ''_indexes''
            else if so_name obj = scalars ''IndexSet'' then array_of obj ''_values''
            else if so_name obj = scalars ''Data'' then array_of obj ''_bytes''
            else if so_name obj = scalars ''ReversedCollection'' then map_option rev (array_of obj ''_base'')
            else if so_name obj = scalars ''CollectionOfOne'' then
              map_option (\<lambda>e. [e]) (struct_get obj (scalars ''_element''))
            else if so_name obj = scalars ''EmptyCollection'' then Some []
            else None)
      | _ \<Rightarrow> Some None)"

definition iterate :: "'f swift_value \<Rightarrow> ('f, 'x, 'f swift_value list) act" where
  "iterate v s =
     (case materialize v of
        None \<Rightarrow> Panics
      | Some (Some items) \<Rightarrow> ret items s
      | Some None \<Rightarrow> raise_signal (Error (TypeErr (scalars ''cannot iterate over '' @ type_name_of (i_heap s) v))) s)"

text \<open>
  What one element does, in a scope of its own: the binding, the filter, the body. \<open>None\<close> is an
  element that is skipped. A signal of the pattern leaves the loop before the scope is popped;
  the loops over iterators pop it first, which is what \<open>guarded\<close> says.
\<close>

definition bind_element ::
  "'f f64 \<Rightarrow> ('f, 'x) ops \<Rightarrow> ('f, 'x) evaluator \<Rightarrow> ustr option \<Rightarrow> tree option \<Rightarrow> 'f swift_value \<Rightarrow> ('f, 'x, bool) act" where
  "bind_element F P ev name pattern item =
     (case pattern of
        Some pat \<Rightarrow>
          bind (match_pattern F P ev pat item) (\<lambda>m.
            case m of Some binds \<Rightarrow> bind (declare_all binds) (\<lambda>_. ret True) | None \<Rightarrow> ret False)
      | None \<Rightarrow>
          (case name of Some n \<Rightarrow> bind (declare_var n item False) (\<lambda>_. ret True) | None \<Rightarrow> ret True))"

definition guarded :: "bool \<Rightarrow> ('f, 'x, 'a) act \<Rightarrow> ('f, 'x, 'a) act" where
  "guarded g m =
     (if g then bind (attempt m) (\<lambda>r. case r of Inl e \<Rightarrow> bind pop_scope (\<lambda>_. raise_signal e) | Inr x \<Rightarrow> ret x) else m)"

definition element_where :: "('f, 'x) evaluator \<Rightarrow> tree option \<Rightarrow> ('f, 'x, bool) act" where
  "element_where ev filter_expr =
     (case filter_expr of
        None \<Rightarrow> ret True
      | Some w \<Rightarrow> guarded True (eval_condition ev w))"

definition run_element ::
  "'f f64 \<Rightarrow> ('f, 'x) ops \<Rightarrow> ('f, 'x) evaluator \<Rightarrow> bool \<Rightarrow> ustr option \<Rightarrow> tree option \<Rightarrow> tree option \<Rightarrow> tree \<Rightarrow>
   ustr option \<Rightarrow> 'f swift_value \<Rightarrow> ('f, 'x, loop_flow) act" where
  "run_element F P ev g name pattern filter_expr body label item =
     bind push_scope (\<lambda>_.
     bind (guarded g (bind_element F P ev name pattern item)) (\<lambda>bound.
       if \<not> bound then bind pop_scope (\<lambda>_. ret LoopContinue)
       else bind (element_where ev filter_expr) (\<lambda>pass.
         if \<not> pass then bind pop_scope (\<lambda>_. ret LoopContinue)
         else bind (attempt (run_loop_body ev body label)) (\<lambda>flow. bind pop_scope (\<lambda>_. result flow)))))"

fun for_items ::
  "'f f64 \<Rightarrow> ('f, 'x) ops \<Rightarrow> ('f, 'x) evaluator \<Rightarrow> ustr option \<Rightarrow> tree option \<Rightarrow> tree option \<Rightarrow> tree \<Rightarrow> ustr option \<Rightarrow>
   'f swift_value list \<Rightarrow> ('f, 'x, 'f swift_value) act" where
  "for_items F P ev name pattern filter_expr body label [] = ret VVoid"
| "for_items F P ev name pattern filter_expr body label (item # items) =
     bind (run_element F P ev False name pattern filter_expr body label item) (\<lambda>flow.
       if flow = LoopBreak then ret VVoid
       else for_items F P ev name pattern filter_expr body label items)"


subsection \<open>Sequences with an iterator\<close>

definition type_name_or :: "'f swift_value \<Rightarrow> string \<Rightarrow> ('f, 'x, ustr) act" where
  "type_name_or v msg =
     reading (\<lambda>s. case value_type_name (i_heap s) v of
       Some ty \<Rightarrow> ret ty | None \<Rightarrow> raise_signal (Error (TypeErr (scalars msg))))"

definition seq_type_has_method :: "('f, 'x) ops \<Rightarrow> 'x \<Rightarrow> ustr \<Rightarrow> ustr \<Rightarrow> bool" where
  "seq_type_has_method P x ty method \<longleftrightarrow>
     x_type_has_method P x ty method \<or> (x_is_class P x ty \<and> x_class_has_method P x ty method)"

definition is_sequence_conformer :: "('f, 'x) ops \<Rightarrow> 'x \<Rightarrow> ustr \<Rightarrow> bool" where
  "is_sequence_conformer P x ty \<longleftrightarrow> scalars ''Sequence'' \<in> set (x_protocols P x ty)"

definition is_iterator_conformer :: "('f, 'x) ops \<Rightarrow> 'x \<Rightarrow> ustr \<Rightarrow> bool" where
  "is_iterator_conformer P x ty \<longleftrightarrow> scalars ''IteratorProtocol'' \<in> set (x_protocols P x ty)"

definition is_custom_sequence :: "('f, 'x) ops \<Rightarrow> ('f, 'x) interp \<Rightarrow> 'f swift_value \<Rightarrow> bool" where
  "is_custom_sequence P s v \<longleftrightarrow>
     (case value_type_name (i_heap s) v of
        None \<Rightarrow> False
      | Some ty \<Rightarrow>
          (is_sequence_conformer P (i_rest s) ty \<and> seq_type_has_method P (i_rest s) ty (scalars ''makeIterator'')) \<or>
          (is_iterator_conformer P (i_rest s) ty \<and> seq_type_has_method P (i_rest s) ty (scalars ''next'')))"

definition call_sequence_method ::
  "('f, 'x) ops \<Rightarrow> ('f, 'x) evaluator \<Rightarrow> 'f swift_value \<Rightarrow> ustr \<Rightarrow> ustr \<Rightarrow> ustr option \<Rightarrow> ('f, 'x, 'f swift_value) act" where
  "call_sequence_method P ev receiver ty method place =
     reading (\<lambda>s.
       if x_is_class P (i_rest s) ty then x_class_method P ev receiver ty method
       else x_struct_method P ev receiver ty method place)"

text \<open>The iterator of a sequence: what \<open>makeIterator\<close> returns, or the value itself.\<close>

definition make_iterator :: "('f, 'x) ops \<Rightarrow> ('f, 'x) evaluator \<Rightarrow> 'f swift_value \<Rightarrow> ('f, 'x, 'f swift_value) act" where
  "make_iterator P ev v =
     bind (type_name_or v ''sequence has no type'') (\<lambda>ty. reading (\<lambda>s.
       if is_sequence_conformer P (i_rest s) ty \<and> seq_type_has_method P (i_rest s) ty (scalars ''makeIterator'')
       then call_sequence_method P ev v ty (scalars ''makeIterator'') None
       else ret v))"

definition make_async_iterator :: "('f, 'x) ops \<Rightarrow> ('f, 'x) evaluator \<Rightarrow> 'f swift_value \<Rightarrow> ('f, 'x, 'f swift_value) act" where
  "make_async_iterator P ev v =
     reading (\<lambda>s.
       case value_type_name (i_heap s) v of
         Some ty \<Rightarrow>
           if x_type_has_method P (i_rest s) ty (scalars ''next'') then ret v
           else if x_type_has_method P (i_rest s) ty (scalars ''makeAsyncIterator'')
           then x_struct_method P ev v ty (scalars ''makeAsyncIterator'') None
           else raise_signal (Error (TypeErr (scalars ''cannot iterate over '' @ type_name_of (i_heap s) v @
             scalars '' (not an AsyncSequence)'')))
       | None \<Rightarrow> raise_signal (Error (TypeErr (scalars ''cannot iterate over '' @ type_name_of (i_heap s) v @
             scalars '' (not an AsyncSequence)''))))"

text \<open>The next element: the iterator is read from its variable and written back to it by the call.\<close>

definition next_element ::
  "('f, 'x) ops \<Rightarrow> ('f, 'x) evaluator \<Rightarrow> bool \<Rightarrow> ustr \<Rightarrow> ustr \<Rightarrow> ('f, 'x, 'f swift_value) act" where
  "next_element P ev async iter ty =
     reading (\<lambda>s.
       let current = (case get_var iter s of Some v \<Rightarrow> v | None \<Rightarrow> VNil) in
       if async then x_struct_method P ev current ty (scalars ''next'') (Some iter)
       else call_sequence_method P ev current ty (scalars ''next'') (Some iter))"

fun iterator_loop ::
  "('f, 'x, 'f swift_value) act \<Rightarrow> ('f swift_value \<Rightarrow> ('f, 'x, loop_flow) act) \<Rightarrow> nat \<Rightarrow> ('f, 'x, 'f swift_value) act" where
  "iterator_loop get_next step 0 s = Diverges"
| "iterator_loop get_next step (Suc n) s =
     bind get_next (\<lambda>v.
       if v = VNil then ret VVoid
       else bind (step v) (\<lambda>flow. if flow = LoopBreak then ret VVoid else iterator_loop get_next step n)) s"

definition run_iterator ::
  "'f f64 \<Rightarrow> ('f, 'x) ops \<Rightarrow> ('f, 'x) evaluator \<Rightarrow> nat \<Rightarrow> bool \<Rightarrow> string \<Rightarrow> 'f swift_value \<Rightarrow> ustr \<Rightarrow>
   ('f swift_value \<Rightarrow> ('f, 'x, loop_flow) act) \<Rightarrow> ('f, 'x, 'f swift_value) act" where
  "run_iterator F P ev n async var iter ty step =
     in_scope (bind (declare_var (scalars var) iter True) (\<lambda>_.
       iterator_loop (next_element P ev async (scalars var) ty) step n))"

definition run_sync_sequence ::
  "'f f64 \<Rightarrow> ('f, 'x) ops \<Rightarrow> ('f, 'x) evaluator \<Rightarrow> nat \<Rightarrow> 'f swift_value \<Rightarrow> ustr option \<Rightarrow> tree option \<Rightarrow> tree option \<Rightarrow>
   tree \<Rightarrow> ustr option \<Rightarrow> ('f, 'x, 'f swift_value) act" where
  "run_sync_sequence F P ev n v name pattern filter_expr body label =
     bind (make_iterator P ev v) (\<lambda>iter.
     bind (type_name_or iter ''iterator has no type'') (\<lambda>ty.
       run_iterator F P ev n False ''$synciter'' iter ty
         (run_element F P ev True name pattern filter_expr body label)))"

definition run_async_sequence ::
  "'f f64 \<Rightarrow> ('f, 'x) ops \<Rightarrow> ('f, 'x) evaluator \<Rightarrow> nat \<Rightarrow> 'f swift_value \<Rightarrow> ustr \<Rightarrow> tree option \<Rightarrow> tree \<Rightarrow> ustr option \<Rightarrow>
   ('f, 'x, 'f swift_value) act" where
  "run_async_sequence F P ev n v name filter_expr body label =
     bind (make_async_iterator P ev v) (\<lambda>iter.
     bind (type_name_or iter ''async iterator has no type'') (\<lambda>ty.
       run_iterator F P ev n True ''$asynciter'' iter ty
         (run_element F P ev True (Some name) None filter_expr body label)))"

definition eval_for :: "'f f64 \<Rightarrow> ('f, 'x) ops \<Rightarrow> ('f, 'x) evaluator \<Rightarrow> nat \<Rightarrow> ('f, 'x) evaluator" where
  "eval_for F P ev n t =
     (let p = for_parts t; name = fp_name p; pattern = fp_pattern p; label = loop_label t in
      if name = None \<and> pattern = None then unsupported ''for-loop without a binding''
      else
        bind (require (fp_iterable p) ''for-loop without a sequence'') (\<lambda>iterable.
        bind (require (fp_body p) ''for-loop without a body'') (\<lambda>body.
        bind (ev iterable) (\<lambda>v. reading (\<lambda>s.
          let items = for_items F P ev name pattern (fp_where p) body label in
          case v of
            VTaskGroup gid \<Rightarrow> bind (x_group P ev gid) items
          | VAsyncStreamHandle sid \<Rightarrow> bind (x_stream P ev sid) items
          | _ \<Rightarrow>
              if is_async t \<and> \<not> is_builtin_iterable v then
                run_async_sequence F P ev n v (case name of Some m \<Rightarrow> m | None \<Rightarrow> scalars ''_'') (fp_where p) body label
              else if \<not> is_builtin_iterable v \<and> is_custom_sequence P s v then
                run_sync_sequence F P ev n v name pattern (fp_where p) body label
              else bind (iterate v) items)))))"

section \<open>Errors\<close>

fun try_catches ::
  "'f f64 \<Rightarrow> ('f, 'x) ops \<Rightarrow> ('f, 'x) evaluator \<Rightarrow> 'f swift_value \<Rightarrow> tree list \<Rightarrow> ('f, 'x, 'f swift_value) act" where
  "try_catches F P ev err [] = raise_signal (Throw err)"
| "try_catches F P ev err (c # cs) =
     bind (match_catch F P ev c err) (\<lambda>m.
       case m of
         None \<Rightarrow> try_catches F P ev err cs
       | Some binds \<Rightarrow>
           bind (require (find is_block (t_children c)) ''catch without a body'') (\<lambda>body.
           bind push_scope (\<lambda>_. bind (declare_all binds) (\<lambda>_.
           bind (attempt (ev body)) (\<lambda>r. bind pop_scope (\<lambda>_. result r))))))"

definition eval_do :: "'f f64 \<Rightarrow> ('f, 'x) ops \<Rightarrow> ('f, 'x) evaluator \<Rightarrow> ('f, 'x) evaluator" where
  "eval_do F P ev t =
     bind (require (find is_block (t_children t)) ''do without a body'') (\<lambda>body.
     bind (attempt (ev body)) (\<lambda>r.
       case r of
         Inl (Throw err) \<Rightarrow> try_catches F P ev err (filter (\<lambda>c. t_kind c = CatchClause) (t_children t))
       | _ \<Rightarrow> result r))"

definition eval_try :: "'f f64 \<Rightarrow> ('f, 'x) evaluator \<Rightarrow> nat \<Rightarrow> ('f, 'x) evaluator" where
  "eval_try F ev n t =
     bind (require (first_child t) ''try without an expression'') (\<lambda>inner.
     bind (attempt (ev inner)) (\<lambda>r.
       if t_text t = Some (scalars ''?'') then
         (case r of Inl (Throw _) \<Rightarrow> ret VNil | _ \<Rightarrow> result r)
       else if t_text t = Some (scalars ''!'') then
         (case r of
            Inl (Throw e) \<Rightarrow> (\<lambda>s.
              case display F (i_heap s) n e of
                None \<Rightarrow> Diverges
              | Some shown \<Rightarrow> trap (scalars ''unexpected error: '' @ shown) s)
          | _ \<Rightarrow> result r)
       else result r))"

section \<open>Declarations\<close>

function bind_tuple_pattern :: "'f heap \<Rightarrow> tree \<Rightarrow> 'f swift_value \<Rightarrow> bool \<Rightarrow> ('f, 'x, unit) act"
  and bind_tuple_elems :: "'f heap \<Rightarrow> tree list \<Rightarrow> 'f swift_value list \<Rightarrow> bool \<Rightarrow> ('f, 'x, unit) act" where
  "bind_tuple_pattern H t v mutable =
     (case v of
        VTuple items _ \<Rightarrow> bind_tuple_elems H (t_children t) items mutable
      | _ \<Rightarrow> raise_signal (Error (TypeErr (scalars ''cannot destructure '' @ type_name_of H v @ scalars '' as a tuple''))))"
| "bind_tuple_elems H [] items mutable = ret ()"
| "bind_tuple_elems H (sub # subs) [] mutable = ret ()"
| "bind_tuple_elems H (sub # subs) (item # items) mutable =
     bind
       (if t_kind sub = WildcardPattern then ret ()
        else if t_kind sub = TuplePattern then bind_tuple_pattern H sub item mutable
        else case t_text sub of
          None \<Rightarrow> ret ()
        | Some name \<Rightarrow> if name = scalars ''_'' then ret () else declare_var name item mutable)
       (\<lambda>_. bind_tuple_elems H subs items mutable)"
  by pat_completeness auto
termination
  apply (relation "measure (case_sum (\<lambda>(H, t, v, m). size t) (\<lambda>(H, ts, vs, m). size_list size ts))")
  apply simp
  apply (simp add: children_list_size)
  apply simp
  apply simp
  done

declare bind_tuple_pattern.simps [simp del]

fun dedup_from :: "'f f64 \<Rightarrow> 'f swift_value list \<Rightarrow> 'f swift_value list \<Rightarrow> 'f swift_value list" where
  "dedup_from F out [] = out"
| "dedup_from F out (it # items) =
     dedup_from F (if list_ex (\<lambda>x. swift_eq F x it) out then out else out @ [it]) items"

definition dedup_preserving_order :: "'f f64 \<Rightarrow> 'f swift_value list \<Rightarrow> 'f swift_value list" where
  "dedup_preserving_order F items = dedup_from F [] items"

definition coerce_int_to_type_name :: "'f f64 \<Rightarrow> ustr \<Rightarrow> 'f swift_value \<Rightarrow> 'f swift_value option" where
  "coerce_int_to_type_name F ty v =
     (case v of
        VInt i \<Rightarrow>
          if ty = scalars ''Double'' \<or> ty = scalars ''Float'' then Some (VDouble (f_of_int F (raw i)))
          else map_option (\<lambda>w. VInt (int_new (raw i) w)) (width_from_name ty)
      | _ \<Rightarrow> None)"

fun first_coercion :: "'f f64 \<Rightarrow> 'f swift_value \<Rightarrow> tree list \<Rightarrow> 'f swift_value" where
  "first_coercion F v [] = v"
| "first_coercion F v (c # cs) =
     (case (if t_kind c = TypeRef then Option.bind (t_text c) (\<lambda>ty. coerce_int_to_type_name F ty v) else None) of
        Some w \<Rightarrow> w
      | None \<Rightarrow> first_coercion F v cs)"

definition is_set_annotation :: "tree \<Rightarrow> bool" where
  "is_set_annotation c \<longleftrightarrow>
     t_kind c = TypeRef \<and>
     (case t_text c of None \<Rightarrow> False | Some ty \<Rightarrow> starts_with ty (scalars ''Set<'') \<or> ty = scalars ''Set'')"

definition coerce_to_decl_type :: "'f f64 \<Rightarrow> tree \<Rightarrow> 'f swift_value \<Rightarrow> 'f swift_value" where
  "coerce_to_decl_type F t v =
     (case v of
        VArray items \<Rightarrow>
          if list_ex is_set_annotation (t_children t) then VSet (dedup_preserving_order F items) else v
      | _ \<Rightarrow> first_coercion F v (t_children t))"

text \<open>The bodies of accessors: a \<open>get\<close>, or a \<open>willSet\<close> or \<open>didSet\<close> with a block.\<close>

definition has_accessors :: "tree \<Rightarrow> bool" where
  "has_accessors t \<longleftrightarrow>
     list_ex (\<lambda>c. t_kind c = Accessor \<and> t_text c = Some (scalars ''get'')) (t_children t) \<or>
     (\<exists>name \<in> {''willSet'', ''didSet''}.
        (case filter (\<lambda>c. t_kind c = Accessor \<and> t_text c = Some (scalars name)) (t_children t) of
           [] \<Rightarrow> False
         | cs \<Rightarrow> list_ex is_block (t_children (last cs))))"

definition annotation :: "tree \<Rightarrow> ustr option" where
  "annotation t = Option.bind (find (\<lambda>c. t_kind c = TypeRef) (t_children t)) t_text"

definition declare_stored ::
  "'f f64 \<Rightarrow> ('f, 'x) ops \<Rightarrow> ('f, 'x) evaluator \<Rightarrow> tree \<Rightarrow> ustr \<Rightarrow> tree option \<Rightarrow> bool \<Rightarrow> ('f, 'x, 'f swift_value) act" where
  "declare_stored F P ev t name init mutable =
     bind (case init of
             None \<Rightarrow> ret VVoid
           | Some e \<Rightarrow> bind (ev e) (\<lambda>v. bind (x_coerce_literal P ev t v) (\<lambda>v. ret (coerce_to_decl_type F t v))))
       (\<lambda>v. reading (\<lambda>s.
          let decl_ty =
            (case annotation t of
               Some ty \<Rightarrow> Some ty
             | None \<Rightarrow> Option.bind init (\<lambda>e.
                 case x_static_type P s e of
                   Some ty \<Rightarrow> if Type_Repr.is_optional (Type_Repr.parse ty) then Some ty else None
                 | None \<Rightarrow> None))
          in bind (declare_var name v mutable) (\<lambda>_ s.
               Ends (s\<lparr>i_store := (case decl_ty of Some ty \<Rightarrow> set_declared_type (i_store s) (i_env s) name ty
                                   | None \<Rightarrow> i_store s)\<rparr>) (Inr VVoid))))"

definition eval_decl :: "'f f64 \<Rightarrow> ('f, 'x) ops \<Rightarrow> ('f, 'x) evaluator \<Rightarrow> bool \<Rightarrow> ('f, 'x) evaluator" where
  "eval_decl F P ev mutable t =
     (let init = find is_value_node (rev (t_children t)) in
      case find (\<lambda>c. t_kind c = TuplePattern) (t_children t) of
        Some pat \<Rightarrow>
          bind (require init ''tuple binding without initializer'') (\<lambda>e.
          bind (ev e) (\<lambda>v. reading (\<lambda>s.
          bind (bind_tuple_pattern (i_heap s) pat v mutable) (\<lambda>_. ret VVoid))))
      | None \<Rightarrow>
          bind (require (decl_name t) ''declaration without a name'') (\<lambda>name.
            if has_accessors t then x_accessor_var P ev name init t
            else case (is_async t, init) of
              (True, Some e) \<Rightarrow>
                bind (x_spawn P e) (\<lambda>task. bind (declare_var name (VTask task) mutable) (\<lambda>_. ret VVoid))
            | _ \<Rightarrow> declare_stored F P ev t name init mutable))"


text \<open>An iterator run to its end for the algorithms of the library, up to a bound.\<close>

definition MAX_SEQUENCE_MATERIALIZE :: nat where
  "MAX_SEQUENCE_MATERIALIZE = 100000"

fun collect_elements :: "('f, 'x, 'f swift_value) act \<Rightarrow> nat \<Rightarrow> 'f swift_value list \<Rightarrow> ('f, 'x, 'f swift_value list) act" where
  "collect_elements get_next 0 items =
     trap (scalars ''custom sequence algorithm exceeded '' @ dec_digits MAX_SEQUENCE_MATERIALIZE @ scalars '' elements'')"
| "collect_elements get_next (Suc n) items =
     bind get_next (\<lambda>v. if v = VNil then ret items else collect_elements get_next n (items @ [v]))"

definition materialize_custom_sequence ::
  "('f, 'x) ops \<Rightarrow> ('f, 'x) evaluator \<Rightarrow> 'f swift_value \<Rightarrow> ('f, 'x, 'f swift_value list) act" where
  "materialize_custom_sequence P ev v =
     bind (make_iterator P ev v) (\<lambda>iter.
     bind (type_name_or iter ''iterator has no type'') (\<lambda>ty.
       in_scope (bind (declare_var (scalars ''$algoiter'') iter True) (\<lambda>_.
         collect_elements (next_element P ev False (scalars ''$algoiter'') ty) MAX_SEQUENCE_MATERIALIZE []))))"

text \<open>An async iterator run to its end for the same algorithms, without a bound: fuel for its turns.\<close>

fun drain_iterator :: "('f, 'x, 'f swift_value) act \<Rightarrow> nat \<Rightarrow> 'f swift_value list \<Rightarrow> ('f, 'x, 'f swift_value list) act" where
  "drain_iterator get_next 0 items s = Diverges"
| "drain_iterator get_next (Suc n) items s =
     bind get_next (\<lambda>v. if v = VNil then ret items else drain_iterator get_next n (items @ [v])) s"

definition collect_async_sequence ::
  "('f, 'x) ops \<Rightarrow> ('f, 'x) evaluator \<Rightarrow> nat \<Rightarrow> 'f swift_value \<Rightarrow> ('f, 'x, 'f swift_value list) act" where
  "collect_async_sequence P ev n v =
     (case v of
        VAsyncStreamHandle sid \<Rightarrow> x_stream P ev sid
      | _ \<Rightarrow>
          bind (make_async_iterator P ev v) (\<lambda>iter.
          bind (type_name_or iter ''async iterator has no type'') (\<lambda>ty.
            in_scope (bind (declare_var (scalars ''$asynccollect'') iter True) (\<lambda>_.
              drain_iterator (next_element P ev True (scalars ''$asynccollect'') ty) n [])))))"

section \<open>Switch\<close>

fun match_any ::
  "'f f64 \<Rightarrow> ('f, 'x) ops \<Rightarrow> ('f, 'x) evaluator \<Rightarrow> tree option \<Rightarrow> 'f swift_value \<Rightarrow> tree list \<Rightarrow> ('f, 'x, 'f binds option) act" where
  "match_any F P ev guard subject [] = ret None"
| "match_any F P ev guard subject (p # ps) =
     bind (match_pattern F P ev p subject) (\<lambda>m.
       case m of
         None \<Rightarrow> match_any F P ev guard subject ps
       | Some binds \<Rightarrow>
           (case guard of
              None \<Rightarrow> ret (Some binds)
            | Some g \<Rightarrow>
                bind (in_scope (bind (declare_all binds) (\<lambda>_. eval_condition ev g))) (\<lambda>pass.
                  if pass then ret (Some binds) else match_any F P ev guard subject ps)))"

definition case_matches ::
  "'f f64 \<Rightarrow> ('f, 'x) ops \<Rightarrow> ('f, 'x) evaluator \<Rightarrow> tree \<Rightarrow> 'f swift_value \<Rightarrow> ('f, 'x, 'f binds option) act" where
  "case_matches F P ev c subject =
     (if is_default c then ret (Some [])
      else match_any F P ev (where_expr c) subject (fst (case_parts c)))"

text \<open>The clauses from the first that matches on, with what it binds.\<close>

fun find_case ::
  "'f f64 \<Rightarrow> ('f, 'x) ops \<Rightarrow> ('f, 'x) evaluator \<Rightarrow> 'f swift_value \<Rightarrow> tree list \<Rightarrow>
   ('f, 'x, (tree list \<times> 'f binds) option) act" where
  "find_case F P ev subject [] = ret None"
| "find_case F P ev subject (c # cs) =
     bind (case_matches F P ev c subject) (\<lambda>m.
       case m of None \<Rightarrow> find_case F P ev subject cs | Some binds \<Rightarrow> ret (Some (c # cs, binds)))"

text \<open>The statements of a clause: whether they fell through.\<close>

fun case_body :: "('f, 'x) evaluator \<Rightarrow> tree list \<Rightarrow> ('f, 'x, bool) act" where
  "case_body ev [] = ret False"
| "case_body ev (t # ts) =
     bind (attempt (ev t)) (\<lambda>r.
       case r of
         Inr _ \<Rightarrow> case_body ev ts
       | Inl Fallthrough \<Rightarrow> ret True
       | Inl (Break None) \<Rightarrow> ret False
       | Inl e \<Rightarrow> raise_signal e)"

primrec run_cases :: "('f, 'x) evaluator \<Rightarrow> tree list \<Rightarrow> 'f binds \<Rightarrow> ('f, 'x, 'f swift_value) act" where
  "run_cases ev [] binds = ret VVoid"
| "run_cases ev (c # cs) binds =
     bind push_scope (\<lambda>_. bind (declare_all binds) (\<lambda>_.
     bind (attempt (case_body ev (snd (case_parts c)))) (\<lambda>r.
     bind pop_scope (\<lambda>_.
     bind (result r) (\<lambda>fell. if fell \<and> cs \<noteq> [] then run_cases ev cs [] else ret VVoid)))))"

definition eval_switch :: "'f f64 \<Rightarrow> ('f, 'x) ops \<Rightarrow> ('f, 'x) evaluator \<Rightarrow> ('f, 'x) evaluator" where
  "eval_switch F P ev t =
     bind (require (first_child t) ''switch without a subject'') (\<lambda>subject_node.
     bind (ev subject_node) (\<lambda>subject.
     bind (find_case F P ev subject (filter (\<lambda>c. t_kind c = CaseClause) (drop 1 (t_children t)))) (\<lambda>chosen.
       case chosen of None \<Rightarrow> ret VVoid | Some (cases, binds) \<Rightarrow> run_cases ev cases binds)))"

section \<open>The evaluator\<close>

primrec kind_debug :: "node_kind \<Rightarrow> ustr" where
  "kind_debug SourceFile = scalars ''SourceFile''"
| "kind_debug ExprStmt = scalars ''ExprStmt''"
| "kind_debug CallExpr = scalars ''CallExpr''"
| "kind_debug IdentExpr = scalars ''IdentExpr''"
| "kind_debug BinaryExpr = scalars ''BinaryExpr''"
| "kind_debug PrefixExpr = scalars ''PrefixExpr''"
| "kind_debug AssignExpr = scalars ''AssignExpr''"
| "kind_debug TernaryExpr = scalars ''TernaryExpr''"
| "kind_debug TupleExpr = scalars ''TupleExpr''"
| "kind_debug ArrayLiteral = scalars ''ArrayLiteral''"
| "kind_debug DictLiteral = scalars ''DictLiteral''"
| "kind_debug SubscriptExpr = scalars ''SubscriptExpr''"
| "kind_debug MemberExpr = scalars ''MemberExpr''"
| "kind_debug KeyPathExpr = scalars ''KeyPathExpr''"
| "kind_debug LetDecl = scalars ''LetDecl''"
| "kind_debug VarDecl = scalars ''VarDecl''"
| "kind_debug FuncDecl = scalars ''FuncDecl''"
| "kind_debug StructDecl = scalars ''StructDecl''"
| "kind_debug EnumDecl = scalars ''EnumDecl''"
| "kind_debug ClassDecl = scalars ''ClassDecl''"
| "kind_debug ActorDecl = scalars ''ActorDecl''"
| "kind_debug ProtocolDecl = scalars ''ProtocolDecl''"
| "kind_debug ExtensionDecl = scalars ''ExtensionDecl''"
| "kind_debug AssociatedTypeDecl = scalars ''AssociatedTypeDecl''"
| "kind_debug TypeAliasDecl = scalars ''TypeAliasDecl''"
| "kind_debug ImportDecl = scalars ''ImportDecl''"
| "kind_debug MacroDecl = scalars ''MacroDecl''"
| "kind_debug GenericParam = scalars ''GenericParam''"
| "kind_debug DeinitDecl = scalars ''DeinitDecl''"
| "kind_debug DoStmt = scalars ''DoStmt''"
| "kind_debug CatchClause = scalars ''CatchClause''"
| "kind_debug ThrowStmt = scalars ''ThrowStmt''"
| "kind_debug DeferStmt = scalars ''DeferStmt''"
| "kind_debug TryExpr = scalars ''TryExpr''"
| "kind_debug AwaitExpr = scalars ''AwaitExpr''"
| "kind_debug InoutExpr = scalars ''InoutExpr''"
| "kind_debug OperatorDecl = scalars ''OperatorDecl''"
| "kind_debug PrecedenceGroupDecl = scalars ''PrecedenceGroupDecl''"
| "kind_debug CompilerDirective = scalars ''CompilerDirective''"
| "kind_debug Attribute = scalars ''Attribute''"
| "kind_debug ClosureExpr = scalars ''ClosureExpr''"
| "kind_debug ClosureCapture = scalars ''ClosureCapture''"
| "kind_debug CastExpr = scalars ''CastExpr''"
| "kind_debug EnumCaseDecl = scalars ''EnumCaseDecl''"
| "kind_debug InitDecl = scalars ''InitDecl''"
| "kind_debug SubscriptDecl = scalars ''SubscriptDecl''"
| "kind_debug Accessor = scalars ''Accessor''"
| "kind_debug PostfixExpr = scalars ''PostfixExpr''"
| "kind_debug Param = scalars ''Param''"
| "kind_debug Block = scalars ''Block''"
| "kind_debug ReturnStmt = scalars ''ReturnStmt''"
| "kind_debug IfStmt = scalars ''IfStmt''"
| "kind_debug GuardStmt = scalars ''GuardStmt''"
| "kind_debug WhileStmt = scalars ''WhileStmt''"
| "kind_debug RepeatStmt = scalars ''RepeatStmt''"
| "kind_debug ForStmt = scalars ''ForStmt''"
| "kind_debug SwitchStmt = scalars ''SwitchStmt''"
| "kind_debug CaseClause = scalars ''CaseClause''"
| "kind_debug BreakStmt = scalars ''BreakStmt''"
| "kind_debug ContinueStmt = scalars ''ContinueStmt''"
| "kind_debug FallthroughStmt = scalars ''FallthroughStmt''"
| "kind_debug TypeRef = scalars ''TypeRef''"
| "kind_debug TypeArray = scalars ''TypeArray''"
| "kind_debug TypeDict = scalars ''TypeDict''"
| "kind_debug NamePattern = scalars ''NamePattern''"
| "kind_debug WildcardPattern = scalars ''WildcardPattern''"
| "kind_debug TuplePattern = scalars ''TuplePattern''"
| "kind_debug EnumCasePattern = scalars ''EnumCasePattern''"
| "kind_debug RangePattern = scalars ''RangePattern''"
| "kind_debug WhereClause = scalars ''WhereClause''"
| "kind_debug IntegerLiteral = scalars ''IntegerLiteral''"
| "kind_debug FloatLiteral = scalars ''FloatLiteral''"
| "kind_debug BoolLiteral = scalars ''BoolLiteral''"
| "kind_debug NilLiteral = scalars ''NilLiteral''"
| "kind_debug StringLiteral = scalars ''StringLiteral''"
| "kind_debug RegexLiteral = scalars ''RegexLiteral''"

text \<open>The kinds of the other methods.\<close>

definition other_kinds :: "node_kind list" where
  "other_kinds =
     [ClosureExpr, CastExpr, AwaitExpr, CallExpr, BinaryExpr, PrefixExpr, AssignExpr, MemberExpr, KeyPathExpr, IdentExpr,
      FloatLiteral, StringLiteral, RegexLiteral, CompilerDirective, PostfixExpr, SubscriptExpr, ArrayLiteral, DictLiteral]"

text \<open>The declarations are hoisted by the block they are in.\<close>

definition hoisted_kinds :: "node_kind list" where
  "hoisted_kinds =
     [FuncDecl, StructDecl, EnumDecl, ClassDecl, ProtocolDecl, ActorDecl, ExtensionDecl, OperatorDecl,
      PrecedenceGroupDecl, TypeAliasDecl, MacroDecl, ImportDecl]"

definition eval_return :: "('f, 'x) evaluator \<Rightarrow> ('f, 'x) evaluator" where
  "eval_return ev t = bind (case first_child t of Some e \<Rightarrow> ev e | None \<Rightarrow> ret VVoid) (\<lambda>v. raise_signal (Return v))"

definition eval_throw :: "('f, 'x) evaluator \<Rightarrow> ('f, 'x) evaluator" where
  "eval_throw ev t =
     bind (require (first_child t) ''throw without a value'') (\<lambda>e. bind (ev e) (\<lambda>v. raise_signal (Throw v)))"

definition eval_literal :: "('f, 'x) evaluator" where
  "eval_literal t s = (case eval_int_literal t of None \<Rightarrow> Panics | Some v \<Rightarrow> ret v s)"

text \<open>The table of the methods, by the kind of the node.\<close>

definition eval_table ::
  "'f f64 \<Rightarrow> ('f, 'x) ops \<Rightarrow> nat \<Rightarrow> ('f, 'x) evaluator \<Rightarrow> (node_kind \<times> ('f, 'x) evaluator) list" where
  "eval_table F P n ev =
     map (\<lambda>k. (k, \<lambda>t. ret VVoid)) hoisted_kinds @ map (\<lambda>k. (k, x_eval P ev)) other_kinds @
     [(SourceFile, eval_block P ev), (Block, eval_scoped_block P ev), (ExprStmt, eval_seq ev),
      (ReturnStmt, eval_return ev), (ThrowStmt, eval_throw ev), (DoStmt, eval_do F P ev), (TryExpr, eval_try F ev n),
      (DeferStmt, defer_block), (IfStmt, eval_if F P ev), (GuardStmt, eval_guard F P ev),
      (WhileStmt, eval_while F P ev n), (RepeatStmt, eval_repeat ev n), (ForStmt, eval_for F P ev n),
      (SwitchStmt, eval_switch F P ev), (BreakStmt, \<lambda>t. raise_signal (Break (jump_label t))),
      (ContinueStmt, \<lambda>t. raise_signal (Continue (jump_label t))), (FallthroughStmt, \<lambda>t. raise_signal Fallthrough),
      (TupleExpr, eval_tuple ev), (LetDecl, eval_decl F P ev False), (VarDecl, eval_decl F P ev True),
      (TernaryExpr, eval_ternary ev), (IntegerLiteral, eval_literal),
      (BoolLiteral, \<lambda>t. ret (VBool (case node_bool t of Some b \<Rightarrow> b | None \<Rightarrow> False))), (NilLiteral, \<lambda>t. ret VNil)]"

definition eval_node :: "'f f64 \<Rightarrow> ('f, 'x) ops \<Rightarrow> nat \<Rightarrow> ('f, 'x) evaluator \<Rightarrow> ('f, 'x) evaluator" where
  "eval_node F P n ev t =
     (case map_of (eval_table F P n ev) (t_kind t) of
        Some method \<Rightarrow> method t
      | None \<Rightarrow> raise_signal (Error (Unsupported (kind_debug (t_kind t)))))"

fun eval :: "'f f64 \<Rightarrow> ('f, 'x) ops \<Rightarrow> nat \<Rightarrow> ('f, 'x) evaluator" where
  "eval F P 0 t s = Diverges"
| "eval F P (Suc n) t s = eval_node F P n (eval F P n) t s"

end
