(* ===== verification/Control_Rules.thy ===== *)
theory Control_Rules
  imports Control
begin

text \<open>
  What an evaluation does to the scopes and which jumps may leave it. \<open>sound_tree\<close> is the static
  side: every jump is inside the loop or the \<open>switch\<close> it needs, a deferred block has no jump that
  leaves it, and the pattern of a \<open>for case\<close> evaluates nothing. \<open>moves\<close> is the dynamic side, for
  every action of the evaluator; the rules for its combinators are collected in \<open>moves\<close>.
\<close>

named_theorems moves

section \<open>Jumps and where they are allowed\<close>

record jumps =
  j_break :: bool
  j_continue :: bool
  j_fallthrough :: bool
  j_labels :: "ustr list"

definition no_jumps :: jumps where
  "no_jumps = \<lparr>j_break = False, j_continue = False, j_fallthrough = False, j_labels = []\<rparr>"

definition in_loop :: "ustr option \<Rightarrow> jumps \<Rightarrow> jumps" where
  "in_loop label c =
     c\<lparr>j_break := True, j_continue := True,
       j_labels := (case label of Some l \<Rightarrow> l # j_labels c | None \<Rightarrow> j_labels c)\<rparr>"

definition in_switch :: "jumps \<Rightarrow> jumps" where
  "in_switch c = c\<lparr>j_break := True, j_fallthrough := True\<rparr>"

definition allowed :: "jumps \<Rightarrow> 'f signal \<Rightarrow> bool" where
  "allowed c e \<longleftrightarrow>
     (case e of
        Break None \<Rightarrow> j_break c
      | Break (Some l) \<Rightarrow> l \<in> set (j_labels c)
      | Continue None \<Rightarrow> j_continue c
      | Continue (Some l) \<Rightarrow> l \<in> set (j_labels c)
      | Fallthrough \<Rightarrow> j_fallthrough c
      | _ \<Rightarrow> True)"

lemma allowed_simps [simp]:
  "allowed c (Return v)" "allowed c (Throw v)" "allowed c (Error x)"
  "allowed c (Break None) = j_break c" "allowed c (Break (Some l)) = (l \<in> set (j_labels c))"
  "allowed c (Continue None) = j_continue c" "allowed c (Continue (Some l)) = (l \<in> set (j_labels c))"
  "allowed c Fallthrough = j_fallthrough c"
  by (simp_all add: allowed_def)

lemma allowed_no_jumps: "allowed no_jumps e \<Longrightarrow> allowed c e"
  by (auto simp: allowed_def no_jumps_def split: signal.splits option.splits)

lemma allowed_in_loop: "allowed c e \<Longrightarrow> allowed (in_loop label c) e"
  by (auto simp: allowed_def in_loop_def split: signal.splits option.splits)

section \<open>Sound trees\<close>

text \<open>A pattern with no expression in it.\<close>

function harmless :: "tree \<Rightarrow> bool" where
  "harmless t \<longleftrightarrow>
     t_kind t \<in> {WildcardPattern, NamePattern} \<or>
     (t_kind t = EnumCasePattern \<and> (\<forall>p \<in> set (enum_subs t). harmless p)) \<or>
     (t_kind t = CastExpr \<and> (t_children t \<noteq> [] \<longrightarrow> harmless (hd (t_children t)))) \<or>
     (t_kind t = TuplePattern \<and> (\<forall>p \<in> set (t_children t). harmless p))"
  by pat_completeness auto
termination
  by (relation "measure size") (auto simp: enum_subs_def child_size)

declare harmless.simps [simp del]

definition function_kinds :: "node_kind list" where
  "function_kinds =
     [DeferStmt, ClosureExpr, FuncDecl, InitDecl, DeinitDecl, SubscriptDecl, Accessor, StructDecl, EnumDecl, ClassDecl,
      ActorDecl, ProtocolDecl, ExtensionDecl]"

text \<open>Where the jumps of a child of a node may go.\<close>

definition child_jumps :: "tree \<Rightarrow> tree \<Rightarrow> jumps \<Rightarrow> jumps" where
  "child_jumps t x c =
     (if t_kind t \<in> set function_kinds then no_jumps
      else if t_kind t \<in> {WhileStmt, ForStmt} \<and> is_block x then in_loop (loop_label t) c
      else c)"

lemma case_parts_children:
  "x \<in> set (fst (case_parts t)) \<Longrightarrow> x \<in> set (t_children t)"
  "x \<in> set (snd (case_parts t)) \<Longrightarrow> x \<in> set (t_children t)"
proof -
  have "x \<in> set (fst (case_parts_in b cs)) \<Longrightarrow> x \<in> set cs" "x \<in> set (snd (case_parts_in b cs)) \<Longrightarrow> x \<in> set cs" for b cs
    by (induction b cs rule: case_parts_in.induct) (auto simp: Let_def split: prod.splits if_splits)
  then show "x \<in> set (fst (case_parts t)) \<Longrightarrow> x \<in> set (t_children t)"
    "x \<in> set (snd (case_parts t)) \<Longrightarrow> x \<in> set (t_children t)"
    unfolding case_parts_def by blast+
qed

lemma where_size: assumes "where_expr t = Some w" shows "size w < size t"
proof -
  obtain x where x: "find (\<lambda>c. t_kind c = WhereClause) (t_children t) = Some x" "first_child x = Some w"
    using assms by (auto simp: where_expr_def find_child_def split: option.splits)
  have "size x < size t"
    by (rule child_size) (use x(1) in \<open>auto simp: find_Some_iff\<close>)
  moreover have "size w < size x"
    by (rule child_size) (use x(2) in \<open>auto simp: first_child_def split: list.splits\<close>)
  ultimately show ?thesis by simp
qed

function sound_tree :: "jumps \<Rightarrow> tree \<Rightarrow> bool" where
  "sound_tree c t \<longleftrightarrow>
     (if t_kind t = BreakStmt then allowed c (Break (jump_label t) :: unit signal)
      else if t_kind t = ContinueStmt then allowed c (Continue (jump_label t) :: unit signal)
      else if t_kind t = FallthroughStmt then j_fallthrough c
      else if t_kind t = RepeatStmt then
        (case t_children t of
           [] \<Rightarrow> True
         | body # rest \<Rightarrow> sound_tree (in_loop (loop_label t) c) body \<and> rest \<noteq> [] \<and> (\<forall>x \<in> set rest. sound_tree c x))
      else if t_kind t = CaseClause then
        (\<forall>x \<in> set (fst (case_parts t)). sound_tree c x) \<and>
        (\<forall>x \<in> set (snd (case_parts t)). sound_tree (in_switch c) x) \<and>
        (\<forall>w. where_expr t = Some w \<longrightarrow> sound_tree c w)
      else
        (t_kind t = ForStmt \<longrightarrow> (\<forall>p. fp_pattern (for_parts t) = Some p \<longrightarrow> harmless p)) \<and>
        (\<forall>x \<in> set (t_children t). sound_tree (child_jumps t x c) x))"
  by pat_completeness auto
termination
  by (relation "measure (size \<circ> snd)") (auto simp: child_size where_size dest!: case_parts_children)

declare sound_tree.simps [simp del]

section \<open>Actions and the scopes\<close>

text \<open>
  The blocks that wait to be run are sound and do not jump out. \<open>K\<close> is what the other methods
  keep of their part of the state, such as that the functions of the program are sound.
\<close>

definition fit :: "('x \<Rightarrow> bool) \<Rightarrow> ('f, 'x) interp \<Rightarrow> bool" where
  "fit K s \<longleftrightarrow> K (i_rest s) \<and> (\<forall>ds \<in> set (i_defers s). \<forall>d \<in> set ds. sound_tree no_jumps d)"

text \<open>The frames below the top are as they were, the top one has at most more blocks.\<close>

definition grown :: "tree list list \<Rightarrow> tree list list \<Rightarrow> bool" where
  "grown xs ys \<longleftrightarrow> (xs = [] \<and> ys = []) \<or> (\<exists>fs d e. xs = fs @ [d] \<and> ys = fs @ [d @ e])"

lemma grown_refl [simp]: "grown xs xs"
  by (cases xs rule: rev_cases) (auto simp: grown_def)

lemma grown_trans: "grown xs ys \<Longrightarrow> grown ys zs \<Longrightarrow> grown xs zs"
  by (auto simp: grown_def)

text \<open>
  \<open>moves K c i j l m\<close>: started with \<open>i\<close> scopes on top of a chain, the action leaves \<open>j\<close> on top of
  the same chain when it has a value, \<open>l\<close> when it has a signal, which \<open>c\<close> allows.
\<close>

definition ends_in ::
  "('x \<Rightarrow> bool) \<Rightarrow> jumps \<Rightarrow> tree list list \<Rightarrow> env \<Rightarrow> nat \<Rightarrow> nat \<Rightarrow> ('f, 'x) interp \<Rightarrow> 'f signal + 'a \<Rightarrow> bool" where
  "ends_in K c ds e j l s r \<longleftrightarrow>
     fit K s \<and> grown ds (i_defers s) \<and> (\<exists>v. i_env s = e @ v \<and> length v = (if isl r then l else j)) \<and>
     (case r of Inl x \<Rightarrow> allowed c x | Inr _ \<Rightarrow> True)"

definition moves :: "('x \<Rightarrow> bool) \<Rightarrow> jumps \<Rightarrow> nat \<Rightarrow> nat \<Rightarrow> nat \<Rightarrow> ('f, 'x, 'a) act \<Rightarrow> bool" where
  "moves K c i j l m \<longleftrightarrow>
     (\<forall>s s' r e u. fit K s \<longrightarrow> i_env s = e @ u \<longrightarrow> length u = i \<longrightarrow> m s = Ends s' r \<longrightarrow>
        ends_in K c (i_defers s) e j l s' r)"

abbreviation obeys :: "('x \<Rightarrow> bool) \<Rightarrow> jumps \<Rightarrow> ('f, 'x, 'a) act \<Rightarrow> bool" where
  "obeys K c \<equiv> moves K c 0 0 0"

lemma movesI:
  assumes "\<And>s s' r e u. fit K s \<Longrightarrow> i_env s = e @ u \<Longrightarrow> length u = i \<Longrightarrow> m s = Ends s' r \<Longrightarrow>
    ends_in K c (i_defers s) e j l s' r"
  shows "moves K c i j l m"
  using assms unfolding moves_def by blast

lemma movesD:
  "moves K c i j l m \<Longrightarrow> fit K s \<Longrightarrow> i_env s = e @ u \<Longrightarrow> length u = i \<Longrightarrow> m s = Ends s' r \<Longrightarrow>
   ends_in K c (i_defers s) e j l s' r"
  unfolding moves_def by blast

lemma ends_in_Inl: "ends_in K c ds e j l s (Inl x) \<longleftrightarrow>
    fit K s \<and> grown ds (i_defers s) \<and> (\<exists>v. i_env s = e @ v \<and> length v = l) \<and> allowed c x"
  by (simp add: ends_in_def)

lemma ends_in_Inr: "ends_in K c ds e j l s (Inr x) \<longleftrightarrow>
    fit K s \<and> grown ds (i_defers s) \<and> (\<exists>v. i_env s = e @ v \<and> length v = j)"
  by (simp add: ends_in_def)

lemma ends_in_later: "ends_in K c ds' e j l s r \<Longrightarrow> grown ds ds' \<Longrightarrow> ends_in K c ds e j l s r"
  by (auto simp: ends_in_def intro: grown_trans)

lemma ends_in_allowed: "ends_in K c ds e j l s r \<Longrightarrow> (\<And>x :: 'f signal. allowed c x \<Longrightarrow> allowed d x) \<Longrightarrow> ends_in K d ds e j l s r"
  for s :: "('f, 'x) interp"
  by (cases r) (simp_all add: ends_in_def)

lemma ends_in_0: "ends_in K c ds e 0 0 s r \<longleftrightarrow>
    fit K s \<and> grown ds (i_defers s) \<and> i_env s = e \<and> (case r of Inl x \<Rightarrow> allowed c x | Inr _ \<Rightarrow> True)"
  by (simp add: ends_in_def)

lemma obeysI:
  "(\<And>s s' r. fit K s \<Longrightarrow> m s = Ends s' r \<Longrightarrow> ends_in K c (i_defers s) (i_env s) 0 0 s' r) \<Longrightarrow> obeys K c m"
  by (rule movesI) (metis append_Nil2 length_0_conv)

lemma obeysD: "obeys K c m \<Longrightarrow> fit K s \<Longrightarrow> m s = Ends s' r \<Longrightarrow> ends_in K c (i_defers s) (i_env s) 0 0 s' r"
  by (erule movesD [where u = "[]"]) simp_all

text \<open>An action that obeys does so under any scopes that are on top.\<close>

lemma moves_lift:
  assumes "obeys K c m" shows "moves K c i i i m"
proof (rule movesI)
  fix s s' r e u assume "fit K s" "i_env s = e @ u" "length u = i" "m s = Ends s' r"
  with obeysD [OF assms this(1,4)] show "ends_in K c (i_defers s) e i i s' r"
    by (simp add: ends_in_0) (simp add: ends_in_def)
qed

lemma moves_allowed: "moves K c i j l m \<Longrightarrow> (\<And>x :: 'f signal. allowed c x \<Longrightarrow> allowed d x) \<Longrightarrow> moves K d i j l m"
  for m :: "('f, 'x, 'a) act"
  by (rule movesI) (rule ends_in_allowed [OF movesD])

lemma moves_no_jumps: "moves K no_jumps i j l m \<Longrightarrow> moves K c i j l m"
  by (erule moves_allowed) (rule allowed_no_jumps)

subsection \<open>Rules\<close>

lemma moves_ret [moves]: "moves K c i i l (ret x)"
  by (rule movesI) (auto simp: ret_def ends_in_def)

lemma moves_raise [moves]: "allowed c e \<Longrightarrow> moves K c i j i (raise_signal e)"
  by (rule movesI) (auto simp: raise_signal_def ends_in_def)

lemma moves_stuck [moves]: "moves K c i j l (\<lambda>s. Diverges)" "moves K c i j l (\<lambda>s. Panics)"
  by (simp_all add: moves_def)

lemma moves_errors [moves]: "moves K c i j i (unsupported msg)" "moves K c i j i (trap text)"
  unfolding unsupported_def trap_def by (intro moves_raise; simp)+

lemma moves_require [moves]: "moves K c i i i (require x msg)"
  by (cases x) (simp_all add: require_def moves_ret moves_errors)

lemma bind_ends:
  assumes "bind m k s = Ends s' r"
  obtains (signal) e where "m s = Ends s' (Inl e)" "r = Inl e"
    | (proceeds) s1 x where "m s = Ends s1 (Inr x)" "k x s1 = Ends s' r"
  using assms by (auto simp: bind_def split: run.splits sum.splits)

lemma moves_bind [moves]:
  assumes m: "moves K c i j l m" and k: "\<And>x. moves K c j n l (k x)"
  shows "moves K c i n l (bind m k)"
proof (rule movesI)
  fix s s' r e u assume s: "fit K s" "i_env s = e @ u" "length u = i" and "bind m k s = Ends s' r"
  from this(4) show "ends_in K c (i_defers s) e n l s' r"
  proof (cases rule: bind_ends)
    case (signal x)
    then show ?thesis using movesD [OF m s] by (simp add: ends_in_Inl)
  next
    case (proceeds s1 x)
    from movesD [OF m s proceeds(1)] obtain v where s1: "fit K s1" "grown (i_defers s) (i_defers s1)"
        "i_env s1 = e @ v" "length v = j"
      unfolding ends_in_Inr by blast
    show ?thesis by (rule ends_in_later [OF movesD [OF k s1(1,3,4) proceeds(2)] s1(2)])
  qed
qed

lemma moves_attempt:
  assumes m: "moves K d i j j m" and inl: "\<And>e. allowed d e \<Longrightarrow> moves K c j n l (k (Inl e))"
    and inr: "\<And>x. moves K c j n l (k (Inr x))"
  shows "moves K c i n l (bind (attempt m) k)"
proof (rule movesI)
  fix s s' r e u assume s: "fit K s" "i_env s = e @ u" "length u = i" and "bind (attempt m) k s = Ends s' r"
  then obtain s1 r1 where s1: "m s = Ends s1 r1" "k r1 s1 = Ends s' r"
    by (auto simp: bind_def attempt_def split: run.splits)
  from movesD [OF m s s1(1)] obtain v where v: "fit K s1" "grown (i_defers s) (i_defers s1)"
      "i_env s1 = e @ v" "length v = j" and sig: "\<And>x. r1 = Inl x \<Longrightarrow> allowed d x"
    by (cases r1) (auto simp: ends_in_def)
  have "moves K c j n l (k r1)"
    using inl inr sig by (cases r1) auto
  from movesD [OF this v(1,3,4) s1(2)] show "ends_in K c (i_defers s) e n l s' r"
    using v(2) by (rule ends_in_later)
qed

lemma moves_result: "moves K c i i i (result (Inr x))" "allowed c e \<Longrightarrow> moves K c i i i (result (Inl e))"
  by (simp_all add: result_def moves_ret moves_raise)

lemma moves_ignoring [moves]: "moves K d i i i m \<Longrightarrow> moves K c i i l (ignoring m)"
  unfolding ignoring_def by (erule moves_attempt) (rule moves_ret)+

lemma moves_reading [moves]:
  assumes "\<And>s. moves K c i j l (f s)" shows "moves K c i j l (reading f)"
proof (rule movesI)
  fix s s' r e u assume s: "fit K s" "i_env s = e @ u" "length u = i" "reading f s = Ends s' r"
  show "ends_in K c (i_defers s) e j l s' r"
    using movesD [OF assms s(1-3), of s s' r] s(4) by (simp add: reading_def)
qed

lemma moves_push [moves]: "moves K c i (Suc i) l push_scope"
  by (rule movesI) (auto simp: ends_in_def push_scope_def push_def fit_def alloc_scope_def Let_def split: prod.splits)

lemma moves_pop [moves]: "moves K c (Suc i) i l pop_scope"
proof (rule movesI)
  fix s s' r e u assume "fit K s" "i_env s = e @ u" "length u = Suc i" "pop_scope s = Ends s' r"
  then show "ends_in K c (i_defers s) e i l s' r"
    by (cases u rule: rev_cases) (auto simp: ends_in_def pop_scope_def pop_def fit_def butlast_append)
qed

lemma moves_declare [moves]: "moves K c i i l (declare_var name v mutable)"
  by (rule movesI) (auto simp: ends_in_def declare_var_def fit_def split: option.splits)

lemma moves_each [moves]: "(\<And>x. x \<in> set xs \<Longrightarrow> moves K c i i l (f x)) \<Longrightarrow> moves K c i i l (each f xs)"
  by (induction xs) (auto intro!: moves)

lemma moves_declare_all [moves]: "moves K c i i l (declare_all binds)"
  unfolding declare_all_def by (rule moves_each) (auto intro: moves)

lemma moves_scope:
  assumes "moves K c (Suc i) (Suc i) (Suc i) m" shows "moves K c i i i (in_scope m)"
  unfolding in_scope_def
  by (rule moves_bind [OF moves_push], rule moves_attempt [OF assms])
    (auto intro!: moves_bind [OF moves_pop] moves_result)

text \<open>A branch may use the test that leads to it, and a step the value it is given.\<close>

lemma moves_if [moves]:
  "(b \<Longrightarrow> moves K c i j l m) \<Longrightarrow> (\<not> b \<Longrightarrow> moves K c i j l m') \<Longrightarrow> moves K c i j l (if b then m else m')"
  by simp

lemma moves_option [moves]:
  "(x = None \<Longrightarrow> moves K c i j l m) \<Longrightarrow> (\<And>v. x = Some v \<Longrightarrow> moves K c i j l (f v)) \<Longrightarrow>
   moves K c i j l (case x of None \<Rightarrow> m | Some v \<Rightarrow> f v)"
  by (cases x) simp_all

lemma moves_bool [moves]:
  "(b \<Longrightarrow> moves K c i j l m) \<Longrightarrow> (\<not> b \<Longrightarrow> moves K c i j l m') \<Longrightarrow> moves K c i j l (case b of True \<Rightarrow> m | False \<Rightarrow> m')"
  by (cases b) simp_all

lemma moves_flow [moves]:
  "moves K c i j l m \<Longrightarrow> moves K c i j l m' \<Longrightarrow> moves K c i j l (case flow of LoopContinue \<Rightarrow> m | LoopBreak \<Rightarrow> m')"
  by (cases flow) simp_all

lemma moves_prod [moves]:
  "(\<And>x y. p = (x, y) \<Longrightarrow> moves K c i j l (f x y)) \<Longrightarrow> moves K c i j l (case p of (x, y) \<Rightarrow> f x y)"
  by (cases p) simp

lemma moves_let [moves]: "(\<And>x. x = v \<Longrightarrow> moves K c i j l (f x)) \<Longrightarrow> moves K c i j l (let x = v in f x)"
  by simp

lemma moves_enum [moves]:
  "(\<And>e. v = VEnum e \<Longrightarrow> moves K c i j l (f e)) \<Longrightarrow> moves K c i j l m \<Longrightarrow>
   moves K c i j l (case v of VEnum e \<Rightarrow> f e | _ \<Rightarrow> m)"
  by (cases v) simp_all

lemma moves_source [moves]:
  "(\<And>g. moves K c i j l (f g)) \<Longrightarrow> (\<And>h. moves K c i j l (f' h)) \<Longrightarrow> moves K c i j l m \<Longrightarrow>
   moves K c i j l (case v of VTaskGroup g \<Rightarrow> f g | VAsyncStreamHandle h \<Rightarrow> f' h | _ \<Rightarrow> m)"
  by (cases v) simp_all

text \<open>What an action does with the signal of another: it may look for one that was thrown.\<close>

lemma moves_thrown [moves]:
  "(\<And>v. e = Throw v \<Longrightarrow> moves K c i j l (f v)) \<Longrightarrow> moves K c i j l m \<Longrightarrow>
   moves K c i j l (case e of Throw v \<Rightarrow> f v | _ \<Rightarrow> m)"
  by (cases e) simp_all

lemma moves_tuple [moves]:
  "(\<And>xs ls. v = VTuple xs ls \<Longrightarrow> moves K c i j l (f xs ls)) \<Longrightarrow> moves K c i j l m \<Longrightarrow>
   moves K c i j l (case v of VTuple xs ls \<Rightarrow> f xs ls | _ \<Rightarrow> m)"
  by (cases v) simp_all

definition yields :: "('f, 'x, 'a) act \<Rightarrow> 'a \<Rightarrow> bool" where
  "yields m x \<longleftrightarrow> (\<exists>s s'. m s = Ends s' (Inr x))"

lemma moves_bind_yields:
  assumes m: "moves K c i j l m" and k: "\<And>x. yields m x \<Longrightarrow> moves K c j n l (k x)"
  shows "moves K c i n l (bind m k)"
proof -
  let ?k = "\<lambda>x. if yields m x then k x else (\<lambda>s. Diverges)"
  have "moves K c i n l (bind m ?k)"
    by (rule moves_bind [OF m]) (auto intro: k movesI)
  moreover have "bind m ?k = bind m k"
    by (rule ext) (auto simp: bind_def yields_def split: run.splits sum.splits)
  ultimately show ?thesis by simp
qed

lemma moves_require_bind:
  assumes "\<And>v. x = Some v \<Longrightarrow> moves K c i j i (k v)" shows "moves K c i j i (bind (require x msg) k)"
  by (rule moves_bind_yields [OF moves_require])
    (use assms in \<open>auto simp: yields_def require_def ret_def unsupported_def raise_signal_def split: option.splits\<close>)

text \<open>The rules in the order they are tried.\<close>

lemmas steps = moves_require_bind moves_attempt moves

end
