(* ===== verification/Control_Correct.thy ===== *)
theory Control_Correct
  imports Control_Rules
begin

text \<open>
  Every construct of the evaluator leaves the chain of scopes and the frames of deferred blocks as
  it found them, on every exit, and lets no jump out but those its place allows.
\<close>

section \<open>The evaluator of the parts and the other methods\<close>

definition evaluates :: "('x \<Rightarrow> bool) \<Rightarrow> ('f, 'x) evaluator \<Rightarrow> bool" where
  "evaluates K ev \<longleftrightarrow> (\<forall>c t. sound_tree c t \<longrightarrow> obeys K c (ev t))"

definition ops_obey :: "('x \<Rightarrow> bool) \<Rightarrow> ('f, 'x) ops \<Rightarrow> bool" where
  "ops_obey K P \<longleftrightarrow>
     (\<forall>ev. evaluates K ev \<longrightarrow>
        (\<forall>c t. sound_tree c t \<longrightarrow> t_kind t \<in> set other_kinds \<longrightarrow> obeys K c (x_eval P ev t)) \<and>
        (\<forall>c t. sound_tree c t \<longrightarrow> t_kind t \<in> {SourceFile, Block} \<longrightarrow> obeys K no_jumps (x_hoist P ev t)) \<and>
        (\<forall>v. obeys K no_jumps (x_deinit P ev v)) \<and>
        (\<forall>i. obeys K no_jumps (x_read_accessor P ev i)) \<and>
        (\<forall>c name init t. sound_tree c t \<longrightarrow> obeys K c (x_accessor_var P ev name init t)) \<and>
        (\<forall>c t v. sound_tree c t \<longrightarrow> obeys K no_jumps (x_coerce_literal P ev t v)) \<and>
        (\<forall>v ty m w. obeys K no_jumps (x_struct_method P ev v ty m w)) \<and>
        (\<forall>v ty m. obeys K no_jumps (x_class_method P ev v ty m)) \<and>
        (\<forall>g. obeys K no_jumps (x_group P ev g)) \<and>
        (\<forall>g. obeys K no_jumps (x_stream P ev g))) \<and>
     (\<forall>c t. sound_tree c t \<longrightarrow> obeys K no_jumps (x_spawn P t))"

lemma evaluatesD: "evaluates K ev \<Longrightarrow> sound_tree c t \<Longrightarrow> moves K c i i i (ev t)"
  by (rule moves_lift) (simp add: evaluates_def)

lemma obeys_anywhere: "obeys K no_jumps m \<Longrightarrow> moves K c i i i m"
  by (rule moves_lift [OF moves_no_jumps])

lemma ops_obeyD:
  assumes "ops_obey K P" "evaluates K ev"
  shows "sound_tree c t \<Longrightarrow> t_kind t \<in> set other_kinds \<Longrightarrow> obeys K c (x_eval P ev t)"
    "sound_tree d t \<Longrightarrow> t_kind t \<in> {SourceFile, Block} \<Longrightarrow> moves K c i i i (x_hoist P ev t)"
    "moves K c i i i (x_deinit P ev v)"
    "moves K c i i i (x_read_accessor P ev n)"
    "sound_tree c t \<Longrightarrow> moves K c i i i (x_accessor_var P ev name init t)"
    "sound_tree d t \<Longrightarrow> moves K c i i i (x_coerce_literal P ev t v)"
    "moves K c i i i (x_struct_method P ev v ty m w)"
    "moves K c i i i (x_class_method P ev v ty m)"
    "moves K c i i i (x_group P ev g)"
    "moves K c i i i (x_stream P ev g)"
    "sound_tree d t \<Longrightarrow> moves K c i i i (x_spawn P t)"
proof -
  note laws = assms(1) [unfolded ops_obey_def, THEN conjunct1, THEN spec [of _ ev], THEN mp, OF assms(2)]
    and spawn = assms(1) [unfolded ops_obey_def, THEN conjunct2]
  show "sound_tree c t \<Longrightarrow> t_kind t \<in> set other_kinds \<Longrightarrow> obeys K c (x_eval P ev t)"
    using laws by simp
  show "sound_tree c t \<Longrightarrow> moves K c i i i (x_accessor_var P ev name init t)"
    by (rule moves_lift) (use laws in simp)
  show "sound_tree d t \<Longrightarrow> t_kind t \<in> {SourceFile, Block} \<Longrightarrow> moves K c i i i (x_hoist P ev t)"
    by (rule moves_lift [OF moves_no_jumps]) (use laws in blast)
  show "moves K c i i i (x_deinit P ev v)"
    "moves K c i i i (x_read_accessor P ev n)"
    "sound_tree d t \<Longrightarrow> moves K c i i i (x_coerce_literal P ev t v)"
    "moves K c i i i (x_struct_method P ev v ty m w)" "moves K c i i i (x_class_method P ev v ty m)"
    "moves K c i i i (x_group P ev g)" "moves K c i i i (x_stream P ev g)"
    "sound_tree d t \<Longrightarrow> moves K c i i i (x_spawn P t)"
    by (rule obeys_anywhere; use laws spawn in metis)+
qed

section \<open>Parts of sound trees\<close>

definition jump_kinds :: "node_kind list" where
  "jump_kinds = [BreakStmt, ContinueStmt, FallthroughStmt, RepeatStmt, CaseClause]"

lemma sound_part:
  "sound_tree c t \<Longrightarrow> x \<in> set (t_children t) \<Longrightarrow> t_kind t \<notin> set jump_kinds \<Longrightarrow> sound_tree (child_jumps t x c) x"
  by (subst (asm) sound_tree.simps) (auto simp: jump_kinds_def)

lemma sound_plain:
  assumes "sound_tree c t" "x \<in> set (t_children t)"
    "t_kind t \<notin> set (jump_kinds @ function_kinds @ [WhileStmt, ForStmt])"
  shows "sound_tree c x"
  using sound_part [OF assms(1,2)] assms(3) by (simp add: child_jumps_def)

lemma sound_branch: "sound_tree c t \<Longrightarrow> x \<in> set (push_active_branch t) \<Longrightarrow> sound_tree c x"
proof (induction t rule: push_active_branch.induct)
  case (1 k r line col ty ms l cs)
  show ?case
  proof (cases "k = CompilerDirective \<and> map_option (dropWhile (\<lambda>c. c = 35)) r = Some (scalars ''if'')")
    case True
    with 1(3) obtain y where y: "y \<in> set cs" "x \<in> set (push_active_branch y)" by auto
    moreover have "sound_tree c y"
      using sound_plain [OF 1(2), of y] y(1) True by (simp add: jump_kinds_def function_kinds_def)
    ultimately show ?thesis using 1(1) True by blast
  next
    case False
    then have "push_active_branch (Tree k r line col ty ms l cs) = [Tree k r line col ty ms l cs]"
      by (simp only: push_active_branch.simps if_False)
    with 1(2,3) show ?thesis by simp
  qed
qed

lemma sound_directives:
  "sound_tree c t \<Longrightarrow> x \<in> set (expand_directives t) \<Longrightarrow>
   t_kind t \<notin> set (jump_kinds @ function_kinds @ [WhileStmt, ForStmt]) \<Longrightarrow> sound_tree c x"
  by (auto simp: expand_directives_def dest: sound_plain sound_branch)

section \<open>Blocks\<close>

lemma eval_all_moves:
  assumes ev: "evaluates K ev"
  shows "(\<And>x. x \<in> set ts \<Longrightarrow> sound_tree c x) \<Longrightarrow> moves K c i i i (eval_all ev v ts)"
  by (induction ts arbitrary: v) (auto intro!: moves evaluatesD [OF ev])

lemma in_block_obeys:
  fixes m :: "('f, 'x, 'a) act"
  assumes P: "ops_obey K P" and ev: "evaluates K ev" and t: "sound_tree d t" "t_kind t \<in> {SourceFile, Block}" and m: "obeys K c m"
  shows "obeys K c (in_block P ev t m)"
proof (rule obeysI)
  fix s s' r assume s: "fit K s" and "in_block P ev t m s = Ends s' r"
  define s0 where "s0 = s\<lparr>i_store := fst (push (i_store s) (i_env s)), i_env := snd (push (i_store s) (i_env s)),
    i_defers := i_defers s @ [[]]\<rparr>"
  obtain n where n: "snd (push (i_store s) (i_env s)) = i_env s @ [n]"
    by (simp add: push_def split_beta)
  have s0: "fit K s0" "i_env s0 = i_env s @ [n]" "i_defers s0 = i_defers s @ [[]]"
    using s n by (auto simp: s0_def fit_def)
  have "bind (ignoring (x_hoist P ev t)) (\<lambda>_. bind (attempt m) (\<lambda>r. bind (leave_block P ev) (\<lambda>_. result r))) s0 = Ends s' r"
    using \<open>in_block P ev t m s = Ends s' r\<close>
    by (simp add: in_block_def s0_def bind_def push_scope_def push_frame_def split_beta)
  then obtain s2 r2 where s2: "bind (ignoring (x_hoist P ev t)) (\<lambda>_. m) s0 = Ends s2 r2"
      "bind (leave_block P ev) (\<lambda>_. result r2) s2 = Ends s' r"
    by (auto simp: bind_def attempt_def ignoring_def ret_def split: run.splits sum.splits)
  have "obeys K c (bind (ignoring (x_hoist P ev t)) (\<lambda>_. m))"
    by (rule moves_bind [OF moves_ignoring [OF ops_obeyD(2) [OF P ev t]] m])
  from obeysD [OF this s0(1) s2(1)] s0 obtain ds where mid: "fit K s2" "i_env s2 = i_env s @ [n]"
      "i_defers s2 = i_defers s @ [ds]" "case r2 of Inl x \<Rightarrow> allowed c x | Inr _ \<Rightarrow> True"
    unfolding ends_in_0 grown_def by auto
  define s3 where "s3 = s2\<lparr>i_defers := i_defers s\<rparr>"
  have s3: "fit K s3" "i_env s3 = i_env s @ [n]" and ds: "\<And>d. d \<in> set ds \<Longrightarrow> sound_tree no_jumps d"
    using mid by (auto simp: s3_def fit_def)
  have release: "moves K no_jumps (Suc 0) 0 0 (release_scope P)"
    by (rule movesI)
      (auto simp: release_scope_def pop_owned_def ends_in_def fit_def length_Suc_conv Let_def split: if_splits)
  have left: "moves K no_jumps (Suc 0) 0 0
      (bind (each (\<lambda>d. ignoring (ev d)) (rev ds)) (\<lambda>_. bind (release_scope P) (\<lambda>released.
         each (\<lambda>v. ignoring (x_deinit P ev v)) (rev released))))" (is "moves _ _ _ _ _ ?left")
    by (rule moves_bind [OF moves_each [OF moves_ignoring [OF evaluatesD [OF ev, of no_jumps]]]
          moves_bind [OF release moves_each [OF moves_ignoring [OF ops_obeyD(3) [OF P ev]]]]]) (simp add: ds)
  have run: "bind ?left (\<lambda>_. result r2) s3 = Ends s' r"
    using s2(2) mid(3) by (simp add: leave_block_def bind_def pop_frame_def s3_def)
  have res: "moves K c 0 0 0 (result r2 :: ('f, 'x, 'a) act)"
    using mid(4) by (cases r2) (auto intro: moves_result)
  have "ends_in K c (i_defers s3) (i_env s) 0 0 s' r"
    by (rule movesD [OF moves_bind [OF moves_no_jumps [OF left] res] s3 _ run]) simp
  then show "ends_in K c (i_defers s) (i_env s) 0 0 s' r"
    by (simp add: s3_def)
qed

lemma eval_block_obeys:
  assumes "ops_obey K P" "evaluates K ev" "sound_tree c t" "t_kind t \<in> {SourceFile, Block}"
  shows "obeys K c (eval_block P ev t)" "obeys K c (eval_scoped_block P ev t)"
proof -
  have "obeys K c (eval_seq ev t)"
    unfolding eval_seq_def
    by (rule eval_all_moves [OF assms(2)], rule sound_directives [OF assms(3)])
      (use assms(4) in \<open>auto simp: jump_kinds_def function_kinds_def\<close>)
  then show "obeys K c (eval_block P ev t)" "obeys K c (eval_scoped_block P ev t)"
    unfolding eval_block_def eval_scoped_block_def
    by (rule moves_bind [OF moves_ignoring [OF ops_obeyD(2) [OF assms]]],
        rule in_block_obeys [OF assms])
qed

lemma defer_obeys:
  assumes "sound_tree c t" "t_kind t = DeferStmt" shows "obeys K d (defer_block t)"
proof (rule obeysI)
  fix s s' r assume s: "fit K s" "defer_block t s = Ends s' r"
  have "sound_tree no_jumps b" if "first_child t = Some b" for b
    using sound_part [OF assms(1), of b] that assms(2)
    by (auto simp: first_child_def jump_kinds_def child_jumps_def function_kinds_def split: list.splits)
  with s show "ends_in K d (i_defers s) (i_env s) 0 0 s' r"
    by (cases "i_defers s" rule: rev_cases)
      (auto simp: defer_block_def ends_in_def fit_def grown_def split: option.splits if_splits)
qed

section \<open>Patterns\<close>

lemma range_pattern_moves:
  assumes ev: "evaluates K ev" and t: "\<And>x. x \<in> set (t_children t) \<Longrightarrow> sound_tree c x"
  shows "moves K c i i i (range_pattern ev t v)"
proof (cases "\<exists>a b. t_children t = [a, b]")
  case True
  then obtain a b where ab: "t_children t = [a, b]" by blast
  show ?thesis
    by (simp add: range_pattern_def ab, rule moves_bind [OF evaluatesD [OF ev t]], simp add: ab,
        rule moves_bind [OF evaluatesD [OF ev t]], simp add: ab)
      (simp add: moves_ret split: swift_value.split)
next
  case False
  show ?thesis
  proof (cases "\<exists>a. t_children t = [a]")
    case True
    then show ?thesis
      by (auto simp: range_pattern_def intro!: moves_bind [OF evaluatesD [OF ev t]] moves_ret)
  next
    case False
    with \<open>\<not> (\<exists>a b. t_children t = [a, b])\<close> show ?thesis
      by (auto simp: range_pattern_def split: list.splits intro: moves_ret)
  qed
qed

text \<open>A pattern without expressions has no signal.\<close>

lemma match_harmless:
  "harmless t \<Longrightarrow> moves K c i i l (match_pattern F P ev t v)"
  "(\<And>t. t \<in> set ts \<Longrightarrow> harmless t) \<Longrightarrow> moves K c i i l (match_all F P ev ts vs)"
proof (induction F P ev t v and F P ev ts vs rule: match_pattern_match_all.induct)
  case (1 F P ev t v)
  note hs = 1(5) [unfolded harmless.simps [of t]]
  show ?case
    by (subst match_pattern.simps)
      (insert hs, (rule moves_if moves_let moves_option moves_enum moves_tuple moves_reading moves_ret 1(1-4) | simp)+)
qed (auto intro!: moves)

lemma sound_pattern:
  "sound_tree c t \<Longrightarrow> x \<in> set (t_children t) \<Longrightarrow> t_kind t \<in> {EnumCasePattern, CastExpr, TuplePattern, RangePattern} \<Longrightarrow>
   sound_tree c x"
  by (erule sound_plain) (auto simp: jump_kinds_def function_kinds_def)

lemma enum_subs_children:
  "x \<in> set (enum_subs t) \<Longrightarrow> x \<in> set (t_children t)"
  "enum_subs t \<noteq> [] \<Longrightarrow> hd (enum_subs t) \<in> set (t_children t)"
  using hd_in_set [of "enum_subs t"] by (auto simp: enum_subs_def)

lemma match_moves:
  assumes ev: "evaluates K ev"
  shows "sound_tree c t \<Longrightarrow> moves K c i i i (match_pattern F P ev t v)"
    "(\<And>t. t \<in> set ts \<Longrightarrow> sound_tree c t) \<Longrightarrow> moves K c i i i (match_all F P ev ts vs)"
  using ev
proof (induction F P ev t v and F P ev ts vs rule: match_pattern_match_all.induct)
  case (1 F P ev t v)
  note sound = sound_pattern [OF 1(5)]
  show ?case
    by (subst match_pattern.simps)
      (rule moves_if moves_let moves_option moves_enum moves_tuple moves_reading moves_ret
        range_pattern_moves [OF 1(6)] moves_bind [OF evaluatesD [OF 1(6,5)]] 1(1-4) | (simp add: 1(5,6) sound enum_subs_children; fail))+
next
  case (4 F P ev sub subs item items)
  then show ?case by (auto intro!: moves)
qed (auto intro!: moves)

section \<open>Conditions\<close>

lemma find_in: "find p xs = Some x \<Longrightarrow> x \<in> set xs"
  by (auto simp: find_Some_iff)

lemma in_set_tlD: "x \<in> set (tl xs) \<Longrightarrow> x \<in> set xs"
  by (cases xs) simp_all

lemma found_child:
  "first_child t = Some x \<Longrightarrow> x \<in> set (t_children t)"
  "last_child t = Some x \<Longrightarrow> x \<in> set (t_children t)"
  "find p (t_children t) = Some x \<Longrightarrow> x \<in> set (t_children t)"
  "find p (rev (t_children t)) = Some x \<Longrightarrow> x \<in> set (t_children t)"
  "find p (tl (t_children t)) = Some x \<Longrightarrow> x \<in> set (t_children t)"
  by (auto simp: first_child_def last_child_def split: list.splits if_splits dest!: find_in intro: in_set_tlD)

lemma condition_moves: "evaluates K ev \<Longrightarrow> sound_tree c t \<Longrightarrow> moves K c i i i (eval_condition ev t)"
  unfolding eval_condition_def
  by (rule moves_bind [OF evaluatesD] | assumption | rule moves | simp)+

lemma read_binding_moves:
  assumes "ops_obey K P" "evaluates K ev" shows "moves K c i i i (read_binding P ev name)"
proof -
  have "moves K c i i i (upgrade_reference v name)" for v :: "'f swift_value"
    by (cases v) (auto simp: upgrade_reference_def intro!: moves)
  then show ?thesis
    by (auto simp: read_binding_def intro!: moves ops_obeyD(4) [OF assms] split: swift_value.splits)
qed

lemma cond_moves:
  assumes P: "ops_obey K P" and ev: "evaluates K ev" and t: "sound_tree c t"
  shows "moves K c i i i (eval_cond F P ev t)"
proof (cases "t_kind t \<in> {LetDecl, VarDecl}")
  case True
  have kids: "\<And>x. x \<in> set (t_children t) \<Longrightarrow> sound_tree c x"
    using sound_plain [OF t] True by (auto simp: jump_kinds_def function_kinds_def)
  have init: "moves K c i i i (binding_value P ev pat x)"
    if "\<And>e. x = Some e \<Longrightarrow> sound_tree c e" for pat x
    unfolding binding_value_def
    by (rule moves_option evaluatesD [OF ev] moves_require_bind read_binding_moves [OF P ev] | simp add: that)+
  have "moves K c i i i (cond_binding F P ev t)"
    unfolding cond_binding_def Let_def
    by (rule moves_require_bind moves_if moves_bind [OF init] moves_option moves_ret
        moves_errors evaluatesD [OF ev] moves_bind [OF match_moves(1) [OF ev]] moves_bind [OF moves_declare]
        moves_bind [OF moves_declare_all] moves_bind
      | (auto simp: drop_Suc intro!: kids moves split: option.split dest: found_child; fail))+
  then show ?thesis
    using True by (simp add: eval_cond_def)
next
  case False
  then show ?thesis by (simp add: eval_cond_def condition_moves [OF ev t])
qed

lemma cond_list_moves:
  assumes "ops_obey K P" "evaluates K ev"
  shows "(\<And>x. x \<in> set cs \<Longrightarrow> sound_tree c x) \<Longrightarrow> moves K c i i i (eval_cond_list F P ev cs)"
  by (induction cs) (auto intro!: moves cond_moves [OF assms])

lemma position_block:
  assumes "position is_block xs = Some n"
  shows "n < length xs" "is_block (xs ! n)" "x \<in> set (take n xs) \<Longrightarrow> \<not> is_block x"
  using assms by (auto simp: position_Some in_set_conv_nth)

lemma if_obeys:
  assumes P: "ops_obey K P" and ev: "evaluates K ev" and t: "sound_tree c t" "t_kind t = IfStmt"
  shows "obeys K c (eval_if F P ev t)"
proof -
  have kids: "\<And>x. x \<in> set (t_children t) \<Longrightarrow> sound_tree c x"
    using sound_plain [OF t(1)] t(2) by (auto simp: jump_kinds_def function_kinds_def)
  have nth: "sound_tree c (t_children t ! n)" if "n < length (t_children t)" for n
    using kids that by simp
  have conds: "moves K c i i i (eval_cond_list F P ev (take n (t_children t)))" for i n
    by (rule cond_list_moves [OF P ev]) (rule kids [OF in_set_takeD])
  show ?thesis
    unfolding eval_if_def Let_def
    by (rule moves_require_bind moves_bind [OF moves_push] moves_attempt [OF conds] moves_attempt [OF evaluatesD [OF ev nth]]
        moves_bind [OF moves_pop] moves_result moves_raise moves_ret moves_bool moves_if evaluatesD [OF ev nth]
      | assumption | simp split del: if_split | (auto dest: position_block; fail))+
qed

lemma guard_obeys:
  assumes P: "ops_obey K P" and ev: "evaluates K ev" and t: "sound_tree c t" "t_kind t = GuardStmt"
  shows "obeys K c (eval_guard F P ev t)"
proof -
  have kids: "\<And>x. x \<in> set (t_children t) \<Longrightarrow> sound_tree c x"
    using sound_plain [OF t(1)] t(2) by (auto simp: jump_kinds_def function_kinds_def)
  have conds: "moves K c i i i (eval_cond_list F P ev (take n (t_children t)))" for i n
    by (rule cond_list_moves [OF P ev]) (rule kids [OF in_set_takeD])
  have last: "length (t_children t) - 1 - n < length (t_children t)" if "position is_block (rev (t_children t)) = Some n" for n
    using position_block(1) [OF that] by simp
  show ?thesis
    unfolding eval_guard_def Let_def
    by (rule moves_require_bind moves_bind [OF conds] moves_if moves_ret evaluatesD [OF ev kids]
      | (use last in \<open>auto intro!: nth_mem\<close>; fail))+
qed

section \<open>Loops\<close>

lemma run_loop_body_moves:
  assumes ev: "evaluates K ev" and t: "sound_tree d body" and d: "d \<in> {c, in_loop label c}"
  shows "moves K c i i i (run_loop_body ev body label)"
proof -
  have body: "moves K (in_loop label c) i i i (ev body)"
    using evaluatesD [OF ev t] d by (auto intro: moves_allowed [OF _ allowed_in_loop])
  show ?thesis
    unfolding run_loop_body_def
  proof (rule moves_attempt [OF body], goal_cases)
    case (1 e)
    then show ?case
      by (auto simp: in_loop_def allowed_def split: signal.splits option.splits if_splits intro!: moves_ret moves_raise)
  qed (auto intro: moves_ret)
qed

lemma while_loop_moves:
  assumes P: "ops_obey K P" and ev: "evaluates K ev"
    and conds: "\<And>x. x \<in> set conds \<Longrightarrow> sound_tree c x" and body: "sound_tree (in_loop label c) body"
  shows "moves K c i i i (while_loop F P ev n conds body label)"
proof (induction n)
  case 0
  have "while_loop F P ev 0 conds body label = (\<lambda>s. Diverges)" by (rule ext) simp
  then show ?case by (simp add: moves_stuck)
next
  case (Suc n)
  have cs: "moves K c i i i (eval_cond_list F P ev conds)" for i
    by (rule cond_list_moves [OF P ev conds])
  have b: "moves K c i i i (run_loop_body ev body label)" for i
    by (rule run_loop_body_moves [OF ev body]) simp
  have unfold: "while_loop F P ev (Suc n) conds body label =
      bind push_scope (\<lambda>_. bind (attempt (eval_cond_list F P ev conds)) (\<lambda>passed.
        case passed of
          Inl e \<Rightarrow> bind pop_scope (\<lambda>_. raise_signal e)
        | Inr False \<Rightarrow> bind pop_scope (\<lambda>_. ret VVoid)
        | Inr True \<Rightarrow>
            bind (attempt (run_loop_body ev body label)) (\<lambda>flow. bind pop_scope (\<lambda>_.
              case flow of
                Inl e \<Rightarrow> raise_signal e
              | Inr LoopContinue \<Rightarrow> while_loop F P ev n conds body label
              | Inr LoopBreak \<Rightarrow> ret VVoid))))"
    by (rule ext) simp
  show ?case
    unfolding unfold
    by (rule moves_bind [OF moves_push] moves_attempt [OF cs] moves_attempt [OF b] moves_bind [OF moves_pop]
        moves_raise moves_ret moves_bool moves_flow Suc | assumption | simp)+
qed

lemma while_obeys:
  assumes P: "ops_obey K P" and ev: "evaluates K ev" and t: "sound_tree c t" "t_kind t = WhileStmt"
  shows "obeys K c (eval_while F P ev n t)"
proof -
  note part = sound_part [OF t(1)]
  have conds: "sound_tree c x" if "position is_block (t_children t) = Some j" "x \<in> set (take j (t_children t))" for j x
    using part [OF in_set_takeD [OF that(2)]] position_block(3) [OF that] t(2)
    by (simp add: jump_kinds_def function_kinds_def child_jumps_def)
  have body: "sound_tree (in_loop (loop_label t) c) (t_children t ! j)" if "position is_block (t_children t) = Some j" for j
    using part [OF nth_mem [of j]] position_block(1,2) [OF that] t(2)
    by (auto simp: jump_kinds_def function_kinds_def child_jumps_def)
  show ?thesis
    unfolding eval_while_def Let_def
    by (rule moves_require_bind, rule while_loop_moves [OF P ev]) (use conds body in auto)
qed

lemma repeat_obeys:
  assumes ev: "evaluates K ev" and t: "sound_tree c t" "t_kind t = RepeatStmt"
  shows "obeys K c (eval_repeat ev n t)"
proof -
  have parts: "sound_tree (in_loop (loop_label t) c) body" "sound_tree c cond"
    if "first_child t = Some body" "last_child t = Some cond" for body cond
    using t(1) that unfolding sound_tree.simps [of c t]
    by (auto simp: t(2) first_child_def last_child_def split: list.splits if_splits)
  have loop: "moves K c i i i (repeat_loop ev n body cond label)"
    if body: "sound_tree (in_loop label c) body" and cond: "sound_tree c cond" for body cond label i
  proof (induction n)
    case 0
    have "repeat_loop ev 0 body cond label = (\<lambda>s. Diverges)" by (rule ext) simp
    then show ?case by (simp add: moves_stuck)
  next
    case (Suc n)
    have "repeat_loop ev (Suc n) body cond label =
        bind (run_loop_body ev body label) (\<lambda>flow.
          if flow = LoopBreak then ret VVoid
          else bind (eval_condition ev cond) (\<lambda>b. if b then repeat_loop ev n body cond label else ret VVoid))"
      by (rule ext) simp
    then show ?case
      by (auto intro!: moves_bind [OF run_loop_body_moves [OF ev body]] moves_if moves_ret
          moves_bind [OF condition_moves [OF ev cond]] Suc)
  qed
  show ?thesis
    unfolding eval_repeat_def by (intro moves_require_bind loop) (auto dest: parts)
qed

subsection \<open>For loops\<close>

lemma guarded_moves:
  assumes "moves K c (Suc i) (Suc i) (Suc i) m" shows "moves K c (Suc i) (Suc i) i (guarded True m)"
  unfolding guarded_def
  by (simp, rule moves_attempt [OF assms])
    (auto intro!: moves_bind [OF moves_pop] moves_raise moves_ret)

lemma bind_element_moves:
  assumes "\<And>p. pattern = Some p \<Longrightarrow> harmless p"
  shows "moves K c i i l (bind_element F P ev name pattern item)"
  unfolding bind_element_def
  by (rule moves_option moves_bind [OF match_harmless(1)] moves_bind [OF moves_declare_all] moves_bind [OF moves_declare]
      moves_ret assms | assumption)+

lemma run_element_moves:
  assumes P: "ops_obey K P" and ev: "evaluates K ev" and pattern: "\<And>p. pattern = Some p \<Longrightarrow> harmless p"
    and w: "\<And>w. filter_expr = Some w \<Longrightarrow> sound_tree c w" and body: "sound_tree (in_loop label c) body"
  shows "moves K c i i i (run_element F P ev g name pattern filter_expr body label item)"
proof -
  have elem: "moves K c (Suc i) (Suc i) i (guarded g (bind_element F P ev name pattern item))"
    using guarded_moves [OF bind_element_moves [OF pattern]] bind_element_moves [OF pattern]
    by (cases g) (simp_all add: guarded_def)
  have filt: "moves K c (Suc i) (Suc i) i (element_where ev filter_expr)"
    unfolding element_where_def
    by (rule moves_option moves_ret guarded_moves condition_moves [OF ev] w | assumption)+
  have loop: "moves K c j j j (run_loop_body ev body label)" for j
    by (rule run_loop_body_moves [OF ev body]) simp
  show ?thesis
    unfolding run_element_def
    by (rule moves_bind [OF moves_push] moves_bind [OF elem] moves_bind [OF filt] moves_bind [OF moves_pop]
        moves_attempt [OF loop] moves_if moves_ret moves_result | assumption | simp)+
qed

lemma for_items_moves:
  assumes "\<And>item. moves K c i i i (run_element F P ev False name pattern filter_expr body label item)"
  shows "moves K c i i i (for_items F P ev name pattern filter_expr body label items)"
  by (induction items) (auto intro!: moves assms)

lemma for_parts_children:
  "fp_iterable (for_parts t) = Some x \<Longrightarrow> x \<in> set (t_children t) \<and> \<not> is_block x"
  "fp_where (for_parts t) = Some x \<Longrightarrow> x \<in> set (t_children t) \<and> \<not> is_block x"
  "fp_body (for_parts t) = Some x \<Longrightarrow> x \<in> set (t_children t) \<and> is_block x"
proof -
  define inside where "inside p cs \<longleftrightarrow>
    (\<forall>x. fp_iterable p = Some x \<longrightarrow> x \<in> set cs \<and> \<not> is_block x) \<and>
    (\<forall>x. fp_where p = Some x \<longrightarrow> x \<in> set cs \<and> \<not> is_block x) \<and>
    (\<forall>x. fp_body p = Some x \<longrightarrow> x \<in> set cs \<and> is_block x)" for p :: for_parts and cs :: "tree list"
  have step: "inside (for_part p x) (cs @ [x])" if "inside p cs" for p x cs
    using that by (auto simp: inside_def for_part_def is_block_def Let_def)
  have "inside (foldl for_part p (t_children t)) (cs @ t_children t)" if "inside p cs" for p cs
    using that
  proof (induction "t_children t" arbitrary: t p cs)
    case (Cons x xs)
    then obtain k r ln col ty ms l where "t = Tree k r ln col ty ms l (x # xs)" by (cases t) auto
    with Cons(1) [of "Tree k r ln col ty ms l xs" "for_part p x" "cs @ [x]"] step [OF Cons(3)] show ?case by simp
  qed simp
  from this [of "\<lparr>fp_name = None, fp_pattern = None, fp_iterable = None, fp_where = None, fp_body = None\<rparr>" "[]"]
  have "inside (for_parts t) (t_children t)" by (simp add: for_parts_def inside_def)
  then show "fp_iterable (for_parts t) = Some x \<Longrightarrow> x \<in> set (t_children t) \<and> \<not> is_block x"
    "fp_where (for_parts t) = Some x \<Longrightarrow> x \<in> set (t_children t) \<and> \<not> is_block x"
    "fp_body (for_parts t) = Some x \<Longrightarrow> x \<in> set (t_children t) \<and> is_block x"
    unfolding inside_def by blast+
qed

lemma type_name_moves: "moves K c i i i (type_name_or v msg)"
  unfolding type_name_or_def by (rule moves | simp)+

lemma sequence_moves:
  assumes "ops_obey K P" "evaluates K ev"
  shows "moves K c i i i (call_sequence_method P ev v ty m w)" "moves K c i i i (make_iterator P ev v)"
    "moves K c i i i (make_async_iterator P ev v)" "moves K c i i i (next_element P ev a name ty)"
proof -
  note ops = ops_obeyD(7,8) [OF assms]
  show call: "moves K c i i i (call_sequence_method P ev v ty m w)" for v ty m w
    unfolding call_sequence_method_def by (rule moves_reading moves_if ops)+
  show "moves K c i i i (make_iterator P ev v)"
    unfolding make_iterator_def by (rule moves_bind [OF type_name_moves] moves_reading moves_if moves_ret call)+
  show "moves K c i i i (make_async_iterator P ev v)"
    unfolding make_async_iterator_def by (rule moves_reading moves_option moves_if moves_ret moves_raise ops | simp)+
  show "moves K c i i i (next_element P ev a name ty)"
    unfolding next_element_def Let_def by (rule moves_reading moves_if ops call)+
qed

lemma iterator_loop_moves:
  assumes "moves K c i i i get_next" "\<And>v. moves K c i i i (step v)"
  shows "moves K c i i i (iterator_loop get_next step n)"
proof (induction n)
  case 0
  have "iterator_loop get_next step 0 = (\<lambda>s. Diverges)" by (rule ext) simp
  then show ?case by (simp add: moves_stuck)
next
  case (Suc n)
  have "iterator_loop get_next step (Suc n) =
      bind get_next (\<lambda>v. if v = VNil then ret VVoid
        else bind (step v) (\<lambda>flow. if flow = LoopBreak then ret VVoid else iterator_loop get_next step n))"
    by (rule ext) simp
  then show ?case by (auto intro!: moves_bind [OF assms(1)] moves_bind [OF assms(2)] moves_if moves_ret Suc)
qed

lemma run_iterator_moves:
  assumes "ops_obey K P" "evaluates K ev" "\<And>v i. moves K c i i i (step v)"
  shows "moves K c i i i (run_iterator F P ev n a var iter ty step)"
  unfolding run_iterator_def
  by (intro moves_scope moves_bind [OF moves_declare] iterator_loop_moves sequence_moves(4) [OF assms(1,2)] assms(3))

lemma iterate_moves: "moves K c i i i (iterate v)"
  by (rule movesI)
    (auto simp: iterate_def ret_def raise_signal_def ends_in_def split: option.splits)

lemma for_obeys:
  assumes P: "ops_obey K P" and ev: "evaluates K ev" and t: "sound_tree c t" "t_kind t = ForStmt"
  shows "obeys K c (eval_for F P ev n t)"
proof -
  have harmless: "harmless p" if "fp_pattern (for_parts t) = Some p" for p
    using t that unfolding sound_tree.simps [of c t] by (simp split: if_splits)
  have part: "sound_tree (if is_block x then in_loop (loop_label t) c else c) x" if "x \<in> set (t_children t)" for x
    using sound_part [OF t(1) that] t(2) by (simp add: jump_kinds_def function_kinds_def child_jumps_def split: if_splits)
  have parts: "fp_iterable (for_parts t) = Some x \<Longrightarrow> sound_tree c x" "fp_where (for_parts t) = Some x \<Longrightarrow> sound_tree c x"
    "fp_body (for_parts t) = Some x \<Longrightarrow> sound_tree (in_loop (loop_label t) c) x" for x
    using part [of x] for_parts_children [of t x] by auto
  have elem: "moves K c i i i (run_element F P ev g name pattern (fp_where (for_parts t)) body (loop_label t) item)"
    if "fp_body (for_parts t) = Some body" "pattern \<in> {None, fp_pattern (for_parts t)}" for i g name pattern body item
    by (rule run_element_moves [OF P ev]) (use that harmless parts in auto)
  have sync: "moves K c i i i (run_sync_sequence F P ev n v name (fp_pattern (for_parts t)) (fp_where (for_parts t)) body (loop_label t))"
    if "fp_body (for_parts t) = Some body" for i v name body
    unfolding run_sync_sequence_def
    by (rule moves_bind [OF sequence_moves(2) [OF P ev]] moves_bind [OF type_name_moves] run_iterator_moves [OF P ev]
        elem that | simp)+
  have async: "moves K c i i i (run_async_sequence F P ev n v name (fp_where (for_parts t)) body (loop_label t))"
    if "fp_body (for_parts t) = Some body" for i v name body
    unfolding run_async_sequence_def
    by (rule moves_bind [OF sequence_moves(3) [OF P ev]] moves_bind [OF type_name_moves] run_iterator_moves [OF P ev]
        elem that | simp)+
  show ?thesis
    unfolding eval_for_def Let_def
    by (rule moves_if moves_errors moves_require_bind moves_bind [OF evaluatesD [OF ev parts(1)]] moves_reading moves_source
        moves_bind [OF ops_obeyD(9) [OF P ev]] moves_bind [OF ops_obeyD(10) [OF P ev]] moves_bind [OF iterate_moves]
        for_items_moves elem sync async | assumption | simp)+
qed

section \<open>Errors and declarations\<close>

lemma catches_moves:
  assumes ev: "evaluates K ev"
    and cs: "\<And>x y. x \<in> set cs \<Longrightarrow> y \<in> set (t_children x) \<Longrightarrow> sound_tree c y"
  shows "moves K c i i i (try_catches F P ev err cs)"
  using cs
proof (induction cs)
  case (Cons x xs)
  have kids: "sound_tree c y" if "find p (t_children x) = Some y" for p y
    by (rule Cons(2)) (use that found_child in auto)
  have m: "moves K c j j j (match_catch F P ev x err)" for j
    unfolding match_catch_def by (rule moves_option moves_ret match_moves(1) [OF ev] kids | assumption)+
  have IH: "moves K c i i i (try_catches F P ev err xs)"
    by (rule Cons(1)) (rule Cons(2), auto)
  show ?case
    unfolding try_catches.simps
    by (rule moves_bind [OF m] moves_option IH moves_require_bind moves_bind [OF moves_push] moves_bind [OF moves_declare_all]
        moves_attempt [OF evaluatesD [OF ev kids]] moves_bind [OF moves_pop] moves_result | assumption | simp)+
qed (auto intro: moves_raise)

lemma do_obeys:
  assumes ev: "evaluates K ev" and t: "sound_tree c t" "t_kind t = DoStmt"
  shows "obeys K c (eval_do F P ev t)"
proof -
  have kids: "sound_tree c x" if "x \<in> set (t_children t)" for x
    using sound_plain [OF t(1) that] t(2) by (simp add: jump_kinds_def function_kinds_def)
  have clause: "sound_tree c y"
    if "x \<in> set (filter (\<lambda>c. t_kind c = CatchClause) (t_children t))" "y \<in> set (t_children x)" for x y
    using sound_plain [OF kids, of x y] that by (simp add: jump_kinds_def function_kinds_def)
  have body: "sound_tree c b" if "find is_block (t_children t) = Some b" for b
    using kids found_child(3) [OF that] by blast
  show ?thesis
    unfolding eval_do_def
    by (rule moves_require_bind moves_attempt [OF evaluatesD [OF ev body]] catches_moves [OF ev clause] moves_thrown moves_result
      | assumption | simp del: set_filter)+
qed

lemma try_obeys:
  assumes ev: "evaluates K ev" and t: "sound_tree c t" "t_kind t = TryExpr"
  shows "obeys K c (eval_try F ev n t)"
proof -
  have inner: "sound_tree c x" if "first_child t = Some x" for x
    using sound_plain [OF t(1) found_child(1) [OF that]] t(2) by (simp add: jump_kinds_def function_kinds_def)
  have fatal: "moves K c i i i (\<lambda>s. case display F (i_heap s) n e of None \<Rightarrow> Diverges | Some shown \<Rightarrow> trap (f shown) s)" for e f i
    by (rule movesI) (auto simp: trap_def raise_signal_def ends_in_def split: option.splits)
  show ?thesis
    unfolding eval_try_def
    by (rule moves_require_bind moves_attempt [OF evaluatesD [OF ev inner]] moves_if moves_thrown moves_ret moves_result fatal
      | assumption | simp split del: if_split)+
qed

lemma bind_tuple_moves:
  "moves K c i i i (bind_tuple_pattern H t v mutable)" "moves K c i i i (bind_tuple_elems H ts vs mutable)"
proof (induction H t v mutable and H ts vs mutable rule: bind_tuple_pattern_bind_tuple_elems.induct)
  case (1 H t v mutable)
  then show ?case
    by (subst bind_tuple_pattern.simps) (auto intro!: moves_tuple moves_raise)
qed (auto simp: intro!: moves)

lemma decl_obeys:
  assumes P: "ops_obey K P" and ev: "evaluates K ev" and t: "sound_tree c t" "t_kind t \<in> {LetDecl, VarDecl}"
  shows "obeys K c (eval_decl F P ev mutable t)"
proof -
  have kids: "sound_tree c x" if "x \<in> set (t_children t)" for x
    using sound_plain [OF t(1) that] t(2) by (auto simp: jump_kinds_def function_kinds_def)
  have init: "sound_tree c e" if "find is_value_node (rev (t_children t)) = Some e" for e
    using kids found_child(4) [OF that] by blast
  have noted: "moves K c i i i (\<lambda>s. Ends (s\<lparr>i_store := f s\<rparr>) (Inr v))" for f v i
    by (rule movesI) (auto simp: fit_def ends_in_def)
  have stored: "moves K c i i i (declare_stored F P ev t name (find is_value_node (rev (t_children t))) mutable)" for name i
    unfolding declare_stored_def Let_def
    by (rule moves_bind moves_option moves_ret evaluatesD [OF ev init] ops_obeyD(6) [OF P ev t(1)] moves_reading moves_declare noted
      | assumption)+
  have others: "moves K c i i i (case (is_async t, find is_value_node (rev (t_children t))) of
      (True, Some e) \<Rightarrow> bind (x_spawn P e) (\<lambda>task. bind (declare_var name (VTask task) mutable) (\<lambda>_. ret VVoid))
    | _ \<Rightarrow> declare_stored F P ev t name (find is_value_node (rev (t_children t))) mutable)" for name i
    using stored init
    by (cases "is_async t"; cases "find is_value_node (rev (t_children t))")
      (auto intro!: ops_obeyD(11) [OF P ev, where d = c] moves)
  show ?thesis
    unfolding eval_decl_def Let_def
    by (rule moves_option moves_require_bind moves_bind [OF evaluatesD [OF ev init]] moves_reading moves_bind [OF bind_tuple_moves(1)]
        moves_if ops_obeyD(5) [OF P ev t(1)] others moves_ret | assumption)+
qed

section \<open>Switch\<close>

lemma sound_clause:
  assumes "sound_tree c t" "t_kind t = CaseClause"
  shows "x \<in> set (fst (case_parts t)) \<Longrightarrow> sound_tree c x" "x \<in> set (snd (case_parts t)) \<Longrightarrow> sound_tree (in_switch c) x"
    "where_expr t = Some w \<Longrightarrow> sound_tree c w"
  using assms by (subst (asm) sound_tree.simps, simp)+

lemma match_any_moves:
  assumes ev: "evaluates K ev" and guard: "\<And>g. guard = Some g \<Longrightarrow> sound_tree c g"
  shows "(\<And>p. p \<in> set ps \<Longrightarrow> sound_tree c p) \<Longrightarrow> moves K c i i i (match_any F P ev guard v ps)"
proof (induction ps)
  case (Cons p ps)
  show ?case
    unfolding match_any.simps
    by (rule moves_bind [OF match_moves(1) [OF ev]] moves_option moves_ret moves_bind [OF moves_scope]
        moves_bind [OF moves_declare_all] condition_moves [OF ev guard] moves_if Cons(1) | assumption | simp add: Cons(2))+
qed (auto intro: moves_ret)

lemma find_case_moves:
  assumes ev: "evaluates K ev" and cs: "\<And>x. x \<in> set cs \<Longrightarrow> sound_tree c x \<and> t_kind x = CaseClause"
  shows "moves K c i i i (find_case F P ev v cs)"
  using cs
proof (induction cs)
  case (Cons x xs)
  have x: "sound_tree c x" "t_kind x = CaseClause"
    using Cons(2) by auto
  have matches: "moves K c i i i (case_matches F P ev x v)"
    unfolding case_matches_def
    by (rule moves_if moves_ret match_any_moves [OF ev] sound_clause(1,3) [OF x] | assumption)+
  show ?case
    unfolding find_case.simps
    by (rule moves_bind [OF matches] moves_option moves_ret Cons(1) | assumption | simp add: Cons(2))+
qed (auto intro: moves_ret)

lemma find_case_suffix:
  "find_case F P ev v cs s = Ends s' (Inr (Some (cs', binds))) \<Longrightarrow> set cs' \<subseteq> set cs"
proof (induction cs arbitrary: s)
  case (Cons x xs)
  from Cons(2) obtain s1 m where "case_matches F P ev x v s = Ends s1 (Inr m)"
      "(case m of None \<Rightarrow> find_case F P ev v xs | Some b \<Rightarrow> ret (Some (x # xs, b))) s1 = Ends s' (Inr (Some (cs', binds)))"
    by (auto elim!: bind_ends)
  then show ?case using Cons(1) [of s1] by (cases m) (auto simp: ret_def)
qed (simp add: ret_def)

lemma case_body_moves:
  assumes ev: "evaluates K ev"
  shows "(\<And>t. t \<in> set ts \<Longrightarrow> sound_tree (in_switch c) t) \<Longrightarrow> moves K c i i i (case_body ev ts)"
proof (induction ts)
  case (Cons t ts)
  show ?case
    unfolding case_body.simps
  proof (rule moves_attempt [OF evaluatesD [OF ev Cons(2)]], simp, goal_cases)
    case (1 e)
    then show ?case
      by (auto simp: in_switch_def allowed_def split: signal.splits option.splits intro!: moves_ret moves_raise)
  next
    case (2 x)
    then show ?case using Cons by simp
  qed
qed (auto intro: moves_ret)

lemma run_cases_moves:
  assumes ev: "evaluates K ev"
  shows "(\<And>x. x \<in> set cs \<Longrightarrow> sound_tree c x \<and> t_kind x = CaseClause) \<Longrightarrow> moves K c i i i (run_cases ev cs binds)"
proof (induction cs arbitrary: binds)
  case (Cons x xs)
  have body: "moves K c j j j (case_body ev (snd (case_parts x)))" for j
    by (rule case_body_moves [OF ev sound_clause(2)]) (use Cons(2) in auto)
  show ?case
    unfolding run_cases.simps
    by (rule moves_bind [OF moves_push] moves_bind [OF moves_declare_all] moves_attempt [OF body] moves_bind [OF moves_pop]
        moves_bind [OF moves_result(1)] moves_bind [OF moves_result(2)] moves_if moves_ret Cons(1)
      | assumption | simp add: Cons(2))+
qed (auto intro: moves_ret)

lemma switch_obeys:
  assumes ev: "evaluates K ev" and t: "sound_tree c t" "t_kind t = SwitchStmt"
  shows "obeys K c (eval_switch F P ev t)"
proof -
  have kids: "sound_tree c x" if "x \<in> set (t_children t)" for x
    using sound_plain [OF t(1) that] t(2) by (simp add: jump_kinds_def function_kinds_def)
  let ?cs = "filter (\<lambda>c. t_kind c = CaseClause) (drop 1 (t_children t))"
  have clauses: "sound_tree c x \<and> t_kind x = CaseClause" if "x \<in> set ?cs" for x
    using kids that by (auto dest: in_set_dropD)
  have chosen: "obeys K c (case r of None \<Rightarrow> ret VVoid | Some (cases, binds) \<Rightarrow> run_cases ev cases binds)"
    if "yields (find_case F P ev v ?cs) r" for v r
  proof (cases r)
    case (Some p)
    then obtain cs' binds where "r = Some (cs', binds)" by (cases p) auto
    with that find_case_suffix [of F P ev v ?cs] have "set cs' \<subseteq> set ?cs"
      unfolding yields_def by blast
    then have "obeys K c (run_cases ev cs' binds)"
      by (intro run_cases_moves [OF ev]) (use clauses in blast)
    with \<open>r = Some (cs', binds)\<close> show ?thesis by simp
  qed (auto intro: moves_ret)
  show ?thesis
    unfolding eval_switch_def
    by (rule moves_require_bind moves_bind [OF evaluatesD [OF ev kids [OF found_child(1)]]]
        moves_bind_yields [OF find_case_moves [OF ev clauses]] chosen | assumption)+
qed

section \<open>The evaluator\<close>

lemma jump_statements:
  assumes "sound_tree c t"
  shows "t_kind t = BreakStmt \<Longrightarrow> obeys K c (raise_signal (Break (jump_label t)) :: ('f, 'x, 'a) act)"
    "t_kind t = ContinueStmt \<Longrightarrow> obeys K c (raise_signal (Continue (jump_label t)) :: ('f, 'x, 'a) act)"
    "t_kind t = FallthroughStmt \<Longrightarrow> obeys K c (raise_signal Fallthrough :: ('f, 'x, 'a) act)"
  using assms unfolding sound_tree.simps [of c t]
  by (cases "jump_label t"; auto intro!: moves_raise)+

lemma other_statements:
  assumes ev: "evaluates K ev" and t: "sound_tree c t"
  shows "t_kind t = ReturnStmt \<Longrightarrow> obeys K c (eval_return ev t)" "t_kind t = ThrowStmt \<Longrightarrow> obeys K c (eval_throw ev t)"
    "t_kind t = ExprStmt \<Longrightarrow> obeys K c (eval_seq ev t)" "t_kind t = TernaryExpr \<Longrightarrow> obeys K c (eval_ternary ev t)"
    "t_kind t = TupleExpr \<Longrightarrow> obeys K c (eval_tuple ev t)" "obeys K c (eval_literal t)"
proof -
  have kids: "sound_tree c x" if "x \<in> set (t_children t)" "t_kind t \<in> {ReturnStmt, ThrowStmt, TernaryExpr, TupleExpr}" for x
    using sound_plain [OF t that(1)] that(2) by (auto simp: jump_kinds_def function_kinds_def)
  show "obeys K c (eval_return ev t)" if "t_kind t = ReturnStmt"
    unfolding eval_return_def
    by (rule moves_bind moves_option evaluatesD [OF ev kids [OF found_child(1)]] moves_ret moves_raise | assumption | simp add: that)+
  show "obeys K c (eval_throw ev t)" if "t_kind t = ThrowStmt"
    unfolding eval_throw_def
    by (rule moves_require_bind moves_bind [OF evaluatesD [OF ev kids [OF found_child(1)]]] moves_raise | assumption | simp add: that)+
  show "obeys K c (eval_seq ev t)" if "t_kind t = ExprStmt"
    unfolding eval_seq_def
    by (rule eval_all_moves [OF ev], rule sound_directives [OF t])
      (use that in \<open>auto simp: jump_kinds_def function_kinds_def\<close>)
  show "obeys K c (eval_ternary ev t)" if "t_kind t = TernaryExpr"
    unfolding eval_ternary_def
    using kids that
    by (auto split: list.split option.split intro!: moves_errors moves_bind [OF evaluatesD [OF ev]] moves_reading moves_if
        moves_raise evaluatesD [OF ev])
  have items: "moves K c i i i (eval_items ev ts)" if "\<And>x. x \<in> set ts \<Longrightarrow> sound_tree c x" for ts i
    using that by (induction ts) (auto intro!: moves_ret evaluatesD [OF ev] moves_bind)
  show "obeys K c (eval_tuple ev t)" if "t_kind t = TupleExpr"
    unfolding eval_tuple_def by (rule moves_bind [OF items] moves_ret kids | assumption | simp add: that)+
  show "obeys K c (eval_literal t)"
    by (rule movesI) (auto simp: eval_literal_def ret_def ends_in_def split: option.splits)
qed

lemma eval_node_obeys:
  assumes P: "ops_obey K P" and ev: "evaluates K ev" and t: "sound_tree c t"
  shows "obeys K c (eval_node F P n ev t)"
proof (cases "map_of (eval_table F P n ev) (t_kind t)")
  case None
  then show ?thesis by (simp add: eval_node_def moves_raise)
next
  case (Some handler)
  then have "(t_kind t, handler) \<in> set (eval_table F P n ev)" by (rule map_of_SomeD)
  then have "obeys K c (handler t)"
    unfolding eval_table_def
    by (auto intro!: moves_ret ops_obeyD(1) [OF P ev t] eval_block_obeys [OF P ev t] other_statements [OF ev t]
        jump_statements [OF t] do_obeys [OF ev t] try_obeys [OF ev t] defer_obeys [OF t] if_obeys [OF P ev t]
        guard_obeys [OF P ev t] while_obeys [OF P ev t] repeat_obeys [OF ev t] for_obeys [OF P ev t]
        switch_obeys [OF ev t] decl_obeys [OF P ev t])
  with Some show ?thesis by (simp add: eval_node_def)
qed

lemma eval_obeys: "ops_obey K P \<Longrightarrow> evaluates K (eval F P n)"
proof (induction n)
  case 0
  have "eval F P 0 t = (\<lambda>s. Diverges)" for t by (rule ext) simp
  then show ?case by (simp add: evaluates_def moves_stuck)
next
  case (Suc n)
  have "eval F P (Suc n) t = eval_node F P n (eval F P n) t" for t by (rule ext) simp
  then show ?case using eval_node_obeys [OF Suc(2) Suc(1) [OF Suc(2)]] by (simp add: evaluates_def)
qed

end
