(* ===== verification/Control_Fuel.thy ===== *)
theory Control_Fuel
  imports Control
begin

text \<open>
  The fuel of the evaluator changes no result: an evaluation that ends or panics with some fuel
  does the same with more. \<open>fuel\<close> collects, for each combinator and construct, that it is
  monotone in the evaluator of its parts.
\<close>

named_theorems fuel

definition approx :: "('f, 'x, 'a) act \<Rightarrow> ('f, 'x, 'a) act \<Rightarrow> bool" where
  "approx m m' \<longleftrightarrow> (\<forall>s. m s = Diverges \<or> m' s = m s)"

lemma approx_refl [simp]: "approx m m"
  by (simp add: approx_def)

section \<open>Combinators\<close>

lemma approx_stuck [fuel]: "approx (\<lambda>s. Diverges) m"
  by (simp add: approx_def)

lemma approx_bind [fuel]:
  assumes "approx m m'" "\<And>x. approx (k x) (k' x)" shows "approx (bind m k) (bind m' k')"
  unfolding approx_def
proof
  fix s
  from assms(1) have m: "m s = Diverges \<or> m' s = m s" by (simp add: approx_def)
  from assms(2) have k: "k x s1 = Diverges \<or> k' x s1 = k x s1" for x s1 by (simp add: approx_def)
  show "bind m k s = Diverges \<or> bind m' k' s = bind m k s"
  proof (cases "m s")
    case (Ends s1 r)
    with m k show ?thesis by (cases r) (simp_all add: bind_def)
  qed (use m in \<open>simp_all add: bind_def\<close>)
qed

lemma approx_attempt [fuel]: "approx m m' \<Longrightarrow> approx (attempt m) (attempt m')"
  unfolding approx_def attempt_def by (intro allI) (erule_tac x = s in allE, auto)

lemma approx_reading [fuel]: "(\<And>s. approx (f s) (g s)) \<Longrightarrow> approx (reading f) (reading g)"
  by (simp add: approx_def reading_def)

lemma approx_if [fuel]: "(b \<Longrightarrow> approx m n) \<Longrightarrow> (\<not> b \<Longrightarrow> approx m' n') \<Longrightarrow> approx (if b then m else m') (if b then n else n')"
  by simp

lemma approx_let [fuel]: "(\<And>x. x = v \<Longrightarrow> approx (f x) (g x)) \<Longrightarrow> approx (let x = v in f x) (let x = v in g x)"
  by simp

lemma approx_option [fuel]:
  "approx m n \<Longrightarrow> (\<And>v. approx (f v) (g v)) \<Longrightarrow>
   approx (case x of None \<Rightarrow> m | Some v \<Rightarrow> f v) (case x of None \<Rightarrow> n | Some v \<Rightarrow> g v)"
  by (cases x) simp_all

lemma approx_sum [fuel]:
  "(\<And>e. approx (f e) (g e)) \<Longrightarrow> (\<And>v. approx (f' v) (g' v)) \<Longrightarrow>
   approx (case x of Inl e \<Rightarrow> f e | Inr v \<Rightarrow> f' v) (case x of Inl e \<Rightarrow> g e | Inr v \<Rightarrow> g' v)"
  by (cases x) simp_all

lemma approx_bool [fuel]:
  "approx m n \<Longrightarrow> approx m' n' \<Longrightarrow> approx (case b of True \<Rightarrow> m | False \<Rightarrow> m') (case b of True \<Rightarrow> n | False \<Rightarrow> n')"
  by (cases b) simp_all

lemma approx_flow [fuel]:
  "approx m n \<Longrightarrow> approx m' n' \<Longrightarrow>
   approx (case b of LoopContinue \<Rightarrow> m | LoopBreak \<Rightarrow> m') (case b of LoopContinue \<Rightarrow> n | LoopBreak \<Rightarrow> n')"
  by (cases b) simp_all

lemma approx_prod [fuel]:
  "(\<And>x y. approx (f x y) (g x y)) \<Longrightarrow> approx (case p of (x, y) \<Rightarrow> f x y) (case p of (x, y) \<Rightarrow> g x y)"
  by (cases p) simp

lemma approx_enum [fuel]:
  "(\<And>e. v = VEnum e \<Longrightarrow> approx (f e) (g e)) \<Longrightarrow> approx m n \<Longrightarrow>
   approx (case v of VEnum e \<Rightarrow> f e | _ \<Rightarrow> m) (case v of VEnum e \<Rightarrow> g e | _ \<Rightarrow> n)"
  by (cases v) simp_all

lemma approx_tuple [fuel]:
  "(\<And>xs ls. v = VTuple xs ls \<Longrightarrow> approx (f xs ls) (g xs ls)) \<Longrightarrow> approx m n \<Longrightarrow>
   approx (case v of VTuple xs ls \<Rightarrow> f xs ls | _ \<Rightarrow> m) (case v of VTuple xs ls \<Rightarrow> g xs ls | _ \<Rightarrow> n)"
  by (cases v) simp_all

lemma approx_source [fuel]:
  "(\<And>i. approx (f i) (g i)) \<Longrightarrow> (\<And>i. approx (f' i) (g' i)) \<Longrightarrow> approx m n \<Longrightarrow>
   approx (case v of VTaskGroup i \<Rightarrow> f i | VAsyncStreamHandle i \<Rightarrow> f' i | _ \<Rightarrow> m)
     (case v of VTaskGroup i \<Rightarrow> g i | VAsyncStreamHandle i \<Rightarrow> g' i | _ \<Rightarrow> n)"
  by (cases v) simp_all

lemma approx_accessor [fuel]:
  "(\<And>i. approx (f i) (g i)) \<Longrightarrow> (\<And>v. approx (h v) (k v)) \<Longrightarrow>
   approx (case v of VAccessorVar i \<Rightarrow> f i | w \<Rightarrow> h w) (case v of VAccessorVar i \<Rightarrow> g i | w \<Rightarrow> k w)"
  by (cases v) simp_all

lemma approx_thrown [fuel]:
  "(\<And>v. approx (f v) (g v)) \<Longrightarrow> approx m n \<Longrightarrow>
   approx (case e of Throw v \<Rightarrow> f v | _ \<Rightarrow> m) (case e of Throw v \<Rightarrow> g v | _ \<Rightarrow> n)"
  by (cases e) simp_all

lemma approx_ignoring [fuel]: "approx m m' \<Longrightarrow> approx (ignoring m) (ignoring m')"
  unfolding ignoring_def by (intro fuel approx_refl)

lemma approx_each [fuel]: "(\<And>x. approx (f x) (g x)) \<Longrightarrow> approx (each f xs) (each g xs)"
  by (induction xs) (auto intro: fuel)

lemma approx_scope [fuel]: "approx m m' \<Longrightarrow> approx (in_scope m) (in_scope m')"
  unfolding in_scope_def by (intro fuel approx_refl)

lemma approx_guarded [fuel]: "approx m m' \<Longrightarrow> approx (guarded g m) (guarded g m')"
  unfolding guarded_def by (intro fuel approx_refl)

section \<open>Constructs\<close>

definition approx_eval :: "('f, 'x) evaluator \<Rightarrow> ('f, 'x) evaluator \<Rightarrow> bool" where
  "approx_eval ev ev' \<longleftrightarrow> (\<forall>t. approx (ev t) (ev' t))"

definition ops_monotone :: "('f, 'x) ops \<Rightarrow> bool" where
  "ops_monotone P \<longleftrightarrow>
     (\<forall>ev ev'. approx_eval ev ev' \<longrightarrow>
        (\<forall>t. approx (x_eval P ev t) (x_eval P ev' t)) \<and>
        (\<forall>t. approx (x_hoist P ev t) (x_hoist P ev' t)) \<and>
        (\<forall>v. approx (x_deinit P ev v) (x_deinit P ev' v)) \<and>
        (\<forall>i. approx (x_read_accessor P ev i) (x_read_accessor P ev' i)) \<and>
        (\<forall>name init t. approx (x_accessor_var P ev name init t) (x_accessor_var P ev' name init t)) \<and>
        (\<forall>t v. approx (x_coerce_literal P ev t v) (x_coerce_literal P ev' t v)) \<and>
        (\<forall>v ty m w. approx (x_struct_method P ev v ty m w) (x_struct_method P ev' v ty m w)) \<and>
        (\<forall>v ty m. approx (x_class_method P ev v ty m) (x_class_method P ev' v ty m)) \<and>
        (\<forall>g. approx (x_group P ev g) (x_group P ev' g)) \<and>
        (\<forall>g. approx (x_stream P ev g) (x_stream P ev' g)))"

lemma approx_evalD: "approx_eval ev ev' \<Longrightarrow> approx (ev t) (ev' t)"
  by (simp add: approx_eval_def)

lemma ops_monotoneD:
  assumes "ops_monotone P" "approx_eval ev ev'"
  shows "approx (x_eval P ev t) (x_eval P ev' t)" "approx (x_hoist P ev t) (x_hoist P ev' t)"
    "approx (x_deinit P ev v) (x_deinit P ev' v)" "approx (x_read_accessor P ev n) (x_read_accessor P ev' n)"
    "approx (x_accessor_var P ev name init t) (x_accessor_var P ev' name init t)"
    "approx (x_coerce_literal P ev t v) (x_coerce_literal P ev' t v)"
    "approx (x_struct_method P ev v ty m w) (x_struct_method P ev' v ty m w)"
    "approx (x_class_method P ev v ty m) (x_class_method P ev' v ty m)"
    "approx (x_group P ev g) (x_group P ev' g)" "approx (x_stream P ev g) (x_stream P ev' g)"
  using assms by (simp_all add: ops_monotone_def)

lemma eval_all_fuel [fuel]:
  assumes "approx_eval ev ev'" shows "approx (eval_all ev v ts) (eval_all ev' v ts)"
  by (induction ts arbitrary: v) (auto intro!: fuel approx_evalD [OF assms])

lemma block_fuel:
  assumes "ops_monotone P" "approx_eval ev ev'"
  shows "approx (eval_seq ev t) (eval_seq ev' t)" "approx (eval_block P ev t) (eval_block P ev' t)"
    "approx (eval_scoped_block P ev t) (eval_scoped_block P ev' t)"
  unfolding eval_seq_def eval_block_def eval_scoped_block_def in_block_def leave_block_def
  by (rule fuel approx_refl ops_monotoneD [OF assms] approx_evalD [OF assms(2)] assms)+

lemma match_fuel:
  assumes "approx_eval ev ev'"
  shows "approx (match_pattern F P ev t v) (match_pattern F P ev' t v)"
    "approx (match_all F P ev ts vs) (match_all F P ev' ts vs)"
  using assms
proof (induction F P ev t v and F P ev ts vs rule: match_pattern_match_all.induct)
  case (1 F P ev t v)
  have range: "approx (range_pattern ev t v) (range_pattern ev' t v)"
    unfolding range_pattern_def
    by (auto split: list.split intro!: fuel approx_evalD [OF 1(5)])
  show ?case
    unfolding match_pattern.simps [of F P ev t v] match_pattern.simps [of F P ev' t v]
    by (rule approx_if approx_let approx_option approx_enum approx_tuple approx_reading
        approx_bind [OF approx_evalD [OF 1(5)]] range approx_refl 1(1-4) 1(5) | assumption | (simp; fail))+
next
  case (4 F P ev sub subs item items)
  then show ?case by (auto intro!: fuel)
qed (auto intro!: fuel)

lemma read_binding_fuel:
  assumes "ops_monotone P" "approx_eval ev ev'" shows "approx (read_binding P ev name) (read_binding P ev' name)"
  unfolding read_binding_def by (rule fuel approx_refl ops_monotoneD [OF assms])+

lemma condition_fuel: "approx_eval ev ev' \<Longrightarrow> approx (eval_condition ev t) (eval_condition ev' t)"
  unfolding eval_condition_def by (rule approx_bind [OF approx_evalD] | assumption | rule approx_refl)+

lemma cond_fuel:
  assumes P: "ops_monotone P" and ev: "approx_eval ev ev'"
  shows "approx (eval_cond F P ev t) (eval_cond F P ev' t)"
proof -
  have "approx (binding_value P ev p i) (binding_value P ev' p i)" for p i
    unfolding binding_value_def by (rule fuel approx_refl approx_evalD [OF ev] read_binding_fuel [OF P ev])+
  then have "approx (cond_binding F P ev t) (cond_binding F P ev' t)"
    unfolding cond_binding_def
    by (intro approx_bind approx_let approx_if approx_refl approx_option approx_evalD [OF ev] match_fuel [OF ev])
  then show ?thesis
    by (simp add: eval_cond_def condition_fuel [OF ev])
qed

lemma cond_list_fuel:
  assumes "ops_monotone P" "approx_eval ev ev'"
  shows "approx (eval_cond_list F P ev cs) (eval_cond_list F P ev' cs)"
  by (induction cs) (auto intro!: fuel cond_fuel [OF assms])

lemma branch_fuel:
  assumes P: "ops_monotone P" and ev: "approx_eval ev ev'"
  shows "approx (eval_if F P ev t) (eval_if F P ev' t)" "approx (eval_guard F P ev t) (eval_guard F P ev' t)"
    "approx (eval_ternary ev t) (eval_ternary ev' t)"
proof -
  show "approx (eval_if F P ev t) (eval_if F P ev' t)" "approx (eval_guard F P ev t) (eval_guard F P ev' t)"
    unfolding eval_if_def eval_guard_def Let_def
    by (rule fuel approx_refl cond_list_fuel [OF P ev] approx_evalD [OF ev])+
  show "approx (eval_ternary ev t) (eval_ternary ev' t)"
    unfolding eval_ternary_def
    by (auto split: list.split intro!: fuel approx_evalD [OF ev])
qed

section \<open>Loops\<close>

lemma run_loop_body_fuel: "approx_eval ev ev' \<Longrightarrow> approx (run_loop_body ev body label) (run_loop_body ev' body label)"
  unfolding run_loop_body_def by (rule approx_bind approx_attempt approx_evalD approx_refl | assumption)+

lemma while_loop_fuel:
  assumes P: "ops_monotone P" and ev: "approx_eval ev ev'"
  shows "n \<le> m \<Longrightarrow> approx (while_loop F P ev n conds body label) (while_loop F P ev' m conds body label)"
proof (induction n arbitrary: m)
  case 0
  then show ?case by (simp add: approx_def)
next
  case (Suc n)
  then obtain k where m: "m = Suc k" "n \<le> k" by (cases m) auto
  have "approx (\<lambda>s. while_loop F P ev (Suc n) conds body label s) (\<lambda>s. while_loop F P ev' (Suc k) conds body label s)"
    unfolding while_loop.simps
    by (rule fuel approx_refl cond_list_fuel [OF P ev] run_loop_body_fuel [OF ev] Suc.IH [OF m(2)])+
  then show ?case by (simp add: m)
qed

lemma repeat_loop_fuel:
  assumes ev: "approx_eval ev ev'"
  shows "n \<le> m \<Longrightarrow> approx (repeat_loop ev n body cond label) (repeat_loop ev' m body cond label)"
proof (induction n arbitrary: m)
  case 0
  then show ?case by (simp add: approx_def)
next
  case (Suc n)
  then obtain k where m: "m = Suc k" "n \<le> k" by (cases m) auto
  have "approx (\<lambda>s. repeat_loop ev (Suc n) body cond label s) (\<lambda>s. repeat_loop ev' (Suc k) body cond label s)"
    unfolding repeat_loop.simps
    by (rule fuel approx_refl condition_fuel [OF ev] run_loop_body_fuel [OF ev] Suc.IH [OF m(2)])+
  then show ?case by (simp add: m)
qed

lemma iterator_loop_fuel:
  assumes g: "approx g g'" and h: "\<And>v. approx (h v) (h' v)"
  shows "n \<le> m \<Longrightarrow> approx (iterator_loop g h n) (iterator_loop g' h' m)"
proof (induction n arbitrary: m)
  case 0
  then show ?case by (simp add: approx_def)
next
  case (Suc n)
  then obtain k where m: "m = Suc k" "n \<le> k" by (cases m) auto
  have "approx (\<lambda>s. iterator_loop g h (Suc n) s) (\<lambda>s. iterator_loop g' h' (Suc k) s)"
    unfolding iterator_loop.simps
    by (rule fuel approx_refl g h Suc.IH [OF m(2)])+
  then show ?case by (simp add: m)
qed

lemma run_element_fuel:
  assumes "ops_monotone P" "approx_eval ev ev'"
  shows "approx (run_element F P ev g name pattern w body label item) (run_element F P ev' g name pattern w body label item)"
  unfolding run_element_def bind_element_def element_where_def
  by (rule fuel approx_refl match_fuel [OF assms(2)] condition_fuel [OF assms(2)] run_loop_body_fuel [OF assms(2)])+

lemma for_items_fuel:
  assumes "ops_monotone P" "approx_eval ev ev'"
  shows "approx (for_items F P ev name pattern w body label xs) (for_items F P ev' name pattern w body label xs)"
  by (induction xs) (auto intro!: fuel run_element_fuel [OF assms])

lemma sequence_fuel:
  assumes P: "ops_monotone P" and ev: "approx_eval ev ev'" and n: "n \<le> m"
  shows "approx (run_sync_sequence F P ev n v name pattern w body label) (run_sync_sequence F P ev' m v name pattern w body label)"
    "approx (run_async_sequence F P ev n v x w body label) (run_async_sequence F P ev' m v x w body label)"
proof -
  have call: "approx (call_sequence_method P ev r ty f y) (call_sequence_method P ev' r ty f y)" for r ty f y
    unfolding call_sequence_method_def by (rule fuel ops_monotoneD [OF P ev])+
  have get: "approx (next_element P ev a i ty) (next_element P ev' a i ty)" for a i ty
    unfolding next_element_def by (rule fuel call ops_monotoneD [OF P ev])+
  have iter: "approx (make_iterator P ev v) (make_iterator P ev' v)" "approx (make_async_iterator P ev v) (make_async_iterator P ev' v)"
    unfolding make_iterator_def make_async_iterator_def by (rule fuel approx_refl call ops_monotoneD [OF P ev])+
  show "approx (run_sync_sequence F P ev n v name pattern w body label) (run_sync_sequence F P ev' m v name pattern w body label)"
    "approx (run_async_sequence F P ev n v x w body label) (run_async_sequence F P ev' m v x w body label)"
    unfolding run_sync_sequence_def run_async_sequence_def run_iterator_def
    by (rule approx_bind iter approx_refl approx_scope iterator_loop_fuel [OF get run_element_fuel [OF P ev] n])+
qed

lemma for_fuel:
  assumes P: "ops_monotone P" and ev: "approx_eval ev ev'" and n: "n \<le> m"
  shows "approx (eval_for F P ev n t) (eval_for F P ev' m t)"
  unfolding eval_for_def Let_def
  by (rule approx_if approx_refl approx_bind approx_evalD [OF ev] approx_reading approx_source ops_monotoneD [OF P ev]
      for_items_fuel [OF P ev] sequence_fuel [OF P ev n])+

section \<open>Errors, declarations, switch\<close>

text \<open>The text of a value does not depend on the fuel either.\<close>

definition shows_more :: "'a option \<Rightarrow> 'a option \<Rightarrow> bool" where
  "shows_more x y \<longleftrightarrow> x = None \<or> y = x"

lemma shows_more_refl [simp]: "shows_more x x" "shows_more None y"
  by (simp_all add: shows_more_def)

lemma map_more: "shows_more x y \<Longrightarrow> shows_more (map_option f x) (map_option f y)"
  by (auto simp: shows_more_def)

lemma bracketed_more: "shows_more x y \<Longrightarrow> shows_more (bracketed l r x) (bracketed l r y)"
  unfolding bracketed_def by (rule map_more)

lemma show_all_more: "(\<And>x. x \<in> set xs \<Longrightarrow> shows_more (f x) (g x)) \<Longrightarrow> shows_more (show_all f xs) (show_all g xs)"
proof (induction xs)
  case (Cons x xs)
  have "shows_more (f x) (g x)" "shows_more (show_all f xs) (show_all g xs)"
    using Cons by simp_all
  then show ?case by (auto simp: shows_more_def show_all_def split: option.split)
qed (simp add: show_all_def)

lemma show_parts_more:
  assumes "\<And>v. shows_more (f v) (g v)"
  shows "shows_more (fmt_element f v) (fmt_element g v)" "shows_more (show_pair f p) (show_pair g p)"
    "shows_more (show_object f obj) (show_object g obj)"
proof -
  show "shows_more (fmt_element f v) (fmt_element g v)"
    using assms by (simp add: fmt_element_def split: swift_value.split)
  show "shows_more (show_pair f p) (show_pair g p)"
    using assms [of "fst p"] assms [of "snd p"] by (auto simp: show_pair_def shows_more_def split: option.split)
  show "shows_more (show_object f obj) (show_object g obj)"
    unfolding show_object_def show_field_def by (intro bracketed_more show_all_more map_more assms)
qed

lemma display_more: "n \<le> m \<Longrightarrow> shows_more (display F H n v) (display F H m v)"
proof (induction n arbitrary: m v)
  case (Suc n)
  then obtain k where m: "m = Suc k" "n \<le> k" by (cases m) auto
  note IH = Suc.IH [OF m(2)]
  note parts = show_parts_more [of "display F H n" "display F H k", OF IH]
  have pair: "shows_more (show_pair (fmt_element (display F H n)) p) (show_pair (fmt_element (display F H k)) p)" for p
    by (rule show_parts_more(2) [OF parts(1)])
  show ?case
    unfolding m(1) display.simps(2) Let_def
    by (cases v) (auto intro!: bracketed_more show_all_more map_more parts pair IH split: option.split)
qed simp

lemma catches_fuel:
  assumes ev: "approx_eval ev ev'"
  shows "approx (try_catches F P ev err cs) (try_catches F P ev' err cs)"
proof (induction cs)
  case (Cons c cs)
  have "approx (match_catch F P ev c err) (match_catch F P ev' c err)"
    unfolding match_catch_def by (rule fuel approx_refl match_fuel [OF ev])+
  then show ?case
    unfolding try_catches.simps
    by (intro approx_bind approx_option approx_refl approx_attempt approx_evalD [OF ev] Cons)
qed simp

lemma try_fuel:
  assumes ev: "approx_eval ev ev'" and n: "n \<le> m"
  shows "approx (eval_do F P ev t) (eval_do F P ev' t)" "approx (eval_try F ev n t) (eval_try F ev' m t)"
proof -
  show "approx (eval_do F P ev t) (eval_do F P ev' t)"
    unfolding eval_do_def by (rule fuel approx_refl approx_evalD [OF ev] catches_fuel [OF ev])+
  have "approx (\<lambda>s. case display F (i_heap s) n e of None \<Rightarrow> Diverges | Some shown \<Rightarrow> trap (f shown) s)
      (\<lambda>s. case display F (i_heap s) m e of None \<Rightarrow> Diverges | Some shown \<Rightarrow> trap (f shown) s)" for e f
    unfolding approx_def
  proof
    fix s
    show "(case display F (i_heap s) n e of None \<Rightarrow> Diverges | Some shown \<Rightarrow> trap (f shown) s) = Diverges \<or>
        (case display F (i_heap s) m e of None \<Rightarrow> Diverges | Some shown \<Rightarrow> trap (f shown) s) =
        (case display F (i_heap s) n e of None \<Rightarrow> Diverges | Some shown \<Rightarrow> trap (f shown) s)"
      using display_more [OF n, of F "i_heap s" e] by (auto simp: shows_more_def)
  qed
  then show "approx (eval_try F ev n t) (eval_try F ev' m t)"
    unfolding eval_try_def by (intro approx_bind approx_refl approx_attempt approx_if approx_sum approx_thrown approx_evalD [OF ev])
qed

lemma decl_fuel:
  assumes P: "ops_monotone P" and ev: "approx_eval ev ev'"
  shows "approx (eval_decl F P ev mutable t) (eval_decl F P ev' mutable t)"
proof -
  have stored: "approx (declare_stored F P ev t name init mutable) (declare_stored F P ev' t name init mutable)" for name init
    unfolding declare_stored_def
    by (intro approx_bind approx_option approx_refl approx_evalD [OF ev] ops_monotoneD [OF P ev])
  show ?thesis
    unfolding eval_decl_def Let_def
    by (cases "is_async t"; cases "find is_value_node (rev (t_children t))")
      (auto intro!: approx_option approx_bind approx_evalD [OF ev] approx_if ops_monotoneD [OF P ev] stored)
qed

lemma switch_fuel:
  assumes ev: "approx_eval ev ev'"
  shows "approx (eval_switch F P ev t) (eval_switch F P ev' t)"
proof -
  have any: "approx (match_any F P ev guard v ps) (match_any F P ev' guard v ps)" for guard v ps
    by (induction ps) (auto intro!: fuel match_fuel [OF ev] condition_fuel [OF ev])
  have chosen: "approx (find_case F P ev v cs) (find_case F P ev' v cs)" for v cs
    by (induction cs) (auto simp: case_matches_def intro!: fuel any)
  have body: "approx (case_body ev ts) (case_body ev' ts)" for ts
    by (induction ts) (auto intro!: fuel approx_evalD [OF ev])
  have run: "approx (run_cases ev cs binds) (run_cases ev' cs binds)" for cs binds
    by (induction cs arbitrary: binds) (auto intro!: fuel body)
  show ?thesis
    unfolding eval_switch_def
    by (intro approx_bind approx_refl approx_evalD [OF ev] chosen approx_option approx_prod run)
qed

section \<open>The evaluator\<close>

lemma map_of_related:
  "list_all2 (\<lambda>(k, f) (k', g). k = k' \<and> R f g) xs ys \<Longrightarrow>
   (map_of xs k = None \<and> map_of ys k = None) \<or> (\<exists>f g. map_of xs k = Some f \<and> map_of ys k = Some g \<and> R f g)"
  by (induction rule: list_all2_induct) auto

lemma eval_node_fuel:
  assumes P: "ops_monotone P" and ev: "approx_eval ev ev'" and n: "n \<le> m"
  shows "approx (eval_node F P n ev t) (eval_node F P m ev' t)"
proof -
  have items: "approx (eval_items ev ts) (eval_items ev' ts)" for ts
    by (induction ts) (auto intro!: fuel approx_evalD [OF ev])
  have "list_all2 (\<lambda>(k, f) (k', g). k = k' \<and> (\<forall>t. approx (f t) (g t))) (eval_table F P n ev) (eval_table F P m ev')"
    unfolding eval_table_def
    by (intro list_all2_appendI)
      (auto simp: list_all2_map1 list_all2_map2 list.rel_refl eval_return_def eval_throw_def eval_tuple_def eval_while_def
        eval_repeat_def Let_def
        intro!: list.rel_refl fuel ops_monotoneD [OF P ev] block_fuel [OF P ev] branch_fuel [OF P ev] approx_evalD [OF ev]
        try_fuel [OF ev n] decl_fuel [OF P ev] switch_fuel [OF ev] for_fuel [OF P ev n] items
        while_loop_fuel [OF P ev n] repeat_loop_fuel [OF ev n])
  from map_of_related [OF this, of "t_kind t"] show ?thesis
    by (auto simp: eval_node_def)
qed

lemma eval_fuel: "ops_monotone P \<Longrightarrow> n \<le> m \<Longrightarrow> approx_eval (eval F P n) (eval F P m)"
proof (induction n arbitrary: m)
  case 0
  then show ?case by (simp add: approx_eval_def approx_def)
next
  case (Suc n)
  then obtain k where m: "m = Suc k" "n \<le> k" by (cases m) auto
  from eval_node_fuel [OF Suc(2) Suc(1) [OF Suc(2) m(2)] m(2)] show ?case
    by (simp add: approx_eval_def approx_def m)
qed

end
