(* ===== verification/Control_Defer.thy ===== *)
theory Control_Defer
  imports Control
begin

text \<open>
  Deferred blocks. An evaluation uses the stack of frames of deferred blocks as a log: it adds blocks
  to the end of the top frame and reads nothing of what was there before (\<open>writes\<close>). So the frame of a
  block can be taken apart by its statements, and a block is the nesting of its statements in which
  each one's deferred blocks are run when all that follows it has ended (\<open>finally_seq\<close>).
\<close>

named_theorems writes

section \<open>Actions that log\<close>

definition shift :: "tree list list \<Rightarrow> tree list \<Rightarrow> ('f, 'x, 'a) run \<Rightarrow> ('f, 'x, 'a) run" where
  "shift d e R =
     (case R of Ends s r \<Rightarrow> Ends (s\<lparr>i_defers := d @ [e @ concat (i_defers s)]\<rparr>) r | Diverges \<Rightarrow> Diverges | Panics \<Rightarrow> Panics)"

definition writes :: "('f, 'x, 'a) act \<Rightarrow> bool" where
  "writes m \<longleftrightarrow> (\<forall>s d e. m (s\<lparr>i_defers := d @ [e]\<rparr>) = shift d e (m (s\<lparr>i_defers := [[]]\<rparr>)))"

lemma shift_simps [simp]:
  "shift d e Diverges = Diverges" "shift d e Panics = Panics"
  "shift d e (Ends s r) = Ends (s\<lparr>i_defers := d @ [e @ concat (i_defers s)]\<rparr>) r"
  by (simp_all add: shift_def)

lemma shift_shift [simp]: "shift d e (shift [] w R) = shift d (e @ w) R"
  by (cases R) simp_all

lemma writesD: "writes m \<Longrightarrow> m (s\<lparr>i_defers := d @ [e]\<rparr>) = shift d e (m (s\<lparr>i_defers := [[]]\<rparr>))"
  unfolding writes_def by blast

lemma writes_single:
  assumes "writes m" "m (s\<lparr>i_defers := [[]]\<rparr>) = Ends s' r"
  obtains w where "i_defers s' = [w]" "s' = s'\<lparr>i_defers := [w]\<rparr>"
proof -
  from writesD [OF assms(1), of "[]" "[]" s] assms(2) have "s' = s'\<lparr>i_defers := [concat (i_defers s')]\<rparr>"
    by simp
  moreover from this have "i_defers s' = [concat (i_defers s')]"
    by (metis interp.select_convs(3) interp.surjective interp.update_convs(3))
  ultimately show ?thesis using that by metis
qed

text \<open>An action that neither reads nor changes the frames.\<close>

lemma writes_leaf:
  assumes "\<And>s ds. m (s\<lparr>i_defers := ds\<rparr>) = (case m s of Ends s' r \<Rightarrow> Ends (s'\<lparr>i_defers := ds\<rparr>) r | Diverges \<Rightarrow> Diverges | Panics \<Rightarrow> Panics)"
  shows "writes m"
  unfolding writes_def
proof (intro allI)
  fix s d e
  show "m (s\<lparr>i_defers := d @ [e]\<rparr>) = shift d e (m (s\<lparr>i_defers := [[]]\<rparr>))"
    unfolding assms [of "d @ [e]" s] assms [of "[[]]" s] by (cases "m s") simp_all
qed

lemma writes_stuck [writes]: "writes (\<lambda>s. Diverges)" "writes (\<lambda>s. Panics)"
  by (simp_all add: writes_def)

lemma writes_ret [writes]: "writes (ret x)" "writes (raise_signal e)"
  by (simp_all add: writes_def ret_def raise_signal_def)

lemma writes_errors [writes]: "writes (unsupported msg)" "writes (trap text)"
  by (simp_all add: unsupported_def trap_def writes_ret)

lemma writes_require [writes]: "writes (require x msg)"
  by (cases x) (simp_all add: require_def writes)

lemma writes_bind [writes]:
  assumes m: "writes m" and k: "\<And>x. writes (k x)"
  shows "writes (bind m k)"
  unfolding writes_def
proof (intro allI)
  fix s d e
  show "bind m k (s\<lparr>i_defers := d @ [e]\<rparr>) = shift d e (bind m k (s\<lparr>i_defers := [[]]\<rparr>))"
  proof (cases "m (s\<lparr>i_defers := [[]]\<rparr>)")
    case (Ends s1 r)
    from writes_single [OF m this] obtain w where w: "i_defers s1 = [w]" "s1 = s1\<lparr>i_defers := [w]\<rparr>" by blast
    have "k x s1 = shift [] w (k x (s1\<lparr>i_defers := [[]]\<rparr>))" for x
      using writesD [OF k, of x "[]" w s1] w(2) by simp
    with w(1) Ends show ?thesis
      by (cases r) (simp_all add: bind_def writesD [OF m] writesD [OF k])
  qed (simp_all add: bind_def writesD [OF m])
qed

lemma writes_attempt [writes]: "writes m \<Longrightarrow> writes (attempt m)"
  unfolding writes_def
proof (intro allI)
  fix s d e assume "\<forall>s d e. m (s\<lparr>i_defers := d @ [e]\<rparr>) = shift d e (m (s\<lparr>i_defers := [[]]\<rparr>))"
  then show "attempt m (s\<lparr>i_defers := d @ [e]\<rparr>) = shift d e (attempt m (s\<lparr>i_defers := [[]]\<rparr>))"
    by (cases "m (s\<lparr>i_defers := [[]]\<rparr>)") (simp_all add: attempt_def)
qed

lemma writes_reading [writes]:
  assumes "\<And>s. writes (f s)" "\<And>s ds. f (s\<lparr>i_defers := ds\<rparr>) = f s"
  shows "writes (reading f)"
  unfolding writes_def
proof (intro allI)
  fix s d e
  show "reading f (s\<lparr>i_defers := d @ [e]\<rparr>) = shift d e (reading f (s\<lparr>i_defers := [[]]\<rparr>))"
    unfolding reading_def assms(2) by (rule writesD [OF assms(1)])
qed

lemma writes_scopes [writes]: "writes push_scope" "writes pop_scope" "writes (declare_var name v mutable)"
  by (rule writes_leaf, simp add: push_scope_def pop_scope_def declare_var_def split: prod.split option.split)+

text \<open>Case distinctions.\<close>

lemma writes_if [writes]: "(b \<Longrightarrow> writes m) \<Longrightarrow> (\<not> b \<Longrightarrow> writes m') \<Longrightarrow> writes (if b then m else m')"
  by simp

lemma writes_let [writes]: "(\<And>x. x = v \<Longrightarrow> writes (f x)) \<Longrightarrow> writes (let x = v in f x)"
  by simp

lemma writes_option [writes]:
  "writes m \<Longrightarrow> (\<And>v. writes (f v)) \<Longrightarrow> writes (case x of None \<Rightarrow> m | Some v \<Rightarrow> f v)"
  by (cases x) simp_all

lemma writes_sum [writes]:
  "(\<And>e. writes (f e)) \<Longrightarrow> (\<And>v. writes (g v)) \<Longrightarrow> writes (case x of Inl e \<Rightarrow> f e | Inr v \<Rightarrow> g v)"
  by (cases x) simp_all

lemma writes_bool [writes]: "writes m \<Longrightarrow> writes m' \<Longrightarrow> writes (case b of True \<Rightarrow> m | False \<Rightarrow> m')"
  by (cases b) simp_all

lemma writes_flow [writes]: "writes m \<Longrightarrow> writes m' \<Longrightarrow> writes (case b of LoopContinue \<Rightarrow> m | LoopBreak \<Rightarrow> m')"
  by (cases b) simp_all

lemma writes_prod [writes]: "(\<And>x y. writes (f x y)) \<Longrightarrow> writes (case p of (x, y) \<Rightarrow> f x y)"
  by (cases p) simp

lemma writes_signal [writes]:
  "(\<And>v. writes (a v)) \<Longrightarrow> (\<And>l. writes (b l)) \<Longrightarrow> (\<And>l. writes (c l)) \<Longrightarrow> writes m \<Longrightarrow> (\<And>v. writes (d v)) \<Longrightarrow>
   (\<And>x. writes (f x)) \<Longrightarrow>
   writes (case e of Return v \<Rightarrow> a v | Break l \<Rightarrow> b l | Continue l \<Rightarrow> c l | Fallthrough \<Rightarrow> m | Throw v \<Rightarrow> d v | Error x \<Rightarrow> f x)"
  by (cases e) simp_all

lemma writes_enum [writes]:
  "(\<And>e. v = VEnum e \<Longrightarrow> writes (f e)) \<Longrightarrow> writes m \<Longrightarrow> writes (case v of VEnum e \<Rightarrow> f e | _ \<Rightarrow> m)"
  by (cases v) simp_all

lemma writes_tuple [writes]:
  "(\<And>xs ls. v = VTuple xs ls \<Longrightarrow> writes (f xs ls)) \<Longrightarrow> writes m \<Longrightarrow> writes (case v of VTuple xs ls \<Rightarrow> f xs ls | _ \<Rightarrow> m)"
  by (cases v) simp_all

lemma writes_source [writes]:
  "(\<And>i. writes (f i)) \<Longrightarrow> (\<And>i. writes (g i)) \<Longrightarrow> writes m \<Longrightarrow>
   writes (case v of VTaskGroup i \<Rightarrow> f i | VAsyncStreamHandle i \<Rightarrow> g i | _ \<Rightarrow> m)"
  by (cases v) simp_all

lemma writes_accessor [writes]:
  "(\<And>i. writes (f i)) \<Longrightarrow> (\<And>v. writes (h v)) \<Longrightarrow> writes (case v of VAccessorVar i \<Rightarrow> f i | w \<Rightarrow> h w)"
  by (cases v) simp_all

lemma writes_result [writes]: "writes (result r)"
  by (cases r) (simp_all add: result_def writes)

lemma writes_ignoring [writes]: "writes m \<Longrightarrow> writes (ignoring m)"
  unfolding ignoring_def by (intro writes)

lemma writes_each [writes]: "(\<And>x. writes (f x)) \<Longrightarrow> writes (each f xs)"
  by (induction xs) (auto intro: writes)

lemma writes_declare_all [writes]: "writes (declare_all binds)"
  unfolding declare_all_def by (intro writes)

lemma writes_scope [writes]: "writes m \<Longrightarrow> writes (in_scope m)"
  unfolding in_scope_def by (intro writes)

lemma writes_guarded [writes]: "writes m \<Longrightarrow> writes (guarded g m)"
  unfolding guarded_def by (intro writes)

section \<open>Constructs\<close>

definition logging :: "('f, 'x) evaluator \<Rightarrow> bool" where
  "logging ev \<longleftrightarrow> (\<forall>t. writes (ev t))"

text \<open>The other methods use the frames in the same way, and what they read of a state is not there.\<close>

definition ops_log :: "('f, 'x) ops \<Rightarrow> bool" where
  "ops_log P \<longleftrightarrow>
     (\<forall>ev. logging ev \<longrightarrow>
        (\<forall>t. writes (x_eval P ev t)) \<and> (\<forall>t. writes (x_hoist P ev t)) \<and> (\<forall>v. writes (x_deinit P ev v)) \<and>
        (\<forall>i. writes (x_read_accessor P ev i)) \<and> (\<forall>name init t. writes (x_accessor_var P ev name init t)) \<and>
        (\<forall>t v. writes (x_coerce_literal P ev t v)) \<and> (\<forall>v ty m w. writes (x_struct_method P ev v ty m w)) \<and>
        (\<forall>v ty m. writes (x_class_method P ev v ty m)) \<and> (\<forall>g. writes (x_group P ev g)) \<and>
        (\<forall>g. writes (x_stream P ev g))) \<and>
     (\<forall>t. writes (x_spawn P t)) \<and>
     (\<forall>s ds. x_held P (s\<lparr>i_defers := ds\<rparr>) = x_held P s \<and> x_held_cell P (s\<lparr>i_defers := ds\<rparr>) = x_held_cell P s \<and>
        x_static_type P (s\<lparr>i_defers := ds\<rparr>) = x_static_type P s \<and>
        x_value_is_type P (s\<lparr>i_defers := ds\<rparr>) = x_value_is_type P s)"

lemma loggingD: "logging ev \<Longrightarrow> writes (ev t)"
  by (simp add: logging_def)

lemma ops_logD:
  assumes "ops_log P" "logging ev"
  shows "writes (x_eval P ev t)" "writes (x_hoist P ev t)" "writes (x_deinit P ev v)" "writes (x_read_accessor P ev n)"
    "writes (x_accessor_var P ev name init t)" "writes (x_coerce_literal P ev t v)" "writes (x_struct_method P ev v ty m w)"
    "writes (x_class_method P ev v ty m)" "writes (x_group P ev g)" "writes (x_stream P ev g)" "writes (x_spawn P t)"
  using assms by (simp_all add: ops_log_def)

lemma ops_log_reads:
  assumes "ops_log P"
  shows "x_held P (s\<lparr>i_defers := ds\<rparr>) = x_held P s" "x_held_cell P (s\<lparr>i_defers := ds\<rparr>) = x_held_cell P s"
    "x_static_type P (s\<lparr>i_defers := ds\<rparr>) = x_static_type P s" "x_value_is_type P (s\<lparr>i_defers := ds\<rparr>) = x_value_is_type P s"
  using assms by (simp_all add: ops_log_def)

lemma writes_all [writes]:
  assumes "logging ev" shows "writes (eval_all ev v ts)" "writes (eval_items ev ts)"
proof -
  show "writes (eval_all ev v ts)" by (induction ts arbitrary: v) (auto intro!: writes loggingD [OF assms])
  show "writes (eval_items ev ts)" by (induction ts) (auto intro!: writes loggingD [OF assms])
qed

lemma writes_release: "ops_log P \<Longrightarrow> writes (release_scope P)"
  by (rule writes_leaf) (simp add: release_scope_def ops_log_reads split: prod.split)

text \<open>A frame of its own, taken off at the end.\<close>

lemma writes_framed:
  assumes m: "writes m" and k: "\<And>ds r. writes (k ds r)"
  shows "writes (bind push_frame (\<lambda>_. bind (attempt m) (\<lambda>r. bind pop_frame (\<lambda>ds. k ds r))))"
    (is "writes ?framed")
  unfolding writes_def
proof (intro allI)
  fix s d e
  have pop: "pop_frame (s1\<lparr>i_defers := d @ [e, w]\<rparr>) = Ends (s1\<lparr>i_defers := d @ [e]\<rparr>) (Inr w)"
    "pop_frame (s1\<lparr>i_defers := [[], w]\<rparr>) = Ends (s1\<lparr>i_defers := [[]]\<rparr>) (Inr w)" for s1 :: "('a, 'b) interp" and d e w
    by (simp_all add: pop_frame_def butlast_append)
  show "?framed (s\<lparr>i_defers := d @ [e]\<rparr>) = shift d e (?framed (s\<lparr>i_defers := [[]]\<rparr>))"
    using writesD [OF m, of "d @ [e]" "[]" s] writesD [OF m, of "[[]]" "[]" s]
    by (cases "m (s\<lparr>i_defers := [[]]\<rparr>)") (simp_all add: bind_def attempt_def push_frame_def pop writesD [OF k])
qed

lemma bind_assoc: "bind (bind m f) g = bind m (\<lambda>x. bind (f x) g)"
  by (rule ext) (simp add: bind_def split: run.split sum.split)

lemma attempt_after_ignoring: "bind (ignoring h) (\<lambda>_. attempt m) = attempt (bind (ignoring h) (\<lambda>_. m))"
  by (rule ext) (simp add: bind_def ignoring_def attempt_def ret_def split: run.split sum.split)

lemma ret_bind [simp]: "bind (ret x) k = k x"
  by (rule ext) (simp add: bind_def ret_def)

text \<open>What is left to do in a block once its frame is off.\<close>

definition run_deferred :: "('f, 'x) evaluator \<Rightarrow> tree list \<Rightarrow> ('f, 'x, unit) act" where
  "run_deferred ev ds = each (\<lambda>d. ignoring (ev d)) (rev ds)"

definition release :: "('f, 'x) ops \<Rightarrow> ('f, 'x) evaluator \<Rightarrow> ('f, 'x, unit) act" where
  "release P ev = bind (release_scope P) (\<lambda>released. each (\<lambda>v. ignoring (x_deinit P ev v)) (rev released))"

lemma in_block_framed:
  "in_block P ev t m =
     bind push_scope (\<lambda>_. bind push_frame (\<lambda>_.
     bind (attempt (bind (ignoring (x_hoist P ev t)) (\<lambda>_. m))) (\<lambda>r.
     bind pop_frame (\<lambda>ds. bind (run_deferred ev ds) (\<lambda>_. bind (release P ev) (\<lambda>_. result r))))))"
  unfolding in_block_def leave_block_def run_deferred_def release_def
  by (simp add: attempt_after_ignoring [symmetric] bind_assoc)

lemma writes_block:
  assumes "ops_log P" "logging ev"
  shows "writes (eval_seq ev t)" "writes (eval_block P ev t)" "writes (eval_scoped_block P ev t)"
proof -
  show seq: "writes (eval_seq ev t)"
    unfolding eval_seq_def by (rule writes_all [OF assms(2)])
  show "writes (eval_block P ev t)"
    unfolding eval_block_def by (intro writes ops_logD [OF assms] seq)
  show "writes (eval_scoped_block P ev t)"
    unfolding eval_scoped_block_def in_block_framed run_deferred_def release_def
    by (intro writes_bind writes_scopes writes_framed writes_each writes_ignoring writes_result writes_release seq
        ops_logD [OF assms] loggingD [OF assms(2)] assms(1))
qed

lemma writes_defer: "writes (defer_block t)"
  unfolding writes_def by (auto simp: defer_block_def split: option.split)

section \<open>Patterns, conditions, loops\<close>

lemma writes_match:
  assumes "ops_log P" "logging ev"
  shows "writes (match_pattern F P ev t v)" "writes (match_all F P ev ts vs)"
  using assms
proof (induction F P ev t v and F P ev ts vs rule: match_pattern_match_all.induct)
  case (1 F P ev t v)
  have range: "writes (range_pattern ev t v)"
    unfolding range_pattern_def
    by (auto split: list.split swift_value.split intro!: writes loggingD [OF 1(6)])
  show ?case
    unfolding match_pattern.simps [of F P ev t v]
    by (rule writes_if writes_let writes_enum writes_tuple writes_reading range writes_ret
        writes_bind [OF loggingD [OF 1(6)]] 1(1-4) 1(5,6) | assumption | (simp add: ops_log_reads [OF 1(5)]; fail))+
next
  case (4 F P ev sub subs item items)
  then show ?case by (auto intro!: writes)
qed (auto intro!: writes)

lemma writes_read_binding:
  assumes "ops_log P" "logging ev" shows "writes (read_binding P ev name)"
proof -
  have ref: "writes (upgrade_reference v n)" for v n
    unfolding upgrade_reference_def by (rule writes_reading) (auto intro!: writes split: swift_value.split)
  show ?thesis
    unfolding read_binding_def
    by (intro writes_reading writes_option writes_ret writes_accessor ref ops_logD [OF assms]) (simp add: get_var_def)
qed

lemma writes_condition: "logging ev \<Longrightarrow> writes (eval_condition ev t)"
  unfolding eval_condition_def by (intro writes loggingD) (simp_all split: option.split)

lemma writes_cond:
  assumes P: "ops_log P" and ev: "logging ev" shows "writes (eval_cond F P ev t)"
proof -
  have "writes (binding_value P ev p i)" for p i
    unfolding binding_value_def by (intro writes loggingD [OF ev] writes_read_binding [OF P ev])
  then have "writes (cond_binding F P ev t)"
    unfolding cond_binding_def
    by (intro writes_bind writes_let writes_if writes_prod) (auto intro!: writes loggingD [OF ev] writes_match [OF P ev] split: node_kind.split)
  then show ?thesis
    by (simp add: eval_cond_def writes_condition [OF ev])
qed

lemma writes_cond_list:
  assumes "ops_log P" "logging ev" shows "writes (eval_cond_list F P ev cs)"
  by (induction cs) (auto intro!: writes writes_cond [OF assms])

lemma writes_branch:
  assumes P: "ops_log P" and ev: "logging ev"
  shows "writes (eval_if F P ev t)" "writes (eval_guard F P ev t)" "writes (eval_ternary ev t)"
proof -
  show "writes (eval_if F P ev t)" "writes (eval_guard F P ev t)"
    unfolding eval_if_def eval_guard_def Let_def
    by (intro writes writes_cond_list [OF P ev] loggingD [OF ev])+
  show "writes (eval_ternary ev t)"
    unfolding eval_ternary_def
    by (auto split: list.split option.split intro!: writes loggingD [OF ev])
qed

lemma writes_body: "logging ev \<Longrightarrow> writes (run_loop_body ev body label)"
  unfolding run_loop_body_def by (intro writes loggingD)

lemma writes_stepwise: "(\<And>s. f s = g s) \<Longrightarrow> writes g \<Longrightarrow> writes f"
  by (simp add: writes_def)

lemma writes_while:
  assumes "ops_log P" "logging ev" shows "writes (while_loop F P ev n conds body label)"
proof (induction n)
  case 0
  show ?case by (rule writes_stepwise [OF _ writes_stuck(1)]) simp
next
  case (Suc n)
  show ?case
    by (rule writes_stepwise [OF while_loop.simps(2)])
      (intro writes writes_cond_list [OF assms] writes_body [OF assms(2)] Suc)
qed

lemma writes_repeat:
  assumes "logging ev" shows "writes (repeat_loop ev n body cond label)"
proof (induction n)
  case 0
  show ?case by (rule writes_stepwise [OF _ writes_stuck(1)]) simp
next
  case (Suc n)
  show ?case
    by (rule writes_stepwise [OF repeat_loop.simps(2)])
      (intro writes writes_condition [OF assms] writes_body [OF assms] Suc)
qed

lemma writes_iterator:
  assumes "writes g" "\<And>v. writes (h v)" shows "writes (iterator_loop g h n)"
proof (induction n)
  case 0
  show ?case by (rule writes_stepwise [OF _ writes_stuck(1)]) simp
next
  case (Suc n)
  show ?case
    by (rule writes_stepwise [OF iterator_loop.simps(2)]) (intro writes assms Suc)
qed

lemma writes_element:
  assumes "ops_log P" "logging ev"
  shows "writes (run_element F P ev g name pattern w body label item)"
  unfolding run_element_def bind_element_def element_where_def
  by (intro writes writes_match [OF assms] writes_condition [OF assms(2)] writes_body [OF assms(2)])

lemma writes_items:
  assumes "ops_log P" "logging ev"
  shows "writes (for_items F P ev name pattern w body label xs)"
  by (induction xs) (auto intro!: writes writes_element [OF assms])

lemma writes_type_name: "writes (type_name_or v msg)"
  unfolding type_name_or_def by (intro writes) simp_all

lemma writes_sequence:
  assumes P: "ops_log P" and ev: "logging ev"
  shows "writes (run_sync_sequence F P ev n v name pattern w body label)" "writes (run_async_sequence F P ev n v x w body label)"
proof -
  have call: "writes (call_sequence_method P ev r ty f y)" for r ty f y
    unfolding call_sequence_method_def by (intro writes ops_logD [OF P ev]) simp
  have get: "writes (next_element P ev a i ty)" for a i ty
    unfolding next_element_def by (intro writes call ops_logD [OF P ev]) (simp add: get_var_def)
  have iter: "writes (make_iterator P ev v)" "writes (make_async_iterator P ev v)"
    unfolding make_iterator_def make_async_iterator_def
    by (intro writes writes_type_name call ops_logD [OF P ev]; simp split: option.split)+
  show "writes (run_sync_sequence F P ev n v name pattern w body label)" "writes (run_async_sequence F P ev n v x w body label)"
    unfolding run_sync_sequence_def run_async_sequence_def run_iterator_def
    by (intro writes iter writes_type_name writes_iterator [OF get writes_element [OF P ev]])+
qed

lemma writes_for:
  assumes P: "ops_log P" and ev: "logging ev" shows "writes (eval_for F P ev n t)"
proof -
  have it: "writes (iterate v)" for v
    by (rule writes_leaf) (auto simp: iterate_def ret_def raise_signal_def split: option.split)
  have custom: "is_custom_sequence P (s\<lparr>i_defers := ds\<rparr>) v = is_custom_sequence P s v" for s ds v
    by (simp add: is_custom_sequence_def split: option.split)
  show ?thesis
    unfolding eval_for_def Let_def
    by (intro writes loggingD [OF ev] ops_logD [OF P ev] it writes_items [OF P ev] writes_sequence [OF P ev])
      (unfold custom, rule refl)
qed

section \<open>Errors, declarations, switch\<close>

lemma writes_do:
  assumes P: "ops_log P" and ev: "logging ev"
  shows "writes (eval_do F P ev t)" "writes (eval_try F ev n t)"
proof -
  have "writes (try_catches F P ev err cs)" for err cs
  proof (induction cs)
    case (Cons c cs)
    have "writes (match_catch F P ev c err)"
      unfolding match_catch_def by (intro writes writes_match [OF P ev])
    with Cons show ?case
      unfolding try_catches.simps by (intro writes loggingD [OF ev])
  qed (simp add: writes)
  then show "writes (eval_do F P ev t)"
    unfolding eval_do_def by (intro writes loggingD [OF ev])
  have "writes (\<lambda>s. case display F (i_heap s) n e of None \<Rightarrow> Diverges | Some shown \<Rightarrow> trap (f shown) s)" for e f
    by (rule writes_leaf) (simp add: trap_def raise_signal_def split: option.split)
  then show "writes (eval_try F ev n t)"
    unfolding eval_try_def by (intro writes loggingD [OF ev])
qed

lemma writes_bind_tuple:
  "writes (bind_tuple_pattern H t v mutable :: ('f, 'x, unit) act)"
  "writes (bind_tuple_elems H ts vs mutable :: ('f, 'x, unit) act)"
proof (induction H t v mutable and H ts vs mutable rule: bind_tuple_pattern_bind_tuple_elems.induct)
  case (1 H t v mutable)
  then show ?case by (cases v) (simp_all add: bind_tuple_pattern.simps [of H t] writes)
next
  case (4 H sub subs item items mutable)
  then show ?case by (auto intro!: writes)
qed (auto intro!: writes)

lemma writes_decl:
  assumes P: "ops_log P" and ev: "logging ev" shows "writes (eval_decl F P ev mutable t)"
proof -
  have typed: "writes (\<lambda>s. Ends (s\<lparr>i_store := (case ty of Some ty \<Rightarrow> set_declared_type (i_store s) (i_env s) name ty
      | None \<Rightarrow> i_store s)\<rparr>) (Inr VVoid))" for ty name
    by (rule writes_leaf) (simp split: option.split)
  have "writes (declare_stored F P ev t name init mutable)" for name init
    unfolding declare_stored_def
    by (intro writes typed loggingD [OF ev] ops_logD [OF P ev]) (unfold ops_log_reads [OF P], rule refl)
  then show ?thesis
    unfolding eval_decl_def Let_def
    by (cases "is_async t"; cases "find is_value_node (rev (t_children t))")
      (auto intro!: writes writes_bind_tuple loggingD [OF ev] ops_logD [OF P ev])
qed

lemma writes_switch:
  assumes P: "ops_log P" and ev: "logging ev" shows "writes (eval_switch F P ev t)"
proof -
  have any: "writes (match_any F P ev guard v ps)" for guard v ps
    by (induction ps) (auto intro!: writes writes_match [OF P ev] writes_condition [OF ev])
  have chosen: "writes (find_case F P ev v cs)" for v cs
    by (induction cs) (auto simp: case_matches_def intro!: writes any)
  have body: "writes (case_body ev ts)" for ts
    by (induction ts) (auto intro!: writes loggingD [OF ev])
  have run: "writes (run_cases ev cs binds)" for cs binds
    by (induction cs arbitrary: binds) (auto intro!: writes body)
  show ?thesis
    unfolding eval_switch_def by (intro writes loggingD [OF ev] chosen run)
qed

lemma writes_literal: "writes (eval_literal t)"
  by (rule writes_leaf) (simp add: eval_literal_def ret_def split: option.split)

lemma logging_node:
  assumes P: "ops_log P" and ev: "logging ev" shows "writes (eval_node F P n ev t)"
proof (cases "map_of (eval_table F P n ev) (t_kind t)")
  case None
  then show ?thesis by (simp add: eval_node_def writes)
next
  case (Some handler)
  then have "(t_kind t, handler) \<in> set (eval_table F P n ev)" by (rule map_of_SomeD)
  then have "writes (handler t)"
    unfolding eval_table_def
    by (auto simp: eval_return_def eval_throw_def eval_tuple_def eval_while_def eval_repeat_def Let_def
        intro!: writes ops_logD [OF P ev] loggingD [OF ev] writes_block [OF P ev] writes_do [OF P ev] writes_defer
          writes_branch [OF P ev] writes_while [OF P ev] writes_repeat [OF ev] writes_for [OF P ev] writes_switch [OF P ev]
          writes_decl [OF P ev] writes_all [OF ev] writes_literal)
  with Some show ?thesis by (simp add: eval_node_def)
qed

lemma eval_logging: "ops_log P \<Longrightarrow> logging (eval F P n)"
proof (induction n)
  case 0
  have "eval F P 0 t = (\<lambda>s. Diverges)" for t by (rule ext) simp
  then show ?case by (simp add: logging_def writes_stuck)
next
  case (Suc n)
  have "eval F P (Suc n) t = eval_node F P n (eval F P n) t" for t by (rule ext) simp
  then show ?case using logging_node [OF Suc(2) Suc(1) [OF Suc(2)]] by (simp add: logging_def)
qed

section \<open>A block as nested clean-up\<close>

text \<open>
  The specification: an action with a frame of its own, and then what follows it; when that has
  ended, however it ended, the blocks that the action deferred are run, the last first.
\<close>

definition collect :: "('f, 'x, 'a) act \<Rightarrow> ('f, 'x, tree list \<times> ('f signal + 'a)) act" where
  "collect m = bind push_frame (\<lambda>_. bind (attempt m) (\<lambda>r. bind pop_frame (\<lambda>ds. ret (ds, r))))"

definition and_finally ::
  "('f, 'x) evaluator \<Rightarrow> ('f, 'x, 'a) act \<Rightarrow> ('a \<Rightarrow> ('f, 'x, 'b) act) \<Rightarrow> ('f, 'x, 'b) act" where
  "and_finally ev m rest =
     bind (collect m) (\<lambda>(ds, r).
     bind (attempt (bind (result r) rest)) (\<lambda>r'.
     bind (run_deferred ev ds) (\<lambda>_. result r')))"

fun finally_seq :: "('f, 'x) evaluator \<Rightarrow> 'f swift_value \<Rightarrow> tree list \<Rightarrow> ('f, 'x, 'f swift_value) act" where
  "finally_seq ev v [] = ret v"
| "finally_seq ev v (t # ts) = and_finally ev (ev t) (\<lambda>v'. finally_seq ev v' ts)"

lemma after_value: "m s = Ends s' (Inr x) \<Longrightarrow> bind m k s = k x s'"
  by (simp add: bind_def)

lemma after_attempt: "m s = Ends s' r \<Longrightarrow> bind (attempt m) k s = k r s'"
  by (simp add: bind_def attempt_def)

lemma run_deferred_append:
  "bind (run_deferred ev (ds @ es)) k = bind (run_deferred ev es) (\<lambda>_. bind (run_deferred ev ds) k)"
proof -
  have "bind (each f (xs @ ys)) k = bind (each f xs) (\<lambda>_. bind (each f ys) k)" for f :: "tree \<Rightarrow> ('a, 'b, unit) act" and xs ys
    by (induction xs) (simp_all add: bind_assoc)
  then show ?thesis by (simp add: run_deferred_def)
qed

lemma collect_run:
  assumes "writes m" "m (s\<lparr>i_defers := [[]]\<rparr>) = Ends s1 r"
  shows "m (s\<lparr>i_defers := fs @ [w]\<rparr>) = Ends (s1\<lparr>i_defers := fs @ [w @ concat (i_defers s1)]\<rparr>) r"
    "collect m (s\<lparr>i_defers := fs\<rparr>) = Ends (s1\<lparr>i_defers := fs\<rparr>) (Inr (concat (i_defers s1), r))"
  using writesD [OF assms(1), of fs w s] writesD [OF assms(1), of fs "[]" s] assms(2)
  by (simp_all add: collect_def bind_def attempt_def push_frame_def pop_frame_def ret_def)

lemma collect_stuck:
  assumes "writes m" "m (s\<lparr>i_defers := [[]]\<rparr>) = R" "\<nexists>s1 r. R = Ends s1 r"
  shows "m (s\<lparr>i_defers := fs @ [w]\<rparr>) = R" "collect m (s\<lparr>i_defers := fs\<rparr>) = (if R = Panics then Panics else Diverges)"
  using writesD [OF assms(1), of fs w s] writesD [OF assms(1), of fs "[]" s] assms(2,3)
  by (cases R; simp add: collect_def bind_def attempt_def push_frame_def)+

lemma run_deferred_ends: "run_deferred ev ds s = Ends s' r \<Longrightarrow> r = Inr ()"
proof -
  have "each (\<lambda>d. ignoring (ev d)) xs s = Ends s' r \<Longrightarrow> r = Inr ()" for xs s
  proof (induction xs arbitrary: s)
    case (Cons x xs)
    then show ?case by (cases "ev x s") (simp_all add: bind_def ignoring_def attempt_def ret_def)
  qed (simp add: ret_def)
  then show "run_deferred ev ds s = Ends s' r \<Longrightarrow> r = Inr ()" by (simp add: run_deferred_def)
qed

lemma attempt_finally:
  "bind (attempt (bind m (\<lambda>r'. bind (run_deferred ev ds) (\<lambda>_. result r')))) k =
   bind (attempt m) (\<lambda>x. case x of Inl e \<Rightarrow> k (Inl e) | Inr r' \<Rightarrow> bind (run_deferred ev ds) (\<lambda>_. k r'))"
proof
  fix s
  show "bind (attempt (bind m (\<lambda>r'. bind (run_deferred ev ds) (\<lambda>_. result r')))) k s =
    bind (attempt m) (\<lambda>x. case x of Inl e \<Rightarrow> k (Inl e) | Inr r' \<Rightarrow> bind (run_deferred ev ds) (\<lambda>_. k r')) s"
  proof (cases "m s")
    case (Ends s1 r)
    then show ?thesis
    proof (cases r)
      case (Inr r')
      with Ends run_deferred_ends [of ev ds s1] show ?thesis
        by (cases "run_deferred ev ds s1") (auto simp: bind_def attempt_def result_def raise_signal_def ret_def split: sum.split)
    qed (simp add: bind_def attempt_def)
  qed (simp_all add: bind_def attempt_def)
qed

lemma and_finally_run:
  assumes "writes m" "m (s\<lparr>i_defers := [[]]\<rparr>) = Ends s1 r"
  shows "bind (attempt (and_finally ev m rest)) k (s\<lparr>i_defers := fs\<rparr>) =
    bind (attempt (bind (result r) rest)) (\<lambda>r'. bind (run_deferred ev (concat (i_defers s1))) (\<lambda>_. k r')) (s1\<lparr>i_defers := fs\<rparr>)"
proof -
  have "bind (attempt (and_finally ev m rest)) k (s\<lparr>i_defers := fs\<rparr>) =
      bind (attempt (bind (attempt (bind (result r) rest))
        (\<lambda>r'. bind (run_deferred ev (concat (i_defers s1))) (\<lambda>_. result r')))) k (s1\<lparr>i_defers := fs\<rparr>)"
    by (simp add: and_finally_def bind_def attempt_def collect_run [OF assms])
  also have "\<dots> = bind (attempt (bind (result r) rest))
      (\<lambda>r'. bind (run_deferred ev (concat (i_defers s1))) (\<lambda>_. k r')) (s1\<lparr>i_defers := fs\<rparr>)"
    unfolding attempt_finally by (simp add: bind_def attempt_def split: run.split)
  finally show ?thesis .
qed

text \<open>One frame for a sequence against a frame for each statement.\<close>

lemma framed_seq:
  assumes "logging ev"
  shows "bind (attempt (eval_all ev v ts)) (\<lambda>r. bind pop_frame (\<lambda>ds. bind (run_deferred ev ds) (\<lambda>_. k r))) (s\<lparr>i_defers := fs @ [w]\<rparr>) =
    bind (attempt (finally_seq ev v ts)) (\<lambda>r. bind (run_deferred ev w) (\<lambda>_. k r)) (s\<lparr>i_defers := fs\<rparr>)"
proof (induction ts arbitrary: v s w k)
  case Nil
  show ?case by (simp add: bind_def attempt_def ret_def pop_frame_def)
next
  case (Cons t ts)
  have log: "writes (ev t)" by (rule loggingD [OF assms])
  show ?case
  proof (cases "ev t (s\<lparr>i_defers := [[]]\<rparr>)")
    case (Ends s1 r)
    note run = collect_run [OF log Ends]
    note split = and_finally_run [OF log Ends]
    have pop: "bind pop_frame k' (s1\<lparr>i_defers := fs @ [w']\<rparr>) = k' w' (s1\<lparr>i_defers := fs\<rparr>)"
      for k' :: "tree list \<Rightarrow> ('a, 'b, 'c) act" and w'
      by (rule after_value) (simp add: pop_frame_def)
    show ?thesis
    proof (cases r)
      case (Inl e)
      have stmts: "eval_all ev v (t # ts) (s\<lparr>i_defers := fs @ [w]\<rparr>) = Ends (s1\<lparr>i_defers := fs @ [w @ concat (i_defers s1)]\<rparr>) (Inl e)"
        using run(1) Inl by (simp add: bind_def)
      have raised: "bind (result (Inl e)) rest = (raise_signal e :: ('a, 'b, 'a swift_value) act)" for rest
        by (rule ext) (simp add: bind_def result_def raise_signal_def)
      show ?thesis
        unfolding finally_seq.simps split after_attempt [of "eval_all ev v (t # ts)", OF stmts] pop unfolding Inl raised
        by (simp add: after_attempt [of "raise_signal e", OF raise_signal_def] run_deferred_append)
    next
      case (Inr x)
      have stmts: "bind (attempt (eval_all ev v (t # ts))) k' (s\<lparr>i_defers := fs @ [w]\<rparr>) =
          bind (attempt (eval_all ev x ts)) k' (s1\<lparr>i_defers := fs @ [w @ concat (i_defers s1)]\<rparr>)"
        for k' :: "_ \<Rightarrow> ('a, 'b, 'c) act"
        using run(1) Inr by (simp add: bind_def attempt_def)
      show ?thesis
        unfolding finally_seq.simps split stmts Cons.IH unfolding Inr
        by (simp add: result_def run_deferred_append)
    qed
  qed (simp_all add: collect_stuck [OF log] bind_def attempt_def and_finally_def)
qed

text \<open>A block: its scope, the hoisting and the statements as nested clean-up, the release of the scope.\<close>

definition block_spec :: "('f, 'x) ops \<Rightarrow> ('f, 'x) evaluator \<Rightarrow> ('f, 'x) evaluator" where
  "block_spec P ev t =
     bind push_scope (\<lambda>_.
     bind (attempt (and_finally ev (ignoring (x_hoist P ev t)) (\<lambda>_. finally_seq ev VVoid (expand_directives t)))) (\<lambda>r.
     bind (release P ev) (\<lambda>_. result r)))"

lemma scoped_block_spec:
  assumes P: "ops_log P" and ev: "logging ev"
  shows "eval_scoped_block P ev t s = block_spec P ev t s"
proof -
  let ?h = "ignoring (x_hoist P ev t)" and ?ts = "expand_directives t"
  let ?k = "\<lambda>r. bind (release P ev) (\<lambda>_. result r)"
  have h: "writes ?h" by (intro writes ops_logD [OF P ev])
  have run: "bind push_frame (\<lambda>_. bind (attempt (bind ?h (\<lambda>_. eval_all ev VVoid ?ts)))
        (\<lambda>r. bind pop_frame (\<lambda>ds. bind (run_deferred ev ds) (\<lambda>_. ?k r)))) (u\<lparr>i_defers := fs\<rparr>) =
      bind (attempt (and_finally ev ?h (\<lambda>_. finally_seq ev VVoid ?ts))) ?k (u\<lparr>i_defers := fs\<rparr>)" for u fs
  proof (cases "?h (u\<lparr>i_defers := [[]]\<rparr>)")
    case (Ends s1 r)
    then have r: "r = Inr ()" by (auto simp: ignoring_def bind_def attempt_def ret_def split: run.splits)
    have "bind push_frame (\<lambda>_. bind (attempt (bind ?h (\<lambda>_. eval_all ev VVoid ?ts))) k) (u\<lparr>i_defers := fs\<rparr>) =
        bind (attempt (eval_all ev VVoid ?ts)) k (s1\<lparr>i_defers := fs @ [concat (i_defers s1)]\<rparr>)"
      for k :: "_ \<Rightarrow> ('a, 'b, 'a swift_value) act"
      using collect_run(1) [OF h Ends, of fs "[]"] r by (simp add: bind_def attempt_def push_frame_def)
    then show ?thesis
      unfolding and_finally_run [OF h Ends] r by (simp add: framed_seq [OF ev] result_def)
  qed (simp_all add: collect_stuck [OF h] bind_def attempt_def push_frame_def and_finally_def)
  have block: "bind push_frame (\<lambda>_. bind (attempt (bind ?h (\<lambda>_. eval_all ev VVoid ?ts)))
        (\<lambda>r. bind pop_frame (\<lambda>ds. bind (run_deferred ev ds) (\<lambda>_. ?k r)))) =
      bind (attempt (and_finally ev ?h (\<lambda>_. finally_seq ev VVoid ?ts))) ?k"
  proof
    fix s
    from run [of "i_defers s" s] show "bind push_frame (\<lambda>_. bind (attempt (bind ?h (\<lambda>_. eval_all ev VVoid ?ts)))
        (\<lambda>r. bind pop_frame (\<lambda>ds. bind (run_deferred ev ds) (\<lambda>_. ?k r)))) s =
      bind (attempt (and_finally ev ?h (\<lambda>_. finally_seq ev VVoid ?ts))) ?k s" by simp
  qed
  show ?thesis
    by (simp only: eval_scoped_block_def in_block_framed block_spec_def eval_seq_def block)
qed

end
