(* ===== verification/Control_Props.thy ===== *)
theory Control_Props
  imports Control_Correct Control_Fuel Control_Defer
begin

text \<open>
  The properties of the evaluator: what an evaluation leaves of the scopes and the jumps it lets
  out, the role of the fuel, while loops against a relational semantics, and blocks with deferred
  blocks against nested clean-up.
\<close>

section \<open>Sample methods\<close>

text \<open>
  The other methods of small programs: variables are read, arrays built, and a call does what
  \<open>call\<close> says, such as to add its name to a log or to raise a signal.
\<close>

definition sample_ops :: "(ustr \<Rightarrow> ('f, 'x, 'f swift_value) act) \<Rightarrow> ('f, 'x) ops" where
  "sample_ops call =
     \<lparr>x_eval = (\<lambda>ev t.
        if t_kind t = CallExpr then call (case t_text t of Some name \<Rightarrow> name | None \<Rightarrow> [])
        else if t_kind t = ArrayLiteral then bind (eval_items ev (t_children t)) (\<lambda>vs. ret (VArray vs))
        else if t_kind t = IdentExpr then
          reading (\<lambda>s. case Option.bind (t_text t) (\<lambda>name. get_var name s) of
            Some v \<Rightarrow> ret v | None \<Rightarrow> unsupported ''name'')
        else unsupported ''expression''),
      x_hoist = (\<lambda>ev t. ret ()), x_deinit = (\<lambda>ev v. ret ()), x_held = (\<lambda>s i. True), x_held_cell = (\<lambda>s i. True),
      x_read_accessor = (\<lambda>ev i. unsupported ''accessor''), x_accessor_var = (\<lambda>ev name init t. unsupported ''accessor''),
      x_spawn = (\<lambda>t. unsupported ''task''), x_coerce_literal = (\<lambda>ev t v. ret v), x_static_type = (\<lambda>s t. None),
      x_value_is_type = (\<lambda>s v ty. False), x_protocols = (\<lambda>x ty. []), x_type_has_method = (\<lambda>x ty m. False),
      x_is_class = (\<lambda>x ty. False), x_class_has_method = (\<lambda>x ty m. False),
      x_struct_method = (\<lambda>ev v ty m w. unsupported ''method''), x_class_method = (\<lambda>ev v ty m. unsupported ''method''),
      x_group = (\<lambda>ev g. unsupported ''group''), x_stream = (\<lambda>ev g. unsupported ''stream'')\<rparr>"

definition log_call :: "ustr \<Rightarrow> ('f, ustr list, 'f swift_value) act" where
  "log_call name s = Ends (s\<lparr>i_rest := i_rest s @ [name]\<rparr>) (Inr VVoid)"

lemma sample_ops_simps [simp]:
  "x_hoist (sample_ops call) = (\<lambda>ev t. ret ())" "x_deinit (sample_ops call) = (\<lambda>ev v. ret ())"
  "x_held (sample_ops call) = (\<lambda>s i. True)"
  "t_kind t = CallExpr \<Longrightarrow> x_eval (sample_ops call) ev t = call (case t_text t of Some name \<Rightarrow> name | None \<Rightarrow> [])"
  "t_kind t = ArrayLiteral \<Longrightarrow> x_eval (sample_ops call) ev t = bind (eval_items ev (t_children t)) (\<lambda>vs. ret (VArray vs))"
  by (simp_all add: sample_ops_def)

lemma sample_ops_obey:
  assumes "\<And>name. obeys K no_jumps (call name)" shows "ops_obey K (sample_ops call)"
proof -
  have items: "obeys K c (eval_items ev ts)" if "evaluates K ev" "\<And>x. x \<in> set ts \<Longrightarrow> sound_tree c x" for c ev ts
    using that(2) by (induction ts) (auto intro!: moves_ret evaluatesD [OF that(1)] moves_bind)
  have "obeys K c (x_eval (sample_ops call) ev t)" if "evaluates K ev" "sound_tree c t" for c ev t
    using sound_plain [OF that(2)] unfolding sample_ops_def
    by (auto simp: jump_kinds_def function_kinds_def intro!: moves_no_jumps [OF assms] moves_bind [OF items [OF that(1)]] moves_reading
        moves_ret moves_errors split: option.split)
  then show ?thesis
    unfolding ops_obey_def by (auto simp: sample_ops_def intro!: moves_ret moves_errors)
qed

lemma sample_ops_monotone: "ops_monotone (sample_ops call)"
proof -
  have items: "approx (eval_items ev ts) (eval_items ev' ts)" if "approx_eval ev ev'" for ev ev' :: "('a, 'b) evaluator" and ts
    by (induction ts) (auto intro!: approx_evalD [OF that] approx_bind)
  then show ?thesis
    unfolding ops_monotone_def by (auto simp: sample_ops_def intro!: approx_bind)
qed

lemma sample_ops_log:
  assumes "\<And>name. writes (call name)" shows "ops_log (sample_ops call)"
proof -
  have "writes (x_eval (sample_ops call) ev t)" if "logging ev" for ev t
    unfolding sample_ops_def by (auto simp: get_var_def intro!: writes assms writes_all [OF that] split: option.split)
  then show ?thesis
    unfolding ops_log_def by (auto simp: sample_ops_def intro!: writes)
qed

lemma log_call_writes: "writes (log_call name)"
  by (rule writes_leaf) (simp add: log_call_def)

section \<open>Sample programs\<close>

definition leaf :: "node_kind \<Rightarrow> string \<Rightarrow> tree" where
  "leaf k name = Tree k (Some (scalars name)) 0 0 None [] None []"

definition node :: "node_kind \<Rightarrow> tree list \<Rightarrow> tree" where
  "node k ts = Tree k None 0 0 None [] None ts"

definition call_block :: "ustr \<Rightarrow> tree" where
  "call_block name = node Block [Tree CallExpr (Some name) 0 0 None [] None []]"

lemma sample_trees [simp]:
  "t_kind (leaf k name) = k" "t_children (leaf k name) = []" "t_kind (node k ts) = k" "t_children (node k ts) = ts"
  "t_raw (leaf k name) = Some (scalars name)" "t_raw (node k ts) = None" "is_block (node k ts) = (k = Block)"
  "is_block (leaf k name) = (k = Block)"
  by (simp_all add: leaf_def node_def is_block_def)

text \<open>\<open>{ while true { break } }\<close>\<close>

definition while_break :: tree where
  "while_break = node Block [node WhileStmt [leaf BoolLiteral ''true'', node Block [node BreakStmt []]]]"

lemma while_break_sound: "sound_tree no_jumps while_break"
  unfolding while_break_def
  by (simp add: sound_tree.simps [of _ "node _ _"] sound_tree.simps [of _ "leaf _ _"] child_jumps_def function_kinds_def
      in_loop_def jump_label_def t_text_def)

text \<open>A state of one scope without names.\<close>

definition start :: "('f, ustr list) interp" where
  "start =
     \<lparr>i_store = \<lparr>scope_at = (\<lambda>_. []), cell_at = (\<lambda>_. \<lparr>b_value = VVoid, b_mutable = False, b_declared = None\<rparr>),
        next_scope = 1, next_cell = 0\<rparr>,
      i_env = [0], i_defers = [], i_heap = Map.empty, i_rest = []\<rparr>"

lemma start_fit: "fit (\<lambda>_. True) start"
  by (simp add: fit_def start_def)

text \<open>The method of a node, by its kind.\<close>

lemma eval_kind:
  "t_kind t = Block \<Longrightarrow> eval F P (Suc n) t s = eval_scoped_block P (eval F P n) t s"
  "t_kind t = WhileStmt \<Longrightarrow> eval F P (Suc n) t s = eval_while F P (eval F P n) n t s"
  "t_kind t = ForStmt \<Longrightarrow> eval F P (Suc n) t s = eval_for F P (eval F P n) n t s"
  "t_kind t = SwitchStmt \<Longrightarrow> eval F P (Suc n) t s = eval_switch F P (eval F P n) t s"
  "t_kind t = BreakStmt \<Longrightarrow> eval F P (Suc n) t s = raise_signal (Break (jump_label t)) s"
  "t_kind t = ReturnStmt \<Longrightarrow> eval F P (Suc n) t s = eval_return (eval F P n) t s"
  "t_kind t = DeferStmt \<Longrightarrow> eval F P (Suc n) t s = defer_block t s"
  "t_kind t = BoolLiteral \<Longrightarrow> eval F P (Suc n) t s = ret (VBool (case node_bool t of Some b \<Rightarrow> b | None \<Rightarrow> False)) s"
  "t_kind t = CallExpr \<Longrightarrow> eval F P (Suc n) t s = x_eval P (eval F P n) t s"
  "t_kind t = ArrayLiteral \<Longrightarrow> eval F P (Suc n) t s = x_eval P (eval F P n) t s"
  by (simp_all add: eval_node_def eval_table_def hoisted_kinds_def other_kinds_def)

declare eval.simps(2) [simp del]

lemma expand_node [simp]: "expand_directives (node k ts) = concat (map push_active_branch ts)"
  by (simp add: expand_directives_def)

lemma push_active [simp]: "t_kind t \<noteq> CompilerDirective \<Longrightarrow> push_active_branch t = [t]"
  by (cases t) simp

lemmas run_simps = bind_def attempt_def result_def ret_def raise_signal_def ignoring_def reading_def push_scope_def pop_scope_def
  push_frame_def pop_frame_def push_def pop_def alloc_scope_def release_scope_def pop_owned_def

lemma while_break_runs:
  "\<exists>s'. eval F (sample_ops log_call) 6 while_break start = Ends s' (Inr VVoid)"
  by (simp add: while_break_def numeral_eq_Suc eval_kind eval_scoped_block_def in_block_def eval_seq_def run_simps
      leave_block_def eval_while_def Let_def require_def eval_cond_def eval_condition_def node_bool_def t_text_def
      loop_label_def jump_label_def run_loop_body_def as_bool_def start_def butlast_append)

section \<open>Scopes and jumps\<close>

text \<open>C1. When the evaluation of a sound tree ends, with a value or with any signal, the chain of scopes is
  the one it started with: every scope that a block, a branch, a loop, a case or a catch pushed has been
  popped, on every early exit too. The stack of deferred blocks has the same frames, and only the top one
  may have grown, by the blocks that statements of this very block deferred. A tree is sound
  (\<open>sound_tree\<close>) when every break, continue and fallthrough stands inside a loop or \<open>switch\<close> of the tree
  or of \<open>c\<close> that takes it, also in deferred blocks and function bodies, and the patterns of its for-case
  loops contain no expression to evaluate: for those the statement is false, a
  pattern that throws leaves its scope. The methods that are parameters keep the same promise (\<open>ops_obey\<close>), and so do
  the blocks already deferred (\<open>fit\<close>).\<close>

theorem scopes_restored:
  assumes "ops_obey K P" "sound_tree c t" "fit K s" "eval F P n t s = Ends s' r"
  shows "i_env s' = i_env s \<and> grown (i_defers s) (i_defers s')"
proof -
  have "obeys K c (eval F P n t)"
    using eval_obeys [OF assms(1)] assms(2) unfolding evaluates_def by blast
  from obeysD [OF this assms(3,4)] show ?thesis
    by (simp add: ends_in_0)
qed

lemma log_call_obeys: "obeys (\<lambda>_. True) c (log_call name)"
  by (rule movesI) (auto simp: log_call_def fit_def ends_in_def)

theorem scopes_restored_witness:
  "\<forall>F :: 'f f64. \<exists>s'. eval F (sample_ops log_call) 6 while_break start = Ends s' (Inr VVoid) \<and> i_env s' = [0]"
proof
  fix F :: "'f f64"
  obtain s' where run: "eval F (sample_ops log_call) 6 while_break start = Ends s' (Inr VVoid)"
    using while_break_runs by blast
  from scopes_restored [OF sample_ops_obey [OF log_call_obeys] while_break_sound start_fit run] run
  show "\<exists>s'. eval F (sample_ops log_call) 6 while_break start = Ends s' (Inr VVoid) \<and> i_env s' = [0]"
    by (intro exI [of _ s']) (simp add: start_def)
qed

text \<open>C2. In a tree that is sound without any jump from outside, an evaluation lets out no jump: the only
  signals it ends with are a return, a thrown error and a run-time error, and the \<open>stray\<close> jump errors of
  the callers are not reached. Sound means what the evaluator supports, which is less than Swift: an
  unlabelled break stands in a loop or \<open>switch\<close>, a continue in a loop, a label names an enclosing loop (a
  break to the label of a \<open>switch\<close> is let out, see \<open>labelled_switch_not_left\<close>), a fallthrough stands in a
  case, and for-case patterns contain no expression.\<close>

theorem no_stray_jump:
  assumes "ops_obey K P" "sound_tree no_jumps t" "fit K s" "eval F P n t s = Ends s' (Inl e)"
  shows "(\<exists>v. e = Return v) \<or> (\<exists>v. e = Throw v) \<or> (\<exists>x. e = Error x)"
proof -
  have "obeys K no_jumps (eval F P n t)"
    using eval_obeys [OF assms(1)] assms(2) unfolding evaluates_def by blast
  from obeysD [OF this assms(3,4)] have "allowed no_jumps e"
    by (simp add: ends_in_0)
  then show ?thesis
    by (auto simp: allowed_def no_jumps_def split: signal.splits option.splits)
qed

text \<open>\<open>{ return }\<close>\<close>

definition return_block :: tree where
  "return_block = node Block [node ReturnStmt []]"

lemma return_block_sound: "sound_tree no_jumps return_block"
  unfolding return_block_def
  by (simp add: sound_tree.simps [of _ "node _ _"] child_jumps_def function_kinds_def)

lemma return_block_runs:
  "\<exists>s'. eval F (sample_ops log_call) 3 return_block start = Ends s' (Inl (Return VVoid))"
  by (simp add: return_block_def numeral_eq_Suc eval_kind eval_scoped_block_def in_block_def eval_seq_def run_simps
      leave_block_def eval_return_def first_child_def start_def butlast_append)

theorem no_stray_jump_witness:
  "\<forall>F :: 'f f64. \<exists>s' e. eval F (sample_ops log_call) 3 return_block start = Ends s' (Inl e) \<and>
     ((\<exists>v. e = Return v) \<or> (\<exists>v. e = Throw v) \<or> (\<exists>x. e = Error x))"
proof
  fix F :: "'f f64"
  obtain s' where run: "eval F (sample_ops log_call) 3 return_block start = Ends s' (Inl (Return VVoid))"
    using return_block_runs by blast
  from no_stray_jump [OF sample_ops_obey [OF log_call_obeys] return_block_sound start_fit run] run
  show "\<exists>s' e. eval F (sample_ops log_call) 3 return_block start = Ends s' (Inl e) \<and>
     ((\<exists>v. e = Return v) \<or> (\<exists>v. e = Throw v) \<or> (\<exists>x. e = Error x))"
    by blast
qed

section \<open>Fuel\<close>

text \<open>The fuel of the evaluator is a bound only: when an evaluation with some fuel ends or panics, it
  does the same, with the same state and the same result, for every larger fuel.\<close>

lemma fuel_changes_nothing:
  assumes "ops_monotone P" "eval F P n t s \<noteq> Diverges" "n \<le> m"
  shows "eval F P m t s = eval F P n t s"
  using eval_fuel [OF assms(1,3), of F] assms(2) by (auto simp: approx_eval_def approx_def)

section \<open>While loops\<close>

text \<open>One turn of a loop: whether there is another one.\<close>

definition while_turn ::
  "'f f64 \<Rightarrow> ('f, 'x) ops \<Rightarrow> ('f, 'x) evaluator \<Rightarrow> tree list \<Rightarrow> tree \<Rightarrow> ustr option \<Rightarrow> ('f, 'x, bool) act" where
  "while_turn F P ev conds body label =
     in_scope (bind (eval_cond_list F P ev conds) (\<lambda>b.
       if b then bind (run_loop_body ev body label) (\<lambda>flow. ret (flow = LoopContinue)) else ret False))"

text \<open>The loop as a relation: turns up to the first that asks for no other or has a signal.\<close>

inductive turns :: "('f, 'x, bool) act \<Rightarrow> ('f, 'x) interp \<Rightarrow> ('f, 'x) interp \<Rightarrow> 'f signal + 'f swift_value \<Rightarrow> bool"
  for turn where
  stop: "turn s = Ends s' (Inr False) \<Longrightarrow> turns turn s s' (Inr VVoid)"
| signal: "turn s = Ends s' (Inl e) \<Longrightarrow> turns turn s s' (Inl e)"
| again: "turn s = Ends s1 (Inr True) \<Longrightarrow> turns turn s1 s' r \<Longrightarrow> turns turn s s' r"

inductive_cases turnsE: "turns turn s s' r"

lemma while_loop_turn:
  "while_loop F P ev (Suc n) conds body label s =
     bind (while_turn F P ev conds body label) (\<lambda>b. if b then while_loop F P ev n conds body label else ret VVoid) s"
  by (auto simp: while_turn_def in_scope_def run_simps split: run.splits sum.splits loop_flow.splits bool.splits)

text \<open>C4. A while loop is the relation that its turns generate: it ends in a state with a result, for
  some fuel, exactly if a finite run of turns leads there, each one a scope in which the conditions
  are evaluated, their bindings declared and the body run; the loop ends at the first turn whose
  conditions fail, whose body breaks out of it, or which lets a signal out.\<close>

theorem while_loop_turns:
  "(\<exists>n. while_loop F P ev n conds body label s = Ends s' r) \<longleftrightarrow> turns (while_turn F P ev conds body label) s s' r"
proof
  assume "\<exists>n. while_loop F P ev n conds body label s = Ends s' r"
  then obtain n where "while_loop F P ev n conds body label s = Ends s' r" ..
  then show "turns (while_turn F P ev conds body label) s s' r"
  proof (induction n arbitrary: s)
    case (Suc n)
    from Suc(2) [unfolded while_loop_turn] show ?case
    proof (cases rule: bind_ends)
      case (proceeds s1 b)
      with Suc(1) [of s1] show ?thesis by (cases b) (auto simp: ret_def intro: again stop)
    qed (auto intro: turns.signal)
  qed simp
next
  assume "turns (while_turn F P ev conds body label) s s' r"
  then show "\<exists>n. while_loop F P ev n conds body label s = Ends s' r"
  proof induction
    case (stop s s')
    then have "while_loop F P ev (Suc 0) conds body label s = Ends s' (Inr VVoid)"
      unfolding while_loop_turn by (simp add: bind_def ret_def)
    then show ?case ..
  next
    case (signal s s' e)
    then have "while_loop F P ev (Suc 0) conds body label s = Ends s' (Inl e)"
      unfolding while_loop_turn by (simp add: bind_def)
    then show ?case ..
  next
    case (again s s1 s' r)
    then obtain n where "while_loop F P ev n conds body label s1 = Ends s' r" by blast
    with again have "while_loop F P ev (Suc n) conds body label s = Ends s' r"
      unfolding while_loop_turn by (simp add: bind_def)
    then show ?case ..
  qed
qed

section \<open>Deferred blocks\<close>

definition defer_node :: "ustr \<Rightarrow> tree" where
  "defer_node name = node DeferStmt [call_block name]"

lemma defer_node_simps [simp]: "t_kind (defer_node name) = DeferStmt" "t_children (defer_node name) = [call_block name]"
  by (simp_all add: defer_node_def)

lemma call_block_runs:
  "\<exists>st. eval F (sample_ops log_call) (Suc (Suc n)) (call_block name) s =
     Ends (s\<lparr>i_store := st, i_rest := i_rest s @ [name]\<rparr>) (Inr VVoid)"
  by (simp add: call_block_def eval_kind eval_scoped_block_def in_block_def eval_seq_def run_simps leave_block_def Let_def
      t_text_def log_call_def) (rule exI, rule refl)

lemma call_blocks_run:
  "\<exists>st. each (\<lambda>d. ignoring (eval F (sample_ops log_call) (Suc (Suc n)) d)) (map call_block xs) s =
     Ends (s\<lparr>i_store := st, i_rest := i_rest s @ xs\<rparr>) (Inr ())"
proof (induction xs arbitrary: s)
  case (Cons x xs)
  obtain st where "eval F (sample_ops log_call) (Suc (Suc n)) (call_block x) s =
      Ends (s\<lparr>i_store := st, i_rest := i_rest s @ [x]\<rparr>) (Inr VVoid)"
    using call_block_runs by blast
  with Cons [of "s\<lparr>i_store := st, i_rest := i_rest s @ [x]\<rparr>"] show ?case
    by (simp add: bind_def ignoring_def attempt_def ret_def)
next
  case Nil
  show ?case by (simp add: ret_def) (rule exI [of _ "i_store s"], simp)
qed

lemma defers_registered:
  "i_defers s = fs @ [ds] \<Longrightarrow>
   eval_all (eval F P (Suc n)) v (map defer_node xs @ node ReturnStmt [] # ts) s =
     Ends (s\<lparr>i_defers := fs @ [ds @ map call_block xs]\<rparr>) (Inl (Return VVoid))"
proof (induction xs arbitrary: s ds v)
  case Nil
  then show ?case by (simp add: eval_kind eval_return_def first_child_def bind_def ret_def raise_signal_def)
next
  case (Cons x xs)
  have "eval F P (Suc n) (defer_node x) s = Ends (s\<lparr>i_defers := fs @ [ds @ [call_block x]]\<rparr>) (Inr VVoid)"
    using Cons(2) by (simp add: eval_kind defer_block_def first_child_def)
  with Cons(1) [of "s\<lparr>i_defers := fs @ [ds @ [call_block x]]\<rparr>" "ds @ [call_block x]"] show ?case
    by (simp add: bind_def)
qed

text \<open>The log of a block that defers calls and returns: the names in reverse order.\<close>

lemma deferred_calls_logged:
  "\<exists>s'. eval F (sample_ops log_call) (n + 3) (node Block (map defer_node xs @ node ReturnStmt [] # ts)) s =
     Ends s' (Inl (Return VVoid)) \<and> i_rest s' = i_rest s @ rev xs"
proof -
  let ?ev = "eval F (sample_ops log_call) (Suc (Suc n))"
  have expand: "expand_directives (node Block (map defer_node xs @ node ReturnStmt [] # ts)) =
      map defer_node xs @ node ReturnStmt [] # concat (map push_active_branch ts)"
    by (induction xs) simp_all
  define s0 where "s0 = s\<lparr>i_store := fst (push (i_store s) (i_env s)), i_env := snd (push (i_store s) (i_env s)),
    i_defers := i_defers s @ [[]]\<rparr>"
  define s1 where "s1 = s0\<lparr>i_defers := i_defers s @ [map call_block xs]\<rparr>"
  have body: "eval_seq ?ev (node Block (map defer_node xs @ node ReturnStmt [] # ts)) s0 = Ends s1 (Inl (Return VVoid))"
    unfolding eval_seq_def expand by (subst defers_registered [of _ "i_defers s" "[]"]) (simp_all add: s0_def s1_def)
  obtain st where calls: "each (\<lambda>d. ignoring (?ev d)) (map call_block (rev xs)) (s1\<lparr>i_defers := i_defers s\<rparr>) =
      Ends ((s1\<lparr>i_defers := i_defers s\<rparr>)\<lparr>i_store := st, i_rest := i_rest s @ rev xs\<rparr>) (Inr ())"
    using call_blocks_run [of F n "rev xs" "s1\<lparr>i_defers := i_defers s\<rparr>"] by (auto simp: s1_def s0_def)
  have "i_env s1 \<noteq> []"
    by (simp add: s1_def s0_def push_def split_beta)
  then have "\<exists>s'. leave_block (sample_ops log_call) ?ev s1 = Ends s' (Inr ()) \<and> i_rest s' = i_rest s @ rev xs"
    using calls by (simp add: leave_block_def bind_def pop_frame_def s1_def rev_map release_scope_def pop_owned_def ret_def)
  then obtain s' where "leave_block (sample_ops log_call) ?ev s1 = Ends s' (Inr ())" "i_rest s' = i_rest s @ rev xs"
    by blast
  with body have "eval F (sample_ops log_call) (Suc (Suc (Suc n))) (node Block (map defer_node xs @ node ReturnStmt [] # ts)) s =
      Ends s' (Inl (Return VVoid))"
    by (simp add: eval_kind eval_scoped_block_def in_block_def bind_def push_scope_def push_frame_def ignoring_def attempt_def
        ret_def split_beta s0_def [symmetric] result_def raise_signal_def)
  then show ?thesis using \<open>i_rest s' = i_rest s @ rev xs\<close>
    by (simp add: numeral_3_eq_3)
qed

text \<open>C5. A block does what nested clean-up does: every statement is run, then all that follows it, and
  when that has ended, by its last value, a return, a break, a thrown or a run-time error, the blocks
  that the statement deferred are run, the last first, their own signals dropped; then the scope is
  released and the value or signal goes on. The two sides agree on all states and results, also when
  one does not end or panics. Blocks deferred by hoisted initialisers are included. The one frame that
  the code keeps per block and empties backwards is the right side's nesting. The methods that are
  parameters use the stack of frames as a log only (\<open>ops_log\<close>).\<close>

theorem defers_run_last_first:
  assumes "ops_log P" "t_kind t = Block"
  shows "eval F P (Suc n) t s = block_spec P (eval F P n) t s"
  using scoped_block_spec [OF assms(1) eval_logging [OF assms(1)]] assms(2) by (simp add: eval_kind)

theorem defers_run_last_first_witness:
  "\<forall>F :: 'f f64. \<exists>s'. block_spec (sample_ops log_call) (eval F (sample_ops log_call) 2)
     (node Block [defer_node [97], defer_node [98], node ReturnStmt []]) start = Ends s' (Inl (Return VVoid)) \<and>
     i_rest s' = [[98], [97]]"
proof
  fix F :: "'f f64"
  let ?t = "node Block (map defer_node [[97], [98]] @ node ReturnStmt [] # [])"
  from deferred_calls_logged [of F 0 "[[97], [98]]" "[]" start]
  obtain s' where "eval F (sample_ops log_call) (Suc 2) ?t start = Ends s' (Inl (Return VVoid))" "i_rest s' = [[98], [97]]"
    by (auto simp: start_def numeral_eq_Suc)
  with defers_run_last_first [OF sample_ops_log [of log_call, OF log_call_writes], of ?t F 2 start]
  show "\<exists>s'. block_spec (sample_ops log_call) (eval F (sample_ops log_call) 2)
     (node Block [defer_node [97], defer_node [98], node ReturnStmt []]) start = Ends s' (Inl (Return VVoid)) \<and>
     i_rest s' = [[98], [97]]"
    by simp
qed

text \<open>A signal that ends a deferred block, be it a thrown error or a run-time error, is dropped: the
  block that deferred it still ends normally with no value.\<close>

theorem deferred_signal_dropped:
  "\<exists>s'. eval F (sample_ops (\<lambda>name. raise_signal e)) (n + 3) (node Block [defer_node name]) s = Ends s' (Inr VVoid)"
proof -
  have call: "\<exists>s'. eval F (sample_ops (\<lambda>name. raise_signal e)) (Suc (Suc n)) (call_block name) s = Ends s' (Inl e) \<and>
      i_env s' = i_env s" for s
    by (simp add: call_block_def eval_kind eval_scoped_block_def in_block_def eval_seq_def run_simps leave_block_def Let_def)
  define s1 where "s1 = s\<lparr>i_store := fst (push (i_store s) (i_env s)), i_env := snd (push (i_store s) (i_env s))\<rparr>"
  obtain s2 where s2: "eval F (sample_ops (\<lambda>name. raise_signal e)) (Suc (Suc n)) (call_block name) s1 = Ends s2 (Inl e)"
      "i_env s2 = i_env s1"
    using call by blast
  have "i_env s1 \<noteq> []"
    by (simp add: s1_def push_def split_beta)
  with s2 show ?thesis
    by (simp add: eval_kind eval_scoped_block_def in_block_def bind_def push_scope_def push_frame_def ignoring_def attempt_def
        ret_def split_beta result_def eval_seq_def defer_block_def first_child_def leave_block_def pop_frame_def
        numeral_3_eq_3 s1_def release_scope_def pop_owned_def)
qed

section \<open>Jumps that miss their target, scopes that stay\<close>

text \<open>\<open>outer: switch true { default: break outer }\<close>\<close>

definition labelled_switch :: "ustr \<Rightarrow> tree" where
  "labelled_switch label =
     Tree SwitchStmt (Some label) 0 0 None [] None
       [leaf BoolLiteral ''true'',
        Tree CaseClause (Some (scalars ''default'')) 0 0 None [] None
          [node Block [Tree BreakStmt (Some label) 0 0 None [] None []]]]"

text \<open>A break that names the label of the switch around it does not leave that switch: it is let out
  as a jump, which no enclosing construct takes, and the caller reports it as stray.\<close>

theorem labelled_switch_not_left:
  "\<exists>s'. eval F (sample_ops call) (n + 4) (labelled_switch label) s = Ends s' (Inl (Break (Some label)))"
  by (simp add: labelled_switch_def numeral_eq_Suc eval_kind eval_switch_def run_simps require_def first_child_def
      node_bool_def case_matches_def is_default_def t_text_def case_parts_def is_statement_kind_def declare_all_def
      eval_scoped_block_def in_block_def eval_seq_def leave_block_def Let_def jump_label_def)

text \<open>\<open>for case ...limit() in [true] { }\<close>\<close>

definition limit_pattern :: tree where
  "limit_pattern = Tree RangePattern (Some (scalars ''through'')) 0 0 None [] None [leaf CallExpr ''limit'']"

definition for_case_limit :: tree where
  "for_case_limit =
     node ForStmt
       [limit_pattern, node ArrayLiteral [leaf BoolLiteral ''true''], node Block []]"

text \<open>C32. When matching the pattern of a for-case loop against the first element of an array ends with a
  signal, thrown or a run-time error, the loop ends with it at once and the scope pushed for the element
  is never popped: the chain of scopes is one longer than when the loop started on its elements. (A
  later element is the first of the rest.) The tree of the pattern and the other methods are as for the
  restoration of scopes; its condition that such patterns evaluate nothing is therefore needed.\<close>

theorem for_case_leaks_scope:
  assumes P: "ops_obey K P"
    and t: "t_kind t = ForStmt" "\<not> is_async t" "for_parts t = \<lparr>fp_name = None, fp_pattern = Some pat, fp_iterable = Some xs,
      fp_where = w, fp_body = Some body\<rparr>"
    and xs: "eval F P n xs s = Ends s1 (Inr (VArray (x # items)))" and s1: "fit K s1"
    and pat: "sound_tree c pat" "bind push_scope (\<lambda>_. match_pattern F P (eval F P n) pat x) s1 = Ends s2 (Inl e)"
  shows "eval F P (Suc n) t s = Ends s2 (Inl e) \<and> (\<exists>i. i_env s2 = i_env s1 @ [i])"
proof
  have "for_items F P (eval F P n) None (Some pat) w body label (x # items) s1 = Ends s2 (Inl e)" for label
    using pat(2) by (simp add: run_element_def guarded_def bind_element_def bind_def push_scope_def split: prod.splits run.splits sum.splits)
  then show "eval F P (Suc n) t s = Ends s2 (Inl e)"
    using xs t by (simp add: eval_kind eval_for_def bind_def require_def ret_def reading_def is_builtin_iterable_def iterate_def materialize_def Let_def)
  have "moves K c 0 1 1 (bind push_scope (\<lambda>_. match_pattern F P (eval F P n) pat x))"
    using moves_bind [OF moves_push match_moves(1) [OF eval_obeys [OF P] pat(1)]] by simp
  from movesD [OF this s1 _ _ pat(2), of "i_env s1" "[]"] show "\<exists>i. i_env s2 = i_env s1 @ [i]"
    by (auto simp: ends_in_Inl length_Suc_conv)
qed

lemma for_case_limit_parts:
  "for_parts for_case_limit = \<lparr>fp_name = None, fp_pattern = Some limit_pattern, fp_iterable = Some (node ArrayLiteral [leaf BoolLiteral ''true'']),
     fp_where = None, fp_body = Some (node Block [])\<rparr>"
  by (simp add: for_case_limit_def for_parts_def for_part_def is_pattern_node_def limit_pattern_def Let_def)

lemma limit_pattern_sound: "sound_tree no_jumps limit_pattern"
  unfolding limit_pattern_def
  by (simp add: sound_tree.simps [of _ "Tree _ _ _ _ _ _ _ _"] sound_tree.simps [of _ "leaf _ _"] child_jumps_def function_kinds_def)

lemma throwing_obeys: "obeys (\<lambda>_. True) c (raise_signal (Throw v))"
  by (rule moves_raise) simp

theorem for_case_leaks_scope_witness:
  "\<forall>F :: 'f f64. \<exists>s'. eval F (sample_ops (\<lambda>name. raise_signal (Throw VVoid))) 4 for_case_limit start = Ends s' (Inl (Throw VVoid)) \<and>
     i_env s' = [0, 1]"
proof
  fix F :: "'f f64"
  let ?P = "sample_ops (\<lambda>name. raise_signal (Throw VVoid)) :: ('f, ustr list) ops"
  have xs: "eval F ?P 3 (node ArrayLiteral [leaf BoolLiteral ''true'']) start = Ends start (Inr (VArray [VBool True]))"
    by (simp add: numeral_eq_Suc eval_kind bind_def ret_def node_bool_def t_text_def)
  obtain s2 where s2: "bind push_scope (\<lambda>_. match_pattern F ?P (eval F ?P 3) limit_pattern (VBool True)) start = Ends s2 (Inl (Throw VVoid))"
      "i_env s2 = [0, 1]"
    by (simp add: numeral_eq_Suc limit_pattern_def match_pattern.simps range_pattern_def eval_kind run_simps start_def)
  have "t_kind for_case_limit = ForStmt" "\<not> is_async for_case_limit"
    by (simp_all add: for_case_limit_def is_async_def node_def)
  from for_case_leaks_scope [OF sample_ops_obey [where call = "\<lambda>name. raise_signal (Throw VVoid)", OF throwing_obeys] this for_case_limit_parts xs start_fit limit_pattern_sound s2(1)] s2(2)
  show "\<exists>s'. eval F ?P 4 for_case_limit start = Ends s' (Inl (Throw VVoid)) \<and> i_env s' = [0, 1]"
    by (simp add: numeral_eq_Suc)
qed

text \<open>A for-case loop over a cast pattern (\<open>for case let x as T in xs\<close>) is rejected before the
  sequence is evaluated, as a loop without a binding: the node of the cast is not among the kinds the
  loop recognises as patterns.\<close>

theorem for_case_cast_unsupported:
  assumes "t_kind t = ForStmt" "t_children t = [cast, xs, body]" "t_kind cast = CastExpr" "is_block body"
    "\<not> is_pattern_node (t_kind xs)" "t_kind xs \<notin> {Param, Block}"
  shows "eval F P (Suc n) t s = Ends s (Inl (Error (Unsupported (scalars ''for-loop without a binding''))))"
  using assms by (auto simp: eval_kind eval_for_def for_parts_def for_part_def is_pattern_node_def Let_def is_block_def
      unsupported_def raise_signal_def)

theorem for_case_cast_unsupported_witness:
  "\<forall>F. eval F (sample_ops log_call) (Suc 5)
     (node ForStmt [node CastExpr [leaf NamePattern ''x'', leaf TypeRef ''Int''], leaf IdentExpr ''items'', node Block []]) start =
     Ends start (Inl (Error (Unsupported (scalars ''for-loop without a binding''))))"
  by (intro allI for_case_cast_unsupported [where cast = "node CastExpr [leaf NamePattern ''x'', leaf TypeRef ''Int'']"
        and xs = "leaf IdentExpr ''items''" and body = "node Block []"])
    (simp_all add: is_pattern_node_def)

end
