(* ===== verification/Decl.thy ===== *)
theory Decl
  imports Control "HOL-Library.Multiset"
begin

text \<open>
  What the interpreter reads off a declaration: the modifier predicates, parameters and accessors of
  the cursor (\<open>tswift-frontend/src/lib.rs\<close>), and from \<open>tswift-core/src/interp.rs\<close> the parameters,
  generic names and methods that it stores for a declaration, and the choice of an overload by the
  labels and types of a call. A \<open>HashMap\<close> is a map.
\<close>

section \<open>Modifiers of a node\<close>

definition OPTIONAL_CAST :: nat where
  "OPTIONAL_CAST = 11"

definition node_modifiers :: "tree \<Rightarrow> 32 word" where
  "node_modifiers t =
     modifier_bits (t_modifiers t) OR
     (if t_kind t = CastExpr \<and> t_raw t = Some (scalars ''as?'') then flag OPTIONAL_CAST else 0)"

definition has_flag :: "nat \<Rightarrow> tree \<Rightarrow> bool" where
  "has_flag i t \<longleftrightarrow> node_modifiers t AND flag i \<noteq> 0"

definition is_static :: "tree \<Rightarrow> bool" where
  "is_static = has_flag 5"

definition is_mutating :: "tree \<Rightarrow> bool" where
  "is_mutating = has_flag 8"

definition is_lazy :: "tree \<Rightarrow> bool" where
  "is_lazy = has_flag 10"

definition is_optional_cast :: "tree \<Rightarrow> bool" where
  "is_optional_cast = has_flag OPTIONAL_CAST"

definition modifier_names :: "tree \<Rightarrow> ustr list" where
  "modifier_names t = flag_names (node_modifiers t)"

definition ownership :: "tree \<Rightarrow> ustr option" where
  "ownership t =
     (let names = modifier_names t in
      if scalars ''weak'' \<in> set names then Some (scalars ''weak'')
      else if scalars ''unowned'' \<in> set names then Some (scalars ''unowned'')
      else None)"

section \<open>Parameters\<close>

record param =
  p_label :: "ustr option"
  p_name :: ustr
  p_type :: "ustr option"
  p_variadic :: bool
  p_inout :: bool
  p_autoclosure :: bool
  p_default :: "tree option"

text \<open>The text of the first type among the children.\<close>

definition field_type_name :: "tree \<Rightarrow> ustr option" where
  "field_type_name t = Option.bind (find_child t TypeRef) t_text"

definition parse_param :: "tree \<Rightarrow> param" where
  "parse_param c =
     \<lparr>p_label = t_arg_label c, p_name = (case t_text c of Some n \<Rightarrow> n | None \<Rightarrow> []),
      p_type = field_type_name c, p_variadic = has_flag 28 c, p_inout = has_flag 30 c,
      p_autoclosure = has_flag 27 c, p_default = find is_value_node (t_children c)\<rparr>"

definition parse_params :: "tree \<Rightarrow> param list" where
  "parse_params t = map parse_param (filter (\<lambda>c. t_kind c = Param) (t_children t))"

text \<open>\<open>str::split\<close> at a character and the trims of one character.\<close>

fun split_on :: "scalar \<Rightarrow> ustr \<Rightarrow> ustr list" where
  "split_on c [] = [[]]"
| "split_on c (x # xs) =
     (if x = c then [] # split_on c xs else (x # hd (split_on c xs)) # tl (split_on c xs))"

definition trim_start_of :: "scalar \<Rightarrow> ustr \<Rightarrow> ustr" where
  "trim_start_of c s = dropWhile (\<lambda>x. x = c) s"

definition trim_end_of :: "scalar \<Rightarrow> ustr \<Rightarrow> ustr" where
  "trim_end_of c s = rev (dropWhile (\<lambda>x. x = c) (rev s))"

definition generic_param_names :: "tree \<Rightarrow> ustr list" where
  "generic_param_names t =
     (case Option.bind (find_child t GenericParam) t_text of
        None \<Rightarrow> []
      | Some text \<Rightarrow>
          filter (\<lambda>n. n \<noteq> [])
            (map (\<lambda>part. trim (hd (split_on sc_colon part)))
              (split_on sc_comma (trim_end_of sc_gt (trim_start_of sc_lt (trim text))))))"

definition value_generic :: "ustr \<Rightarrow> ustr option" where
  "value_generic entry =
     (if starts_with (trim entry) (scalars ''let '') then Some (trim (hd (split_on sc_colon (drop 4 (trim entry))))) else None)"

definition value_generic_param_names :: "tree \<Rightarrow> ustr list" where
  "value_generic_param_names t =
     concat (map (\<lambda>c. case t_text c of
         None \<Rightarrow> []
       | Some text \<Rightarrow> List.map_filter value_generic (split_on sc_comma (trim_end_of sc_gt (trim_start_of sc_lt text))))
       (filter (\<lambda>c. t_kind c = GenericParam) (t_children t)))"

section \<open>Accessors\<close>

record accessors =
  a_computed :: bool
  a_has_setter :: bool
  a_nonmutating :: bool
  a_getter :: "tree option"
  a_setter :: "tree option"
  a_will_set :: "tree option"
  a_did_set :: "tree option"
  a_setter_param :: "ustr option"
  a_will_set_param :: "ustr option"
  a_did_set_param :: "ustr option"

definition accessor :: "accessors \<Rightarrow> tree \<Rightarrow> accessors" where
  "accessor acc c =
     (let body = find_child c Block; prm = Option.bind (find_child c Param) t_text in
      if t_kind c \<noteq> Accessor then acc
      else if t_text c = Some (scalars ''get'') then acc\<lparr>a_computed := True, a_getter := body\<rparr>
      else if t_text c = Some (scalars ''set'') then
        acc\<lparr>a_has_setter := True, a_setter := body, a_setter_param := prm,
            a_nonmutating := (scalars ''nonmutating'' \<in> set (modifier_names c))\<rparr>
      else if t_text c = Some (scalars ''willSet'') then acc\<lparr>a_will_set := body, a_will_set_param := prm\<rparr>
      else if t_text c = Some (scalars ''didSet'') then acc\<lparr>a_did_set := body, a_did_set_param := prm\<rparr>
      else acc)"

definition var_accessors :: "tree \<Rightarrow> accessors" where
  "var_accessors t =
     foldl accessor
       \<lparr>a_computed = False, a_has_setter = False, a_nonmutating = False, a_getter = None, a_setter = None,
        a_will_set = None, a_did_set = None, a_setter_param = None, a_will_set_param = None, a_did_set_param = None\<rparr>
       (t_children t)"

section \<open>Members\<close>

record computed_prop =
  cp_getter :: "tree option"
  cp_setter :: "tree option"
  cp_setter_param :: "ustr option"
  cp_nonmutating :: bool
  cp_static :: bool

record method_def =
  md_params :: "param list"
  md_body :: "tree option"
  md_mutating :: bool
  md_generics :: "ustr list"
  md_static :: bool

record stored_prop =
  sp_name :: ustr
  sp_type :: "ustr option"
  sp_default :: "tree option"
  sp_lazy :: bool
  sp_will_set :: "(ustr \<times> tree) option"
  sp_did_set :: "(ustr \<times> tree) option"

record subscript_def =
  sd_params :: "param list"
  sd_getter :: "tree option"
  sd_setter :: "tree option"
  sd_setter_param :: ustr

definition method_of :: "bool \<Rightarrow> bool \<Rightarrow> tree option \<Rightarrow> tree \<Rightarrow> method_def" where
  "method_of mutating static body t =
     \<lparr>md_params = parse_params t, md_body = body, md_mutating = mutating, md_generics = generic_param_names t,
      md_static = static\<rparr>"

definition func_method :: "tree \<Rightarrow> method_def" where
  "func_method t = method_of (is_mutating t) (is_static t) (find_child t Block) t"

definition computed_of :: "tree \<Rightarrow> computed_prop" where
  "computed_of t =
     (let acc = var_accessors t in
      \<lparr>cp_getter = a_getter acc, cp_setter = a_setter acc, cp_setter_param = a_setter_param acc,
       cp_nonmutating = a_nonmutating acc, cp_static = is_static t\<rparr>)"

text \<open>The body of an observer and the name of its parameter.\<close>

definition observer :: "tree option \<Rightarrow> ustr option \<Rightarrow> string \<Rightarrow> (ustr \<times> tree) option" where
  "observer body prm usual = map_option (\<lambda>b. (case prm of Some p \<Rightarrow> p | None \<Rightarrow> scalars usual, b)) body"

definition stored_of :: "ustr \<Rightarrow> tree \<Rightarrow> stored_prop" where
  "stored_of name t =
     (let acc = var_accessors t in
      \<lparr>sp_name = name, sp_type = field_type_name t, sp_default = find is_value_node (t_children t), sp_lazy = is_lazy t,
       sp_will_set = observer (a_will_set acc) (a_will_set_param acc) ''newValue'',
       sp_did_set = observer (a_did_set acc) (a_did_set_param acc) ''oldValue''\<rparr>)"

definition getter_or_block :: "tree \<Rightarrow> tree option" where
  "getter_or_block t = (case a_getter (var_accessors t) of Some b \<Rightarrow> Some b | None \<Rightarrow> find_child t Block)"

section \<open>The choice of an overload\<close>

text \<open>An argument of a call: its label and its value.\<close>

type_synonym 'v call_arg = "ustr option \<times> 'v"

definition effective_label :: "param \<Rightarrow> ustr" where
  "effective_label p = (case p_label p of Some l \<Rightarrow> l | None \<Rightarrow> p_name p)"

text \<open>The arguments that a variadic parameter takes.\<close>

definition variadic_arg :: "param \<Rightarrow> 'v call_arg \<Rightarrow> bool" where
  "variadic_arg p a \<longleftrightarrow> fst a = None \<or> fst a = Some (effective_label p)"

fun args_select_params :: "'v call_arg list \<Rightarrow> param list \<Rightarrow> bool" where
  "args_select_params args [] \<longleftrightarrow> args = []"
| "args_select_params args (p # ps) \<longleftrightarrow>
     (if p_variadic p then args_select_params (dropWhile (variadic_arg p) args) ps
      else case args of
        a # rest \<Rightarrow> variadic_arg p a \<and> args_select_params rest ps
      | [] \<Rightarrow> p_default p \<noteq> None \<and> args_select_params [] ps)"

text \<open>The types of the arguments against the written ones; \<open>name\<close> is the type name of a value.\<close>

definition type_fits :: "('v \<Rightarrow> ustr) \<Rightarrow> param \<Rightarrow> 'v call_arg \<Rightarrow> bool" where
  "type_fits name p a \<longleftrightarrow>
     (case p_type p of None \<Rightarrow> True | Some ty \<Rightarrow> name (snd a) = trim_end_of sc_question (trim ty))"

fun args_match_param_types :: "('v \<Rightarrow> ustr) \<Rightarrow> 'v call_arg list \<Rightarrow> param list \<Rightarrow> bool" where
  "args_match_param_types name args [] \<longleftrightarrow> args = []"
| "args_match_param_types name args (p # ps) \<longleftrightarrow>
     (if p_variadic p then
        (\<forall>a \<in> set (takeWhile (variadic_arg p) args). type_fits name p a) \<and>
        args_match_param_types name (dropWhile (variadic_arg p) args) ps
      else case args of
        a # rest \<Rightarrow> type_fits name p a \<and> args_match_param_types name rest ps
      | [] \<Rightarrow> p_default p \<noteq> None \<and> args_match_param_types name [] ps)"

definition select_labeled_overload :: "('v \<Rightarrow> ustr) \<Rightarrow> method_def list \<Rightarrow> 'v call_arg list \<Rightarrow> method_def option" where
  "select_labeled_overload name overloads args =
     (case filter (\<lambda>d. args_select_params args (md_params d)) overloads of
        [one] \<Rightarrow> Some one
      | [] \<Rightarrow> None
      | many \<Rightarrow>
          (case filter (\<lambda>d. args_match_param_types name args (md_params d)) many of
             [one] \<Rightarrow> Some one
           | _ \<Rightarrow> None))"

text \<open>The only element of a list depends on its elements only.\<close>

definition only :: "'a list \<Rightarrow> 'a option" where
  "only xs = (case xs of [x] \<Rightarrow> Some x | _ \<Rightarrow> None)"

lemma only_mset: "mset xs = mset ys \<Longrightarrow> only xs = only ys"
  by (auto simp: only_def split: list.split dest: mset_eq_length)

lemma select_by_labels_then_types:
  "select_labeled_overload name overloads args =
     (let fit = filter (\<lambda>d. args_select_params args (md_params d)) overloads in
      case only fit of
        Some one \<Rightarrow> Some one
      | None \<Rightarrow> only (filter (\<lambda>d. args_match_param_types name args (md_params d)) fit))"
  by (auto simp: select_labeled_overload_def only_def Let_def split: list.split)

text \<open>C33. The overload that a call selects by its labels and the types of its arguments is the same
  whatever the order of the declarations.\<close>

theorem overload_order_irrelevant:
  assumes "mset overloads = mset overloads'"
  shows "select_labeled_overload name overloads args = select_labeled_overload name overloads' args"
proof -
  let ?fit = "filter (\<lambda>d. args_select_params args (md_params d))"
  let ?ty = "filter (\<lambda>d. args_match_param_types name args (md_params d))"
  have "mset (?fit overloads) = mset (?fit overloads')" using assms by simp
  moreover from this have "mset (?ty (?fit overloads)) = mset (?ty (?fit overloads'))" by (metis mset_filter)
  ultimately show ?thesis
    unfolding select_by_labels_then_types Let_def using only_mset by metis
qed

theorem overload_order_irrelevant_witness:
  "\<forall>m. select_labeled_overload (\<lambda>v::nat. []) [m, m\<lparr>md_params := []\<rparr>] [] = select_labeled_overload (\<lambda>v::nat. []) [m\<lparr>md_params := []\<rparr>, m] []"
  by (intro allI overload_order_irrelevant) simp

text \<open>A call that leaves out a parameter with a default value and passes a later one by its label selects no
  overload: the defaulted parameter takes the argument, and the labels differ.\<close>

theorem skipped_default_selects_nothing:
  assumes "\<And>d. d \<in> set overloads \<Longrightarrow> \<exists>p ps. md_params d = p # ps \<and> \<not> p_variadic p \<and> effective_label p \<noteq> l"
  shows "select_labeled_overload name overloads ((Some l, v) # args) = None"
proof -
  have "filter (\<lambda>d. args_select_params ((Some l, v) # args) (md_params d)) overloads = []"
    using assms by (fastforce simp: filter_empty_conv variadic_arg_def)
  then show ?thesis by (simp add: select_labeled_overload_def)
qed

text \<open>\<open>func f(a: Int = 0, b: Int)\<close> called as \<open>f(b: 1)\<close>.\<close>

definition defaulted :: "ustr \<Rightarrow> tree option \<Rightarrow> param" where
  "defaulted name e =
     \<lparr>p_label = None, p_name = name, p_type = Some (scalars ''Int''), p_variadic = False, p_inout = False,
      p_autoclosure = False, p_default = e\<rparr>"

definition defaulted_overload :: method_def where
  "defaulted_overload =
     \<lparr>md_params = [defaulted (scalars ''a'') (Some (Tree IntegerLiteral (Some (scalars ''0'')) 0 0 None [] None [])),
                   defaulted (scalars ''b'') None],
      md_body = None, md_mutating = False, md_generics = [], md_static = False\<rparr>"

theorem skipped_default_selects_nothing_witness:
  "select_labeled_overload (\<lambda>v. scalars ''Int'') [defaulted_overload] [(Some (scalars ''b''), 1 :: nat)] = None"
  by (rule skipped_default_selects_nothing) (simp add: defaulted_overload_def defaulted_def effective_label_def)

end
