(* ===== verification/Types.thy ===== *)
theory Types
  imports Decl
begin

text \<open>
  \<open>tswift-core/src/interp.rs\<close>: the registry of user-declared types and what the interpreter asks it:
  the protocols of a type, the chain of a class, members looked up along the chain
  (\<open>interp/storage.rs\<close>, \<open>interp/dispatch.rs\<close>), the dynamic type of a value, casts. A \<open>HashMap\<close> is a
  map. The loops over protocols and superclasses need not end: they are partial functions whose
  value is \<open>None\<close> when they do not return.
\<close>

section \<open>Declarations\<close>

record 'f enum_case_def =
  ec_name :: ustr
  ec_raw :: "'f swift_value option"
  ec_payload :: "ustr option list"

record 'f enum_def =
  ed_cases :: "'f enum_case_def list"
  ed_methods :: "ustr \<rightharpoonup> method_def"
  ed_computed :: "ustr \<rightharpoonup> computed_prop"

record wrapper_def =
  wd_type :: ustr
  wd_args :: "tree list"

record struct_def =
  st_attributes :: "ustr list"
  st_stored :: "stored_prop list"
  st_computed :: "ustr \<rightharpoonup> computed_prop"
  st_methods :: "ustr \<rightharpoonup> method_def"
  st_overloads :: "ustr \<rightharpoonup> method_def list"
  st_subscripts :: "subscript_def list"
  st_static_subscript :: "method_def option"
  st_init :: "method_def option"
  st_inits :: "method_def list"
  st_wrappers :: "ustr \<rightharpoonup> wrapper_def"
  st_value_generics :: "ustr list"
  st_dynamic_lookup :: bool
  st_dynamic_callable :: bool

record class_def =
  cd_superclass :: "ustr option"
  cd_stored :: "stored_prop list"
  cd_weak :: "ustr list"
  cd_computed :: "ustr \<rightharpoonup> computed_prop"
  cd_methods :: "ustr \<rightharpoonup> method_def"
  cd_overloads :: "ustr \<rightharpoonup> method_def list"
  cd_init :: "method_def option"
  cd_inits :: "method_def list"
  cd_deinit :: "tree option"
  cd_static_subscript :: "method_def option"
  cd_attributes :: "ustr list"

record proto_def =
  pd_inherited :: "ustr list"
  pd_methods :: "ustr \<rightharpoonup> method_def"
  pd_computed :: "ustr \<rightharpoonup> computed_prop"
  pd_optional_methods :: "ustr list"
  pd_optional_properties :: "ustr list"

record 'f type_table =
  tt_structs :: "ustr \<rightharpoonup> struct_def"
  tt_enums :: "ustr \<rightharpoonup> 'f enum_def"
  tt_classes :: "ustr \<rightharpoonup> class_def"
  tt_protocols :: "ustr \<rightharpoonup> proto_def"
  tt_conformances :: "ustr \<rightharpoonup> ustr list"
  tt_aliases :: "ustr \<rightharpoonup> ustr list"
  tt_ext_methods :: "ustr \<rightharpoonup> (ustr \<rightharpoonup> method_def)"
  tt_ext_computed :: "ustr \<rightharpoonup> (ustr \<rightharpoonup> computed_prop)"
  tt_builtin_enums :: "ustr set"

definition no_types :: "'f type_table" where
  "no_types =
     \<lparr>tt_structs = Map.empty, tt_enums = Map.empty, tt_classes = Map.empty, tt_protocols = Map.empty,
      tt_conformances = Map.empty, tt_aliases = Map.empty, tt_ext_methods = Map.empty, tt_ext_computed = Map.empty,
      tt_builtin_enums = {}\<rparr>"

definition is_struct :: "'f type_table \<Rightarrow> ustr \<Rightarrow> bool" where
  "is_struct T name \<longleftrightarrow> tt_structs T name \<noteq> None"

definition is_enum :: "'f type_table \<Rightarrow> ustr \<Rightarrow> bool" where
  "is_enum T name \<longleftrightarrow> tt_enums T name \<noteq> None"

definition is_class :: "'f type_table \<Rightarrow> ustr \<Rightarrow> bool" where
  "is_class T name \<longleftrightarrow> tt_classes T name \<noteq> None"

definition is_nominal :: "'f type_table \<Rightarrow> ustr \<Rightarrow> bool" where
  "is_nominal T name \<longleftrightarrow> is_struct T name \<or> is_enum T name \<or> is_class T name"

definition is_protocol :: "'f type_table \<Rightarrow> ustr \<Rightarrow> bool" where
  "is_protocol T name \<longleftrightarrow> tt_protocols T name \<noteq> None"

definition insert_struct :: "ustr \<Rightarrow> struct_def \<Rightarrow> 'f type_table \<Rightarrow> 'f type_table" where
  "insert_struct name d T = T\<lparr>tt_structs := (tt_structs T)(name \<mapsto> d)\<rparr>"

definition insert_enum :: "ustr \<Rightarrow> 'f enum_def \<Rightarrow> 'f type_table \<Rightarrow> 'f type_table" where
  "insert_enum name d T = T\<lparr>tt_enums := (tt_enums T)(name \<mapsto> d)\<rparr>"

definition insert_class :: "ustr \<Rightarrow> class_def \<Rightarrow> 'f type_table \<Rightarrow> 'f type_table" where
  "insert_class name d T = T\<lparr>tt_classes := (tt_classes T)(name \<mapsto> d)\<rparr>"

definition ensure_protocol :: "ustr \<Rightarrow> ustr list \<Rightarrow> 'f type_table \<Rightarrow> 'f type_table" where
  "ensure_protocol name inherited T =
     (if is_protocol T name then T
      else T\<lparr>tt_protocols := (tt_protocols T)(name \<mapsto>
        \<lparr>pd_inherited = inherited, pd_methods = Map.empty, pd_computed = Map.empty, pd_optional_methods = [],
         pd_optional_properties = []\<rparr>)\<rparr>)"

definition add_protocol_alias :: "ustr \<Rightarrow> ustr list \<Rightarrow> 'f type_table \<Rightarrow> 'f type_table" where
  "add_protocol_alias name components T = T\<lparr>tt_aliases := (tt_aliases T)(name \<mapsto> components)\<rparr>"

definition listed :: "(ustr \<rightharpoonup> 'a list) \<Rightarrow> ustr \<Rightarrow> 'a list" where
  "listed m name = (case m name of Some xs \<Rightarrow> xs | None \<Rightarrow> [])"

definition record_conformance :: "ustr \<Rightarrow> ustr list \<Rightarrow> 'f type_table \<Rightarrow> 'f type_table" where
  "record_conformance name protocols T =
     (if protocols = [] then T
      else T\<lparr>tt_conformances := (tt_conformances T)(name \<mapsto> listed (tt_conformances T) name @ protocols)\<rparr>)"

text \<open>The members that extensions gave to a name, none at first.\<close>

definition members_of :: "(ustr \<rightharpoonup> (ustr \<rightharpoonup> 'a)) \<Rightarrow> ustr \<Rightarrow> (ustr \<rightharpoonup> 'a)" where
  "members_of m name = (case m name of Some ms \<Rightarrow> ms | None \<Rightarrow> Map.empty)"

definition builtin_ext_method :: "'f type_table \<Rightarrow> ustr \<Rightarrow> ustr \<Rightarrow> method_def option" where
  "builtin_ext_method T name m = members_of (tt_ext_methods T) name m"

definition has_builtin_ext_method :: "'f type_table \<Rightarrow> ustr \<Rightarrow> ustr \<Rightarrow> bool" where
  "has_builtin_ext_method T name m \<longleftrightarrow> builtin_ext_method T name m \<noteq> None"

definition builtin_ext_computed :: "'f type_table \<Rightarrow> ustr \<Rightarrow> ustr \<Rightarrow> computed_prop option" where
  "builtin_ext_computed T name p = members_of (tt_ext_computed T) name p"

definition add_builtin_ext ::
  "ustr \<Rightarrow> (ustr \<rightharpoonup> method_def) \<Rightarrow> (ustr \<rightharpoonup> computed_prop) \<Rightarrow> 'f type_table \<Rightarrow> 'f type_table" where
  "add_builtin_ext name ms cs T =
     T\<lparr>tt_ext_methods := (tt_ext_methods T)(name \<mapsto> members_of (tt_ext_methods T) name ++ ms),
       tt_ext_computed := (tt_ext_computed T)(name \<mapsto> members_of (tt_ext_computed T) name ++ cs)\<rparr>"

definition mark_builtin_enum :: "ustr \<Rightarrow> 'f type_table \<Rightarrow> 'f type_table" where
  "mark_builtin_enum name T = T\<lparr>tt_builtin_enums := insert name (tt_builtin_enums T)\<rparr>"

definition is_builtin_enum :: "'f type_table \<Rightarrow> ustr \<Rightarrow> bool" where
  "is_builtin_enum T name \<longleftrightarrow> name \<in> tt_builtin_enums T"

text \<open>A class without members.\<close>

definition empty_class :: "ustr option \<Rightarrow> ustr list \<Rightarrow> class_def" where
  "empty_class superclass attributes =
     \<lparr>cd_superclass = superclass, cd_stored = [], cd_weak = [], cd_computed = Map.empty, cd_methods = Map.empty,
      cd_overloads = Map.empty, cd_init = None, cd_inits = [], cd_deinit = None, cd_static_subscript = None,
      cd_attributes = attributes\<rparr>"

section \<open>The protocols of a type\<close>

text \<open>The stack has its top at the end, like the vector of the code.\<close>

partial_function (option) protocol_loop :: "'f type_table \<Rightarrow> ustr list \<Rightarrow> ustr list \<Rightarrow> ustr list option" where
  "protocol_loop T stack found =
     (if stack = [] then Some found
      else
        let p = last stack; rest = butlast stack in
        case tt_aliases T p of
          Some components \<Rightarrow> protocol_loop T (rest @ components) found
        | None \<Rightarrow>
            if p \<in> set found then protocol_loop T rest found
            else
              (case tt_protocols T p of
                 Some d \<Rightarrow> protocol_loop T (rest @ pd_inherited d) (found @ [p])
               | None \<Rightarrow> protocol_loop T rest (found @ [p])))"

definition all_protocols :: "'f type_table \<Rightarrow> ustr \<Rightarrow> ustr list option" where
  "all_protocols T name = protocol_loop T (listed (tt_conformances T) name) []"

text \<open>The first of some names that gives something.\<close>

fun first_some :: "('a \<Rightarrow> 'b option) \<Rightarrow> 'a list \<Rightarrow> 'b option" where
  "first_some f [] = None"
| "first_some f (x # xs) = (case f x of Some y \<Rightarrow> Some y | None \<Rightarrow> first_some f xs)"

definition protocol_default_method :: "'f type_table \<Rightarrow> ustr \<Rightarrow> ustr \<Rightarrow> method_def option option" where
  "protocol_default_method T name m =
     map_option (first_some (\<lambda>p. Option.bind (tt_protocols T p) (\<lambda>d. pd_methods d m))) (all_protocols T name)"

definition protocol_default_getter :: "'f type_table \<Rightarrow> ustr \<Rightarrow> ustr \<Rightarrow> tree option option" where
  "protocol_default_getter T name m =
     map_option (\<lambda>ps. Option.bind (first_some (\<lambda>p. Option.bind (tt_protocols T p) (\<lambda>d. pd_computed d m)) ps) cp_getter)
       (all_protocols T name)"

definition protocol_optional_method :: "'f type_table \<Rightarrow> ustr \<Rightarrow> ustr \<Rightarrow> bool option" where
  "protocol_optional_method T name m =
     map_option (list_ex (\<lambda>p. case tt_protocols T p of Some d \<Rightarrow> m \<in> set (pd_optional_methods d) | None \<Rightarrow> False))
       (all_protocols T name)"

definition protocol_optional_property :: "'f type_table \<Rightarrow> ustr \<Rightarrow> ustr \<Rightarrow> bool option" where
  "protocol_optional_property T name m =
     map_option (list_ex (\<lambda>p. case tt_protocols T p of Some d \<Rightarrow> m \<in> set (pd_optional_properties d) | None \<Rightarrow> False))
       (all_protocols T name)"

section \<open>The chain of a class\<close>

partial_function (option) chain_loop :: "'f type_table \<Rightarrow> ustr option \<Rightarrow> ustr list \<Rightarrow> ustr list option" where
  "chain_loop T current chain =
     (case current of
        None \<Rightarrow> Some chain
      | Some name \<Rightarrow>
          (case tt_classes T name of
             None \<Rightarrow> Some chain
           | Some d \<Rightarrow> chain_loop T (cd_superclass d) (chain @ [name])))"

text \<open>Root class first.\<close>

definition class_chain :: "'f type_table \<Rightarrow> ustr \<Rightarrow> ustr list option" where
  "class_chain T name = map_option rev (chain_loop T (Some name) [])"

definition class_is :: "'f type_table \<Rightarrow> ustr \<Rightarrow> ustr \<Rightarrow> bool option" where
  "class_is T sub super = map_option (\<lambda>chain. super \<in> set chain) (class_chain T sub)"

text \<open>The loop that the lookups of a member share: up the chain to the first class that has it.\<close>

partial_function (option) walk_chain ::
  "'f type_table \<Rightarrow> (ustr \<Rightarrow> class_def \<Rightarrow> 'b option) \<Rightarrow> ustr option \<Rightarrow> 'b option option" where
  "walk_chain T f current =
     (case current of
        None \<Rightarrow> Some None
      | Some name \<Rightarrow>
          (case tt_classes T name of
             None \<Rightarrow> Some None
           | Some d \<Rightarrow>
               (case f name d of
                  Some r \<Rightarrow> Some (Some r)
                | None \<Rightarrow> walk_chain T f (cd_superclass d))))"

definition class_computed_getter :: "'f type_table \<Rightarrow> ustr \<Rightarrow> ustr \<Rightarrow> tree option option" where
  "class_computed_getter T name m =
     map_option (\<lambda>r. Option.bind r cp_getter)
       (walk_chain T (\<lambda>_ d. case cd_computed d m of
            Some c \<Rightarrow> if cp_static c then None else Some c
          | None \<Rightarrow> None) (Some name))"

definition field_is_weak :: "'f type_table \<Rightarrow> ustr \<Rightarrow> ustr \<Rightarrow> bool option" where
  "field_is_weak T name field =
     map_option (\<lambda>r. r \<noteq> None)
       (walk_chain T (\<lambda>_ d. if field \<in> set (cd_weak d) then Some () else None) (Some name))"

definition class_has_member :: "'f type_table \<Rightarrow> ustr \<Rightarrow> ustr \<Rightarrow> bool option" where
  "class_has_member T name m =
     map_option (\<lambda>r. r \<noteq> None)
       (walk_chain T (\<lambda>_ d. if m \<in> sp_name ` set (cd_stored d) \<or> cd_computed d m \<noteq> None then Some () else None)
         (Some name))"

text \<open>The overload that labels select among several, else the method declared last; with its class.\<close>

definition class_method :: "('v \<Rightarrow> ustr) \<Rightarrow> 'v call_arg list \<Rightarrow> ustr \<Rightarrow> class_def \<Rightarrow> method_def option" where
  "class_method ty args m d =
     (case (case cd_overloads d m of
              Some ovs \<Rightarrow> if 1 < length ovs \<and> args \<noteq> [] then select_labeled_overload ty ovs args else None
            | None \<Rightarrow> None) of
        Some md \<Rightarrow> Some md
      | None \<Rightarrow> cd_methods d m)"

definition lookup_method_for_call ::
  "'f type_table \<Rightarrow> ('v \<Rightarrow> ustr) \<Rightarrow> ustr \<Rightarrow> ustr \<Rightarrow> 'v call_arg list \<Rightarrow> (method_def \<times> ustr) option option" where
  "lookup_method_for_call T ty name m args =
     walk_chain T (\<lambda>c d. map_option (\<lambda>md. (md, c)) (class_method ty args m d)) (Some name)"

definition lookup_method :: "'f type_table \<Rightarrow> ustr \<Rightarrow> ustr \<Rightarrow> (method_def \<times> ustr) option option" where
  "lookup_method T name m = lookup_method_for_call T (\<lambda>_ :: unit. []) name m []"

definition overload_labels_match :: "param list \<Rightarrow> 'v call_arg list \<Rightarrow> bool" where
  "overload_labels_match ps args \<longleftrightarrow>
     list_all2 (\<lambda>p a. case fst a of
        Some l \<Rightarrow> l = effective_label p \<or> effective_label p = scalars ''_''
      | None \<Rightarrow> True) ps args"

definition has_method_on :: "'f type_table \<Rightarrow> ustr \<Rightarrow> ustr \<Rightarrow> 'v call_arg list \<Rightarrow> bool option" where
  "has_method_on T name m args =
     map_option (\<lambda>r. r \<noteq> None)
       (walk_chain T (\<lambda>_ d. case cd_overloads d m of
            Some ovs \<Rightarrow> if list_ex (\<lambda>ov. overload_labels_match (md_params ov) args) ovs then Some () else None
          | None \<Rightarrow> if cd_methods d m \<noteq> None then Some () else None) (Some name))"

section \<open>The dynamic type of a value\<close>

definition array_element_type :: "ustr \<Rightarrow> ustr option" where
  "array_element_type name = map_option tr_text (array_element (parse name))"

text \<open>A conjunction that stops at the first \<open>False\<close>.\<close>

fun all_opt :: "bool option list \<Rightarrow> bool option" where
  "all_opt [] = Some True"
| "all_opt (x # xs) = (case x of None \<Rightarrow> None | Some b \<Rightarrow> if b then all_opt xs else Some False)"

primrec value_is_type :: "'f type_table \<Rightarrow> 'f heap \<Rightarrow> 'f swift_value \<Rightarrow> ustr \<Rightarrow> bool option" where
  "value_is_type T H (VObject a) = (\<lambda>ty. case H a of Some obj \<Rightarrow> class_is T (so_name obj) ty | None \<Rightarrow> Some False)"
| "value_is_type T H (VInt x) =
     (\<lambda>ty. Some (ty \<in> {scalars ''Int'', scalars ''Int64''} \<or> width_from_name ty \<noteq> None))"
| "value_is_type T H (VDouble x) = (\<lambda>ty. Some (ty \<in> {scalars ''Double'', scalars ''Float''}))"
| "value_is_type T H (VBool x) = (\<lambda>ty. Some (ty = scalars ''Bool''))"
| "value_is_type T H (VStr x) = (\<lambda>ty. Some (ty = scalars ''String''))"
| "value_is_type T H (VSubstring x i j) = (\<lambda>ty. Some (ty = scalars ''Substring''))"
| "value_is_type T H (VStruct obj) = (\<lambda>ty. Some (so_name obj = ty))"
| "value_is_type T H (VEnum e) = (\<lambda>ty. Some (eo_type e = ty))"
| "value_is_type T H (VArray items) =
     (\<lambda>ty. case array_element_type ty of
        None \<Rightarrow> Some False
      | Some elem \<Rightarrow>
          let (base, optional) = (case strip_suffix sc_question elem of Some b \<Rightarrow> (trim b, True) | None \<Rightarrow> (elem, False)) in
          all_opt (map (\<lambda>(v, test). if optional \<and> v = VNil then Some True else test base)
            (zip items (map (value_is_type T H) items))))"
| "value_is_type T H VNil = (\<lambda>ty. Some (ends_with ty (scalars ''?'')))"
| "value_is_type T H VVoid = (\<lambda>ty. Some False)"
| "value_is_type T H (VTuple xs ls) = (\<lambda>ty. Some False)"
| "value_is_type T H (VArraySlice xs i j) = (\<lambda>ty. Some False)"
| "value_is_type T H (VDict ps) = (\<lambda>ty. Some False)"
| "value_is_type T H (VSet xs) = (\<lambda>ty. Some False)"
| "value_is_type T H (VRange lo hi inc) = (\<lambda>ty. Some False)"
| "value_is_type T H (VFunction a) = (\<lambda>ty. Some False)"
| "value_is_type T H (VWeak a) = (\<lambda>ty. Some False)"
| "value_is_type T H (VUnowned a) = (\<lambda>ty. Some False)"
| "value_is_type T H (VRegex a) = (\<lambda>ty. Some False)"
| "value_is_type T H (VClosure a) = (\<lambda>ty. Some False)"
| "value_is_type T H (VTask a) = (\<lambda>ty. Some False)"
| "value_is_type T H (VTaskGroup a) = (\<lambda>ty. Some False)"
| "value_is_type T H (VContinuation a) = (\<lambda>ty. Some False)"
| "value_is_type T H (VStreamContinuation a) = (\<lambda>ty. Some False)"
| "value_is_type T H (VAsyncStreamHandle a) = (\<lambda>ty. Some False)"
| "value_is_type T H (VMetatype a) = (\<lambda>ty. Some False)"
| "value_is_type T H (VAccessorVar a) = (\<lambda>ty. Some False)"

section \<open>The part of the interpreter that declarations change\<close>

record func_def =
  fd_params :: "param list"
  fd_body :: "tree option"
  fd_captured :: env
  fd_generics :: "ustr list"
  fd_tuple_labels :: "ustr option list option"

record 'f registry =
  r_types :: "'f type_table"
  r_statics :: "ustr \<rightharpoonup> 'f swift_value"
  r_main :: "ustr option"
  r_imports :: "ustr set"
  r_funcs :: "func_def list"

text \<open>A question to the registry; the evaluation does not end when the answer does not.\<close>

definition asking :: "'a option \<Rightarrow> ('f, 'x, 'a) act" where
  "asking answer s = (case answer of Some x \<Rightarrow> Ends s (Inr x) | None \<Rightarrow> Diverges)"

section \<open>Casts\<close>

definition cast_matches :: "'f type_table \<Rightarrow> 'f heap \<Rightarrow> 'f swift_value \<Rightarrow> ustr \<Rightarrow> bool option" where
  "cast_matches T H v ty =
     (let r = parse ty in
      if Type_Repr.is_optional r \<and> v = VNil then Some True
      else value_is_type T H v (tr_text (strip_optionals r)))"

definition eval_cast ::
  "('f, ('f, 'y) registry_scheme) evaluator \<Rightarrow> ('f, ('f, 'y) registry_scheme) evaluator" where
  "eval_cast ev t =
     (let op = (case t_text t of Some x \<Rightarrow> x | None \<Rightarrow> []);
          ty = (case t_children t of _ # c # _ \<Rightarrow> (case t_text c of Some x \<Rightarrow> x | None \<Rightarrow> []) | _ \<Rightarrow> []) in
      bind (require (first_child t) ''cast without an expression'') (\<lambda>e.
      bind (ev e) (\<lambda>v. reading (\<lambda>s.
      bind (asking (cast_matches (r_types (i_rest s)) (i_heap s) v ty)) (\<lambda>matches.
        if op = scalars ''is'' then ret (VBool matches)
        else if is_optional_cast t then ret (if matches then v else VNil)
        else if matches then ret v
        else trap (scalars ''could not cast value to '' @ ty))))))"

end
