(* ===== verification/Nominal.thy ===== *)
theory Nominal
  imports Types
begin

text \<open>
  \<open>tswift-core/src/interp/nominal.rs\<close>: the declarations of a block, entered into the registry before
  its statements run: types and protocols with their members, typealiases, functions, imports, then
  extensions. Raw values of enum cases and static properties are evaluated with the evaluator that is
  a parameter; what a signal of theirs does is what the code does, to leave the value out.
\<close>

section \<open>Steps on the registry\<close>

type_synonym ('f, 'y) registering = "('f, ('f, 'y) registry_scheme, unit) act"

definition on_registry :: "(('f, 'y) registry_scheme \<Rightarrow> ('f, 'y) registry_scheme) \<Rightarrow> ('f, 'y) registering" where
  "on_registry f s = Ends (s\<lparr>i_rest := f (i_rest s)\<rparr>) (Inr ())"

definition on_types :: "('f type_table \<Rightarrow> 'f type_table) \<Rightarrow> ('f, 'y) registering" where
  "on_types f = on_registry (\<lambda>r. r\<lparr>r_types := f (r_types r)\<rparr>)"

text \<open>A step for a name, if there is one; a step unless the type is known.\<close>

definition named :: "ustr option \<Rightarrow> (ustr \<Rightarrow> ('f, 'y) registering) \<Rightarrow> ('f, 'y) registering" where
  "named name f = (case name of Some n \<Rightarrow> f n | None \<Rightarrow> ret ())"

definition unless_known :: "('f type_table \<Rightarrow> bool) \<Rightarrow> ('f, 'y) registering \<Rightarrow> ('f, 'y) registering" where
  "unless_known known m = reading (\<lambda>s. if known (r_types (i_rest s)) then ret () else m)"

text \<open>The value of an expression, nothing when it ends with a signal.\<close>

definition eval_ok :: "('f, 'x) evaluator \<Rightarrow> tree \<Rightarrow> ('f, 'x, 'f swift_value option) act" where
  "eval_ok ev t = bind (attempt (ev t)) (\<lambda>r. ret (case r of Inr v \<Rightarrow> Some v | Inl _ \<Rightarrow> None))"

section \<open>Typealiases, protocols, extensions\<close>

definition type_refs :: "tree \<Rightarrow> ustr list" where
  "type_refs t = List.map_filter t_text (filter (\<lambda>c. t_kind c = TypeRef) (t_children t))"

definition attributes_of :: "tree \<Rightarrow> ustr list" where
  "attributes_of t = List.map_filter t_text (filter (\<lambda>c. t_kind c = Attribute) (t_children t))"

definition record_conformances :: "ustr \<Rightarrow> tree \<Rightarrow> ('f, 'y) registering" where
  "record_conformances name t = on_types (record_conformance name (type_refs t))"

definition alias_components :: "ustr \<Rightarrow> ustr list" where
  "alias_components rhs = filter (\<lambda>s. s \<noteq> []) (map trim (split_on sc_amp rhs))"

definition register_typealias :: "tree \<Rightarrow> ('f, 'y) registering" where
  "register_typealias t =
     named (t_text t) (\<lambda>name. named (field_type_name t) (\<lambda>rhs.
       if sc_amp \<in> set rhs \<and> alias_components rhs \<noteq> [] then on_types (add_protocol_alias name (alias_components rhs))
       else ret ()))"

definition optional_of :: "node_kind list \<Rightarrow> tree \<Rightarrow> ustr list" where
  "optional_of kinds t =
     List.map_filter (\<lambda>c. case t_text c of Some n \<Rightarrow> Some n | None \<Rightarrow> decl_name c)
       (filter (\<lambda>c. t_kind c \<in> set kinds \<and> scalars ''optional'' \<in> set (modifier_names c)) (t_children t))"

definition add_optionals :: "ustr \<Rightarrow> ustr list \<Rightarrow> ustr list \<Rightarrow> 'f type_table \<Rightarrow> 'f type_table" where
  "add_optionals name ms ps T =
     (case tt_protocols T name of
        None \<Rightarrow> T
      | Some d \<Rightarrow> T\<lparr>tt_protocols := (tt_protocols T)(name \<mapsto>
          d\<lparr>pd_optional_methods := pd_optional_methods d @ ms, pd_optional_properties := pd_optional_properties d @ ps\<rparr>)\<rparr>)"

definition register_protocol :: "tree \<Rightarrow> ('f, 'y) registering" where
  "register_protocol t =
     named (t_text t) (\<lambda>name.
       on_types (add_optionals name (optional_of [FuncDecl] t) (optional_of [VarDecl, LetDecl] t) \<circ>
                 ensure_protocol name (type_refs t)))"

text \<open>The methods and computed properties of an extension or an enum; of two with a name, the later.\<close>

type_synonym members = "(ustr \<rightharpoonup> method_def) \<times> (ustr \<rightharpoonup> computed_prop)"

definition add_member :: "members \<Rightarrow> tree \<Rightarrow> members" where
  "add_member ms m =
     (if t_kind m = FuncDecl then
        (case t_text m of Some name \<Rightarrow> ((fst ms)(name \<mapsto> func_method m), snd ms) | None \<Rightarrow> ms)
      else if t_kind m \<in> {VarDecl, LetDecl} then
        (case decl_name m of
           Some name \<Rightarrow> if a_computed (var_accessors m) then (fst ms, (snd ms)(name \<mapsto> computed_of m)) else ms
         | None \<Rightarrow> ms)
      else ms)"

definition members_in :: "tree \<Rightarrow> members" where
  "members_in t = foldl add_member (Map.empty, Map.empty) (expand_directives t)"

definition extend_type :: "ustr \<Rightarrow> members \<Rightarrow> 'f type_table \<Rightarrow> 'f type_table" where
  "extend_type target ms T =
     (case tt_protocols T target of
        Some d \<Rightarrow> T\<lparr>tt_protocols := (tt_protocols T)(target \<mapsto>
          d\<lparr>pd_methods := pd_methods d ++ fst ms, pd_computed := pd_computed d ++ snd ms\<rparr>)\<rparr>
      | None \<Rightarrow>
          (case tt_structs T target of
             Some d \<Rightarrow> T\<lparr>tt_structs := (tt_structs T)(target \<mapsto>
               d\<lparr>st_methods := st_methods d ++ fst ms, st_computed := st_computed d ++ snd ms\<rparr>)\<rparr>
           | None \<Rightarrow>
               (case tt_enums T target of
                  Some d \<Rightarrow> T\<lparr>tt_enums := (tt_enums T)(target \<mapsto>
                    d\<lparr>ed_methods := ed_methods d ++ fst ms, ed_computed := ed_computed d ++ snd ms\<rparr>)\<rparr>
                | None \<Rightarrow>
                    (case tt_classes T target of
                       Some d \<Rightarrow> T\<lparr>tt_classes := (tt_classes T)(target \<mapsto>
                         d\<lparr>cd_methods := cd_methods d ++ fst ms, cd_computed := cd_computed d ++ snd ms\<rparr>)\<rparr>
                     | None \<Rightarrow> add_builtin_ext target (fst ms) (snd ms) T))))"

definition register_extension :: "tree \<Rightarrow> ('f, 'y) registering" where
  "register_extension t =
     named (t_text t) (\<lambda>target. bind (record_conformances target t) (\<lambda>_. on_types (extend_type target (members_in t))))"

section \<open>Enums\<close>

datatype raw_kind = RawInt | RawStr

definition raw_kind_of :: "tree \<Rightarrow> raw_kind option" where
  "raw_kind_of t =
     first_some (\<lambda>ty. if ty = scalars ''String'' then Some RawStr
                      else if width_from_name ty \<noteq> None then Some RawInt else None) (type_refs t)"

text \<open>The raw value of a case and the next automatic one.\<close>

definition case_raw ::
  "raw_kind option \<Rightarrow> ustr \<Rightarrow> 'f swift_value option \<Rightarrow> int \<Rightarrow> 'f swift_value option \<times> int" where
  "case_raw kind name explicit next_int =
     (case kind of
        Some RawInt \<Rightarrow>
          let v = (case explicit of Some (VInt i) \<Rightarrow> raw i | _ \<Rightarrow> next_int) in (Some (value_int v), wrap_i128 (v + 1))
      | Some RawStr \<Rightarrow> (Some (case explicit of Some v \<Rightarrow> v | None \<Rightarrow> VStr name), next_int)
      | None \<Rightarrow> (explicit, next_int))"

definition explicit_raw :: "('f, 'x) evaluator \<Rightarrow> tree \<Rightarrow> ('f, 'x, 'f swift_value option) act" where
  "explicit_raw ev m = (case find is_value_node (t_children m) of Some e \<Rightarrow> eval_ok ev e | None \<Rightarrow> ret None)"

fun enum_cases ::
  "('f, 'x) evaluator \<Rightarrow> raw_kind option \<Rightarrow> tree list \<Rightarrow> int \<Rightarrow> ('f, 'x, 'f enum_case_def list) act" where
  "enum_cases ev kind [] next_int = ret []"
| "enum_cases ev kind (m # ms) next_int =
     (if t_kind m \<noteq> EnumCaseDecl then enum_cases ev kind ms next_int
      else case t_text m of
        None \<Rightarrow> enum_cases ev kind ms next_int
      | Some name \<Rightarrow>
          bind (explicit_raw ev m) (\<lambda>explicit.
          let (r, next_int) = case_raw kind name explicit next_int in
          bind (enum_cases ev kind ms next_int) (\<lambda>cases.
            ret (\<lparr>ec_name = name, ec_raw = r,
                  ec_payload = map t_text (filter (\<lambda>c. t_kind c = TypeRef) (t_children m))\<rparr> # cases))))"

definition register_enum ::
  "('f, ('f, 'y) registry_scheme) evaluator \<Rightarrow> tree \<Rightarrow> ('f, 'y) registering" where
  "register_enum ev t =
     named (t_text t) (\<lambda>name. unless_known (\<lambda>T. is_enum T name)
       (bind (record_conformances name t) (\<lambda>_.
        bind (enum_cases ev (raw_kind_of t) (expand_directives t) 0) (\<lambda>cases.
          on_types (insert_enum name
            \<lparr>ed_cases = cases, ed_methods = fst (members_in t), ed_computed = snd (members_in t)\<rparr>)))))"

section \<open>Classes and structs\<close>

text \<open>A static property is evaluated once its type is in the registry.\<close>

definition set_static :: "ustr \<Rightarrow> 'f swift_value \<Rightarrow> ('f, 'y) registering" where
  "set_static key v = on_registry (\<lambda>r. r\<lparr>r_statics := (r_statics r)(key \<mapsto> v)\<rparr>)"

definition static_inits ::
  "('f, ('f, 'y) registry_scheme) evaluator \<Rightarrow> ustr \<Rightarrow> (ustr \<times> tree) list \<Rightarrow> ('f, 'y) registering" where
  "static_inits ev name inits =
     each (\<lambda>(p, e). bind (eval_ok ev e) (\<lambda>r. case r of Some v \<Rightarrow> set_static (name @ scalars ''.'' @ p) v | None \<Rightarrow> ret ()))
       inits"

definition class_field :: "class_def \<times> (ustr \<times> tree) list \<Rightarrow> ustr \<Rightarrow> tree \<Rightarrow> class_def \<times> (ustr \<times> tree) list" where
  "class_field acc name m =
     (let (d, inits) = acc in
      if a_computed (var_accessors m) then (d\<lparr>cd_computed := (cd_computed d)(name \<mapsto> computed_of m)\<rparr>, inits)
      else if is_static m then
        (d, inits @ (case find is_value_node (t_children m) of Some e \<Rightarrow> [(name, e)] | None \<Rightarrow> []))
      else
        (d\<lparr>cd_weak := cd_weak d @ (if ownership m = Some (scalars ''weak'') then [name] else []),
           cd_stored := cd_stored d @ [stored_of name m]\<rparr>, inits))"

definition class_member :: "class_def \<times> (ustr \<times> tree) list \<Rightarrow> tree \<Rightarrow> class_def \<times> (ustr \<times> tree) list" where
  "class_member acc m =
     (let (d, inits) = acc in
      if t_kind m = InitDecl then
        (let def = method_of False False (find_child m Block) m in (d\<lparr>cd_inits := cd_inits d @ [def], cd_init := Some def\<rparr>, inits))
      else if t_kind m = SubscriptDecl \<and> is_static m then
        (d\<lparr>cd_static_subscript := Some (method_of False True (getter_or_block m) m)\<rparr>, inits)
      else if t_kind m = DeinitDecl then (d\<lparr>cd_deinit := find_child m Block\<rparr>, inits)
      else if t_kind m = FuncDecl then
        (case t_text m of
           None \<Rightarrow> acc
         | Some name \<Rightarrow>
             let def = method_of False (is_static m) (find_child m Block) m in
             (d\<lparr>cd_overloads := (cd_overloads d)(name \<mapsto> listed (cd_overloads d) name @ [def]),
                cd_methods := (cd_methods d)(name \<mapsto> def)\<rparr>, inits))
      else if t_kind m \<in> {VarDecl, LetDecl} then
        (case decl_name m of None \<Rightarrow> acc | Some name \<Rightarrow> class_field acc name m)
      else acc)"

definition class_decl :: "tree \<Rightarrow> class_def \<times> (ustr \<times> tree) list" where
  "class_decl t = foldl class_member (empty_class (field_type_name t) (attributes_of t), []) (expand_directives t)"

definition register_class ::
  "('f, ('f, 'y) registry_scheme) evaluator \<Rightarrow> tree \<Rightarrow> ('f, 'y) registering" where
  "register_class ev t =
     named (t_text t) (\<lambda>name. unless_known (\<lambda>T. is_class T name)
       (bind (record_conformances name t) (\<lambda>_.
        bind (on_types (insert_class name (fst (class_decl t)))) (\<lambda>_.
          static_inits ev name (snd (class_decl t))))))"

text \<open>The first attribute of a field is its property wrapper.\<close>

definition wrapper_of :: "tree \<Rightarrow> wrapper_def option" where
  "wrapper_of m =
     Option.bind (find_child m Attribute) (\<lambda>a. map_option (\<lambda>ty. \<lparr>wd_type = ty, wd_args = t_children a\<rparr>) (t_text a))"

definition struct_field :: "struct_def \<times> (ustr \<times> tree) list \<Rightarrow> ustr \<Rightarrow> tree \<Rightarrow> struct_def \<times> (ustr \<times> tree) list" where
  "struct_field acc name m =
     (let (d, inits) = acc in
      if a_computed (var_accessors m) then (d\<lparr>st_computed := (st_computed d)(name \<mapsto> computed_of m)\<rparr>, inits)
      else
        let d = (case wrapper_of m of Some w \<Rightarrow> d\<lparr>st_wrappers := (st_wrappers d)(name \<mapsto> w)\<rparr> | None \<Rightarrow> d) in
        if is_static m then
          (d, inits @ (case find is_value_node (t_children m) of Some e \<Rightarrow> [(name, e)] | None \<Rightarrow> []))
        else (d\<lparr>st_stored := st_stored d @ [stored_of name m]\<rparr>, inits))"

definition subscript_of :: "tree \<Rightarrow> subscript_def" where
  "subscript_of m =
     (let acc = var_accessors m in
      \<lparr>sd_params = parse_params m, sd_getter = getter_or_block m, sd_setter = a_setter acc,
       sd_setter_param = (case a_setter_param acc of Some p \<Rightarrow> p | None \<Rightarrow> scalars ''newValue'')\<rparr>)"

definition struct_member :: "struct_def \<times> (ustr \<times> tree) list \<Rightarrow> tree \<Rightarrow> struct_def \<times> (ustr \<times> tree) list" where
  "struct_member acc m =
     (let (d, inits) = acc in
      if t_kind m = InitDecl then
        (let def = method_of True False (find_child m Block) m in (d\<lparr>st_inits := st_inits d @ [def], st_init := Some def\<rparr>, inits))
      else if t_kind m = SubscriptDecl then
        (if is_static m then (d\<lparr>st_static_subscript := Some (method_of False True (getter_or_block m) m)\<rparr>, inits)
         else (d\<lparr>st_subscripts := st_subscripts d @ [subscript_of m]\<rparr>, inits))
      else if t_kind m = FuncDecl then
        (case t_text m of
           None \<Rightarrow> acc
         | Some name \<Rightarrow>
             (d\<lparr>st_overloads := (st_overloads d)(name \<mapsto> listed (st_overloads d) name @ [func_method m]),
                st_methods := (st_methods d)(name \<mapsto> func_method m)\<rparr>, inits))
      else if t_kind m \<in> {VarDecl, LetDecl} then
        (case decl_name m of None \<Rightarrow> acc | Some name \<Rightarrow> struct_field acc name m)
      else acc)"

definition empty_struct :: "tree \<Rightarrow> struct_def" where
  "empty_struct t =
     \<lparr>st_attributes = attributes_of t, st_stored = [], st_computed = Map.empty, st_methods = Map.empty,
      st_overloads = Map.empty, st_subscripts = [], st_static_subscript = None, st_init = None, st_inits = [],
      st_wrappers = Map.empty, st_value_generics = value_generic_param_names t,
      st_dynamic_lookup = (scalars ''dynamicMemberLookup'' \<in> set (attributes_of t)),
      st_dynamic_callable = (scalars ''dynamicCallable'' \<in> set (attributes_of t))\<rparr>"

definition struct_decl :: "tree \<Rightarrow> struct_def \<times> (ustr \<times> tree) list" where
  "struct_decl t = foldl struct_member (empty_struct t, []) (expand_directives t)"

definition mark_main :: "ustr \<Rightarrow> tree \<Rightarrow> ('f, 'y) registering" where
  "mark_main name t =
     (if scalars ''main'' \<in> set (attributes_of t) then on_registry (\<lambda>r. r\<lparr>r_main := Some name\<rparr>) else ret ())"

definition register_struct ::
  "('f, ('f, 'y) registry_scheme) evaluator \<Rightarrow> tree \<Rightarrow> ('f, 'y) registering" where
  "register_struct ev t =
     named (t_text t) (\<lambda>name. unless_known (\<lambda>T. is_struct T name)
       (bind (record_conformances name t) (\<lambda>_.
        bind (mark_main name t) (\<lambda>_.
        bind (on_types (insert_struct name (fst (struct_decl t)))) (\<lambda>_.
          static_inits ev name (snd (struct_decl t)))))))"

section \<open>Functions and imports\<close>

text \<open>Splitting at the commas outside brackets, with an \<open>i32\<close> depth.\<close>

fun split_outside :: "int \<Rightarrow> ustr \<Rightarrow> ustr list" where
  "split_outside depth [] = [[]]"
| "split_outside depth (c # cs) =
     (if c = sc_comma \<and> depth = 0 then [] # split_outside depth cs
      else
        let parts = split_outside
              (if c \<in> {sc_lparen, sc_lbrack, sc_lt} then wrap_i32 (depth + 1)
               else if c \<in> {sc_rparen, sc_rbrack, sc_gt} then wrap_i32 (depth - 1) else depth) cs
        in (c # hd parts) # tl parts)"

fun has_arrow :: "ustr \<Rightarrow> bool" where
  "has_arrow (a # b # cs) \<longleftrightarrow> a = sc_minus \<and> b = sc_gt \<or> has_arrow (b # cs)"
| "has_arrow _ \<longleftrightarrow> False"

text \<open>\<open>alnum\<close> is \<open>char::is_alphanumeric\<close>; \<open>95\<close> is the underscore.\<close>

definition tuple_label :: "(scalar \<Rightarrow> bool) \<Rightarrow> ustr \<Rightarrow> ustr option" where
  "tuple_label alnum part =
     (if sc_colon \<in> set part then
        let name = trim (takeWhile (\<lambda>c. c \<noteq> sc_colon) part) in
        if name \<noteq> [] \<and> list_all (\<lambda>c. alnum c \<or> c = 95) name then Some name else None
      else None)"

definition tuple_type_labels :: "(scalar \<Rightarrow> bool) \<Rightarrow> ustr \<Rightarrow> ustr option list option" where
  "tuple_type_labels alnum text =
     (case trim text of
        [] \<Rightarrow> None
      | c # cs \<Rightarrow>
          if c \<noteq> sc_lparen then None
          else case strip_suffix sc_rparen cs of
            None \<Rightarrow> None
          | Some inner \<Rightarrow>
              let parts = map trim (split_outside 0 inner); labels = map (tuple_label alnum) parts in
              if length parts < 2 \<or> list_ex has_arrow parts then None
              else if list_ex (\<lambda>l. l \<noteq> None) labels then Some labels
              else None)"

definition func_of :: "(scalar \<Rightarrow> bool) \<Rightarrow> env \<Rightarrow> tree \<Rightarrow> func_def" where
  "func_of alnum captured t =
     \<lparr>fd_params = parse_params t, fd_body = find_child t Block, fd_captured = captured, fd_generics = generic_param_names t,
      fd_tuple_labels = Option.bind (field_type_name t) (tuple_type_labels alnum)\<rparr>"

definition declare_func :: "(scalar \<Rightarrow> bool) \<Rightarrow> tree \<Rightarrow> ('f, 'y) registering" where
  "declare_func alnum t =
     named (t_text t) (\<lambda>name. reading (\<lambda>s.
       case get_var name s of
         Some (VFunction _) \<Rightarrow> ret ()
       | _ \<Rightarrow>
           bind (on_registry (\<lambda>r. r\<lparr>r_funcs := r_funcs r @ [func_of alnum (capture (i_env s)) t]\<rparr>)) (\<lambda>_.
             declare_var name (VFunction (length (r_funcs (i_rest s)))) False)))"

definition import_path_leading_component :: "ustr \<Rightarrow> ustr" where
  "import_path_leading_component path = hd (split_on 46 path)"

definition mark_module_imported :: "ustr \<Rightarrow> ('f, 'y) registering" where
  "mark_module_imported path =
     (let leading = import_path_leading_component path in
      if leading = [] then ret () else on_registry (\<lambda>r. r\<lparr>r_imports := insert leading (r_imports r)\<rparr>))"

section \<open>Hoisting\<close>

lemma branch_size: "size_list size (push_active_branch t) \<le> Suc (size t)"
proof (induction t rule: push_active_branch.induct)
  case (1 k r line col ty ms l cs)
  have "size_list size (concat (map push_active_branch ts)) \<le> size_list size ts"
    if "\<And>c. c \<in> set ts \<Longrightarrow> size_list size (push_active_branch c) \<le> Suc (size c)" for ts
    using that by (induction ts) (fastforce simp: size_list_append)+
  from this [of cs] 1 have "k = CompilerDirective \<and> map_option (dropWhile (\<lambda>c. c = 35)) r = Some (scalars ''if'') \<Longrightarrow>
      size_list size (concat (map push_active_branch cs)) \<le> size_list size cs" by blast
  then show ?case by auto
qed

lemma directives_size: "size_list size (expand_directives t) < size t"
proof -
  have "size_list size (concat (map push_active_branch ts)) \<le> size_list size ts" for ts
  proof (induction ts)
    case (Cons c ts)
    then show ?case using branch_size [of c] by (simp add: size_list_append)
  qed simp
  then show ?thesis by (cases t) (simp add: expand_directives_def less_Suc_eq_le)
qed

definition type_kinds :: "node_kind list" where
  "type_kinds = [StructDecl, EnumDecl, ClassDecl, ActorDecl]"

definition register_type ::
  "('f, ('f, 'y) registry_scheme) evaluator \<Rightarrow> tree \<Rightarrow> ('f, 'y) registering" where
  "register_type ev t =
     (if t_kind t = StructDecl then register_struct ev t
      else if t_kind t = EnumDecl then register_enum ev t
      else register_class ev t)"

text \<open>The types declared inside a type, by their simple names.\<close>

function register_nested_types ::
    "('f, ('f, 'y) registry_scheme) evaluator \<Rightarrow> tree \<Rightarrow> ('f, 'y) registering"
  and register_members ::
    "('f, ('f, 'y) registry_scheme) evaluator \<Rightarrow> tree list \<Rightarrow> ('f, 'y) registering" where
  "register_nested_types ev t = register_members ev (expand_directives t)"
| "register_members ev [] = ret ()"
| "register_members ev (m # ms) =
     bind (if t_kind m \<in> set type_kinds then bind (register_type ev m) (\<lambda>_. register_nested_types ev m) else ret ())
       (\<lambda>_. register_members ev ms)"
  by pat_completeness auto
termination
  by (relation "measure (\<lambda>x. case x of Inl (_, t) \<Rightarrow> size t | Inr (_, ms) \<Rightarrow> size_list size ms)")
    (auto simp: directives_size)

declare register_nested_types.simps [simp del]

definition hoist_decl ::
  "(scalar \<Rightarrow> bool) \<Rightarrow> ('f, ('f, 'y) registry_scheme) evaluator \<Rightarrow> tree \<Rightarrow> ('f, 'y) registering" where
  "hoist_decl alnum ev c =
     (if t_kind c = FuncDecl then declare_func alnum c
      else if t_kind c \<in> set type_kinds then bind (register_type ev c) (\<lambda>_. register_nested_types ev c)
      else if t_kind c = ProtocolDecl then register_protocol c
      else if t_kind c = TypeAliasDecl then register_typealias c
      else if t_kind c = ImportDecl then named (t_text c) mark_module_imported
      else ret ())"

definition hoist ::
  "(scalar \<Rightarrow> bool) \<Rightarrow> ('f, ('f, 'y) registry_scheme) evaluator \<Rightarrow> tree \<Rightarrow> ('f, 'y) registering" where
  "hoist alnum ev t =
     bind (each (hoist_decl alnum ev) (expand_directives t)) (\<lambda>_.
       each register_extension (filter (\<lambda>c. t_kind c = ExtensionDecl) (expand_directives t)))"

end
