(* ===== verification/Types_Correct.thy ===== *)
theory Types_Correct
  imports Types
begin

text \<open>
  What the questions to the registry return: the protocols of a type against the reachable ones, the
  chain of a class against the superclass relation, members found along the chain, casts. The loops
  return exactly when no typealias or class that they meet is on a cycle.
\<close>

section \<open>Protocols\<close>

definition succs :: "'f type_table \<Rightarrow> ustr \<Rightarrow> ustr list" where
  "succs T p =
     (case tt_aliases T p of
        Some components \<Rightarrow> components
      | None \<Rightarrow> (case tt_protocols T p of Some d \<Rightarrow> pd_inherited d | None \<Rightarrow> []))"

definition proto_edge :: "'f type_table \<Rightarrow> (ustr \<times> ustr) set" where
  "proto_edge T = {(p, q). q \<in> set (succs T p)}"

definition alias_edge :: "'f type_table \<Rightarrow> (ustr \<times> ustr) set" where
  "alias_edge T = {(p, q). \<exists>cs. tt_aliases T p = Some cs \<and> q \<in> set cs}"

text \<open>The names that a declaration of conformance leads to, the protocols among them, and the cyclic ones.\<close>

definition reached :: "'f type_table \<Rightarrow> ustr \<Rightarrow> ustr set" where
  "reached T name = (proto_edge T)\<^sup>* `` set (listed (tt_conformances T) name)"

definition conforms :: "'f type_table \<Rightarrow> ustr \<Rightarrow> ustr \<Rightarrow> bool" where
  "conforms T name p \<longleftrightarrow> p \<in> reached T name \<and> tt_aliases T p = None"

definition cyclic :: "('a \<times> 'a) set \<Rightarrow> 'a \<Rightarrow> bool" where
  "cyclic r a \<longleftrightarrow> (a, a) \<in> r\<^sup>+"

lemma cyclic_loop: "(a, a) \<in> r \<Longrightarrow> cyclic r a"
  unfolding cyclic_def by (rule r_into_trancl)

lemma cyclic_next: "cyclic r a \<Longrightarrow> \<exists>b. (a, b) \<in> r \<and> cyclic r b"
  unfolding cyclic_def by (metis tranclD rtrancl_into_trancl1)

text \<open>\<open>A\<close> are the aliases expanded so far: what is found or expanded has its successors in sight.\<close>

definition in_sight :: "'f type_table \<Rightarrow> ustr set \<Rightarrow> ustr list \<Rightarrow> ustr list \<Rightarrow> bool" where
  "in_sight T A stack found \<longleftrightarrow>
     A \<subseteq> dom (tt_aliases T) \<and> (\<forall>p \<in> set found \<union> A. set (succs T p) \<subseteq> set found \<union> A \<union> set stack)"

text \<open>What the loop has done when it returns.\<close>

definition done_from :: "'f type_table \<Rightarrow> ustr list \<Rightarrow> ustr list \<Rightarrow> ustr list \<Rightarrow> bool" where
  "done_from T stack found y \<longleftrightarrow>
     (\<forall>p \<in> set stack. \<not> cyclic (alias_edge T) p) \<and>
     (distinct found \<longrightarrow> distinct y) \<and>
     set y \<subseteq> set found \<union> {q \<in> (proto_edge T)\<^sup>* `` set stack. tt_aliases T q = None} \<and>
     (\<forall>A. in_sight T A stack found \<longrightarrow>
        (\<exists>B. A \<subseteq> B \<and> in_sight T B [] y \<and> set found \<union> set stack \<subseteq> set y \<union> B \<and>
          (\<forall>b \<in> B - A. \<not> cyclic (alias_edge T) b)))"

lemma done_fromI:
  assumes "\<And>p. p \<in> set stack \<Longrightarrow> \<not> cyclic (alias_edge T) p" "distinct found \<Longrightarrow> distinct y"
    "set y \<subseteq> set found \<union> {q \<in> (proto_edge T)\<^sup>* `` set stack. tt_aliases T q = None}"
    "\<And>A. in_sight T A stack found \<Longrightarrow>
        \<exists>B. A \<subseteq> B \<and> in_sight T B [] y \<and> set found \<union> set stack \<subseteq> set y \<union> B \<and> (\<forall>b \<in> B - A. \<not> cyclic (alias_edge T) b)"
  shows "done_from T stack found y"
  using assms unfolding done_from_def by blast

lemma reach_step: "(p, q) \<in> r \<Longrightarrow> r\<^sup>* `` {q} \<subseteq> r\<^sup>* `` {p}"
  by (auto intro: converse_rtrancl_into_rtrancl)

lemma done_alias:
  assumes "tt_aliases T p = Some cs" "done_from T (rest @ cs) found y"
  shows "done_from T (rest @ [p]) found y"
proof (rule done_fromI)
  have nc: "\<not> cyclic (alias_edge T) q" if "q \<in> set rest \<union> set cs" for q
    using assms(2) that by (auto simp: done_from_def)
  have "\<not> cyclic (alias_edge T) p"
    using cyclic_next [of "alias_edge T" p] nc assms(1) by (auto simp: alias_edge_def)
  then show "\<not> cyclic (alias_edge T) q" if "q \<in> set (rest @ [p])" for q
    using that nc by auto
  show "distinct found \<Longrightarrow> distinct y" using assms(2) by (simp add: done_from_def)
  have "(p, c) \<in> proto_edge T" if "c \<in> set cs" for c
    using that assms(1) by (simp add: proto_edge_def succs_def)
  then have "(proto_edge T)\<^sup>* `` set cs \<subseteq> (proto_edge T)\<^sup>* `` {p}"
    by (auto intro: converse_rtrancl_into_rtrancl)
  then have "(proto_edge T)\<^sup>* `` set (rest @ cs) \<subseteq> (proto_edge T)\<^sup>* `` set (rest @ [p])"
    unfolding set_append Image_Un by (intro Un_mono subset_refl) simp
  moreover have "set y \<subseteq> set found \<union> {q \<in> (proto_edge T)\<^sup>* `` set (rest @ cs). tt_aliases T q = None}"
    using assms(2) by (simp only: done_from_def)
  ultimately show "set y \<subseteq> set found \<union> {q \<in> (proto_edge T)\<^sup>* `` set (rest @ [p]). tt_aliases T q = None}"
    by blast
  fix A assume "in_sight T A (rest @ [p]) found"
  then have "in_sight T (insert p A) (rest @ cs) found"
    using assms(1) by (auto simp: in_sight_def succs_def)
  with assms(2) obtain B where "insert p A \<subseteq> B" "in_sight T B [] y" "set found \<union> set (rest @ cs) \<subseteq> set y \<union> B"
      "\<forall>b \<in> B - insert p A. \<not> cyclic (alias_edge T) b"
    unfolding done_from_def by blast
  then show "\<exists>B. A \<subseteq> B \<and> in_sight T B [] y \<and> set found \<union> set (rest @ [p]) \<subseteq> set y \<union> B \<and>
      (\<forall>b \<in> B - A. \<not> cyclic (alias_edge T) b)"
    using \<open>\<not> cyclic (alias_edge T) p\<close> by (intro exI [of _ B]) auto
qed

lemma not_cyclic_plain: "tt_aliases T p = None \<Longrightarrow> \<not> cyclic (alias_edge T) p"
  using cyclic_next [of "alias_edge T" p] by (auto simp: alias_edge_def)

lemma done_seen:
  assumes "tt_aliases T p = None" "p \<in> set found" "done_from T rest found y"
  shows "done_from T (rest @ [p]) found y"
proof (rule done_fromI)
  show "\<not> cyclic (alias_edge T) q" if "q \<in> set (rest @ [p])" for q
    using that assms not_cyclic_plain [OF assms(1)] by (auto simp: done_from_def)
  fix A assume "in_sight T A (rest @ [p]) found"
  then have "in_sight T A rest found" using assms(2) by (auto simp: in_sight_def)
  with assms(3) obtain B where "A \<subseteq> B" "in_sight T B [] y" "set found \<union> set rest \<subseteq> set y \<union> B"
      "\<forall>b \<in> B - A. \<not> cyclic (alias_edge T) b"
    unfolding done_from_def by blast
  with assms(2) show "\<exists>B. A \<subseteq> B \<and> in_sight T B [] y \<and> set found \<union> set (rest @ [p]) \<subseteq> set y \<union> B \<and>
      (\<forall>b \<in> B - A. \<not> cyclic (alias_edge T) b)"
    by (intro exI [of _ B]) auto
qed (use assms(3) in \<open>auto simp: done_from_def\<close>)

lemma done_new:
  assumes "tt_aliases T p = None" "p \<notin> set found" "done_from T (rest @ succs T p) (found @ [p]) y"
  shows "done_from T (rest @ [p]) found y"
proof (rule done_fromI)
  show "\<not> cyclic (alias_edge T) q" if "q \<in> set (rest @ [p])" for q
    using that assms not_cyclic_plain [OF assms(1)] by (auto simp: done_from_def)
  show "distinct found \<Longrightarrow> distinct y" using assms by (simp add: done_from_def)
  have "(proto_edge T)\<^sup>* `` set (succs T p) \<subseteq> (proto_edge T)\<^sup>* `` {p}"
    by (auto simp: proto_edge_def intro: converse_rtrancl_into_rtrancl)
  then have "(proto_edge T)\<^sup>* `` set (rest @ succs T p) \<subseteq> (proto_edge T)\<^sup>* `` set (rest @ [p])"
    unfolding set_append Image_Un by (intro Un_mono subset_refl) simp
  moreover have "set y \<subseteq> insert p (set found) \<union> {q \<in> (proto_edge T)\<^sup>* `` set (rest @ succs T p). tt_aliases T q = None}"
    using assms(3) by (auto simp: done_from_def)
  moreover have "p \<in> (proto_edge T)\<^sup>* `` set (rest @ [p])" by auto
  ultimately show "set y \<subseteq> set found \<union> {q \<in> (proto_edge T)\<^sup>* `` set (rest @ [p]). tt_aliases T q = None}"
    using assms(1) by blast
  fix A assume "in_sight T A (rest @ [p]) found"
  then have "in_sight T A (rest @ succs T p) (found @ [p])" by (auto simp: in_sight_def)
  with assms(3) obtain B where "A \<subseteq> B" "in_sight T B [] y" "set (found @ [p]) \<union> set (rest @ succs T p) \<subseteq> set y \<union> B"
      "\<forall>b \<in> B - A. \<not> cyclic (alias_edge T) b"
    unfolding done_from_def by blast
  then show "\<exists>B. A \<subseteq> B \<and> in_sight T B [] y \<and> set found \<union> set (rest @ [p]) \<subseteq> set y \<union> B \<and>
      (\<forall>b \<in> B - A. \<not> cyclic (alias_edge T) b)"
    by (intro exI [of _ B]) auto
qed

text \<open>The turn of the loop, with what an element that is new brings.\<close>

lemma protocol_loop_turn:
  "protocol_loop T (rest @ [p]) found =
     (if tt_aliases T p \<noteq> None then protocol_loop T (rest @ succs T p) found
      else if p \<in> set found then protocol_loop T rest found
      else protocol_loop T (rest @ succs T p) (found @ [p]))"
  by (subst protocol_loop.simps) (auto simp: succs_def split: option.split)

lemma protocol_loop_done: "protocol_loop T stack found = Some y \<Longrightarrow> done_from T stack found y"
proof (induction rule: protocol_loop.raw_induct [rotated, consumes 1])
  case (1 loop T stack found y)
  show ?case
  proof (cases stack rule: rev_cases)
    case Nil
    with 1(2) have "y = found" by simp
    then show ?thesis unfolding Nil by (intro done_fromI) auto
  next
    case (snoc rest p)
    from 1(2) snoc have
      "(\<exists>cs. tt_aliases T p = Some cs \<and> loop T (rest @ cs) found = Some y) \<or>
       (tt_aliases T p = None \<and> p \<in> set found \<and> loop T rest found = Some y) \<or>
       (tt_aliases T p = None \<and> p \<notin> set found \<and> loop T (rest @ succs T p) (found @ [p]) = Some y)"
      by (auto simp: succs_def Let_def split: option.splits if_splits)
    then show ?thesis
      unfolding snoc using 1(1) done_alias done_seen done_new by blast
  qed
qed

lemma done_protocols:
  assumes "all_protocols T name = Some ps"
  shows "distinct ps" "set ps = {p. conforms T name p}" "p \<in> reached T name \<Longrightarrow> \<not> cyclic (alias_edge T) p"
proof -
  let ?start = "listed (tt_conformances T) name"
  have d: "done_from T ?start [] ps"
    using assms protocol_loop_done by (simp add: all_protocols_def)
  then show "distinct ps" by (simp add: done_from_def)
  have "in_sight T {} ?start []" by (simp add: in_sight_def)
  with d obtain B where B: "in_sight T B [] ps" "set ?start \<subseteq> set ps \<union> B" "\<forall>b \<in> B. \<not> cyclic (alias_edge T) b"
    unfolding done_from_def by auto
  have closed: "proto_edge T `` (set ps \<union> B) \<subseteq> set ps \<union> B"
    using B(1) by (auto simp: in_sight_def proto_edge_def)
  have "reached T name \<subseteq> set ps \<union> B"
    unfolding reached_def using B(2) Image_closed_trancl [OF closed] by (metis Image_mono subset_refl)
  moreover have plain: "set ps \<subseteq> {p. conforms T name p}"
    using d by (auto simp: done_from_def conforms_def reached_def)
  moreover have "tt_aliases T b \<noteq> None" if "b \<in> B" for b
    using B(1) that by (auto simp: in_sight_def)
  ultimately show "set ps = {p. conforms T name p}"
    unfolding conforms_def by blast
  show "\<not> cyclic (alias_edge T) p" if "p \<in> reached T name"
  proof (cases "p \<in> B")
    case False
    with that \<open>reached T name \<subseteq> set ps \<union> B\<close> plain have "tt_aliases T p = None" by (auto simp: conforms_def)
    then show ?thesis by (rule not_cyclic_plain)
  qed (use B(3) in blast)
qed

text \<open>Without a cyclic alias the loop ends: a turn expands an alias, drops an element or finds a new one.\<close>

lemma finite_reached:
  assumes "finite (dom (tt_aliases T))" "finite (dom (tt_protocols T))" shows "finite (reached T name)"
proof -
  let ?D = "dom (tt_aliases T) \<union> dom (tt_protocols T)"
  have "proto_edge T \<subseteq> (\<Union>p \<in> ?D. {p} \<times> set (succs T p))"
    by (auto simp: proto_edge_def succs_def split: option.splits)
  then have "finite (proto_edge T)"
    by (rule finite_subset) (use assms in auto)
  then have "finite ((proto_edge T)\<^sup>+)" by simp
  then have "finite (set (listed (tt_conformances T) name) \<union> snd ` (proto_edge T)\<^sup>+)" by simp
  moreover have "reached T name \<subseteq> set (listed (tt_conformances T) name) \<union> snd ` (proto_edge T)\<^sup>+"
    by (force simp: reached_def rtrancl_eq_or_trancl)
  ultimately show ?thesis by (rule finite_subset [rotated])
qed

lemma wf_without_cycle:
  assumes "finite R" "\<And>a. a \<in> R \<Longrightarrow> \<not> cyclic r a" shows "wf ((r \<inter> R \<times> R)\<inverse>)"
proof (rule finite_acyclic_wf_converse)
  show "finite (r \<inter> R \<times> R)" using assms(1) by simp
  show "acyclic (r \<inter> R \<times> R)"
  proof (rule acyclicI, rule allI, rule notI)
    fix a assume a: "(a, a) \<in> (r \<inter> R \<times> R)\<^sup>+"
    then have "a \<in> R" by (auto dest: tranclD)
    moreover have "(a, a) \<in> r\<^sup>+" using a by (rule trancl_mono) blast
    ultimately show False using assms(2) by (simp add: cyclic_def)
  qed
qed

lemma protocol_loop_ends:
  assumes R: "finite R" "proto_edge T `` R \<subseteq> R" "\<And>a. a \<in> R \<Longrightarrow> \<not> cyclic (alias_edge T) a"
    and "set stack \<subseteq> R"
  shows "protocol_loop T stack found \<noteq> None"
proof -
  let ?less = "(alias_edge T \<inter> R \<times> R)\<inverse>"
  let ?turn = "inv_image (finite_psubset <*lex*> mult ?less) (\<lambda>(stack, found). (R - set found, mset stack))"
  have "wf ?turn"
    by (intro wf_inv_image wf_lex_prod wf_finite_psubset wf_mult wf_without_cycle R)
  then have "set (fst x) \<subseteq> R \<Longrightarrow> protocol_loop T (fst x) (snd x) \<noteq> None" for x
  proof (induction x rule: wf_induct_rule)
    case (less x)
    obtain stack found where x: "x = (stack, found)" by fastforce
    show ?case
    proof (cases stack rule: rev_cases)
      case Nil
      then show ?thesis by (simp add: x protocol_loop.simps)
    next
      case (snoc rest p)
      then have p: "p \<in> R" "set rest \<subseteq> R" and kids: "set (succs T p) \<subseteq> R"
        using less.prems R(2) by (auto simp: x proto_edge_def)
      have "((rest @ succs T p, found), x) \<in> ?turn" if "tt_aliases T p \<noteq> None"
      proof -
        have "(k, p) \<in> ?less" if "k \<in> set (succs T p)" for k
          using that p kids \<open>tt_aliases T p \<noteq> None\<close> by (auto simp: alias_edge_def succs_def)
        then have "(mset rest + mset (succs T p), mset rest + {#p#}) \<in> mult ?less"
          by (intro one_step_implies_mult) auto
        then show ?thesis by (simp add: x snoc)
      qed
      moreover have "((rest, found), x) \<in> ?turn"
        using one_step_implies_mult [of "{#p#}" "{#}" ?less "mset rest"] R(1) by (auto simp: x snoc finite_psubset_def)
      moreover have "((rest @ succs T p, found @ [p]), x) \<in> ?turn" if "p \<notin> set found"
        using that p R(1) by (auto simp: x snoc finite_psubset_def)
      moreover have "protocol_loop T stack' found' \<noteq> None" if "((stack', found'), x) \<in> ?turn" "set stack' \<subseteq> R" for stack' found'
        using less.IH [OF that(1)] that(2) by simp
      ultimately have "tt_aliases T p \<noteq> None \<Longrightarrow> protocol_loop T (rest @ succs T p) found \<noteq> None"
          "protocol_loop T rest found \<noteq> None" "p \<notin> set found \<Longrightarrow> protocol_loop T (rest @ succs T p) (found @ [p]) \<noteq> None"
        using p kids by (metis set_append Un_least)+
      then show ?thesis unfolding x snoc fst_conv snd_conv protocol_loop_turn by (metis (full_types))
    qed
  qed
  from this [of "(stack, found)"] assms(4) show ?thesis by simp
qed

text \<open>C7. The protocols of a type are the plain ones reachable from its declared conformances, through inheritance and
  compositions, each once; and the search returns exactly when no typealias that it reaches is made
  of itself, for a registry of finitely many names.\<close>

theorem all_protocols_decides:
  assumes "finite (dom (tt_aliases T))" "finite (dom (tt_protocols T))"
  shows "case all_protocols T name of
     Some ps \<Rightarrow> distinct ps \<and> set ps = {p. conforms T name p} \<and> (\<forall>p \<in> reached T name. \<not> cyclic (alias_edge T) p)
   | None \<Rightarrow> \<exists>p \<in> reached T name. cyclic (alias_edge T) p"
proof (cases "all_protocols T name")
  case None
  have "proto_edge T `` reached T name \<subseteq> reached T name"
    by (auto simp: reached_def intro: rtrancl_into_rtrancl)
  moreover have "set (listed (tt_conformances T) name) \<subseteq> reached T name"
    by (auto simp: reached_def)
  ultimately have "\<exists>p \<in> reached T name. cyclic (alias_edge T) p"
    using protocol_loop_ends [OF finite_reached [OF assms, of name]] None unfolding all_protocols_def by blast
  with None show ?thesis by simp
next
  case (Some ps)
  with done_protocols [OF Some] show ?thesis by simp
qed

text \<open>\<open>typealias A = A & P\<close> and a type that conforms to \<open>A\<close>: the search does not return.\<close>

definition self_alias :: "'f type_table" where
  "self_alias =
     record_conformance (scalars ''S'') [scalars ''A''] (add_protocol_alias (scalars ''A'') [scalars ''A'', scalars ''P''] no_types)"

theorem all_protocols_decides_witness: "all_protocols (self_alias :: 'f type_table) (scalars ''S'') = None"
proof -
  let ?T = "self_alias :: 'f type_table"
  have t: "tt_aliases ?T = [scalars ''A'' \<mapsto> [scalars ''A'', scalars ''P'']]" "tt_protocols ?T = Map.empty"
      "listed (tt_conformances ?T) (scalars ''S'') = [scalars ''A'']"
    by (simp_all add: self_alias_def no_types_def record_conformance_def add_protocol_alias_def listed_def)
  have "(scalars ''A'', scalars ''A'') \<in> alias_edge ?T" unfolding alias_edge_def t by simp
  then have "cyclic (alias_edge ?T) (scalars ''A'')" by (rule cyclic_loop)
  moreover have "scalars ''A'' \<in> reached ?T (scalars ''S'')" unfolding reached_def t by auto
  moreover have "finite (dom (tt_aliases ?T))" "finite (dom (tt_protocols ?T))" unfolding t by simp_all
  ultimately show ?thesis
    using all_protocols_decides [of ?T "scalars ''S''"] by (auto simp del: scalars_simps split: option.splits)
qed

section \<open>Classes\<close>

definition super_edge :: "'f type_table \<Rightarrow> (ustr \<times> ustr) set" where
  "super_edge T = {(c, d). \<exists>def. tt_classes T c = Some def \<and> cd_superclass def = Some d}"

text \<open>The chain as a relation, the class itself first.\<close>

inductive chain_of :: "'f type_table \<Rightarrow> ustr option \<Rightarrow> ustr list \<Rightarrow> bool" for T where
  root: "chain_of T None []"
| unknown: "tt_classes T c = None \<Longrightarrow> chain_of T (Some c) []"
| sub: "tt_classes T c = Some d \<Longrightarrow> chain_of T (cd_superclass d) cs \<Longrightarrow> chain_of T (Some c) (c # cs)"

inductive_cases chain_of_None: "chain_of T None cs"
inductive_cases chain_of_Some: "chain_of T (Some c) cs"
inductive_simps chain_of_simps: "chain_of T None cs" "chain_of T (Some c) cs"

lemma chain_loop_chain: "chain_loop T current chain = Some y \<Longrightarrow> \<exists>cs. y = chain @ cs \<and> chain_of T current cs"
proof (induction rule: chain_loop.raw_induct [rotated, consumes 1])
  case (1 loop T current chain y)
  then show ?case by (fastforce simp: chain_of_simps split: option.splits)
qed

lemma chain_loop_of: "chain_of T current cs \<Longrightarrow> chain_loop T current chain = Some (chain @ cs)"
  by (induction arbitrary: chain rule: chain_of.induct) (simp_all add: chain_loop.simps)

lemma class_chain_iff: "class_chain T c = Some chain \<longleftrightarrow> chain_of T (Some c) (rev chain)"
proof
  assume "class_chain T c = Some chain"
  then obtain y where "chain_loop T (Some c) [] = Some y" "chain = rev y" by (auto simp: class_chain_def)
  with chain_loop_chain show "chain_of T (Some c) (rev chain)" by force
next
  assume "chain_of T (Some c) (rev chain)"
  from chain_loop_of [OF this, of "[]"] show "class_chain T c = Some chain" by (simp add: class_chain_def)
qed

lemma chain_members:
  "chain_of T current cs \<Longrightarrow> current = Some c \<Longrightarrow>
   set cs = {d. is_class T d \<and> (c, d) \<in> (super_edge T)\<^sup>*}"
proof (induction arbitrary: c rule: chain_of.induct)
  case (unknown c')
  have "(c, d) \<notin> super_edge T" for d using unknown by (simp add: super_edge_def)
  then show ?case using unknown by (auto simp: is_class_def elim: converse_rtranclE)
next
  case (sub c' d cs)
  then have c: "tt_classes T c = Some d" by simp
  show ?case
  proof (cases "cd_superclass d")
    case None
    then have "(c, e) \<notin> super_edge T" for e using c by (simp add: super_edge_def)
    with None sub show ?thesis by (auto simp: is_class_def chain_of_simps elim: converse_rtranclE)
  next
    case (Some e)
    have edge: "(c, x) \<in> super_edge T \<longleftrightarrow> x = e" for x
      using c Some by (auto simp: super_edge_def)
    then have "(c, x) \<in> (super_edge T)\<^sup>* \<longleftrightarrow> x = c \<or> (e, x) \<in> (super_edge T)\<^sup>*" for x
      by (metis converse_rtranclE converse_rtrancl_into_rtrancl rtrancl.rtrancl_refl)
    with sub.IH [OF Some] sub.prems c show ?thesis by (auto simp: is_class_def)
  qed
qed simp

lemma chain_acyclic: "chain_of T current cs \<Longrightarrow> current = Some c \<Longrightarrow> (c, d) \<in> (super_edge T)\<^sup>* \<Longrightarrow> \<not> cyclic (super_edge T) d"
proof (induction arbitrary: c d rule: chain_of.induct)
  case (unknown c')
  then have "(c, x) \<notin> super_edge T" for x by (simp add: super_edge_def)
  moreover from this unknown have "d = c" by (auto elim: converse_rtranclE)
  ultimately show ?case using cyclic_next by metis
next
  case (sub c' def cs)
  then have c: "tt_classes T c = Some def" by simp
  have step: "cd_superclass def = Some x" if "(c, x) \<in> super_edge T" for x using that c by (simp add: super_edge_def)
  show ?case
  proof (cases "d = c")
    case True
    show ?thesis
    proof
      assume "cyclic (super_edge T) d"
      then obtain x where "(c, x) \<in> super_edge T" "cyclic (super_edge T) x" unfolding True using cyclic_next by metis
      then show False using sub.IH [OF step rtrancl.rtrancl_refl] by simp
    qed
  next
    case False
    with sub.prems(2) obtain x where "(c, x) \<in> super_edge T" "(x, d) \<in> (super_edge T)\<^sup>*" by (metis converse_rtranclE)
    then show ?thesis using sub.IH [OF step] by simp
  qed
qed simp

lemma chain_exists:
  assumes "finite R" "super_edge T `` R \<subseteq> R" "\<And>a. a \<in> R \<Longrightarrow> \<not> cyclic (super_edge T) a" "c \<in> R"
  shows "\<exists>cs. chain_of T (Some c) cs"
proof -
  have "wf ((super_edge T \<inter> R \<times> R)\<inverse>)" by (rule wf_without_cycle) (use assms in auto)
  then show ?thesis using assms(4)
  proof (induction c rule: wf_induct_rule)
    case (less c)
    show ?case
    proof (cases "tt_classes T c")
      case None
      then show ?thesis by (auto simp: chain_of_simps)
    next
      case (Some d)
      show ?thesis
      proof (cases "cd_superclass d")
        case None
        then show ?thesis using Some by (auto simp: chain_of_simps)
      next
        case (Some e)
        then have "(c, e) \<in> super_edge T" using \<open>tt_classes T c = Some d\<close> by (simp add: super_edge_def)
        with assms(2) less.prems have "e \<in> R" "(e, c) \<in> (super_edge T \<inter> R \<times> R)\<inverse>" by auto
        with less.IH obtain cs where "chain_of T (Some e) cs" by blast
        with Some \<open>tt_classes T c = Some d\<close> show ?thesis by (auto simp: chain_of_simps)
      qed
    qed
  qed
qed

text \<open>C8. A class is a subclass of another exactly when that is a declared class on its path of superclasses; and
  the question returns exactly when no class on the path inherits from itself, for a registry of
  finitely many classes.\<close>

theorem class_is_decides:
  assumes "finite (dom (tt_classes T))"
  shows "case class_is T sub super of
     Some b \<Rightarrow> b = (is_class T super \<and> (sub, super) \<in> (super_edge T)\<^sup>*) \<and> (\<forall>d. (sub, d) \<in> (super_edge T)\<^sup>* \<longrightarrow> \<not> cyclic (super_edge T) d)
   | None \<Rightarrow> \<exists>d. (sub, d) \<in> (super_edge T)\<^sup>* \<and> cyclic (super_edge T) d"
proof (cases "class_chain T sub")
  case None
  let ?R = "{d. (sub, d) \<in> (super_edge T)\<^sup>*}"
  have "super_edge T \<subseteq> (\<Union>c \<in> dom (tt_classes T). {c} \<times> set_option (cd_superclass (the (tt_classes T c))))"
    by (auto simp: super_edge_def)
  then have "finite (super_edge T)" by (rule finite_subset) (use assms in auto)
  then have "finite (insert sub (snd ` (super_edge T)\<^sup>+))" by simp
  moreover have "?R \<subseteq> insert sub (snd ` (super_edge T)\<^sup>+)" by (force simp: rtrancl_eq_or_trancl)
  ultimately have "finite ?R" by (rule finite_subset [rotated])
  moreover have "super_edge T `` ?R \<subseteq> ?R" by (auto intro: rtrancl_into_rtrancl)
  ultimately have "\<exists>d \<in> ?R. cyclic (super_edge T) d"
    using chain_exists [of ?R T sub] None class_chain_iff [of T sub] by (metis mem_Collect_eq option.distinct(1) rev_rev_ident rtrancl.rtrancl_refl)
  with None show ?thesis by (simp add: class_is_def)
next
  case (Some chain)
  then have "chain_of T (Some sub) (rev chain)" by (simp add: class_chain_iff)
  from chain_members [OF this refl] chain_acyclic [OF this refl] Some show ?thesis
    by (auto simp: class_is_def)
qed

text \<open>A class declared as its own superclass.\<close>

theorem class_is_decides_witness:
  "class_is (insert_class (scalars ''A'') (empty_class (Some (scalars ''A'')) []) (no_types :: 'f type_table)) (scalars ''A'') (scalars ''B'') = None"
  (is "class_is ?T _ _ = _")
proof -
  have t: "tt_classes ?T = [scalars ''A'' \<mapsto> empty_class (Some (scalars ''A'')) []]"
    by (simp add: insert_class_def no_types_def)
  then have "(scalars ''A'', scalars ''A'') \<in> super_edge ?T" unfolding super_edge_def t by (simp add: empty_class_def)
  then have "cyclic (super_edge ?T) (scalars ''A'')" by (rule cyclic_loop)
  moreover have "finite (dom (tt_classes ?T))" using t by simp
  ultimately show ?thesis
    using class_is_decides [of ?T "scalars ''A''" "scalars ''B''"] by (auto simp del: scalars_simps split: option.splits)
qed

section \<open>Members along the chain\<close>

lemma walk_chain_of:
  "chain_of T current cs \<Longrightarrow>
   walk_chain T f current = Some (first_some (\<lambda>c. f c (the (tt_classes T c))) cs)"
  by (induction rule: chain_of.induct) (simp_all add: walk_chain.simps split: option.split)

text \<open>A method is looked up in the classes of the chain from the most derived one to the root: the first class with
  an overload that the labels select, or with a method of that name, provides it.\<close>

theorem most_derived_method_wins:
  assumes "class_chain T name = Some chain"
  shows "lookup_method_for_call T ty name m args =
     Some (first_some (\<lambda>c. map_option (\<lambda>md. (md, c)) (class_method ty args m (the (tt_classes T c)))) (rev chain))"
  using walk_chain_of [of T "Some name" "rev chain"] assms unfolding class_chain_iff lookup_method_for_call_def by simp

definition two_classes :: "'f type_table" where
  "two_classes =
     insert_class (scalars ''B'') (empty_class (Some (scalars ''A'')) []) (insert_class (scalars ''A'') (empty_class None []) no_types)"

theorem most_derived_method_wins_witness:
  "lookup_method_for_call (two_classes :: 'f type_table) (\<lambda>v :: nat. []) (scalars ''B'') (scalars ''f'') [] =
     Some (first_some (\<lambda>c. map_option (\<lambda>md. (md, c)) (class_method (\<lambda>v :: nat. []) [] (scalars ''f'') (the (tt_classes (two_classes :: 'f type_table) c))))
       (rev [scalars ''A'', scalars ''B'']))"
  by (rule most_derived_method_wins)
    (simp add: class_chain_iff chain_of_simps two_classes_def insert_class_def no_types_def empty_class_def)

end
