(* ===== verification/Nominal_Correct.thy ===== *)
theory Nominal_Correct
  imports Nominal Types_Correct Control_Correct
begin

text \<open>
  What hoisting leaves as it was: the declarations in the registry, and the scopes, the deferred
  blocks and the soundness of the functions, which is the law that \<open>Control_Correct\<close> states for the
  hoisting it takes as a parameter. The walk over the declarations is done once, in a locale whose
  relation on states both properties instantiate.
\<close>

section \<open>Growth of a registry\<close>

text \<open>
  A type declared stays declared as it was, but for members that extensions add. Of an enum only
  that it stays known is said: the raw values are evaluated before it is entered, and an evaluation
  can enter an enum of that name first.
\<close>

definition keeps_structs :: "'f type_table \<Rightarrow> 'f type_table \<Rightarrow> bool" where
  "keeps_structs T T' \<longleftrightarrow>
     (\<forall>n d. tt_structs T n = Some d \<longrightarrow>
        (\<exists>ms cs. tt_structs T' n = Some (d\<lparr>st_methods := st_methods d ++ ms, st_computed := st_computed d ++ cs\<rparr>)))"

definition keeps_classes :: "'f type_table \<Rightarrow> 'f type_table \<Rightarrow> bool" where
  "keeps_classes T T' \<longleftrightarrow>
     (\<forall>n d. tt_classes T n = Some d \<longrightarrow>
        (\<exists>ms cs. tt_classes T' n = Some (d\<lparr>cd_methods := cd_methods d ++ ms, cd_computed := cd_computed d ++ cs\<rparr>)))"

definition keeps_protocols :: "'f type_table \<Rightarrow> 'f type_table \<Rightarrow> bool" where
  "keeps_protocols T T' \<longleftrightarrow>
     (\<forall>n d. tt_protocols T n = Some d \<longrightarrow>
        (\<exists>ms cs om op. tt_protocols T' n = Some
           (d\<lparr>pd_methods := pd_methods d ++ ms, pd_computed := pd_computed d ++ cs,
              pd_optional_methods := pd_optional_methods d @ om, pd_optional_properties := pd_optional_properties d @ op\<rparr>)))"

definition keeps_conformances :: "'f type_table \<Rightarrow> 'f type_table \<Rightarrow> bool" where
  "keeps_conformances T T' \<longleftrightarrow>
     (\<forall>n. \<exists>ps. listed (tt_conformances T') n = listed (tt_conformances T) n @ ps)"

definition extends :: "'f type_table \<Rightarrow> 'f type_table \<Rightarrow> bool" where
  "extends T T' \<longleftrightarrow>
     keeps_structs T T' \<and> keeps_classes T T' \<and> keeps_protocols T T' \<and> keeps_conformances T T' \<and>
     dom (tt_enums T) \<subseteq> dom (tt_enums T') \<and> dom (tt_aliases T) \<subseteq> dom (tt_aliases T')"

lemmas keeps = keeps_structs_def keeps_classes_def keeps_protocols_def keeps_conformances_def

lemma no_more_members:
  "d\<lparr>st_methods := st_methods d ++ Map.empty, st_computed := st_computed d ++ Map.empty\<rparr> = d"
  "c\<lparr>cd_methods := cd_methods c ++ Map.empty, cd_computed := cd_computed c ++ Map.empty\<rparr> = c"
  "p\<lparr>pd_methods := pd_methods p ++ Map.empty, pd_computed := pd_computed p ++ Map.empty,
     pd_optional_methods := pd_optional_methods p @ [], pd_optional_properties := pd_optional_properties p @ []\<rparr> = p"
  by simp_all

lemma keeps_refl:
  "tt_structs T' = tt_structs T \<Longrightarrow> keeps_structs T T'" "tt_classes T' = tt_classes T \<Longrightarrow> keeps_classes T T'"
  "tt_protocols T' = tt_protocols T \<Longrightarrow> keeps_protocols T T'"
  "tt_conformances T' = tt_conformances T \<Longrightarrow> keeps_conformances T T'"
  unfolding keeps by (metis no_more_members append_Nil2)+

lemma extends_refl: "extends T T"
  by (simp add: extends_def keeps_refl)

lemma keeps_trans:
  "keeps_structs T T' \<Longrightarrow> keeps_structs T' T'' \<Longrightarrow> keeps_structs T T''"
  "keeps_classes T T' \<Longrightarrow> keeps_classes T' T'' \<Longrightarrow> keeps_classes T T''"
  "keeps_protocols T T' \<Longrightarrow> keeps_protocols T' T'' \<Longrightarrow> keeps_protocols T T''"
  "keeps_conformances T T' \<Longrightarrow> keeps_conformances T' T'' \<Longrightarrow> keeps_conformances T T''"
proof -
  show "keeps_structs T T' \<Longrightarrow> keeps_structs T' T'' \<Longrightarrow> keeps_structs T T''"
    unfolding keeps_structs_def by (fastforce simp flip: map_add_assoc)
  show "keeps_classes T T' \<Longrightarrow> keeps_classes T' T'' \<Longrightarrow> keeps_classes T T''"
    unfolding keeps_classes_def by (fastforce simp flip: map_add_assoc)
  show "keeps_protocols T T' \<Longrightarrow> keeps_protocols T' T'' \<Longrightarrow> keeps_protocols T T''"
    unfolding keeps_protocols_def by (fastforce simp flip: map_add_assoc)
  show "keeps_conformances T T' \<Longrightarrow> keeps_conformances T' T'' \<Longrightarrow> keeps_conformances T T''"
    unfolding keeps_conformances_def by (metis append_assoc)
qed

lemma extends_trans: "extends T T' \<Longrightarrow> extends T' T'' \<Longrightarrow> extends T T''"
  unfolding extends_def by (blast intro: keeps_trans)

lemma extends_entered:
  "tt_structs T name = None \<Longrightarrow> extends T (insert_struct name sd T)"
  "tt_classes T name = None \<Longrightarrow> extends T (insert_class name cd T)"
  "extends T (insert_enum name ed T)"
  "extends T (add_protocol_alias name cs T)"
proof -
  show "tt_structs T name = None \<Longrightarrow> extends T (insert_struct name sd T)"
    using keeps_refl(1) [OF refl, of T] by (auto simp: extends_def insert_struct_def keeps_refl keeps_structs_def)
  show "tt_classes T name = None \<Longrightarrow> extends T (insert_class name cd T)"
    using keeps_refl(2) [OF refl, of T] by (auto simp: extends_def insert_class_def keeps_refl keeps_classes_def)
  show "extends T (insert_enum name ed T)" "extends T (add_protocol_alias name cs T)"
    by (auto simp: extends_def insert_enum_def add_protocol_alias_def keeps_refl)
qed

lemma extends_conformance: "extends T (record_conformance name ps T)"
  by (auto simp: extends_def record_conformance_def keeps_refl keeps_conformances_def listed_def)

lemma extends_protocol: "extends T (add_optionals name ms ps (ensure_protocol name inherited T))"
proof (rule extends_trans)
  show "extends T (ensure_protocol name inherited T)"
    using keeps_refl(3) [OF refl, of T]
    by (auto simp: extends_def ensure_protocol_def is_protocol_def keeps_refl keeps_protocols_def)
  show "extends U (add_optionals name ms ps U)" for U :: "'a type_table"
  proof (cases "tt_protocols U name")
    case (Some d)
    have "keeps_protocols U (add_optionals name ms ps U)"
      unfolding keeps_protocols_def
    proof (intro allI impI)
      fix n e assume e: "tt_protocols U n = Some e"
      show "\<exists>m c om op. tt_protocols (add_optionals name ms ps U) n = Some
          (e\<lparr>pd_methods := pd_methods e ++ m, pd_computed := pd_computed e ++ c,
             pd_optional_methods := pd_optional_methods e @ om, pd_optional_properties := pd_optional_properties e @ op\<rparr>)"
      proof (cases "n = name")
        case True
        with e Some show ?thesis
          by (intro exI [of _ Map.empty] exI [of _ ms] exI [of _ ps]) (simp add: add_optionals_def)
      next
        case False
        with e Some show ?thesis
          by (intro exI [of _ Map.empty] exI [of _ "[]"]) (simp add: add_optionals_def)
      qed
    qed
    with Some show ?thesis by (simp add: extends_def add_optionals_def keeps_refl)
  qed (simp add: add_optionals_def extends_refl)
qed

text \<open>Where a declaration is replaced by one with more members, all others are kept.\<close>

lemma extends_structs:
  assumes "tt_structs T name = Some d"
  shows "extends T (T\<lparr>tt_structs := (tt_structs T)(name \<mapsto>
    d\<lparr>st_methods := st_methods d ++ ms, st_computed := st_computed d ++ cs\<rparr>)\<rparr>)" (is "extends T ?T")
proof -
  have "keeps_structs T ?T"
    unfolding keeps_structs_def
  proof (intro allI impI)
    fix n e assume e: "tt_structs T n = Some e"
    show "\<exists>m c. tt_structs ?T n = Some (e\<lparr>st_methods := st_methods e ++ m, st_computed := st_computed e ++ c\<rparr>)"
    proof (cases "n = name")
      case True
      with e assms show ?thesis by (intro exI [of _ ms] exI [of _ cs]) simp
    next
      case False
      with e show ?thesis by (intro exI [of _ Map.empty]) simp
    qed
  qed
  then show ?thesis by (simp add: extends_def keeps_refl)
qed

lemma extends_classes:
  assumes "tt_classes T name = Some d"
  shows "extends T (T\<lparr>tt_classes := (tt_classes T)(name \<mapsto>
    d\<lparr>cd_methods := cd_methods d ++ ms, cd_computed := cd_computed d ++ cs\<rparr>)\<rparr>)" (is "extends T ?T")
proof -
  have "keeps_classes T ?T"
    unfolding keeps_classes_def
  proof (intro allI impI)
    fix n e assume e: "tt_classes T n = Some e"
    show "\<exists>m c. tt_classes ?T n = Some (e\<lparr>cd_methods := cd_methods e ++ m, cd_computed := cd_computed e ++ c\<rparr>)"
    proof (cases "n = name")
      case True
      with e assms show ?thesis by (intro exI [of _ ms] exI [of _ cs]) simp
    next
      case False
      with e show ?thesis by (intro exI [of _ Map.empty]) simp
    qed
  qed
  then show ?thesis by (simp add: extends_def keeps_refl)
qed

lemma extends_protocols:
  assumes "tt_protocols T name = Some d"
  shows "extends T (T\<lparr>tt_protocols := (tt_protocols T)(name \<mapsto>
    d\<lparr>pd_methods := pd_methods d ++ ms, pd_computed := pd_computed d ++ cs\<rparr>)\<rparr>)" (is "extends T ?T")
proof -
  have "keeps_protocols T ?T"
    unfolding keeps_protocols_def
  proof (intro allI impI)
    fix n e assume e: "tt_protocols T n = Some e"
    show "\<exists>m c om op. tt_protocols ?T n = Some
        (e\<lparr>pd_methods := pd_methods e ++ m, pd_computed := pd_computed e ++ c,
           pd_optional_methods := pd_optional_methods e @ om, pd_optional_properties := pd_optional_properties e @ op\<rparr>)"
    proof (cases "n = name")
      case True
      with e assms show ?thesis
        by (intro exI [of _ ms] exI [of _ cs] exI [of _ "[]"]) simp
    next
      case False
      with e show ?thesis by (intro exI [of _ Map.empty] exI [of _ "[]"]) simp
    qed
  qed
  then show ?thesis by (simp add: extends_def keeps_refl)
qed

lemma extends_extension: "extends T (extend_type target ms T)"
proof -
  have "extends T (add_builtin_ext target m c T)" for m c
    by (simp add: extends_def add_builtin_ext_def keeps_refl)
  moreover have "extends T (T\<lparr>tt_enums := (tt_enums T)(target \<mapsto> e)\<rparr>)" for e
    by (auto simp: extends_def keeps_refl)
  ultimately show ?thesis
    using extends_structs [where T = T and name = target and ms = "fst ms" and cs = "snd ms"] extends_classes [where T = T and name = target and ms = "fst ms" and cs = "snd ms"]
      extends_protocols [where T = T and name = target and ms = "fst ms" and cs = "snd ms"]
    by (simp add: extend_type_def split: option.split)
qed

section \<open>The walk over the declarations\<close>

text \<open>A step ends in a related state, without a signal.\<close>

definition follows ::
  "(('f, 'x) interp \<Rightarrow> ('f, 'x) interp \<Rightarrow> bool) \<Rightarrow> ('f, 'x, 'a) act \<Rightarrow> bool" where
  "follows R m \<longleftrightarrow> (\<forall>s s' r. m s = Ends s' r \<longrightarrow> R s s' \<and> \<not> isl r)"

text \<open>An evaluator of the sound trees does, but for its signals.\<close>

definition evaluates_along ::
  "(('f, 'x) interp \<Rightarrow> ('f, 'x) interp \<Rightarrow> bool) \<Rightarrow> (tree \<Rightarrow> bool) \<Rightarrow> ('f, 'x) evaluator \<Rightarrow> bool" where
  "evaluates_along R sound ev \<longleftrightarrow> (\<forall>t s s' r. sound t \<longrightarrow> ev t s = Ends s' r \<longrightarrow> R s s')"

definition plain_kind :: "node_kind \<Rightarrow> bool" where
  "plain_kind k \<longleftrightarrow> k \<notin> set jump_kinds"

lemma foldl_collects:
  "(\<And>acc m. m \<in> set ms \<Longrightarrow> S (step acc m) \<subseteq> S acc \<union> X) \<Longrightarrow> S (foldl step acc ms) \<subseteq> S acc \<union> X"
proof (induction ms arbitrary: acc)
  case (Cons m ms)
  then have "S (foldl step (step acc m) ms) \<subseteq> S (step acc m) \<union> X" "S (step acc m) \<subseteq> S acc \<union> X" by simp_all
  then show ?case by auto
qed simp

locale registry_steps =
  fixes R :: "('f, ('f, 'y) registry_scheme) interp \<Rightarrow> ('f, ('f, 'y) registry_scheme) interp \<Rightarrow> bool"
    and sound :: "tree \<Rightarrow> bool"
  assumes R_refl: "R s s"
    and R_trans: "R s s' \<Longrightarrow> R s' s'' \<Longrightarrow> R s s''"
    and R_types: "extends (r_types (i_rest s)) T \<Longrightarrow> R s (s\<lparr>i_rest := (i_rest s)\<lparr>r_types := T\<rparr>\<rparr>)"
    and R_statics: "R s (s\<lparr>i_rest := (i_rest s)\<lparr>r_statics := m\<rparr>\<rparr>)"
    and R_main: "R s (s\<lparr>i_rest := (i_rest s)\<lparr>r_main := main\<rparr>\<rparr>)"
    and R_imports: "R s (s\<lparr>i_rest := (i_rest s)\<lparr>r_imports := ns\<rparr>\<rparr>)"
    and R_funcs: "sound t \<Longrightarrow> t_kind t = FuncDecl \<Longrightarrow>
        R s (s\<lparr>i_rest := (i_rest s)\<lparr>r_funcs := r_funcs (i_rest s) @ [func_of alnum e t]\<rparr>\<rparr>)"
    and R_store: "R s (s\<lparr>i_store := st\<rparr>)"
    and parts: "sound t \<Longrightarrow> x \<in> set (t_children t) \<Longrightarrow> plain_kind (t_kind t) \<Longrightarrow> sound x"
begin

lemma f_ret: "follows R (ret x)"
  by (simp add: follows_def ret_def R_refl)

lemma f_bind:
  assumes "follows R m" "\<And>x. follows R (k x)" shows "follows R (bind m k)"
  unfolding follows_def
proof (intro allI impI)
  fix s s' r assume "bind m k s = Ends s' r"
  then show "R s s' \<and> \<not> isl r"
  proof (cases rule: bind_ends)
    case (signal e)
    then show ?thesis using assms(1) unfolding follows_def by (metis sum.disc(1))
  next
    case (proceeds s1 x)
    with assms(1) have "R s s1" by (auto simp: follows_def)
    moreover have "R s1 s' \<and> \<not> isl r" using assms(2) proceeds(2) by (auto simp: follows_def)
    ultimately show ?thesis using R_trans by blast
  qed
qed

lemma f_reading: "(\<And>s. follows R (f s)) \<Longrightarrow> follows R (reading f)"
  by (simp add: follows_def reading_def)

lemma f_if: "(b \<Longrightarrow> follows R m) \<Longrightarrow> (\<not> b \<Longrightarrow> follows R m') \<Longrightarrow> follows R (if b then m else m')"
  by simp

lemma f_each: "(\<And>x. x \<in> set xs \<Longrightarrow> follows R (f x)) \<Longrightarrow> follows R (each f xs)"
  by (induction xs) (auto intro: f_ret f_bind)

lemma f_named: "(\<And>n. follows R (f n)) \<Longrightarrow> follows R (named x f)"
  by (cases x) (simp_all add: named_def f_ret)

lemma f_types: "(\<And>T. extends T (f T)) \<Longrightarrow> follows R (on_types f)"
  by (simp add: follows_def on_types_def on_registry_def R_types)

lemma f_declare: "follows R (declare_var name v mutable)"
  by (auto simp: follows_def declare_var_def R_store split: option.splits)

lemmas f = f_ret f_bind f_reading f_if f_each f_named f_types f_declare

text \<open>An entry for a name that is free when it is made.\<close>

lemma f_entered:
  assumes "\<And>s s' r. m s = Ends s' r \<Longrightarrow> free (r_types (i_rest s)) \<Longrightarrow> R s s' \<and> \<not> isl r"
  shows "follows R (unless_known (\<lambda>T. \<not> free T) m)"
  using assms by (auto simp: follows_def unless_known_def reading_def ret_def R_refl)

lemma f_eval_ok: "evaluates_along R sound ev \<Longrightarrow> sound t \<Longrightarrow> follows R (eval_ok ev t)"
  by (auto simp: follows_def evaluates_along_def eval_ok_def attempt_def bind_def ret_def split: run.splits sum.splits)

lemma branch_sound: "sound t \<Longrightarrow> x \<in> set (push_active_branch t) \<Longrightarrow> sound x"
proof (induction t rule: push_active_branch.induct)
  case (1 k r line col ty ms l cs)
  show ?case
  proof (cases "k = CompilerDirective \<and> map_option (dropWhile (\<lambda>c. c = 35)) r = Some (scalars ''if'')")
    case True
    with 1(3) obtain y where y: "y \<in> set cs" "x \<in> set (push_active_branch y)" by auto
    moreover have "sound y"
      using parts [OF 1(2), of y] y(1) True by (simp add: plain_kind_def jump_kinds_def)
    ultimately show ?thesis using 1(1) True by blast
  next
    case False
    then have "push_active_branch (Tree k r line col ty ms l cs) = [Tree k r line col ty ms l cs]"
      by (simp only: push_active_branch.simps if_False)
    with 1(2,3) show ?thesis by simp
  qed
qed

lemma directive_sound: "sound t \<Longrightarrow> plain_kind (t_kind t) \<Longrightarrow> x \<in> set (expand_directives t) \<Longrightarrow> sound x"
  by (auto simp: expand_directives_def dest: parts branch_sound)

lemma default_sound: "sound t \<Longrightarrow> plain_kind (t_kind t) \<Longrightarrow> find is_value_node (t_children t) = Some e \<Longrightarrow> sound e"
  by (rule parts) (auto simp: find_Some_iff)

lemma f_static_inits:
  assumes "evaluates_along R sound ev" "\<And>p e. (p, e) \<in> set inits \<Longrightarrow> sound e"
  shows "follows R (static_inits ev name inits)"
proof -
  have "follows R (set_static key v)" for key v
    by (simp add: follows_def set_static_def on_registry_def R_statics)
  then show ?thesis
    unfolding static_inits_def using assms by (fastforce intro!: f f_eval_ok split: option.split)
qed

lemma f_record: "follows R (record_conformances name t)"
  unfolding record_conformances_def by (rule f_types) (rule extends_conformance)

lemma f_explicit:
  assumes "evaluates_along R sound ev" "sound m" "plain_kind (t_kind m)" shows "follows R (explicit_raw ev m)"
  using f_eval_ok [OF assms(1) default_sound [OF assms(2,3)]] by (simp add: explicit_raw_def f_ret split: option.split)

lemma f_enum_cases:
  assumes "evaluates_along R sound ev"
  shows "(\<And>m. m \<in> set ms \<Longrightarrow> sound m) \<Longrightarrow> follows R (enum_cases ev kind ms next_int)"
proof (induction ms arbitrary: next_int)
  case (Cons m ms)
  then have ih: "follows R (enum_cases ev kind ms n)" for n by simp
  show ?case
  proof (cases "t_kind m = EnumCaseDecl")
    case True
    then have "follows R (explicit_raw ev m)"
      using f_explicit [OF assms, of m] Cons.prems by (simp add: plain_kind_def jump_kinds_def)
    then show ?thesis
      using True by (auto simp: ih split: option.split prod.split intro!: f_bind f_ret ih)
  qed (simp add: ih)
qed (simp add: f_ret)

lemma f_enum:
  assumes "evaluates_along R sound ev" "sound t" "plain_kind (t_kind t)" shows "follows R (register_enum ev t)"
proof -
  have "follows R (enum_cases ev (raw_kind_of t) (expand_directives t) 0)"
    by (rule f_enum_cases [OF assms(1)]) (rule directive_sound [OF assms(2,3)])
  then show ?thesis
    unfolding register_enum_def unless_known_def by (intro f f_record extends_entered(3))
qed

text \<open>A class or struct is entered right after the test that it is unknown.\<close>

lemma entered_class:
  assumes "bind (record_conformances name t) (\<lambda>_. bind (on_types (insert_class name d)) k) s = Ends s' r"
    "\<not> is_class (r_types (i_rest s)) name" "\<And>x. follows R (k x)"
  shows "R s s' \<and> \<not> isl r"
proof -
  define s1 where "s1 = s\<lparr>i_rest := (i_rest s)\<lparr>r_types := insert_class name d (record_conformance name (type_refs t) (r_types (i_rest s)))\<rparr>\<rparr>"
  have "extends (r_types (i_rest s)) (insert_class name d (record_conformance name (type_refs t) (r_types (i_rest s))))"
    by (rule extends_trans [OF extends_conformance extends_entered(2)])
      (use assms(2) in \<open>simp add: is_class_def record_conformance_def\<close>)
  then have "R s s1" unfolding s1_def by (rule R_types)
  moreover have "k () s1 = Ends s' r"
    using assms(1) by (simp add: record_conformances_def on_types_def on_registry_def bind_def s1_def)
  then have "R s1 s' \<and> \<not> isl r" using assms(3) by (auto simp: follows_def)
  ultimately show ?thesis using R_trans by blast
qed

lemma entered_struct:
  assumes "bind (record_conformances name t) (\<lambda>_. bind (mark_main name t) (\<lambda>_.
      bind (on_types (insert_struct name d)) k)) s = Ends s' r"
    "\<not> is_struct (r_types (i_rest s)) name" "\<And>x. follows R (k x)"
  shows "R s s' \<and> \<not> isl r"
proof -
  let ?T = "record_conformance name (type_refs t) (r_types (i_rest s))"
  define s1 where "s1 = s\<lparr>i_rest := (i_rest s)\<lparr>r_types := ?T\<rparr>\<rparr>"
  define s2 where "s2 = (if scalars ''main'' \<in> set (attributes_of t) then s1\<lparr>i_rest := (i_rest s1)\<lparr>r_main := Some name\<rparr>\<rparr> else s1)"
  define s3 where "s3 = s2\<lparr>i_rest := (i_rest s2)\<lparr>r_types := insert_struct name d (r_types (i_rest s2))\<rparr>\<rparr>"
  have "R s s1" unfolding s1_def by (rule R_types) (rule extends_conformance)
  moreover have "R s1 s2" by (simp add: s2_def R_refl R_main)
  moreover have "R s2 s3" unfolding s3_def
    by (rule R_types, rule extends_entered(1))
      (use assms(2) in \<open>auto simp: s2_def s1_def is_struct_def record_conformance_def\<close>)
  moreover have "k () s3 = Ends s' r"
    using assms(1) by (simp add: record_conformances_def on_types_def on_registry_def bind_def mark_main_def ret_def
        s1_def s2_def s3_def split: if_splits)
  then have "R s3 s' \<and> \<not> isl r" using assms(3) by (auto simp: follows_def)
  ultimately show ?thesis using R_trans by blast
qed

text \<open>The initializers that a declaration defers are children of its members.\<close>

lemma initial_sound:
  assumes "m \<in> set ms" "\<And>m. m \<in> set ms \<Longrightarrow> sound m"
  shows "set (snd (class_member acc m)) \<subseteq> set (snd acc) \<union> {(p, e). sound e}"
    and "set (snd (struct_member acc' m)) \<subseteq> set (snd acc') \<union> {(p, e). sound e}"
proof -
  have initial: "find is_value_node (t_children m) = Some e \<Longrightarrow> t_kind m \<in> {VarDecl, LetDecl} \<Longrightarrow> sound e" for e
    using default_sound [of m e] assms by (auto simp: plain_kind_def jump_kinds_def)
  then show "set (snd (class_member acc m)) \<subseteq> set (snd acc) \<union> {(p, e). sound e}"
    by (auto simp: class_member_def class_field_def Let_def split: option.splits if_splits prod.splits)
  show "set (snd (struct_member acc' m)) \<subseteq> set (snd acc') \<union> {(p, e). sound e}"
    using initial by (auto simp: struct_member_def struct_field_def Let_def split: option.splits if_splits prod.splits)
qed

lemma member_inits:
  assumes "sound t" "plain_kind (t_kind t)"
  shows "(p, e) \<in> set (snd (class_decl t)) \<Longrightarrow> sound e" "(p, e) \<in> set (snd (struct_decl t)) \<Longrightarrow> sound e"
proof -
  note ms = directive_sound [OF assms]
  have "set (snd (class_decl t)) \<subseteq> set (snd (empty_class (field_type_name t) (attributes_of t), [] :: (ustr \<times> tree) list)) \<union> {(p, e). sound e}"
    unfolding class_decl_def by (rule foldl_collects [where S = "\<lambda>acc. set (snd acc)"]) (rule initial_sound(1) [OF _ ms])
  then show "(p, e) \<in> set (snd (class_decl t)) \<Longrightarrow> sound e" by auto
  have "set (snd (struct_decl t)) \<subseteq> set (snd (empty_struct t, [] :: (ustr \<times> tree) list)) \<union> {(p, e). sound e}"
    unfolding struct_decl_def by (rule foldl_collects [where S = "\<lambda>acc. set (snd acc)"]) (rule initial_sound(2) [OF _ ms])
  then show "(p, e) \<in> set (snd (struct_decl t)) \<Longrightarrow> sound e" by auto
qed

lemma f_class:
  assumes ev: "evaluates_along R sound ev" and t: "sound t" "plain_kind (t_kind t)"
  shows "follows R (register_class ev t)"
proof -
  have inits: "follows R (static_inits ev name (snd (class_decl t)))" for name
    by (rule f_static_inits [OF ev member_inits(1) [OF t]])
  have "follows R (unless_known (\<lambda>T. \<not> (\<not> is_class T name))
       (bind (record_conformances name t) (\<lambda>_. bind (on_types (insert_class name (fst (class_decl t)))) (\<lambda>_.
          static_inits ev name (snd (class_decl t))))))" for name
    by (rule f_entered) (rule entered_class, assumption, simp, rule inits)
  then show ?thesis unfolding register_class_def by (intro f_named) simp
qed

lemma f_struct:
  assumes ev: "evaluates_along R sound ev" and t: "sound t" "plain_kind (t_kind t)"
  shows "follows R (register_struct ev t)"
proof -
  have inits: "follows R (static_inits ev name (snd (struct_decl t)))" for name
    by (rule f_static_inits [OF ev member_inits(2) [OF t]])
  have "follows R (unless_known (\<lambda>T. \<not> (\<not> is_struct T name))
       (bind (record_conformances name t) (\<lambda>_. bind (mark_main name t) (\<lambda>_.
        bind (on_types (insert_struct name (fst (struct_decl t)))) (\<lambda>_. static_inits ev name (snd (struct_decl t)))))))" for name
    by (rule f_entered) (rule entered_struct, assumption, simp, rule inits)
  then show ?thesis unfolding register_struct_def by (intro f_named) simp
qed

lemma f_type:
  assumes "evaluates_along R sound ev" "sound t" "t_kind t \<in> set type_kinds"
  shows "follows R (register_type ev t)"
proof -
  have "plain_kind (t_kind t)" using assms(3) by (auto simp: type_kinds_def plain_kind_def jump_kinds_def)
  then show ?thesis
    using f_struct [OF assms(1,2)] f_enum [OF assms(1,2)] f_class [OF assms(1,2)] by (simp add: register_type_def)
qed

lemma f_nested:
  assumes ev: "evaluates_along R sound ev"
  shows "sound t \<Longrightarrow> plain_kind (t_kind t) \<Longrightarrow> follows R (register_nested_types ev t)"
    and "(\<And>m. m \<in> set ms \<Longrightarrow> sound m) \<Longrightarrow> follows R (register_members ev ms)"
  using ev
proof (induction ev t and ev ms rule: register_nested_types_register_members.induct)
  case (1 ev t)
  then show ?case using directive_sound [OF 1(2,3)] by (simp add: register_nested_types.simps)
next
  case (3 ev m ms)
  have "follows R (if t_kind m \<in> set type_kinds then bind (register_type ev m) (\<lambda>_. register_nested_types ev m) else ret ())"
  proof (rule f_if)
    assume k: "t_kind m \<in> set type_kinds"
    then have "plain_kind (t_kind m)" by (auto simp: type_kinds_def plain_kind_def jump_kinds_def)
    then show "follows R (bind (register_type ev m) (\<lambda>_. register_nested_types ev m))"
      using 3 k by (intro f_bind f_type) auto
  qed (rule f_ret)
  moreover have "follows R (register_members ev ms)" using 3 by simp
  ultimately show ?case by (simp add: register_nested_types.simps f_bind)
qed (simp add: register_nested_types.simps f_ret)

lemma f_declare_func:
  assumes "sound t" "t_kind t = FuncDecl" shows "follows R (declare_func alnum t)"
proof -
  have "follows R (on_registry (\<lambda>r. r\<lparr>r_funcs := r_funcs r @ [func_of alnum e t]\<rparr>))" for e
    by (simp add: follows_def on_registry_def R_funcs [OF assms])
  then show ?thesis
    unfolding declare_func_def by (auto intro!: f_named f_reading f_ret f_bind f_declare split: option.split swift_value.split)
qed

lemma f_hoist_decl:
  assumes ev: "evaluates_along R sound ev" and "sound t" shows "follows R (hoist_decl alnum ev t)"
proof -
  have types: "follows R (bind (register_type ev t) (\<lambda>_. register_nested_types ev t))" if "t_kind t \<in> set type_kinds"
    using that assms f_nested(1) [OF ev, of t]
    by (intro f_bind f_type [OF ev]) (auto simp: type_kinds_def plain_kind_def jump_kinds_def)
  have "follows R (register_protocol t)"
    unfolding register_protocol_def by (intro f_named f_types) (simp add: extends_protocol)
  moreover have "follows R (register_typealias t)"
    unfolding register_typealias_def by (intro f_named f_if f_types f_ret extends_entered(4))
  moreover have "follows R (mark_module_imported path)" for path
    by (simp add: mark_module_imported_def Let_def f_ret) (simp add: follows_def on_registry_def R_imports)
  ultimately show ?thesis
    unfolding hoist_decl_def using types f_declare_func [OF assms(2)] by (auto intro: f_ret f_named)
qed

lemma f_hoist:
  assumes "evaluates_along R sound ev" "sound t" "plain_kind (t_kind t)"
  shows "follows R (hoist alnum ev t)"
proof -
  have "follows R (register_extension c)" for c
    unfolding register_extension_def by (intro f_named f_bind f_record f_types extends_extension)
  then show ?thesis
    unfolding hoist_def by (intro f_bind f_each f_hoist_decl assms(1) directive_sound [OF assms(2,3)])
qed

end

section \<open>What hoisting keeps\<close>

interpretation growing: registry_steps "\<lambda>s s'. extends (r_types (i_rest s)) (r_types (i_rest s'))" "\<lambda>_. True"
  by unfold_locales (auto intro: extends_refl extends_trans)

text \<open>The functions that wait to be called let no jump out.\<close>

definition func_sound :: "func_def \<Rightarrow> bool" where
  "func_sound d \<longleftrightarrow>
     (\<forall>b. fd_body d = Some b \<longrightarrow> sound_tree no_jumps b) \<and>
     (\<forall>p \<in> set (fd_params d). \<forall>e. p_default p = Some e \<longrightarrow> sound_tree no_jumps e)"

definition funcs_sound :: "('f, 'y) registry_scheme \<Rightarrow> bool" where
  "funcs_sound r \<longleftrightarrow> (\<forall>d \<in> set (r_funcs r). func_sound d)"

lemma func_of_sound:
  assumes "sound_tree c t" "t_kind t = FuncDecl" shows "func_sound (func_of alnum e t)"
proof -
  have kids: "sound_tree no_jumps x" if "x \<in> set (t_children t)" for x
    using sound_part [OF assms(1) that] assms(2) by (simp add: jump_kinds_def child_jumps_def function_kinds_def)
  moreover have "sound_tree no_jumps e" if "x \<in> set (t_children t)" "t_kind x = Param" "e \<in> set (t_children x)" for x e
    using sound_plain [OF kids [OF that(1)] that(3)] that(2) by (simp add: jump_kinds_def function_kinds_def)
  ultimately show ?thesis
    by (auto simp: func_sound_def func_of_def find_child_def find_Some_iff parse_params_def parse_param_def)
qed

definition scopes_kept ::
  "('f, ('f, 'y) registry_scheme) interp \<Rightarrow> ('f, ('f, 'y) registry_scheme) interp \<Rightarrow> bool" where
  "scopes_kept s s' \<longleftrightarrow>
     (fit funcs_sound s \<longrightarrow> i_env s' = i_env s \<and> grown (i_defers s) (i_defers s') \<and> fit funcs_sound s')"

interpretation scopes: registry_steps scopes_kept "\<lambda>t. \<exists>c. sound_tree c t"
proof unfold_locales
  show "scopes_kept s (s\<lparr>i_rest := (i_rest s)\<lparr>r_funcs := r_funcs (i_rest s) @ [func_of alnum e t]\<rparr>\<rparr>)"
    if "\<exists>c. sound_tree c t" "t_kind t = FuncDecl" for s :: "('f, ('f, 'y) registry_scheme) interp" and t alnum e
    using func_of_sound [of _ t] that by (auto simp: scopes_kept_def fit_def funcs_sound_def)
  show "\<exists>c. sound_tree c x" if "\<exists>c. sound_tree c t" "x \<in> set (t_children t)" "plain_kind (t_kind t)" for t x
    using that sound_part by (auto simp: plain_kind_def)
  show "scopes_kept s s''" if "scopes_kept s s'" "scopes_kept s' s''" for s s' s'' :: "('f, ('f, 'y) registry_scheme) interp"
    using that grown_trans [of "i_defers s" "i_defers s'" "i_defers s''"] by (auto simp: scopes_kept_def)
qed (auto simp: scopes_kept_def fit_def funcs_sound_def)

lemma evaluates_scopes: "evaluates funcs_sound ev \<Longrightarrow> evaluates_along scopes_kept (\<lambda>t. \<exists>c. sound_tree c t) ev"
  unfolding evaluates_along_def scopes_kept_def evaluates_def by (blast dest: obeysD [unfolded ends_in_0])

lemma hoist_obeys:
  assumes "evaluates funcs_sound ev" "sound_tree c t" "t_kind t \<in> {SourceFile, Block}"
  shows "obeys funcs_sound no_jumps (hoist alnum ev t)"
proof (rule obeysI)
  fix s s' r assume s: "fit funcs_sound s" "hoist alnum ev t s = Ends s' r"
  have "follows scopes_kept (hoist alnum ev t)"
    by (rule scopes.f_hoist [OF evaluates_scopes [OF assms(1)]])
      (use assms(2,3) in \<open>auto simp: plain_kind_def jump_kinds_def\<close>)
  with s have "scopes_kept s s' \<and> \<not> isl r" by (auto simp: follows_def)
  with s(1) show "ends_in funcs_sound no_jumps (i_defers s) (i_env s) 0 0 s' r"
    by (cases r) (auto simp: ends_in_0 scopes_kept_def)
qed

text \<open>The law of the evaluator's parameter holds for the code's hoisting.\<close>

lemma hoisting_obeys: "ops_obey funcs_sound P \<Longrightarrow> ops_obey funcs_sound (P\<lparr>x_hoist := \<lambda>ev. hoist alnum ev\<rparr>)"
  unfolding ops_obey_def by (simp add: hoist_obeys)

text \<open>C16. Hoisting ends without a signal, whatever the evaluated raw values and static properties
  do, and a struct or class in the registry stays as it was declared but for methods and computed
  properties that extensions add; a protocol keeps what it inherits, a type what it conforms to.\<close>

theorem declarations_kept:
  assumes "\<And>t s s' r. ev t s = Ends s' r \<Longrightarrow> extends (r_types (i_rest s)) (r_types (i_rest s'))"
    and "t_kind t \<in> {SourceFile, Block}" "hoist alnum ev t s = Ends s' r"
  shows "r = Inr () \<and> extends (r_types (i_rest s)) (r_types (i_rest s'))"
proof -
  have "follows (\<lambda>s s'. extends (r_types (i_rest s)) (r_types (i_rest s'))) (hoist alnum ev t)"
    by (rule growing.f_hoist) (use assms(1,2) in \<open>auto simp: evaluates_along_def plain_kind_def jump_kinds_def\<close>)
  with assms(3) have "extends (r_types (i_rest s)) (r_types (i_rest s')) \<and> \<not> isl r" unfolding follows_def by blast
  then show ?thesis by (cases r) auto
qed

text \<open>C3. With the hoisting of the code in place of its parameter, the evaluation of a sound tree leaves the
  scopes and the frames of deferred blocks as it found them, and every function in the registry is one
  that lets no jump out. Sound trees (\<open>sound_tree\<close>: jumps inside what takes them, for-case patterns
  without expressions) and the law of the other parameters (\<open>ops_obey\<close>, about the registry of sound
  functions) are as for the evaluator alone.\<close>

theorem scopes_restored_with_hoisting:
  assumes "ops_obey funcs_sound P" "sound_tree c t" "fit funcs_sound s"
    "eval F (P\<lparr>x_hoist := \<lambda>ev. hoist alnum ev\<rparr>) n t s = Ends s' r"
  shows "i_env s' = i_env s \<and> grown (i_defers s) (i_defers s') \<and> funcs_sound (i_rest s')"
proof -
  have "obeys funcs_sound c (eval F (P\<lparr>x_hoist := \<lambda>ev. hoist alnum ev\<rparr>) n t)"
    using eval_obeys [OF hoisting_obeys [OF assms(1)]] assms(2) unfolding evaluates_def by blast
  from obeysD [OF this assms(3,4)] show ?thesis by (simp add: ends_in_0 fit_def)
qed

end
