(* ===== verification/Nominal_Props.thy ===== *)
theory Nominal_Props
  imports Nominal_Correct Control_Props
begin

text \<open>
  The registry of small programs: instances of the laws of hoisting, what becomes of overloads in
  extensions, of types with one simple name, of raw values, and casts to a protocol.
\<close>

section \<open>Instances\<close>

definition no_registry :: "'f registry" where
  "no_registry = \<lparr>r_types = no_types, r_statics = Map.empty, r_main = None, r_imports = {}, r_funcs = []\<rparr>"

definition fresh :: "('f, 'f registry) interp" where
  "fresh =
     \<lparr>i_store = \<lparr>scope_at = (\<lambda>_. []), cell_at = (\<lambda>_. \<lparr>b_value = VVoid, b_mutable = False, b_declared = None\<rparr>),
        next_scope = 1, next_cell = 0\<rparr>,
      i_env = [0], i_defers = [], i_heap = Map.empty, i_rest = no_registry\<rparr>"

definition struct_node :: "string \<Rightarrow> tree list \<Rightarrow> tree" where
  "struct_node name ms = Tree StructDecl (Some (scalars name)) 0 0 None [] None ms"

definition field_node :: "string \<Rightarrow> tree" where
  "field_node name = node LetDecl [leaf NamePattern name]"

lemmas registering = hoist_def hoist_decl_def register_type_def register_struct_def named_def unless_known_def
  record_conformances_def mark_main_def on_types_def on_registry_def static_inits_def type_kinds_def
  record_conformance_def insert_struct_def is_struct_def type_refs_def attributes_of_def

lemma node_parts [simp]:
  "t_kind (struct_node name ms) = StructDecl" "t_children (struct_node name ms) = ms"
  "t_text (struct_node name ms) = Some (scalars name)" "expand_directives (struct_node name ms) = concat (map push_active_branch ms)"
  "t_kind (field_node name) = LetDecl" "t_children (field_node name) = [leaf NamePattern name]"
  by (simp_all add: struct_node_def field_node_def node_def t_text_def expand_directives_def)

lemma hoist_struct_runs:
  "\<exists>s'. hoist alnum ev (node SourceFile [struct_node ''S'' []]) fresh = Ends s' (Inr ())"
  by (simp add: registering fresh_def no_registry_def no_types_def run_simps register_nested_types.simps struct_decl_def
      List.map_filter_def)

theorem declarations_kept_witness:
  "\<forall>alnum. \<exists>s'. hoist alnum (\<lambda>t. ret VVoid) (node SourceFile [struct_node ''S'' []]) (fresh :: ('f, 'f registry) interp) = Ends s' (Inr ()) \<and>
     extends (r_types (i_rest (fresh :: ('f, 'f registry) interp))) (r_types (i_rest s'))"
proof
  fix alnum
  obtain s' where s': "hoist alnum (\<lambda>t. ret VVoid) (node SourceFile [struct_node ''S'' []]) (fresh :: ('f, 'f registry) interp) = Ends s' (Inr ())"
    using hoist_struct_runs by blast
  have "extends (r_types (i_rest (fresh :: ('f, 'f registry) interp))) (r_types (i_rest s'))"
    using declarations_kept [OF _ _ s'] by (auto simp: ret_def extends_refl)
  with s' show "\<exists>s'. hoist alnum (\<lambda>t. ret VVoid) (node SourceFile [struct_node ''S'' []]) fresh = Ends s' (Inr ()) \<and>
     extends (r_types (i_rest (fresh :: ('f, 'f registry) interp))) (r_types (i_rest s'))" by blast
qed

section \<open>Overloads of an extension\<close>

text \<open>Two methods of one name in an extension of a struct: only the later is a method of the struct
  afterwards, and the overloads that calls choose from are those it had.\<close>

theorem extension_overloads_lost:
  assumes "t_text t = Some target" "expand_directives t = [f, g]" "t_kind f = FuncDecl" "t_kind g = FuncDecl"
    "t_text f = Some name" "t_text g = Some name"
    "tt_protocols (r_types (i_rest s)) target = None" "tt_structs (r_types (i_rest s)) target = Some d"
  shows "\<exists>s' d'. register_extension t s = Ends s' (Inr ()) \<and> tt_structs (r_types (i_rest s')) target = Some d' \<and>
     st_methods d' name = Some (func_method g) \<and> st_overloads d' = st_overloads d"
  using assms by (simp add: register_extension_def named_def record_conformances_def on_types_def on_registry_def run_simps
      members_in_def add_member_def extend_type_def record_conformance_def)

definition overload_node :: "string \<Rightarrow> tree" where
  "overload_node label = Tree FuncDecl (Some (scalars ''f'')) 0 0 None [] None [Tree Param (Some (scalars label)) 0 0 None [] None []]"

definition known_struct :: "('f, 'f registry) interp" where
  "known_struct = fresh\<lparr>i_rest := no_registry\<lparr>r_types := insert_struct (scalars ''S'') (empty_struct (struct_node ''S'' [])) no_types\<rparr>\<rparr>"

theorem extension_overloads_lost_witness:
  "\<exists>s' d'. register_extension (Tree ExtensionDecl (Some (scalars ''S'')) 0 0 None [] None [overload_node ''a'', overload_node ''b''])
       (known_struct :: ('f, 'f registry) interp) = Ends s' (Inr ()) \<and>
     tt_structs (r_types (i_rest s')) (scalars ''S'') = Some d' \<and>
     st_methods d' (scalars ''f'') = Some (func_method (overload_node ''b'')) \<and>
     st_overloads d' = st_overloads (empty_struct (struct_node ''S'' []))"
  by (rule extension_overloads_lost [where f = "overload_node ''a''"])
    (simp_all add: t_text_def overload_node_def expand_directives_def known_struct_def fresh_def no_registry_def insert_struct_def no_types_def)

section \<open>Types of one simple name\<close>

definition two_items :: tree where
  "two_items =
     node SourceFile
       [struct_node ''A'' [struct_node ''Item'' [field_node ''v'']], struct_node ''B'' [struct_node ''Item'' [field_node ''w'']]]"

lemma field_node_simps [simp]:
  "decl_name (field_node name) = Some (scalars name)"
  "struct_field acc f (field_node name) = ((fst acc)\<lparr>st_stored := st_stored (fst acc) @ [stored_of f (field_node name)]\<rparr>, snd acc)"
proof -
  show "decl_name (field_node name) = Some (scalars name)"
    by (simp add: decl_name_def t_text_def)
  have "\<not> is_static (field_node name)"
    by (simp add: is_static_def has_flag_def node_modifiers_def modifier_bits_def field_node_def node_def)
  then show "struct_field acc f (field_node name) = ((fst acc)\<lparr>st_stored := st_stored (fst acc) @ [stored_of f (field_node name)]\<rparr>, snd acc)"
    by (simp add: struct_field_def var_accessors_def accessor_def wrapper_of_def find_child_def split_beta)
qed

lemma stored_name [simp]: "sp_name (stored_of f m) = f"
  by (simp add: stored_of_def Let_def)

text \<open>The types nested in two types under one name are one type afterwards, the first: in a program with
  \<open>A.Item\<close> that has a field \<open>v\<close> and \<open>B.Item\<close> that has a field \<open>w\<close>, \<open>Item\<close> has the field \<open>v\<close> only.\<close>

theorem nested_types_share_names:
  "\<exists>s' d. hoist alnum ev two_items (fresh :: ('f, 'f registry) interp) = Ends s' (Inr ()) \<and>
     tt_structs (r_types (i_rest s')) (scalars ''Item'') = Some d \<and> map sp_name (st_stored d) = [scalars ''v'']"
  by (simp add: two_items_def registering fresh_def no_registry_def no_types_def run_simps register_nested_types.simps struct_decl_def
      List.map_filter_def struct_member_def empty_struct_def)

section \<open>Raw values\<close>

text \<open>The cases of an integer enum without written raw values have consecutive ones, from the first automatic
  value on, and none is evaluated.\<close>

theorem raw_values_count_up:
  assumes "\<And>m. m \<in> set ms \<Longrightarrow> t_kind m = EnumCaseDecl \<and> t_text m \<noteq> None \<and> find is_value_node (t_children m) = None"
    and "0 \<le> k" "k + int (length ms) < 2 ^ 127"
  shows "\<exists>cs. enum_cases ev (Some RawInt) ms k s = Ends s (Inr cs) \<and>
     map ec_raw cs = map (\<lambda>i. Some (value_int (k + int i))) [0..<length ms]"
  using assms
proof (induction ms arbitrary: k)
  case (Cons m ms)
  then obtain name where m: "t_kind m = EnumCaseDecl" "t_text m = Some name" "find is_value_node (t_children m) = None"
    by fastforce
  have "wrap_i128 (k + 1) = k + 1"
    using Cons.prems(2,3) by (simp add: wrap_i128_def)
  moreover obtain cs where "enum_cases ev (Some RawInt) ms (k + 1) s = Ends s (Inr cs)"
      "map ec_raw cs = map (\<lambda>i. Some (value_int (k + 1 + int i))) [0..<length ms]"
    using Cons.IH [of "k + 1"] Cons.prems by auto
  ultimately show ?case
    using m by (simp add: explicit_raw_def case_raw_def bind_def ret_def upt_conv_Cons map_Suc_upt [symmetric] comp_def add.assoc del: upt_Suc)
qed (simp add: ret_def)

theorem raw_values_count_up_witness:
  "\<forall>ev (s :: ('f, 'x) interp). \<exists>cs. enum_cases ev (Some RawInt) [leaf EnumCaseDecl ''a'', leaf EnumCaseDecl ''b''] 5 s = Ends s (Inr cs) \<and>
     map ec_raw cs = map (\<lambda>i. Some (value_int (5 + int i))) [0..<length [leaf EnumCaseDecl ''a'', leaf EnumCaseDecl ''b'']]"
  by (intro allI raw_values_count_up) (auto simp: t_text_def)

section \<open>Casts\<close>

definition cast_node :: "string \<Rightarrow> tree \<Rightarrow> ustr \<Rightarrow> tree" where
  "cast_node op e ty = Tree CastExpr (Some (scalars op)) 0 0 None [] None [e, Tree TypeRef (Some ty) 0 0 None [] None []]"

text \<open>A value of a struct is of the type of its name only: a cast with \<open>as\<close> or \<open>as!\<close> to a protocol traps, whether the
  struct conforms to it or not.\<close>

theorem protocol_cast_traps:
  assumes "tr_text (strip_optionals (parse p)) = p" "so_name obj \<noteq> p"
    and "ev e s = Ends s1 (Inr (VStruct obj))" "op \<in> {''as'', ''as!''}"
  shows "eval_cast ev (cast_node op e p) s = Ends s1 (Inl (Error (Trap (scalars ''could not cast value to '' @ p))))"
proof -
  have "\<not> is_optional_cast (cast_node op e p)"
    using assms(4) by (auto simp: is_optional_cast_def has_flag_def node_modifiers_def modifier_bits_def cast_node_def)
  moreover have "(case t_text (cast_node op e p) of Some x \<Rightarrow> x | None \<Rightarrow> []) \<noteq> scalars ''is''"
    using assms(4) by (auto simp: cast_node_def t_text_def)
  ultimately show ?thesis
    using assms(1-3) by (simp add: eval_cast_def cast_node_def bind_def require_def first_child_def ret_def reading_def asking_def
        cast_matches_def Let_def t_text_def trap_def raise_signal_def)
qed

lemma plain_parse: "tr_text (strip_optionals (parse (scalars ''P''))) = scalars ''P''"
  by (simp add: parse.simps arrow_pos_def top_level_indices_def sep_here_def split_at_def trim_def is_whitespace_def trim_end_def
      byte_def bracket_inner_def delimited_inner_def paren_inner_def named_parts_def strip_suffix_def Let_def optional_name_def)

theorem protocol_cast_traps_witness:
  "eval_cast (\<lambda>t. ret (VStruct (StructObj (scalars ''S'') []))) (cast_node ''as'' (leaf IdentExpr ''x'') (scalars ''P'')) (fresh :: ('f, 'f registry) interp) =
     Ends fresh (Inl (Error (Trap (scalars ''could not cast value to '' @ scalars ''P''))))"
  by (rule protocol_cast_traps) (simp_all add: ret_def plain_parse [simplified])

section \<open>A program with a declaration\<close>

text \<open>\<open>func f() { return }\<close>\<close>

definition func_program :: tree where
  "func_program = node SourceFile [Tree FuncDecl (Some (scalars ''f'')) 0 0 None [] None [node Block [node ReturnStmt []]]]"

definition quiet_ops :: "('f, 'f registry) ops" where
  "quiet_ops = sample_ops (\<lambda>name. ret VVoid)"

lemma quiet_ops_obey: "ops_obey funcs_sound (quiet_ops :: ('f, 'f registry) ops)"
  unfolding quiet_ops_def by (rule sample_ops_obey) (rule moves_ret)

lemma func_program_sound: "sound_tree no_jumps func_program"
proof -
  have "sound_tree no_jumps (Tree FuncDecl (Some (scalars ''f'')) 0 0 None [] None [node Block [node ReturnStmt []]])"
    by (simp add: sound_tree.simps [of _ "Tree _ _ _ _ _ _ _ _"] sound_tree.simps [of _ "node _ _"] child_jumps_def function_kinds_def)
  then show ?thesis
    by (simp add: func_program_def sound_tree.simps [of _ "node _ _"] child_jumps_def function_kinds_def)
qed

lemma fresh_fit: "fit funcs_sound fresh"
  by (simp add: fit_def fresh_def no_registry_def funcs_sound_def)

lemma func_program_runs:
  "\<exists>s'. eval F ((quiet_ops :: ('f, 'f registry) ops)\<lparr>x_hoist := \<lambda>ev. hoist alnum ev\<rparr>) 3 func_program fresh = Ends s' (Inr VVoid)"
  by (simp add: func_program_def numeral_eq_Suc eval.simps(2) eval_node_def eval_table_def hoisted_kinds_def other_kinds_def eval_block_def
      eval_seq_def hoist_def hoist_decl_def declare_func_def named_def t_text_def get_var_def fresh_def no_registry_def env_get_def
      lookup_cell_def run_simps on_registry_def declare_var_def env_declare_def alloc_cell_def Let_def split_beta)

theorem scopes_restored_with_hoisting_witness:
  "\<forall>(F :: 'f f64) alnum. \<exists>s'. eval F ((quiet_ops :: ('f, 'f registry) ops)\<lparr>x_hoist := \<lambda>ev. hoist alnum ev\<rparr>) 3 func_program fresh = Ends s' (Inr VVoid) \<and>
     i_env s' = i_env (fresh :: ('f, 'f registry) interp) \<and> grown (i_defers (fresh :: ('f, 'f registry) interp)) (i_defers s') \<and> funcs_sound (i_rest s')"
proof (intro allI)
  fix F :: "'f f64" and alnum
  obtain s' where s': "eval F ((quiet_ops :: ('f, 'f registry) ops)\<lparr>x_hoist := \<lambda>ev. hoist alnum ev\<rparr>) 3 func_program fresh = Ends s' (Inr VVoid)"
    using func_program_runs by blast
  with scopes_restored_with_hoisting [OF quiet_ops_obey func_program_sound fresh_fit s']
  show "\<exists>s'. eval F ((quiet_ops :: ('f, 'f registry) ops)\<lparr>x_hoist := \<lambda>ev. hoist alnum ev\<rparr>) 3 func_program fresh = Ends s' (Inr VVoid) \<and>
     i_env s' = i_env (fresh :: ('f, 'f registry) interp) \<and> grown (i_defers (fresh :: ('f, 'f registry) interp)) (i_defers s') \<and> funcs_sound (i_rest s')"
    by blast
qed

end
