(* ===== verification/Candidates.thy ===== *)
theory Candidates
  imports Value "HOL-Library.List_Lexorder" "HOL-Library.Multiset"
begin

text \<open>
  \<open>tswift-core/src/interp.rs\<close>: struct methods that frameworks install under a shared name, one candidate per
  module, and the choice among them for a receiver (\<open>resolve_struct_method_candidate\<close>), with
  the gate on imports. A module is its name; the order of names is that of their scalars.
\<close>

abbreviation "SWIFT \<equiv> scalars ''Swift''"
abbreviation "SWIFTUI \<equiv> scalars ''SwiftUI''"

record ('h, 'p) struct_method_entry =
  sm_fn :: 'h
  sm_params :: "'p list option"
  sm_module :: ustr

definition module_depends_on :: "ustr \<Rightarrow> ustr list" where
  "module_depends_on m = (if m = scalars ''Charts'' then [SWIFTUI, SWIFT] else [SWIFT])"

definition candidate_module_is_imported :: "ustr \<Rightarrow> ustr set \<Rightarrow> bool" where
  "candidate_module_is_imported m imported \<longleftrightarrow> m = SWIFT \<or> m \<in> imported"

section \<open>Installation\<close>

text \<open>A new candidate at the end; one of the same module in place.\<close>

fun put_entry :: "('h, 'p) struct_method_entry \<Rightarrow> ('h, 'p) struct_method_entry list \<Rightarrow> ('h, 'p) struct_method_entry list" where
  "put_entry e [] = [e]"
| "put_entry e (x # xs) = (if sm_module x = sm_module e then e # xs else x # put_entry e xs)"

definition struct_method_candidates ::
  "(ustr \<rightharpoonup> ('h, 'p) struct_method_entry list) \<Rightarrow> ustr \<Rightarrow> ('h, 'p) struct_method_entry list" where
  "struct_method_candidates table name = (case table name of Some es \<Rightarrow> es | None \<Rightarrow> [])"

definition add_struct_method ::
  "(ustr \<rightharpoonup> ('h, 'p) struct_method_entry list) \<Rightarrow> ustr \<Rightarrow> ('h, 'p) struct_method_entry \<Rightarrow>
   (ustr \<rightharpoonup> ('h, 'p) struct_method_entry list)" where
  "add_struct_method table name e = table(name \<mapsto> put_entry e (struct_method_candidates table name))"

section \<open>Choice\<close>

text \<open>\<open>Iterator::min_by_key\<close>: the first of the least.\<close>

fun min_by_key :: "('a \<Rightarrow> 'k::linorder) \<Rightarrow> 'a list \<Rightarrow> 'a option" where
  "min_by_key key [] = None"
| "min_by_key key (x # xs) = Some (foldl (\<lambda>best y. if key y < key best then y else best) x xs)"

definition from_module :: "('h, 'p) struct_method_entry list \<Rightarrow> ustr \<Rightarrow> ('h, 'p) struct_method_entry option" where
  "from_module es m = find (\<lambda>e. sm_module e = m) es"

text \<open>A key of a pair, compared lexicographically: unimported ones last, then by name.\<close>

definition tier_key :: "ustr set \<Rightarrow> ('h, 'p) struct_method_entry \<Rightarrow> nat list" where
  "tier_key imported e = (if candidate_module_is_imported (sm_module e) imported then 0 else 1) # sm_module e"

fun first_from :: "('h, 'p) struct_method_entry list \<Rightarrow> ustr list \<Rightarrow> ('h, 'p) struct_method_entry option" where
  "first_from es [] = None"
| "first_from es (m # ms) = (case from_module es m of Some e \<Rightarrow> Some e | None \<Rightarrow> first_from es ms)"

definition or_else :: "'a option \<Rightarrow> 'a option \<Rightarrow> 'a option" where
  "or_else x y = (case x of Some a \<Rightarrow> Some a | None \<Rightarrow> y)"

definition resolve_struct_method_candidate ::
  "('h, 'p) struct_method_entry list \<Rightarrow> ustr option \<Rightarrow> ustr set \<Rightarrow> bool \<Rightarrow> ('h, 'p) struct_method_entry option" where
  "resolve_struct_method_candidate candidates receiver imported strict =
     (let own = Option.bind receiver (from_module candidates) in
      if strict \<and> own \<noteq> None then
        (if candidate_module_is_imported (the receiver) imported then own else None)
      else
        let eligible = (if strict then filter (\<lambda>e. candidate_module_is_imported (sm_module e) imported) candidates
                        else candidates)
        in or_else (case receiver of
             Some m \<Rightarrow> or_else (if strict then None else from_module eligible m) (first_from eligible (module_depends_on m))
           | None \<Rightarrow> None)
          (or_else (from_module eligible SWIFT) (min_by_key (tier_key imported) eligible)))"

section \<open>The gate\<close>

definition module_symbol_visible :: "bool \<Rightarrow> ustr set \<Rightarrow> ustr \<Rightarrow> bool" where
  "module_symbol_visible strict imported m \<longleftrightarrow> \<not> strict \<or> candidate_module_is_imported m imported"

definition not_in_scope_error :: "ustr \<Rightarrow> ustr \<Rightarrow> ustr" where
  "not_in_scope_error name m =
     scalars ''cannot find '' @ [39] @ name @ [39] @ scalars '' in scope (did you forget to import '' @ m @ scalars ''?)''"

text \<open>The error of a symbol of a module, of a name that a module may own, and of a method left out.\<close>

definition gate_module_symbol :: "bool \<Rightarrow> ustr set \<Rightarrow> ustr \<Rightarrow> ustr \<Rightarrow> ustr option" where
  "gate_module_symbol strict imported name m =
     (if module_symbol_visible strict imported m then None else Some (not_in_scope_error name m))"

definition gate_name :: "bool \<Rightarrow> ustr set \<Rightarrow> (ustr \<rightharpoonup> ustr) \<Rightarrow> ustr \<Rightarrow> ustr \<Rightarrow> ustr option" where
  "gate_name strict imported owners key shown =
     (case owners key of Some m \<Rightarrow> gate_module_symbol strict imported shown m | None \<Rightarrow> None)"

definition name_visible :: "bool \<Rightarrow> ustr set \<Rightarrow> (ustr \<rightharpoonup> ustr) \<Rightarrow> ustr \<Rightarrow> bool" where
  "name_visible strict imported owners key =
     (case owners key of Some m \<Rightarrow> module_symbol_visible strict imported m | None \<Rightarrow> True)"

definition gated_struct_method_error ::
  "('h, 'p) struct_method_entry list \<Rightarrow> ustr \<Rightarrow> ustr option \<Rightarrow> ustr set \<Rightarrow> bool \<Rightarrow> ustr option" where
  "gated_struct_method_error candidates name receiver imported strict =
     (case receiver of
        Some m \<Rightarrow>
          if strict \<and> list_ex (\<lambda>e. sm_module e = m) candidates \<and> \<not> module_symbol_visible strict imported m
          then Some (not_in_scope_error name m) else None
      | None \<Rightarrow> None)"

section \<open>One candidate per module\<close>

definition one_per_module :: "('h, 'p) struct_method_entry list \<Rightarrow> bool" where
  "one_per_module es \<longleftrightarrow> distinct (map sm_module es)"

lemma put_entry_modules: "set (map sm_module (put_entry e es)) = insert (sm_module e) (set (map sm_module es))"
  by (induction es) auto

lemma put_entry_one: "one_per_module es \<Longrightarrow> one_per_module (put_entry e es)"
proof (induction es)
  case (Cons x es)
  then show ?case
    using put_entry_modules [of e es] by (auto simp: one_per_module_def)
qed (simp add: one_per_module_def)

lemma from_module_put: "from_module (put_entry e es) m = (if m = sm_module e then Some e else from_module es m)"
  by (induction es) (auto simp: from_module_def)

text \<open>C40. After any installations a name has one candidate per module, and the candidate of a module is the one it
  installed last.\<close>

theorem candidates_of_installs:
  "one_per_module (struct_method_candidates (foldl (\<lambda>t (name, e). add_struct_method t name e) Map.empty installs) name) \<and>
   from_module (struct_method_candidates (foldl (\<lambda>t (name, e). add_struct_method t name e) Map.empty installs) name) m =
     map_option snd (find (\<lambda>(n, e). n = name \<and> sm_module e = m) (rev installs))"
proof (induction installs rule: rev_induct)
  case Nil
  then show ?case by (simp add: struct_method_candidates_def one_per_module_def from_module_def)
next
  case (snoc i installs)
  obtain n e where i: "i = (n, e)" by fastforce
  show ?case
    using snoc put_entry_one by (auto simp: i add_struct_method_def struct_method_candidates_def from_module_put)
qed

section \<open>The order of installation\<close>

lemma from_module_Some:
  "one_per_module es \<Longrightarrow> from_module es m = Some e \<longleftrightarrow> e \<in> set es \<and> sm_module e = m"
  by (induction es) (auto simp: from_module_def one_per_module_def)

lemma from_module_set:
  assumes "one_per_module es" "one_per_module es'" "set es = set es'" shows "from_module es m = from_module es' m"
proof (rule option.expand)
  show "(from_module es m = None) = (from_module es' m = None)"
    using assms(3) by (auto simp: from_module_def find_None_iff)
  show "from_module es m \<noteq> None \<Longrightarrow> from_module es' m \<noteq> None \<Longrightarrow> the (from_module es m) = the (from_module es' m)"
    using from_module_Some [OF assms(1), of m] from_module_Some [OF assms(2), of m] assms(3) by (metis option.collapse)
qed

lemma min_by_key_least:
  "min_by_key key xs = Some x \<Longrightarrow> x \<in> set xs \<and> (\<forall>y \<in> set xs. key x \<le> key y)"
proof -
  have "foldl (\<lambda>best y. if key y < key best then y else best) x xs \<in> insert x (set xs) \<and>
      (\<forall>y \<in> insert x (set xs). key (foldl (\<lambda>best y. if key y < key best then y else best) x xs) \<le> key y)" for x xs
    by (induction xs arbitrary: x) (force split: if_splits)+
  then show "min_by_key key xs = Some x \<Longrightarrow> x \<in> set xs \<and> (\<forall>y \<in> set xs. key x \<le> key y)"
    by (cases xs) auto
qed

lemma min_by_key_set:
  assumes "inj_on key (set xs)" "set xs = set ys" shows "min_by_key key xs = min_by_key key ys"
proof (cases "min_by_key key xs")
  case None
  then have "xs = []" by (cases xs) auto
  with assms show ?thesis by simp
next
  case (Some x)
  then have "ys \<noteq> []" using assms(2) by (cases xs) auto
  then obtain y where "min_by_key key ys = Some y" by (cases ys) auto
  with Some min_by_key_least [OF Some] min_by_key_least [of key ys y] assms show ?thesis
    by (metis inj_onD order_antisym)
qed

lemma tier_key_inj: "one_per_module es \<Longrightarrow> inj_on (tier_key imported) (set es)"
  by (auto simp: one_per_module_def tier_key_def inj_on_def distinct_map)

text \<open>C17. Which candidate a call gets does not depend on the order in which the modules were installed.\<close>

theorem install_order_irrelevant:
  assumes "one_per_module es" "mset es = mset es'"
  shows "resolve_struct_method_candidate es receiver imported strict =
     resolve_struct_method_candidate es' receiver imported strict"
proof -
  have "mset (map sm_module es) = mset (map sm_module es')" using assms(2) by (metis mset_map)
  with assms(1) have one: "one_per_module es'"
    unfolding one_per_module_def by (metis mset_eq_imp_distinct_iff)
  have filter: "one_per_module (filter P xs)" if "one_per_module xs" for P and xs :: "('a, 'b) struct_method_entry list"
    using that by (simp add: one_per_module_def distinct_map_filter)
  have set: "set es = set es'" using assms(2) by (metis set_mset_mset)
  define el where "el xs = (if strict then filter (\<lambda>e. candidate_module_is_imported (sm_module e) imported) xs else xs)"
    for xs :: "('a, 'b) struct_method_entry list"
  have el: "one_per_module (el es)" "one_per_module (el es')" "set (el es) = set (el es')"
    using assms(1) one filter set by (auto simp: el_def)
  have own: "from_module es m = from_module es' m" "from_module (el es) m = from_module (el es') m" for m
    by (rule from_module_set [OF assms(1) one set], rule from_module_set [OF el])
  have "first_from (el es) ms = first_from (el es') ms" for ms
    by (induction ms) (simp_all add: own cong: option.case_cong)
  then have "first_from (el es) = first_from (el es')" by (rule ext)
  moreover have "min_by_key (tier_key imported) (el es) = min_by_key (tier_key imported) (el es')"
    by (rule min_by_key_set [OF tier_key_inj [OF el(1)] el(3)])
  moreover have "from_module es = from_module es'" "from_module (el es) = from_module (el es')"
    using own by (simp_all add: fun_eq_iff)
  ultimately show ?thesis
    unfolding resolve_struct_method_candidate_def Let_def el_def [symmetric] by (cases receiver) auto
qed

theorem install_order_irrelevant_witness:
  "\<forall>(f :: 'h) g imported. resolve_struct_method_candidate
       [\<lparr>sm_fn = f, sm_params = (None :: 'p list option), sm_module = SWIFTUI\<rparr>, \<lparr>sm_fn = g, sm_params = None, sm_module = scalars ''Charts''\<rparr>] None imported False =
     resolve_struct_method_candidate
       [\<lparr>sm_fn = g, sm_params = None, sm_module = scalars ''Charts''\<rparr>, \<lparr>sm_fn = f, sm_params = None, sm_module = SWIFTUI\<rparr>] None imported False"
  by (intro allI install_order_irrelevant) (simp_all add: one_per_module_def)

section \<open>Strict imports\<close>

text \<open>C29. Under strict imports a receiver whose module has a candidate of its own gets that one when the module is
  imported; else it gets none, not that of another module, and the error names the missing import.\<close>

theorem own_candidate_or_error:
  assumes "from_module es m = Some e"
  shows "(resolve_struct_method_candidate es (Some m) imported True, gated_struct_method_error es name (Some m) imported True) =
     (if candidate_module_is_imported m imported then (Some e, None) else (None, Some (not_in_scope_error name m)))"
proof -
  have "list_ex (\<lambda>e. sm_module e = m) es"
    using assms by (auto simp: from_module_def find_Some_iff list_ex_iff)
  then show ?thesis
    using assms by (simp add: resolve_struct_method_candidate_def gated_struct_method_error_def module_symbol_visible_def)
qed

theorem own_candidate_or_error_witness:
  "\<forall>(f :: 'h) g name. (resolve_struct_method_candidate
       [\<lparr>sm_fn = f, sm_params = (None :: 'p list option), sm_module = SWIFTUI\<rparr>, \<lparr>sm_fn = g, sm_params = None, sm_module = scalars ''Charts''\<rparr>]
       (Some (scalars ''Charts'')) {SWIFTUI} True,
     gated_struct_method_error
       [\<lparr>sm_fn = f, sm_params = (None :: 'p list option), sm_module = SWIFTUI\<rparr>, \<lparr>sm_fn = g, sm_params = None, sm_module = scalars ''Charts''\<rparr>]
       name (Some (scalars ''Charts'')) {SWIFTUI} True) =
     (None, Some (not_in_scope_error name (scalars ''Charts'')))"
proof (intro allI)
  fix f g :: 'h and name
  show "(resolve_struct_method_candidate
       [\<lparr>sm_fn = f, sm_params = (None :: 'p list option), sm_module = SWIFTUI\<rparr>, \<lparr>sm_fn = g, sm_params = None, sm_module = scalars ''Charts''\<rparr>]
       (Some (scalars ''Charts'')) {SWIFTUI} True,
     gated_struct_method_error
       [\<lparr>sm_fn = f, sm_params = (None :: 'p list option), sm_module = SWIFTUI\<rparr>, \<lparr>sm_fn = g, sm_params = None, sm_module = scalars ''Charts''\<rparr>]
       name (Some (scalars ''Charts'')) {SWIFTUI} True) =
     (None, Some (not_in_scope_error name (scalars ''Charts'')))"
    by (subst own_candidate_or_error) (simp_all add: from_module_def candidate_module_is_imported_def)
qed

end
