(* ===== verification/Spec2Isabelle.thy ===== *)
theory Spec2Isabelle
  imports Base64 Lexer_Props Type_Repr_Correct Json_Correct Decimal_Correct Regex_Correct
    Value_Correct Ops_Correct Env_Correct Ui_Correct
    Ast_Correct Literals Control_Props Nominal_Props Candidates
begin

text \<open>
  A verification library for the TSwift interpreter: Swift source is lexed
  (\<open>tswift-lexer\<close>), parsed and analysed into a syntax tree in an arena (\<open>tswift-parser\<close>,
  \<open>tswift-sema\<close>, \<open>tswift-ast\<close>), read through a cursor (\<open>tswift-frontend\<close>) and evaluated by a
  tree walker (\<open>tswift-core\<close>), which dispatches to builtins (\<open>tswift-std\<close>, \<open>tswift-foundation\<close>,
  \<open>tswift-swiftui\<close> and others). A SwiftUI host renders a view tree and sends patches to a client.
  Paths below are under \<open>src/crates\<close>.


  \<^bold>\<open>What models what.\<close>

  \<^item> \<open>Prelude\<close>, \<open>Utf8\<close>: the Rust library as the code uses it: slices, integers and where they wrap,
    white space, decimal text, UTF-8 boundaries.
  \<^item> \<open>Lexer\<close>, \<open>Lexer_Correct\<close>, \<open>Lexer_Props\<close>: \<open>tswift-lexer/src/lib.rs\<close>. The record \<open>lexer\<close> is the cursor
    over bytes; an index or slice that would panic sets a flag, and the theorems show that it stays
    unset on valid UTF-8, that tokens and trivia tile the source with their positions, and that operators are the longest.
  \<^item> \<open>Type_Repr\<close>: \<open>tswift-ast/src/type_repr.rs\<close>, the parser of type spellings, against the grammar of
    types, in both directions.
  \<^item> \<open>Ast\<close>, \<open>Literals\<close>, \<open>Decl\<close>: \<open>tswift-ast/src/lib.rs\<close> and \<open>tswift-frontend/src/lib.rs\<close>, \<open>decode.rs\<close>. The
    arena is the record \<open>ast\<close>; a node of the cursor is the \<open>tree\<close> below it. \<open>Decl\<close> has what is read off a
    declaration and the choice of an overload.
  \<^item> \<open>Int_Value\<close>, \<open>Grapheme\<close>, \<open>Value\<close>, \<open>Ops\<close>, \<open>Decimal\<close>, \<open>Json\<close>, \<open>Base64\<close>: the files of these names in
    \<open>tswift-core/src\<close>: values with their text and equality, operators with every error, exact decimals,
    the JSON layer, the codec of data.
  \<^item> \<open>Regex\<close> and the theories \<open>Regex_*\<close>: \<open>tswift-core/src/regex.rs\<close>: parser, compiler to a program of
    instructions, backtracking executor, against a relational semantics of patterns.
  \<^item> \<open>Env\<close>: \<open>tswift-core/src/env.rs\<close>. Scopes and cells are addresses in a store, because closures share them.
  \<^item> \<open>Control\<close> and the theories \<open>Control_*\<close>: the walk over the tree in \<open>tswift-core/src/interp.rs\<close>,
    \<open>interp/pattern.rs\<close>, \<open>interp/sequence.rs\<close>: blocks, \<open>defer\<close>, declarations, conditions, loops, patterns,
    errors and jumps. The state \<open>interp\<close> holds the store and chain of scopes of \<open>Env\<close>, the frames of
    deferred blocks, the heap of \<open>Value\<close> and the rest of the interpreter. \<open>Control_Rules\<close> has the trees
    and parameters the theorems on scopes and jumps are about: those whose jumps the evaluator takes,
    which is less than Swift allows. \<open>Control_Defer\<close> shows that the frame of deferred blocks which the
    code keeps per block does what nested clean-up does.
  \<^item> \<open>Types\<close>, \<open>Nominal\<close>, \<open>Candidates\<close> with \<open>Types_Correct\<close>, \<open>Nominal_Correct\<close>, \<open>Nominal_Props\<close>: the registry of
    declared types in \<open>interp.rs\<close>, its queries (\<open>interp/storage.rs\<close>, \<open>interp/dispatch.rs\<close>), hoisting
    (\<open>interp/nominal.rs\<close>), and the struct methods that frameworks install under shared names.
  \<^item> \<open>Ui_Diff\<close>, \<open>Ui_Correct\<close>: \<open>tswift-swiftui/src/diff.rs\<close>, \<open>tree.rs\<close>, \<open>values.rs\<close>, row keys of \<open>views.rs\<close>: node
    ids, walks, keys, patches, and the host that applies them.


  \<^bold>\<open>How the parts meet.\<close> \<open>Control\<close> runs on \<open>Env\<close> and \<open>Value\<close>. The methods that its dispatch calls and that
  are not control flow are a record of operations \<open>P\<close>, each of which is given the evaluator too, and
  \<open>ops_obey\<close> states what they must keep. \<open>Nominal\<close> is one of them: \<open>hoisting_obeys\<close> discharges the law for
  the model of the code, so that scopes are shown to be restored by the evaluator that hoists.
  \<open>Ops\<close> computes on \<open>Value\<close> with \<open>Decimal\<close> inside. \<open>Name_Store\<close> is the interface of containers of named
  slots; fields of values and maps of scopes interpret it. \<open>Regex_Logic\<close> and \<open>Regex_Halts\<close> state the
  interfaces between the compiler's code shapes and a judgement on them, \<open>Nominal_Correct\<close> the one
  between the walk over declarations and a relation that every step keeps.


  \<^bold>\<open>What the lemmas show.\<close> The theorems with a claim number are the properties; the rest serve them.
  They are of these kinds: results are in range and errors are values (\<open>Lexer_Props\<close>, \<open>Ops_Correct\<close>,
  \<open>Literals\<close>); printing and parsing are inverse (\<open>Base64\<close>, \<open>Json_Correct\<close>, \<open>Type_Repr_Correct\<close>,
  \<open>Decimal_Correct\<close>); the implementation refines a specification (\<open>Regex_Correct\<close> on match relations,
  \<open>Env_Correct\<close> on stacks of maps, \<open>Ui_Correct\<close> on host trees); states keep invariants (\<open>Env_Correct\<close>,
  \<open>Control_Props\<close>, \<open>Nominal_Correct\<close>); loops end (\<open>Regex_Correct\<close>, \<open>Json_Correct\<close>, \<open>Types_Correct\<close>).


  \<^bold>\<open>Fuel and bounds.\<close> The regex parser and the JSON parser have fuel that the models choose from the
  length of the input, and theorems show it is enough. The regex executor need not end: its theorems
  give a sufficient fuel for the patterns where it does, and a pattern where no fuel is enough. The
  evaluator's fuel bounds the depth of the walk and the turns of each loop; \<open>fuel_changes_nothing\<close>, a
  lemma about the model only, shows that a result does not depend on it. Loops over superclasses and protocols are partial functions,
  with theorems that say exactly when they return. The integers of the code are \<open>int\<close> with the wrap-around
  written out, \<open>u8\<close> and masks are words; sizes of containers (\<open>usize\<close>) do not wrap. The
  lexer counts lines and columns in \<open>u32\<close>, so its theorems are about sources shorter than \<open>2 ^ 32 - 1\<close>
  bytes. Bounds of ranges are \<open>i128\<close>, as is the step past the last element of a closed one.


  \<^bold>\<open>Parameters.\<close> Arithmetic and text of \<open>f64\<close>, the Unicode classes of \<open>char\<close> beyond white space, and
  in \<open>Control\<close> the operations \<open>P\<close>. Hypotheses on them are named in the theorems, each with a witness.


  \<^bold>\<open>Not modelled.\<close> The grammar of the parser and semantic analysis; concurrency, which runs on native
  stacks of a third-party package; argument passing, initializers and property access beyond member
  lookup; key-value coding; the builtins of the standard library and of the frameworks, which are tables
  of short wrappers; hosts (command line, C, browser) and everything that a host service does. Paths that
  only format a message of a developer-facing tool are left out of modelled files too.
\<close>

end
